(* ===== verification/Prelude.thy ===== *)
theory Prelude
  imports Main "HOL-Library.Word" "HOL-Library.List_Lexorder" "HOL-Library.AList"
begin

text \<open>
  Shared vocabulary of the development: the machine types of the Rust sources, results with
  errors and panics, byte slices, the slice searches of the Rust standard library, and hash maps
  as association lists. Every component theory imports this one.

  A Rust value of type \<open>Result<T, E>\<close> computed by code that may also panic is a value of
  \<open>'e fault + 'a\<close>: \<open>Inr\<close> is \<open>Ok\<close>, \<open>Inl (Fail e)\<close> is \<open>Err(e)\<close> and \<open>Inl (Panic m)\<close> is a
  panic. The panics are those of a debug build: index and slice bounds, \<open>unwrap\<close> of an absent
  value, \<open>assert!\<close>, \<open>debug_assert!\<close>, \<open>unreachable!\<close> and arithmetic overflow.
  The type \<open>usize\<close> is modelled by \<open>nat\<close>; the 64-bit and 128-bit integers that are stored on
  disk or sent over the wire keep their width.
\<close>

section \<open>Types\<close>

type_synonym u8 = "8 word"
type_synonym u64 = "64 word"
type_synonym u128 = "128 word"
type_synonym bytes = "u8 list"

datatype 'e fault = Fail 'e | Panic string

named_theorems slice_simps \<open>reading and writing ranges of a byte list\<close>
named_theorems result_simps \<open>inversion of sequenced results\<close>

section \<open>Results\<close>

text \<open>The \<open>?\<close> operator: continue with the value, return the error otherwise.\<close>

definition and_then :: "'e + 'a \<Rightarrow> ('a \<Rightarrow> 'e + 'b) \<Rightarrow> 'e + 'b" where
  "and_then r k = (case r of Inl e \<Rightarrow> Inl e | Inr a \<Rightarrow> k a)"

text \<open>An iterator chain that maps a fallible closure and stops at the first failure.\<close>

fun map_r :: "('a \<Rightarrow> 'e + 'b) \<Rightarrow> 'a list \<Rightarrow> 'e + 'b list" where
  "map_r f [] = Inr []"
| "map_r f (x # xs) = and_then (f x) (\<lambda>y. and_then (map_r f xs) (\<lambda>ys. Inr (y # ys)))"

text \<open>The computation returns \<open>Ok\<close> of a value with the property.\<close>

definition ok_and :: "('a \<Rightarrow> bool) \<Rightarrow> 'e + 'a \<Rightarrow> bool" where
  "ok_and P r = (case r of Inl _ \<Rightarrow> False | Inr a \<Rightarrow> P a)"

lemma ok_and_iff: "ok_and P r \<longleftrightarrow> (\<exists>a. r = Inr a \<and> P a)"
  by (cases r) (auto simp: ok_and_def)

lemma and_then_Inr [simp]: "and_then (Inr a) k = k a"
  by (simp add: and_then_def)

lemma and_then_Inl [simp]: "and_then (Inl e) k = Inl e"
  by (simp add: and_then_def)

lemma and_then_eq_Inr [result_simps]: "and_then r k = Inr b \<longleftrightarrow> (\<exists>a. r = Inr a \<and> k a = Inr b)"
  by (cases r) auto

lemma and_then_eq_Inl [result_simps]:
  "and_then r k = Inl e \<longleftrightarrow> r = Inl e \<or> (\<exists>a. r = Inr a \<and> k a = Inl e)"
  by (cases r) auto

lemma and_then_assoc: "and_then (and_then r k) l = and_then r (\<lambda>a. and_then (k a) l)"
  by (cases r) auto

lemma map_r_total: "(\<And>x. x \<in> set xs \<Longrightarrow> f x = Inr (g x)) \<Longrightarrow> map_r f xs = Inr (map g xs)"
  by (induction xs) auto

lemma map_r_Inr_length: "map_r f xs = Inr ys \<Longrightarrow> length ys = length xs"
  by (induction xs arbitrary: ys) (auto simp: result_simps)

section \<open>Words\<close>

lemma word_less_succ:
  fixes x :: "'a::len word"
  assumes "x \<noteq> - 1"
  shows "x < x + 1"
proof -
  have "1 + x \<noteq> 0"
    using assms by (metis add.commute add_eq_0_iff2)
  then have "unat (1 + x) = Suc (unat x)"
    by (rule unatSuc)
  then show ?thesis
    by (simp add: word_less_nat_alt add.commute)
qed

section \<open>Ranges of a list\<close>

text \<open>
  \<open>range_of off n xs\<close> is the Rust slice \<open>&xs[off .. off + n]\<close> where that is in bounds;
  \<open>blit off d xs\<close> is \<open>xs\<close> after \<open>xs[off .. off + d.len()].copy_from_slice(d)\<close>.
  The checked variants panic where the Rust code does.
\<close>

definition range_of :: "nat \<Rightarrow> nat \<Rightarrow> 'a list \<Rightarrow> 'a list" where
  "range_of off n xs = take n (drop off xs)"

definition blit :: "nat \<Rightarrow> 'a list \<Rightarrow> 'a list \<Rightarrow> 'a list" where
  "blit off d xs = take off xs @ d @ drop (off + length d) xs"

definition index_range :: "'a list \<Rightarrow> nat \<Rightarrow> nat \<Rightarrow> 'e fault + 'a list" where
  "index_range xs off n =
     (if off + n \<le> length xs then Inr (range_of off n xs)
      else Inl (Panic ''range end index out of range for slice''))"

definition index_at :: "'a list \<Rightarrow> nat \<Rightarrow> 'e fault + 'a" where
  "index_at xs i = (if i < length xs then Inr (xs ! i) else Inl (Panic ''index out of bounds''))"

lemma length_range_of [simp]: "off + n \<le> length xs \<Longrightarrow> length (range_of off n xs) = n"
  by (simp add: range_of_def)

lemma range_of_all [simp]: "range_of 0 (length xs) xs = xs"
  by (simp add: range_of_def)

lemma range_of_full [simp]: "length xs = n \<Longrightarrow> range_of 0 n xs = xs"
  by (simp add: range_of_def)

lemma range_of_zero [simp]: "range_of off 0 xs = []"
  by (simp add: range_of_def)

lemma range_of_range_of [slice_simps]:
  "o2 + n2 \<le> n1 \<Longrightarrow> range_of o2 n2 (range_of o1 n1 xs) = range_of (o1 + o2) n2 xs"
  by (simp add: range_of_def drop_take add.commute min_def)

lemma range_of_append [slice_simps]:
  "range_of off (n + m) xs = range_of off n xs @ range_of (off + n) m xs"
  by (simp add: range_of_def take_add add.commute [of n off])

lemma length_blit [simp]: "off + length d \<le> length xs \<Longrightarrow> length (blit off d xs) = length xs"
  by (simp add: blit_def)

lemma blit_Nil [simp]: "off \<le> length xs \<Longrightarrow> blit off [] xs = xs"
  by (simp add: blit_def)

lemma range_of_blit_inside [slice_simps]:
  assumes "off + length d \<le> length xs" "off \<le> p" "p + n \<le> off + length d"
  shows "range_of p n (blit off d xs) = range_of (p - off) n d"
  using assms by (simp add: range_of_def blit_def min_def)

lemma range_of_blit_same [slice_simps]:
  "off + length d \<le> length xs \<Longrightarrow> n = length d \<Longrightarrow> range_of off n (blit off d xs) = d"
  by (simp add: range_of_blit_inside)

lemma range_of_blit_before [slice_simps]:
  assumes "off + length d \<le> length xs" "p + n \<le> off"
  shows "range_of p n (blit off d xs) = range_of p n xs"
proof (rule nth_equalityI)
  show "length (range_of p n (blit off d xs)) = length (range_of p n xs)"
    using assms by simp
  show "range_of p n (blit off d xs) ! i = range_of p n xs ! i"
    if "i < length (range_of p n (blit off d xs))" for i
    using assms that by (simp add: range_of_def blit_def nth_append)
qed

lemma range_of_blit_after [slice_simps]:
  assumes "off + length d \<le> length xs" "off + length d \<le> p"
  shows "range_of p n (blit off d xs) = range_of p n xs"
  using assms by (simp add: range_of_def blit_def min_def)

lemma index_range_Inr [result_simps]:
  "index_range xs off n = Inr r \<longleftrightarrow> off + n \<le> length xs \<and> r = range_of off n xs"
  by (auto simp: index_range_def)

lemma index_at_Inr [result_simps]: "index_at xs i = Inr r \<longleftrightarrow> i < length xs \<and> r = xs ! i"
  by (auto simp: index_at_def)

section \<open>Slice comparison and search\<close>

text \<open>
  \<open>Ord::cmp\<close> on \<open>[u8]\<close> is lexicographic, a proper prefix being smaller; that is the order of
  \<open>List_Lexorder\<close> on lists of words. \<open>binary_search_by\<close> and \<open>partition_point\<close> are those of
  \<open>core::slice\<close>; the comparison closure may panic.
\<close>

datatype ordering = Less | Equal | Greater

definition slice_cmp :: "'a::linorder \<Rightarrow> 'a \<Rightarrow> ordering" where
  "slice_cmp a b = (if a < b then Less else if a = b then Equal else Greater)"

datatype search = Found nat | NotFound nat

function bs_loop :: "('a \<Rightarrow> 'e + ordering) \<Rightarrow> 'a list \<Rightarrow> nat \<Rightarrow> nat \<Rightarrow> 'e + nat" where
  "bs_loop f xs base len =
     (if 1 < len then
        (let half = len div 2; mid = base + half
         in case f (xs ! mid) of
              Inl e \<Rightarrow> Inl e
            | Inr c \<Rightarrow> bs_loop f xs (if c = Greater then base else mid) (len - half))
      else Inr base)"
  by pat_completeness auto
termination
  by (relation "measure (\<lambda>(f, xs, base, len). len)") auto

declare bs_loop.simps [simp del]

definition binary_search_by :: "('a \<Rightarrow> 'e + ordering) \<Rightarrow> 'a list \<Rightarrow> 'e + search" where
  "binary_search_by f xs =
     (if xs = [] then Inr (NotFound 0)
      else and_then (bs_loop f xs 0 (length xs)) (\<lambda>base.
           and_then (f (xs ! base)) (\<lambda>c.
           Inr (if c = Equal then Found base
                else NotFound (base + (if c = Less then 1 else 0))))))"

definition partition_point :: "('a \<Rightarrow> 'e + bool) \<Rightarrow> 'a list \<Rightarrow> 'e + nat" where
  "partition_point p xs =
     and_then (binary_search_by (\<lambda>x. and_then (p x) (\<lambda>b. Inr (if b then Less else Greater))) xs)
       (\<lambda>r. Inr (case r of Found i \<Rightarrow> i | NotFound i \<Rightarrow> i))"

text \<open>
  The searched slice is ordered by the outcomes \<open>c\<close> of the closure: once an element is \<open>Greater\<close>
  all later ones are, and everything before an element that is not \<open>Less\<close>-bounded is \<open>Less\<close>.
  The loop keeps that \<open>base\<close> is not \<open>Greater\<close> and that everything from \<open>base + len\<close> on is.
\<close>

definition cmp_ordered :: "('a \<Rightarrow> ordering) \<Rightarrow> 'a list \<Rightarrow> bool" where
  "cmp_ordered c xs \<longleftrightarrow>
     (\<forall>i j. i < j \<longrightarrow> j < length xs \<longrightarrow>
        (c (xs ! i) = Greater \<longrightarrow> c (xs ! j) = Greater) \<and> (c (xs ! j) = Less \<longrightarrow> c (xs ! i) = Less))"

lemma cmp_ordered_Greater:
  "cmp_ordered c xs \<Longrightarrow> c (xs ! i) = Greater \<Longrightarrow> i \<le> j \<Longrightarrow> j < length xs \<Longrightarrow> c (xs ! j) = Greater"
  by (auto simp: cmp_ordered_def le_less)

lemma cmp_ordered_Less:
  "cmp_ordered c xs \<Longrightarrow> c (xs ! j) = Less \<Longrightarrow> i \<le> j \<Longrightarrow> j < length xs \<Longrightarrow> c (xs ! i) = Less"
  by (auto simp: cmp_ordered_def le_less)

lemma bs_loop_inv:
  assumes "\<And>x. x \<in> set xs \<Longrightarrow> f x = Inr (c x)" "cmp_ordered c xs"
    and "0 < len" "base + len \<le> length xs"
    and "base = 0 \<or> c (xs ! base) \<noteq> Greater"
    and "base + len = length xs \<or> c (xs ! (base + len)) = Greater"
  shows "\<exists>b. bs_loop f xs base len = Inr b \<and> b < length xs
    \<and> (b = 0 \<or> c (xs ! b) \<noteq> Greater) \<and> (Suc b = length xs \<or> c (xs ! Suc b) = Greater)"
  using assms
proof (induction f xs base len rule: bs_loop.induct)
  case (1 f xs base len)
  show ?case
  proof (cases "1 < len")
    case True
    define mid b sz where "mid = base + len div 2"
      and "b = (if c (xs ! mid) = Greater then base else mid)" and "sz = len - len div 2"
    have mid: "mid < length xs" "0 < sz" "mid \<le> base + sz" "mid + sz = base + len"
      using True "1.prems"(4) unfolding mid_def sz_def by linarith+
    have fm: "f (xs ! mid) = Inr (c (xs ! mid))"
      using "1.prems"(1) mid by simp
    have step: "bs_loop f xs base len = bs_loop f xs b sz"
      using True fm by (simp add: bs_loop.simps [of f xs base len] Let_def mid_def b_def sz_def)
    have bound: "b + sz \<le> length xs"
      using "1.prems"(4) mid unfolding b_def mid_def by auto
    have left: "b = 0 \<or> c (xs ! b) \<noteq> Greater"
      using "1.prems"(5) by (simp add: b_def)
    have right: "b + sz = length xs \<or> c (xs ! (b + sz)) = Greater"
    proof (cases "c (xs ! mid) = Greater")
      case True
      with mid bound "1.prems"(2) show ?thesis
        by (auto simp: b_def intro: cmp_ordered_Greater)
    next
      case False
      with mid "1.prems"(6) show ?thesis by (simp add: b_def)
    qed
    have "\<exists>r. bs_loop f xs b sz = Inr r \<and> r < length xs
      \<and> (r = 0 \<or> c (xs ! r) \<noteq> Greater) \<and> (Suc r = length xs \<or> c (xs ! Suc r) = Greater)"
      using "1.IH" [OF True refl refl fm [unfolded mid_def]] "1.prems"(1,2) mid(2) bound left right
      unfolding b_def mid_def sz_def by simp
    with step show ?thesis by simp
  next
    case False
    with "1.prems"(3) have "len = 1" by simp
    then have "bs_loop f xs base len = Inr base"
      by (subst bs_loop.simps) simp
    with "1.prems" \<open>len = 1\<close> show ?thesis
      by (auto simp: Suc_le_eq)
  qed
qed

lemma binary_search_by_ordered:
  assumes "\<And>x. x \<in> set xs \<Longrightarrow> f x = Inr (c x)" "cmp_ordered c xs"
  shows "(\<exists>i. binary_search_by f xs = Inr (Found i) \<and> i < length xs \<and> c (xs ! i) = Equal)
    \<or> (\<exists>i. binary_search_by f xs = Inr (NotFound i) \<and> i \<le> length xs
          \<and> (\<forall>j < i. c (xs ! j) = Less) \<and> (\<forall>j. i \<le> j \<longrightarrow> j < length xs \<longrightarrow> c (xs ! j) = Greater))"
proof (cases "xs = []")
  case True
  then show ?thesis by (simp add: binary_search_by_def)
next
  case False
  then obtain b where b: "bs_loop f xs 0 (length xs) = Inr b" "b < length xs"
      "b = 0 \<or> c (xs ! b) \<noteq> Greater" "Suc b = length xs \<or> c (xs ! Suc b) = Greater"
    using bs_loop_inv [OF assms, of "length xs" 0] by auto
  have fb: "f (xs ! b) = Inr (c (xs ! b))"
    using assms(1) b(2) by simp
  have after: "c (xs ! j) = Greater" if "b < j" "j < length xs" for j
    using b(4) that cmp_ordered_Greater [OF assms(2), of "Suc b" j] by auto
  show ?thesis
  proof (cases "c (xs ! b)")
    case Less
    then have "\<forall>j < Suc b. c (xs ! j) = Less"
      using cmp_ordered_Less [OF assms(2)] b(2) by (simp add: less_Suc_eq_le)
    with Less False b fb after show ?thesis
      by (simp add: binary_search_by_def)
  next
    case Equal
    with False b fb show ?thesis by (simp add: binary_search_by_def)
  next
    case Greater
    with b(3) have "b = 0" by simp
    with Greater after have "c (xs ! j) = Greater" if "j < length xs" for j
      using that by (cases "j = 0") auto
    with Greater False b fb \<open>b = 0\<close> show ?thesis
      by (simp add: binary_search_by_def)
  qed
qed

text \<open>
  The two uses of the searches: an exact search for a key and the position of the last key not
  above a bound, both over strictly ordered keys.
\<close>

lemma binary_search_keys:
  fixes key :: "'a \<Rightarrow> 'k::linorder"
  assumes cmp: "\<And>x. x \<in> set xs \<Longrightarrow> f x = Inr (slice_cmp (key x) k)"
    and sorted: "sorted_wrt (<) (map key xs)"
  shows "(\<exists>i. binary_search_by f xs = Inr (Found i) \<and> i < length xs \<and> key (xs ! i) = k)
    \<or> (\<exists>i. binary_search_by f xs = Inr (NotFound i) \<and> i \<le> length xs
          \<and> (\<forall>j < i. key (xs ! j) < k) \<and> (\<forall>j. i \<le> j \<longrightarrow> j < length xs \<longrightarrow> k < key (xs ! j)))"
proof -
  have lt: "key (xs ! i) < key (xs ! j)" if "i < j" "j < length xs" for i j
    using sorted that by (simp add: sorted_wrt_map sorted_wrt_iff_nth_less)
  have "cmp_ordered (\<lambda>x. slice_cmp (key x) k) xs"
    unfolding cmp_ordered_def slice_cmp_def using lt by (auto split: if_splits dest: order.strict_trans)
  moreover have "slice_cmp a b = Equal \<longleftrightarrow> a = b" "slice_cmp a b = Less \<longleftrightarrow> a < b"
      "slice_cmp a b = Greater \<longleftrightarrow> b < a" for a b :: 'k
    by (auto simp: slice_cmp_def)
  ultimately show ?thesis
    using binary_search_by_ordered [OF cmp] by simp
qed

lemma partition_point_keys:
  fixes key :: "'a \<Rightarrow> 'k::linorder"
  assumes cmp: "\<And>x. x \<in> set xs \<Longrightarrow> p x = Inr (key x \<le> k)"
    and sorted: "sorted_wrt (<) (map key xs)"
  shows "\<exists>i. partition_point p xs = Inr i \<and> i \<le> length xs
    \<and> (\<forall>j < i. key (xs ! j) \<le> k) \<and> (\<forall>j. i \<le> j \<longrightarrow> j < length xs \<longrightarrow> k < key (xs ! j))"
proof -
  let ?c = "\<lambda>x. if key x \<le> k then Less else Greater"
  have lt: "key (xs ! i) < key (xs ! j)" if "i < j" "j < length xs" for i j
    using sorted that by (simp add: sorted_wrt_map sorted_wrt_iff_nth_less)
  have ord: "cmp_ordered ?c xs"
    unfolding cmp_ordered_def using lt by (fastforce split: if_splits)
  have f: "and_then (p x) (\<lambda>b. Inr (if b then Less else Greater)) = Inr (?c x)" if "x \<in> set xs" for x
    using cmp [OF that] by simp
  from binary_search_by_ordered [of xs "\<lambda>x. and_then (p x) (\<lambda>b. Inr (if b then Less else Greater))" ?c,
      OF f ord]
  show ?thesis
    by (auto simp: partition_point_def split: if_splits)
qed

section \<open>Updating a sorted association list\<close>

text \<open>The reference operation of both node builders: replace the value of a key or insert the
  pair at its place.\<close>

fun upsert :: "'k::linorder \<Rightarrow> 'v \<Rightarrow> ('k \<times> 'v) list \<Rightarrow> ('k \<times> 'v) list" where
  "upsert k v [] = [(k, v)]"
| "upsert k v ((a, b) # ps) =
     (if k < a then (k, v) # (a, b) # ps else if k = a then (k, v) # ps else (a, b) # upsert k v ps)"

lemma map_of_upsert: "map_of (upsert k v ps) = (map_of ps)(k \<mapsto> v)"
  by (induction ps) auto

lemma set_upsert_subset: "set (upsert k v ps) \<subseteq> insert (k, v) (set ps)"
proof (induction ps)
  case (Cons p ps)
  then show ?case by (cases p) auto
qed simp

lemma sorted_upsert: "sorted_wrt (<) (map fst ps) \<Longrightarrow> sorted_wrt (<) (map fst (upsert k v ps))"
proof (induction ps)
  case (Cons p ps)
  obtain a b where p: "p = (a, b)" by (cases p)
  have "\<forall>x \<in> set (upsert k v ps). a < fst x" if "a < k"
    using set_upsert_subset [of k v ps] Cons.prems that p by auto
  with Cons p show ?case by auto
qed simp

lemma upsert_append_high:
  "\<forall>x \<in> set ps. fst x < k \<Longrightarrow> upsert k v (ps @ qs) = ps @ upsert k v qs"
  by (induction ps) auto

lemma upsert_low: "\<forall>x \<in> set qs. k < fst x \<Longrightarrow> upsert k v qs = (k, v) # qs"
  by (cases qs) auto

lemma upsert_at_insert:
  assumes "i \<le> length ps" "\<And>j. j < i \<Longrightarrow> fst (ps ! j) < k"
    and "\<And>j. i \<le> j \<Longrightarrow> j < length ps \<Longrightarrow> k < fst (ps ! j)"
  shows "upsert k v ps = take i ps @ (k, v) # drop i ps"
proof -
  have lo: "\<forall>x \<in> set (take i ps). fst x < k"
    using assms(1,2) by (simp add: all_set_conv_all_nth)
  have hi: "\<forall>x \<in> set (drop i ps). k < fst x"
    using assms(1,3) by (simp add: all_set_conv_all_nth)
  have "upsert k v (take i ps @ drop i ps) = take i ps @ (k, v) # drop i ps"
    using upsert_append_high [OF lo, of v "drop i ps"] upsert_low [OF hi, of v]
    by simp
  then show ?thesis by simp
qed

lemma upsert_at_update:
  assumes "sorted_wrt (<) (map fst ps)" "i < length ps" "fst (ps ! i) = k"
  shows "upsert k v ps = ps[i := (k, v)]"
proof -
  have "\<And>j. j < i \<Longrightarrow> fst (ps ! j) < k"
    using assms by (auto simp: sorted_wrt_map sorted_wrt_iff_nth_less)
  then have lo: "\<forall>x \<in> set (take i ps). fst x < k"
    using assms(2) by (simp add: all_set_conv_all_nth)
  have "upsert k v (take i ps @ ps ! i # drop (Suc i) ps) = take i ps @ (k, v) # drop (Suc i) ps"
    using upsert_append_high [OF lo, of v] assms(3)
    by (cases "ps ! i") simp
  then show ?thesis
    using assms(2) by (simp add: upd_conv_take_nth_drop id_take_nth_drop [symmetric])
qed

section \<open>Hash maps\<close>

text \<open>A hash map is an association list with distinct keys that is only changed through
  \<open>hm_insert\<close> and \<open>hm_remove\<close>; the order of the list is the order of iteration.\<close>

type_synonym ('k, 'v) hash_map = "('k \<times> 'v) list"

definition hm_insert :: "'k \<Rightarrow> 'v \<Rightarrow> ('k, 'v) hash_map \<Rightarrow> ('k, 'v) hash_map" where
  "hm_insert k v m = AList.update k v m"

definition hm_remove :: "'k \<Rightarrow> ('k, 'v) hash_map \<Rightarrow> ('k, 'v) hash_map" where
  "hm_remove k m = AList.delete k m"

definition hm_get :: "('k, 'v) hash_map \<Rightarrow> 'k \<Rightarrow> 'v option" where
  "hm_get m k = map_of m k"

text \<open>\<open>iter().map(..).collect::<HashMap<_, _>>()\<close>\<close>

definition hm_collect :: "('k \<times> 'v) list \<Rightarrow> ('k, 'v) hash_map" where
  "hm_collect ps = fold (\<lambda>(k, v). hm_insert k v) ps []"

lemma hm_get_insert [simp]: "hm_get (hm_insert k v m) k' = (if k' = k then Some v else hm_get m k')"
  by (simp add: hm_get_def hm_insert_def update_conv')

lemma hm_get_remove [simp]: "hm_get (hm_remove k m) k' = (if k' = k then None else hm_get m k')"
  by (simp add: hm_get_def hm_remove_def delete_conv')

lemma hm_get_Nil [simp]: "hm_get [] k = None"
  by (simp add: hm_get_def)

lemma distinct_hm_insert [simp]: "distinct (map fst m) \<Longrightarrow> distinct (map fst (hm_insert k v m))"
  by (simp add: hm_insert_def distinct_update)

lemma distinct_hm_remove [simp]: "distinct (map fst m) \<Longrightarrow> distinct (map fst (hm_remove k m))"
  by (simp add: hm_remove_def distinct_delete)

lemma hm_collect_fold:
  "distinct (map fst m) \<Longrightarrow> distinct (map fst (fold (\<lambda>(k, v). hm_insert k v) ps m))"
  by (induction ps arbitrary: m) auto

lemma distinct_hm_collect [simp]: "distinct (map fst (hm_collect ps))"
  by (simp add: hm_collect_def hm_collect_fold)

lemma hm_get_fold_const:
  "hm_get (fold (\<lambda>(k, v). hm_insert k v) (map (\<lambda>k. (k, c)) ks) m) k =
     (if k \<in> set ks then Some c else hm_get m k)"
  by (induction ks arbitrary: m) auto

lemma hm_get_collect_const [simp]:
  "hm_get (hm_collect (map (\<lambda>k. (k, c)) ks)) k = (if k \<in> set ks then Some c else None)"
  by (simp add: hm_collect_def hm_get_fold_const)

end
