(* ===== verification/Kv_Base.thy ===== *)
theory Kv_Base
  imports Prelude
begin

text \<open>
  The vocabulary of the \<open>kv\<close> crate: its errors (\<open>error.rs\<close>), the page constants
  (\<open>pages/mod.rs\<close>), and the third-party crates it calls as a record of functions: the integer codecs of
  \<open>zerocopy\<close> and the hash of \<open>twox-hash\<close>. What the code relies on about the codecs is the locale
  \<open>zerocopy_le\<close>; a concrete little-endian codec shows that it can be met and serves the witnesses.

  Error messages keep their fixed text; the numbers that \<open>format!\<close> splices into them are left out.
\<close>

unbundle bit_operations_syntax

section \<open>Errors\<close>

datatype kv_error = DatabaseError string | IoError string | ZerocopyError string | TransactionFailed

type_synonym 'a kv_result = "kv_error fault + 'a"

definition convert_error :: kv_error where
  "convert_error = ZerocopyError ''Zerocopy conversion error''"

definition size_error :: kv_error where
  "size_error = ZerocopyError ''Zerocopy size error''"

section \<open>Page constants\<close>

type_synonym page_id = u64
type_synonym transaction_id = u64

definition HEADER_PAGE_ID :: page_id where "HEADER_PAGE_ID = 0"
definition INITIAL_ROOT_PAGE_ID :: page_id where "INITIAL_ROOT_PAGE_ID = 1"
definition MIN_PAGE_SIZE :: u64 where "MIN_PAGE_SIZE = 4096"

section \<open>The crates\<close>

record kv_crates =
  u64_to_le :: "u64 \<Rightarrow> bytes"
  u64_of_le :: "bytes \<Rightarrow> u64"
  u128_to_le :: "u128 \<Rightarrow> bytes"
  u128_of_le :: "bytes \<Rightarrow> u128"
  xxh3_128 :: "bytes \<Rightarrow> u128"

text \<open>The layout that \<open>U64<LE>\<close> and \<open>U128<LE>\<close> promise: fixed width, and every byte string of that
  width is a value.\<close>

locale zerocopy_le =
  fixes X :: kv_crates
  assumes u64_len [simp]: "length (u64_to_le X w) = 8"
    and u64_round [simp]: "u64_of_le X (u64_to_le X w) = w"
    and u64_bytes: "length bs = 8 \<Longrightarrow> u64_to_le X (u64_of_le X bs) = bs"
    and u128_len [simp]: "length (u128_to_le X v) = 16"
    and u128_round [simp]: "u128_of_le X (u128_to_le X v) = v"
    and u128_bytes: "length bs = 16 \<Longrightarrow> u128_to_le X (u128_of_le X bs) = bs"

text \<open>A little-endian codec, as a concrete instance.\<close>

lemma unat_bound: "unat (w :: 'a::len word) < 2 ^ LENGTH('a)"
  by (rule unsigned_less)

fun le_bytes :: "nat \<Rightarrow> nat \<Rightarrow> bytes" where
  "le_bytes 0 n = []"
| "le_bytes (Suc k) n = of_nat (n mod 256) # le_bytes k (n div 256)"

fun le_value :: "bytes \<Rightarrow> nat" where
  "le_value [] = 0"
| "le_value (b # bs) = unat b + 256 * le_value bs"

lemma length_le_bytes [simp]: "length (le_bytes k n) = k"
  by (induction k n rule: le_bytes.induct) auto

lemma le_value_bytes: "n < 256 ^ k \<Longrightarrow> le_value (le_bytes k n) = n"
proof (induction k n rule: le_bytes.induct)
  case (2 k n)
  have "n div 256 < 256 ^ k" using "2.prems" by (simp add: less_mult_imp_div_less mult.commute)
  moreover have "unat (of_nat (n mod 256) :: u8) = n mod 256"
    by (simp add: unat_of_nat)
  ultimately show ?case using "2.IH" by simp
qed simp

lemma le_value_less: "le_value bs < 256 ^ length bs"
proof (induction bs)
  case (Cons b bs)
  have "unat b < 256" using unat_bound [of b] by simp
  then have "unat b + 256 * le_value bs < 256 * (le_value bs + 1)" by simp
  also have "\<dots> \<le> 256 * 256 ^ length bs" using Cons by (intro mult_le_mono2) simp
  finally show ?case by simp
qed simp

lemma le_bytes_value: "le_bytes (length bs) (le_value bs) = bs"
proof (induction bs)
  case (Cons b bs)
  have "unat b < 256" using unat_bound [of b] by simp
  with Cons show ?case by (simp add: word_of_nat_eq_iff)
qed simp

definition le_crates :: kv_crates where
  "le_crates = \<lparr>u64_to_le = \<lambda>w. le_bytes 8 (unat w), u64_of_le = \<lambda>bs. of_nat (le_value bs),
     u128_to_le = \<lambda>w. le_bytes 16 (unat w), u128_of_le = \<lambda>bs. of_nat (le_value bs),
     xxh3_128 = \<lambda>bs. of_nat (fold (\<lambda>b n. 257 * n + unat b + 1) bs 0 mod 2 ^ 128)\<rparr>"

interpretation le: zerocopy_le le_crates
proof
  fix w :: u64 and v :: u128 and bs :: bytes
  show "length (u64_to_le le_crates w) = 8" "length (u128_to_le le_crates v) = 16"
    by (simp_all add: le_crates_def)
  show "u64_of_le le_crates (u64_to_le le_crates w) = w"
    using unat_bound [of w] by (simp add: le_crates_def le_value_bytes)
  show "u128_of_le le_crates (u128_to_le le_crates v) = v"
    using unat_bound [of v] by (simp add: le_crates_def le_value_bytes)
  show "u64_to_le le_crates (u64_of_le le_crates bs) = bs" if "length bs = 8"
    using le_value_less [of bs] le_bytes_value [of bs] that by (simp add: le_crates_def unat_of_nat)
  show "u128_to_le le_crates (u128_of_le le_crates bs) = bs" if "length bs = 16"
    using le_value_less [of bs] le_bytes_value [of bs] that by (simp add: le_crates_def unat_of_nat)
qed

section \<open>Arrays of fixed-width records\<close>

text \<open>A codec for records of one width, as derived by \<open>zerocopy\<close> for the \<open>repr(C)\<close> structs.\<close>

locale codec =
  fixes enc :: "'m \<Rightarrow> bytes" and dec :: "bytes \<Rightarrow> 'm" and width :: nat
  assumes enc_len [simp]: "length (enc m) = width"
    and dec_enc [simp]: "dec (enc m) = m"
    and enc_dec: "length bs = width \<Longrightarrow> enc (dec bs) = bs"

definition array_bytes :: "('m \<Rightarrow> bytes) \<Rightarrow> 'm list \<Rightarrow> bytes" where
  "array_bytes enc ms = concat (map enc ms)"

fun read_array :: "(bytes \<Rightarrow> 'm) \<Rightarrow> nat \<Rightarrow> nat \<Rightarrow> nat \<Rightarrow> bytes \<Rightarrow> 'm list" where
  "read_array dec w off 0 page = []"
| "read_array dec w off (Suc n) page = dec (range_of off w page) # read_array dec w (off + w) n page"

lemma array_bytes_simps [simp]:
  "array_bytes enc [] = []" "array_bytes enc (m # ms) = enc m @ array_bytes enc ms"
  "array_bytes enc (ms @ ns) = array_bytes enc ms @ array_bytes enc ns"
  by (simp_all add: array_bytes_def)

lemma length_read_array [simp]: "length (read_array dec w off n page) = n"
  by (induction n arbitrary: off) auto

context codec
begin

lemma array_len [simp]: "length (array_bytes enc ms) = width * length ms"
  by (induction ms) auto

lemma read_array_eq:
  "range_of off (width * length ms) page = array_bytes enc ms \<Longrightarrow>
   read_array dec width off (length ms) page = ms"
proof (induction ms arbitrary: off)
  case (Cons m ms)
  have "range_of off (width + width * length ms) page = enc m @ array_bytes enc ms"
    using Cons.prems by simp
  then have split: "range_of off width page @ range_of (off + width) (width * length ms) page
      = enc m @ array_bytes enc ms"
    by (simp add: range_of_append)
  have "length (range_of off width page) = width"
  proof -
    have "length (range_of off (width * length (m # ms)) page) = width * length (m # ms)"
      using Cons.prems by simp
    then show ?thesis by (auto simp: range_of_def)
  qed
  with split have "range_of off width page = enc m"
      "range_of (off + width) (width * length ms) page = array_bytes enc ms"
    by auto
  with Cons.IH show ?case by simp
qed simp

lemma read_array_bytes:
  "off + width * n \<le> length page \<Longrightarrow>
   array_bytes enc (read_array dec width off n page) = range_of off (width * n) page"
  by (induction n arbitrary: off) (simp_all add: enc_dec range_of_append algebra_simps)

text \<open>One record is overwritten.\<close>

lemma array_set:
  assumes "range_of off (width * length ms) page = array_bytes enc ms" "i < length ms"
    and "off + width * length ms \<le> length page"
  shows "range_of off (width * length ms) (blit (off + width * i) (enc m) page) = array_bytes enc (ms[i := m])"
proof -
  define rest where "rest = length ms - Suc i"
  have len: "width * length ms = width * i + (width + width * rest)"
  proof -
    have "length ms = i + Suc rest" using assms(2) by (simp add: rest_def)
    then show ?thesis by (simp add: distrib_left)
  qed
  have ms: "ms = take i ms @ ms ! i # drop (Suc i) ms" by (simp add: assms(2) id_take_nth_drop)
  have bound: "off + width * i + width + width * rest \<le> length page"
    using assms(3) len by simp
  have "range_of off (width * i) page @ range_of (off + width * i) width page
      @ range_of (off + width * i + width) (width * rest) page
      = array_bytes enc (take i ms) @ enc (ms ! i) @ array_bytes enc (drop (Suc i) ms)"
    using assms(1) arg_cong [OF ms, of "array_bytes enc"] unfolding len by (simp add: range_of_append add.assoc)
  moreover have "length (array_bytes enc (take i ms)) = width * i"
    using assms(2) by simp
  ultimately have parts: "range_of off (width * i) page = array_bytes enc (take i ms)"
      "range_of (off + width * i + width) (width * rest) page = array_bytes enc (drop (Suc i) ms)"
    using bound by (auto simp: append_eq_append_conv)
  have "range_of off (width * length ms) (blit (off + width * i) (enc m) page)
      = array_bytes enc (take i ms) @ enc m @ array_bytes enc (drop (Suc i) ms)"
    unfolding len using bound parts by (simp add: range_of_append slice_simps add.assoc)
  then show ?thesis using assms(2) by (simp add: upd_conv_take_nth_drop)
qed

text \<open>The records from \<open>i\<close> on move up by one place and a record is written in the gap.\<close>

lemma array_insert:
  assumes "range_of off (width * length ms) page = array_bytes enc ms" "i \<le> length ms"
    and "off + width * Suc (length ms) \<le> length page"
    and "moved = blit (off + width * Suc i) (range_of (off + width * i) (width * (length ms - i)) page) page"
  shows "range_of off (width * Suc (length ms)) (blit (off + width * i) (enc m) moved)
      = array_bytes enc (take i ms @ m # drop i ms)"
    and "length moved = length page"
proof -
  define rest where "rest = length ms - i"
  have n: "length ms = i + rest" using assms(2) by (simp add: rest_def)
  have bound: "off + width * i + width + width * rest \<le> length page"
    using assms(3) n by (simp add: algebra_simps)
  have "range_of off (width * i) page @ range_of (off + width * i) (width * rest) page
      = array_bytes enc (take i ms) @ array_bytes enc (drop i ms)"
    using assms(1) n array_bytes_simps(3) [of enc "take i ms" "drop i ms"]
    by (simp add: range_of_append distrib_left del: array_bytes_simps)
  moreover have "length (array_bytes enc (take i ms)) = width * i"
    using assms(2) by simp
  ultimately have parts: "range_of off (width * i) page = array_bytes enc (take i ms)"
      "range_of (off + width * i) (width * rest) page = array_bytes enc (drop i ms)"
    using bound by (auto simp: append_eq_append_conv)
  have moved: "moved = blit (off + width * i + width) (array_bytes enc (drop i ms)) page"
    using assms(4) parts(2) by (simp add: rest_def add.assoc add.commute [of width])
  have drop_len: "length (array_bytes enc (drop i ms)) = width * rest"
    by (simp add: rest_def)
  have drop_bound: "off + width * i + width + length (array_bytes enc (drop i ms)) \<le> length page"
    using bound by (simp only: drop_len)
  show len: "length moved = length page"
    unfolding moved by (rule length_blit [OF drop_bound])
  have split: "width * Suc (length ms) = width * i + (width + width * rest)"
    using n by (simp add: algebra_simps)
  have room: "off + width * i + length (enc m) \<le> length moved"
    using bound len by simp
  have "range_of off (width * i) moved = array_bytes enc (take i ms)"
    unfolding moved by (subst range_of_blit_before [OF drop_bound]) (simp_all add: parts(1))
  then have "range_of off (width * i) (blit (off + width * i) (enc m) moved) = array_bytes enc (take i ms)"
    by (simp add: range_of_blit_before [OF room])
  moreover have "range_of (off + width * i) width (blit (off + width * i) (enc m) moved) = enc m"
    by (rule range_of_blit_same [OF room]) simp
  moreover have "range_of (off + width * i + width) (width * rest) (blit (off + width * i) (enc m) moved)
      = array_bytes enc (drop i ms)"
    unfolding range_of_blit_after [OF room, simplified, OF order_refl]
    unfolding moved by (rule range_of_blit_same [OF drop_bound drop_len [symmetric]])
  ultimately show "range_of off (width * Suc (length ms)) (blit (off + width * i) (enc m) moved)
      = array_bytes enc (take i ms @ m # drop i ms)"
    unfolding split by (simp add: range_of_append add.assoc)
qed

end

end
