(* ===== verification/Slotted_Page.thy ===== *)
theory Slotted_Page
  imports Kv_Base
begin

text \<open>
  What leaf and branch pages share (\<open>kv/src/btree/mod.rs\<close> and the two node files): a header of three
  integers (kind, number of entries, start of the data area), an array of fixed-width metadata records that
  grows up from the header, and data that grows down from the end of the page. The predicate \<open>slotted\<close>
  says that a page holds given records; the lemmas give the effect of each write of the two mutators on it.
\<close>

section \<open>Node kinds and page writes\<close>

datatype node_kind = LeafKind | BranchKind

definition node_kind_code :: "node_kind \<Rightarrow> u64" where
  "node_kind_code k = (case k of LeafKind \<Rightarrow> 0 | BranchKind \<Rightarrow> 1)"

definition node_kind_parse :: "kv_crates \<Rightarrow> bytes \<Rightarrow> node_kind kv_result" where
  "node_kind_parse X page =
     (if length page < 8 then Inl (Fail convert_error)
      else let value = u64_of_le X (range_of 0 8 page) in
        if value = node_kind_code LeafKind then Inr LeafKind
        else if value = node_kind_code BranchKind then Inr BranchKind
        else Inl (Fail (DatabaseError ''invalid node type'')))"

definition write_data_at_offset :: "bytes \<Rightarrow> bytes \<Rightarrow> nat \<Rightarrow> bytes kv_result" where
  "write_data_at_offset page data offset =
     (if offset + length data \<le> length page then Inr (blit offset data page)
      else Inl (Panic ''range end index out of range for slice''))"

text \<open>\<open>value.write_to_prefix(&mut page[offset..]).unwrap()\<close>.\<close>

definition write_prefix_at :: "bytes \<Rightarrow> bytes \<Rightarrow> nat \<Rightarrow> bytes kv_result" where
  "write_prefix_at page data offset =
     (if length page < offset then Inl (Panic ''range start index out of range for slice'')
      else if length page < offset + length data
      then Inl (Panic ''called Result::unwrap() on an Err value'')
      else Inr (blit offset data page))"

text \<open>A struct of three \<open>U64<LE>\<close> fields.\<close>

definition triple_bytes :: "kv_crates \<Rightarrow> u64 \<Rightarrow> u64 \<Rightarrow> u64 \<Rightarrow> bytes" where
  "triple_bytes X a b c = u64_to_le X a @ u64_to_le X b @ u64_to_le X c"

section \<open>Pages that hold records\<close>

definition slotted ::
    "kv_crates \<Rightarrow> ('m \<Rightarrow> bytes) \<Rightarrow> nat \<Rightarrow> u64 \<Rightarrow> bytes \<Rightarrow> 'm list \<Rightarrow> nat \<Rightarrow> bool" where
  "slotted X enc w kind page ms e \<longleftrightarrow>
     24 + w * length ms \<le> e \<and> e \<le> length page \<and> length page < 2 ^ 63
     \<and> range_of 0 24 page = triple_bytes X kind (of_nat (length ms)) (of_nat e)
     \<and> range_of 24 (w * length ms) page = array_bytes enc ms"

lemma blit_blit_adjacent:
  assumes "off + length a + length b \<le> length page"
  shows "blit (off + length a) b (blit off a page) = blit off (a @ b) page"
  using assms by (cases a) (auto simp: blit_def min_def ac_simps)

lemma blit_blit_before:
  assumes "off + length a + length b \<le> length page"
  shows "blit off a (blit (off + length a) b page) = blit off (a @ b) page"
  using assms by (auto simp: blit_def min_def ac_simps)

lemma range_of_disjoint:
  assumes "off + length d \<le> length page" "a + n \<le> off \<or> off + length d \<le> a"
  shows "range_of a n (blit off d page) = range_of a n page"
  using assms range_of_blit_before [of off d page a n] range_of_blit_after [of off d page a n] by blast

lemma unat_of_nat_small: "n < 2 ^ 63 \<Longrightarrow> unat (of_nat n :: u64) = n"
  by (simp add: unat_of_nat)

locale slotted_page = zerocopy_le X + codec enc dec w
  for X :: kv_crates and enc :: "'m \<Rightarrow> bytes" and dec :: "bytes \<Rightarrow> 'm" and w :: nat +
  assumes w_pos: "0 < w"
begin

lemma triple_len [simp]: "length (triple_bytes X a b c) = 24"
  by (simp add: triple_bytes_def)

lemma triple_fields:
  assumes "range_of 0 24 page = triple_bytes X a b c"
  shows "u64_of_le X (range_of 0 8 page) = a" "u64_of_le X (range_of 8 8 page) = b"
    "u64_of_le X (range_of 16 8 page) = c"
proof -
  have "range_of i 8 page = range_of i 8 (triple_bytes X a b c)" if "i + 8 \<le> 24" for i
    using range_of_range_of [of i 8 24 0 page] that assms by simp
  from this [of 0] this [of 8] this [of 16]
  show "u64_of_le X (range_of 0 8 page) = a" "u64_of_le X (range_of 8 8 page) = b"
      "u64_of_le X (range_of 16 8 page) = c"
    by (simp_all add: triple_bytes_def range_of_def)
qed

lemma slotted_decode:
  assumes "slotted X enc w kind page ms e"
  shows "u64_of_le X (range_of 0 8 page) = kind" "unat (u64_of_le X (range_of 8 8 page)) = length ms"
    "unat (u64_of_le X (range_of 16 8 page)) = e" "read_array dec w 24 (length ms) page = ms"
    "24 \<le> length page" "24 + w * length ms \<le> length page"
proof -
  note s = assms [unfolded slotted_def]
  have f: "range_of 0 24 page = triple_bytes X kind (of_nat (length ms)) (of_nat e)" using s by blast
  have e: "e < 2 ^ 63" using s by linarith
  show "24 \<le> length page" "24 + w * length ms \<le> length page" using s by auto
  have arr: "range_of 24 (w * length ms) page = array_bytes enc ms" using s by blast
  then show "read_array dec w 24 (length ms) page = ms" by (rule read_array_eq)
  have "length ms \<le> w * length ms" using w_pos by simp
  then have n: "length ms < 2 ^ 63" using s e by linarith
  show "u64_of_le X (range_of 0 8 page) = kind" using triple_fields [OF f] by simp
  show "unat (u64_of_le X (range_of 16 8 page)) = e"
    using triple_fields(3) [OF f] e by (simp add: unat_of_nat_small)
  show "unat (u64_of_le X (range_of 8 8 page)) = length ms"
    using triple_fields(2) [OF f] n by (simp add: unat_of_nat_small)
qed

text \<open>A page with the three header fields and room for the records decodes to a slotted page.\<close>

lemma slotted_of_decode:
  assumes "24 + w * n \<le> e" "e \<le> length page" "length page < 2 ^ 63"
    and "u64_of_le X (range_of 0 8 page) = kind" "unat (u64_of_le X (range_of 8 8 page)) = n"
    "unat (u64_of_le X (range_of 16 8 page)) = e"
  shows "slotted X enc w kind page (read_array dec w 24 n page) e"
proof -
  have "range_of 0 24 page = range_of 0 8 page @ range_of 8 8 page @ range_of 16 8 page"
    using range_of_append [of 0 8 16 page] range_of_append [of 8 8 8 page] by simp
  moreover have "length (range_of i 8 page) = 8" if "i + 8 \<le> 24" for i
    using assms(1,2) that by simp
  ultimately have "range_of 0 24 page = triple_bytes X (u64_of_le X (range_of 0 8 page))
      (u64_of_le X (range_of 8 8 page)) (u64_of_le X (range_of 16 8 page))"
    by (simp add: triple_bytes_def u64_bytes)
  moreover have "u64_of_le X (range_of 8 8 page) = of_nat n" "u64_of_le X (range_of 16 8 page) = of_nat e"
    by (simp_all flip: assms(5,6))
  ultimately show ?thesis
    using assms(1-4) read_array_bytes [of 24 n page] by (simp add: slotted_def)
qed

section \<open>The writes of the mutators\<close>

text \<open>Data written above the records.\<close>

lemma slotted_data:
  assumes "slotted X enc w kind page ms e" "24 + w * length ms \<le> off" "off + length d \<le> length page"
  shows "slotted X enc w kind (blit off d page) ms e"
proof -
  have "range_of a n (blit off d page) = range_of a n page" if "a + n \<le> 24 + w * length ms" for a n
    using that assms(2) by (intro range_of_disjoint [OF assms(3)]) simp
  with assms show ?thesis by (simp add: slotted_def)
qed

text \<open>Data appended below the data area, with the header moved.\<close>

lemma slotted_append:
  assumes "slotted X enc w kind page ms e" "24 + w * length ms \<le> off" "off + length d = e"
  shows "slotted X enc w kind
    (blit 0 (triple_bytes X kind (of_nat (length ms)) (of_nat off)) (blit off d page)) ms off"
    (is "slotted X enc w kind ?q ms off")
proof -
  note s = assms(1) [unfolded slotted_def]
  have fit: "off + length d \<le> length page" using s assms(3) by simp
  have "range_of 24 (w * length ms) ?q = range_of 24 (w * length ms) page"
    using fit assms(2) by (simp add: range_of_disjoint)
  moreover have "range_of 0 24 ?q = triple_bytes X kind (of_nat (length ms)) (of_nat off)"
    using fit assms(2) by (intro range_of_blit_same) simp_all
  moreover have "length ?q = length page" using fit assms(2) by simp
  ultimately show ?thesis
    using s assms(2,3) by (simp add: slotted_def)
qed

text \<open>One record is overwritten.\<close>

lemma slotted_set:
  assumes "slotted X enc w kind page ms e" "i < length ms"
  shows "slotted X enc w kind (blit (24 + w * i) (enc m) page) (ms[i := m]) e"
    "\<And>a n. 24 + w * length ms \<le> a \<Longrightarrow> range_of a n (blit (24 + w * i) (enc m) page) = range_of a n page"
proof -
  note s = assms(1) [unfolded slotted_def]
  have "Suc i \<le> length ms" using assms(2) by simp
  then have "w * Suc i \<le> w * length ms" by (rule mult_le_mono2)
  then have fit: "24 + w * i + w \<le> 24 + w * length ms" by simp
  then have fit2: "24 + w * i + length (enc m) \<le> length page" using s by simp
  show "range_of a n (blit (24 + w * i) (enc m) page) = range_of a n page" if "24 + w * length ms \<le> a" for a n
    using that fit by (intro range_of_disjoint [OF fit2]) simp
  have "range_of 24 (w * length ms) (blit (24 + w * i) (enc m) page) = array_bytes enc (ms[i := m])"
    using s assms(2) by (intro array_set) auto
  moreover have "range_of 0 24 (blit (24 + w * i) (enc m) page) = range_of 0 24 page"
    by (rule range_of_disjoint [OF fit2]) simp
  ultimately show "slotted X enc w kind (blit (24 + w * i) (enc m) page) (ms[i := m]) e"
    using s fit2 by (simp add: slotted_def)
qed

text \<open>Data and a record are added: the data goes below the data area, the header counts one more
  record, and the record is written in its place after the later ones moved up.\<close>

lemma slotted_insert:
  assumes "slotted X enc w kind page ms e" "i \<le> length ms" "24 + w * Suc (length ms) \<le> off" "off + length d = e"
    and h: "h = blit 0 (triple_bytes X kind (of_nat (Suc (length ms))) (of_nat off)) (blit off d page)"
    and moved: "moved = blit (24 + w * Suc i) (range_of (24 + w * i) (w * (length ms - i)) h) h"
    and q: "q = blit (24 + w * i) (enc m) moved"
  shows "slotted X enc w kind q (take i ms @ m # drop i ms) off" "length q = length page"
    "length h = length page" "length moved = length page"
    "\<And>a n. off \<le> a \<Longrightarrow> range_of a n q = range_of a n (blit off d page)"
    "range_of 0 24 h = triple_bytes X kind (of_nat (Suc (length ms))) (of_nat off)"
    "range_of 0 24 moved = range_of 0 24 h"
proof -
  note s = assms(1) [unfolded slotted_def]
  define body where "body = range_of (24 + w * i) (w * (length ms - i)) h"
  have fit: "off + length d \<le> length page" using s assms(4) by simp
  show h_len: "length h = length page" using fit assms(3) by (simp add: h)
  have wn: "w * Suc i + w * (length ms - i) = w * Suc (length ms)"
    using assms(2) by (simp flip: distrib_left)
  have arr: "range_of 24 (w * length ms) h = array_bytes enc ms"
    using s fit assms(3) by (simp add: h range_of_disjoint)
  have bound: "24 + w * Suc (length ms) \<le> length h" using assms(3) fit h_len by linarith
  note ins = array_insert [OF arr assms(2) bound moved]
  show moved_len: "length moved = length page" using ins(2) h_len by simp
  have e_fit: "24 + w * i + length (enc m) \<le> length moved"
    using bound wn moved_len h_len by simp
  show q_len: "length q = length page" using e_fit moved_len by (simp add: q)
  have body_len: "length body = w * (length ms - i)"
  proof -
    have "24 + w * i + w * (length ms - i) \<le> length h" using bound wn by simp
    then show ?thesis unfolding body_def by (rule length_range_of)
  qed
  have body_fit: "24 + w * Suc i + length body \<le> length h"
    using bound wn body_len by simp
  have above: "range_of a n q = range_of a n h" if "24 + w * Suc (length ms) \<le> a" for a n
  proof -
    have "range_of a n q = range_of a n moved"
      unfolding q using that wn by (intro range_of_disjoint [OF e_fit]) simp
    also have "\<dots> = range_of a n h"
      unfolding moved body_def [symmetric] using that wn body_len by (intro range_of_disjoint [OF body_fit]) simp
    finally show ?thesis .
  qed
  show "range_of a n q = range_of a n (blit off d page)" if "off \<le> a" for a n
  proof -
    have "range_of a n q = range_of a n h" using above that assms(3) by simp
    also have "\<dots> = range_of a n (blit off d page)"
      unfolding h using that assms(3) fit by (intro range_of_disjoint) simp_all
    finally show ?thesis .
  qed
  show h_hdr: "range_of 0 24 h = triple_bytes X kind (of_nat (Suc (length ms))) (of_nat off)"
    unfolding h using fit assms(3) by (intro range_of_blit_same) simp_all
  show m_hdr: "range_of 0 24 moved = range_of 0 24 h"
    unfolding moved body_def [symmetric] by (rule range_of_disjoint [OF body_fit]) simp
  have "range_of 0 24 q = range_of 0 24 moved"
    unfolding q by (rule range_of_disjoint [OF e_fit]) simp
  then have hdr: "range_of 0 24 q = triple_bytes X kind (of_nat (Suc (length ms))) (of_nat off)"
    using h_hdr m_hdr by simp
  have "range_of 24 (w * Suc (length ms)) q = array_bytes enc (take i ms @ m # drop i ms)"
    unfolding q by (rule ins(1))
  moreover have "length (take i ms @ m # drop i ms) = Suc (length ms)" using assms(2) by simp
  ultimately show "slotted X enc w kind q (take i ms @ m # drop i ms) off"
    using hdr s q_len assms(3) fit unfolding slotted_def by simp
qed

end

end
