(* ===== verification/Leaf_Node.thy ===== *)
theory Leaf_Node
  imports Slotted_Page
begin

text \<open>
  Leaf pages (\<open>kv/src/btree/leaf_node.rs\<close>) at the level of bytes: the reader \<open>LeafPage\<close>, the
  rebuilding \<open>LeafBuilder\<close> with the split, and the in-place \<open>LeafPageMutator\<close>. A page is a byte
  list; every operation returns the new page, an error or a panic.

  The invariant \<open>leaf_wf\<close> says when a page is a leaf; \<open>leaf_pairs\<close> is the sorted list of pairs it stands
  for. Lookup, insertion, building and splitting are proved against that list.
\<close>

section \<open>Layout\<close>

record leaf_header =
  lh_node_type :: u64
  lh_num_pairs :: u64
  lh_kv_pairs_end_offset :: u64

record leaf_meta =
  lm_key_size :: u64
  lm_key_offset :: u64
  lm_value_size :: u64
  lm_value_offset :: u64

definition leaf_header_new :: "u64 \<Rightarrow> u64 \<Rightarrow> u64 \<Rightarrow> leaf_header" where
  "leaf_header_new node_type num_pairs end_offset =
     \<lparr>lh_node_type = node_type, lh_num_pairs = num_pairs, lh_kv_pairs_end_offset = end_offset\<rparr>"

definition leaf_meta_new :: "nat \<Rightarrow> nat \<Rightarrow> nat \<Rightarrow> nat \<Rightarrow> leaf_meta" where
  "leaf_meta_new key_size key_offset value_size value_offset =
     \<lparr>lm_key_size = of_nat key_size, lm_key_offset = of_nat key_offset,
      lm_value_size = of_nat value_size, lm_value_offset = of_nat value_offset\<rparr>"

definition leaf_header_size :: nat where "leaf_header_size = 24"
definition leaf_meta_size :: nat where "leaf_meta_size = 32"

definition leaf_header_bytes :: "kv_crates \<Rightarrow> leaf_header \<Rightarrow> bytes" where
  "leaf_header_bytes X h = triple_bytes X (lh_node_type h) (lh_num_pairs h) (lh_kv_pairs_end_offset h)"

definition leaf_header_of_bytes :: "kv_crates \<Rightarrow> bytes \<Rightarrow> leaf_header" where
  "leaf_header_of_bytes X bs =
     leaf_header_new (u64_of_le X (range_of 0 8 bs)) (u64_of_le X (range_of 8 8 bs)) (u64_of_le X (range_of 16 8 bs))"

definition leaf_meta_bytes :: "kv_crates \<Rightarrow> leaf_meta \<Rightarrow> bytes" where
  "leaf_meta_bytes X m =
     u64_to_le X (lm_key_size m) @ u64_to_le X (lm_key_offset m)
     @ u64_to_le X (lm_value_size m) @ u64_to_le X (lm_value_offset m)"

definition leaf_meta_of_bytes :: "kv_crates \<Rightarrow> bytes \<Rightarrow> leaf_meta" where
  "leaf_meta_of_bytes X bs =
     \<lparr>lm_key_size = u64_of_le X (range_of 0 8 bs), lm_key_offset = u64_of_le X (range_of 8 8 bs),
      lm_value_size = u64_of_le X (range_of 16 8 bs), lm_value_offset = u64_of_le X (range_of 24 8 bs)\<rparr>"

definition key_size :: "leaf_meta \<Rightarrow> nat" where "key_size m = unat (lm_key_size m)"
definition key_offset :: "leaf_meta \<Rightarrow> nat" where "key_offset m = unat (lm_key_offset m)"
definition value_size :: "leaf_meta \<Rightarrow> nat" where "value_size m = unat (lm_value_size m)"
definition value_offset :: "leaf_meta \<Rightarrow> nat" where "value_offset m = unat (lm_value_offset m)"

definition kv_size :: "leaf_meta \<Rightarrow> nat kv_result" where
  "kv_size m =
     (if key_size m + value_size m < 2 ^ 64 then Inr (key_size m + value_size m)
      else Inl (Panic ''attempt to add with overflow''))"

definition num_pairs :: "leaf_header \<Rightarrow> nat" where "num_pairs h = unat (lh_num_pairs h)"

definition kv_pairs_end_offset :: "leaf_header \<Rightarrow> nat" where
  "kv_pairs_end_offset h = unat (lh_kv_pairs_end_offset h)"

section \<open>Reading\<close>

record leaf_page =
  lp_header :: leaf_header
  lp_entries :: "leaf_meta list"
  lp_page :: bytes

definition leaf_from_page :: "kv_crates \<Rightarrow> bytes \<Rightarrow> leaf_page kv_result" where
  "leaf_from_page X page =
     (if length page < leaf_header_size then Inl (Fail convert_error)
      else let header = leaf_header_of_bytes X page in
        if length page - leaf_header_size < num_pairs header * leaf_meta_size then Inl (Fail convert_error)
        else Inr \<lparr>lp_header = header,
               lp_entries = read_array (leaf_meta_of_bytes X) leaf_meta_size leaf_header_size (num_pairs header) page,
               lp_page = page\<rparr>)"

definition leaf_key :: "bytes \<Rightarrow> leaf_meta \<Rightarrow> bytes kv_result" where
  "leaf_key page m = index_range page (key_offset m) (key_size m)"

definition leaf_value :: "bytes \<Rightarrow> leaf_meta \<Rightarrow> bytes kv_result" where
  "leaf_value page m = index_range page (value_offset m) (value_size m)"

definition leaf_entries :: "leaf_page \<Rightarrow> (bytes \<times> bytes) list kv_result" where
  "leaf_entries lp =
     map_r (\<lambda>m. and_then (leaf_key (lp_page lp) m) (\<lambda>key.
                and_then (leaf_value (lp_page lp) m) (\<lambda>val. Inr (key, val)))) (lp_entries lp)"

definition leaf_search_entry_index :: "leaf_page \<Rightarrow> bytes \<Rightarrow> search kv_result" where
  "leaf_search_entry_index lp key =
     binary_search_by (\<lambda>m. and_then (leaf_key (lp_page lp) m) (\<lambda>k. Inr (slice_cmp k key))) (lp_entries lp)"

definition leaf_find_entry_index :: "leaf_page \<Rightarrow> bytes \<Rightarrow> nat option kv_result" where
  "leaf_find_entry_index lp key =
     and_then (leaf_search_entry_index lp key)
       (\<lambda>r. Inr (case r of Found i \<Rightarrow> Some i | NotFound _ \<Rightarrow> None))"

definition leaf_get_value :: "leaf_page \<Rightarrow> bytes \<Rightarrow> bytes option kv_result" where
  "leaf_get_value lp key =
     and_then (leaf_find_entry_index lp key) (\<lambda>r.
       case r of
         None \<Rightarrow> Inr None
       | Some index \<Rightarrow>
           and_then (index_at (lp_entries lp) index) (\<lambda>entry.
           and_then (leaf_value (lp_page lp) entry) (\<lambda>v. Inr (Some v))))"

section \<open>Building\<close>

definition leaf_builder_from_page :: "kv_crates \<Rightarrow> bytes \<Rightarrow> (bytes \<times> bytes) list kv_result" where
  "leaf_builder_from_page X page = and_then (leaf_from_page X page) leaf_entries"

definition leaf_builder_insert :: "bytes \<Rightarrow> bytes \<Rightarrow> (bytes \<times> bytes) list \<Rightarrow> (bytes \<times> bytes) list kv_result" where
  "leaf_builder_insert key val kv_pairs =
     and_then (binary_search_by (\<lambda>pair. Inr (slice_cmp (fst pair) key)) kv_pairs) (\<lambda>r.
       Inr (case r of
              Found index \<Rightarrow> kv_pairs[index := (fst (kv_pairs ! index), val)]
            | NotFound index \<Rightarrow> take index kv_pairs @ (key, val) # drop index kv_pairs))"

fun leaf_build_loop ::
    "kv_crates \<Rightarrow> (bytes \<times> bytes) list \<Rightarrow> nat \<Rightarrow> nat \<Rightarrow> bytes \<Rightarrow> (nat \<times> bytes) kv_result" where
  "leaf_build_loop X [] write_cursor kv_data_cursor page = Inr (kv_data_cursor, page)"
| "leaf_build_loop X ((key, val) # entries) write_cursor kv_data_cursor page =
     (let metadata_end = write_cursor + leaf_meta_size in
      if kv_data_cursor < length key + length val
      then Inl (Panic ''assertion failed: kv_data_cursor >= key_size + value_size'')
      else if metadata_end > kv_data_cursor - length key - length val
      then Inl (Panic ''assertion failed: metadata_end <= kv_data_cursor - key_size - value_size'')
      else
        and_then (write_data_at_offset page val (kv_data_cursor - length val)) (\<lambda>page.
        and_then (write_data_at_offset page key (kv_data_cursor - length val - length key)) (\<lambda>page.
        let cursor = kv_data_cursor - length val - length key;
            metadata = leaf_meta_new (length key) cursor (length val) (cursor + length key)
        in and_then (write_prefix_at page (leaf_meta_bytes X metadata) write_cursor)
             (leaf_build_loop X entries metadata_end cursor))))"

definition leaf_build_entries_at_buf :: "kv_crates \<Rightarrow> (bytes \<times> bytes) list \<Rightarrow> bytes \<Rightarrow> bytes kv_result" where
  "leaf_build_entries_at_buf X entries page =
     and_then (leaf_build_loop X entries leaf_header_size (length page) page) (\<lambda>(kv_data_cursor, page).
       write_prefix_at page
         (leaf_header_bytes X (leaf_header_new (node_kind_code LeafKind) (of_nat (length entries))
           (of_nat kv_data_cursor))) 0)"

definition leaf_build_page_at_buf :: "kv_crates \<Rightarrow> (bytes \<times> bytes) list \<Rightarrow> bytes \<Rightarrow> bytes kv_result" where
  "leaf_build_page_at_buf X kv_pairs page = leaf_build_entries_at_buf X kv_pairs page"

definition leaf_build_split_pages ::
    "kv_crates \<Rightarrow> (bytes \<times> bytes) list \<Rightarrow> bytes \<Rightarrow> bytes \<Rightarrow> (bytes \<times> bytes \<times> bytes) kv_result" where
  "leaf_build_split_pages X kv_pairs left_page right_page =
     (if length kv_pairs < 2 then Inl (Panic ''assertion failed: self.kv_pairs.len() >= 2'')
      else
        let mid = length kv_pairs div 2;
            left_entries = take mid kv_pairs; right_entries = drop mid kv_pairs in
        case right_entries of
          [] \<Rightarrow> Inl (Panic ''called Option::unwrap() on a None value'')
        | e # _ \<Rightarrow>
            and_then (leaf_build_entries_at_buf X left_entries left_page) (\<lambda>left_page.
            and_then (leaf_build_entries_at_buf X right_entries right_page) (\<lambda>right_page.
            Inr (fst e, left_page, right_page))))"

definition get_empty_leaf_page :: "kv_crates \<Rightarrow> nat \<Rightarrow> bytes kv_result" where
  "get_empty_leaf_page X page_size = leaf_build_page_at_buf X [] (replicate page_size 0)"

section \<open>Mutating in place\<close>

definition leaf_header_ref :: "kv_crates \<Rightarrow> bytes \<Rightarrow> leaf_header kv_result" where
  "leaf_header_ref X page =
     (if length page < leaf_header_size then Inl (Fail convert_error)
      else Inr (leaf_header_of_bytes X page))"

text \<open>\<open>entries\<close> and \<open>entries_mut\<close>: the metadata array, whose length the header gives.\<close>

definition leaf_entries_ref :: "kv_crates \<Rightarrow> bytes \<Rightarrow> leaf_meta list kv_result" where
  "leaf_entries_ref X page = and_then (leaf_from_page X page) (\<lambda>lp. Inr (lp_entries lp))"

definition leaf_set_entry :: "kv_crates \<Rightarrow> nat \<Rightarrow> leaf_meta \<Rightarrow> bytes \<Rightarrow> bytes kv_result" where
  "leaf_set_entry X index m page =
     and_then (leaf_entries_ref X page) (\<lambda>entries.
       if index < length entries
       then Inr (blit (leaf_header_size + leaf_meta_size * index) (leaf_meta_bytes X m) page)
       else Inl (Panic ''index out of bounds''))"

definition leaf_fits :: "kv_crates \<Rightarrow> bytes \<Rightarrow> bytes \<Rightarrow> bytes \<Rightarrow> bool kv_result" where
  "leaf_fits X page key val =
     and_then (leaf_header_ref X page) (\<lambda>header.
       let kv_len = length key + length val in
       if kv_pairs_end_offset header < kv_len then Inr False
       else let metadata_end_offset = leaf_header_size + (num_pairs header + 1) * leaf_meta_size in
         if metadata_end_offset \<ge> 2 ^ 64 then Inl (Panic ''attempt to multiply with overflow'')
         else Inr (metadata_end_offset \<le> kv_pairs_end_offset header - kv_len))"

definition leaf_write_kv :: "bytes \<Rightarrow> bytes \<Rightarrow> nat \<Rightarrow> nat \<Rightarrow> bytes \<Rightarrow> bytes kv_result" where
  "leaf_write_kv key val key_off value_off page =
     and_then (write_data_at_offset page key key_off) (\<lambda>page. write_data_at_offset page val value_off)"

definition leaf_append_kv :: "kv_crates \<Rightarrow> bytes \<Rightarrow> bytes \<Rightarrow> bytes \<Rightarrow> (nat \<times> nat \<times> bytes) kv_result" where
  "leaf_append_kv X key val page =
     and_then (leaf_header_ref X page) (\<lambda>header.
       if kv_pairs_end_offset header < length key + length val
       then Inl (Panic ''attempt to subtract with overflow'')
       else
         let key_off = kv_pairs_end_offset header - length key - length val;
             value_off = key_off + length key
         in and_then (leaf_write_kv key val key_off value_off page) (\<lambda>page. Inr (key_off, value_off, page)))"

definition leaf_insert_existing_kv :: "kv_crates \<Rightarrow> nat \<Rightarrow> bytes \<Rightarrow> bytes \<Rightarrow> bytes \<Rightarrow> bytes kv_result" where
  "leaf_insert_existing_kv X entry_index key val page =
     and_then (leaf_entries_ref X page) (\<lambda>entries.
     and_then (index_at entries entry_index) (\<lambda>old_entry.
     and_then (kv_size old_entry) (\<lambda>old_kv_size.
     and_then
       (if old_kv_size \<ge> length key + length val then
          let key_off = key_offset old_entry; value_off = key_off + length key
          in and_then (leaf_write_kv key val key_off value_off page) (\<lambda>page. Inr (key_off, value_off, page))
        else
          and_then (leaf_append_kv X key val page) (\<lambda>(key_off, value_off, page).
          and_then (leaf_header_ref X page) (\<lambda>header.
          Inr (key_off, value_off,
               blit 0 (leaf_header_bytes X (header\<lparr>lh_kv_pairs_end_offset := of_nat key_off\<rparr>)) page))))
       (\<lambda>(key_off, value_off, page).
          leaf_set_entry X entry_index (leaf_meta_new (length key) key_off (length val) value_off) page))))"

definition leaf_insert_metadata :: "kv_crates \<Rightarrow> nat \<Rightarrow> nat \<Rightarrow> leaf_meta \<Rightarrow> bytes \<Rightarrow> bytes kv_result" where
  "leaf_insert_metadata X insert_index old_num_pairs new_entry page =
     and_then (leaf_entries_ref X page) (\<lambda>entries.
       if insert_index > old_num_pairs \<or> old_num_pairs > length entries
          \<or> insert_index + 1 > length entries - (old_num_pairs - insert_index)
       then Inl (Panic ''range end index out of range for slice'')
       else
         let moved = blit (leaf_header_size + leaf_meta_size * Suc insert_index)
               (range_of (leaf_header_size + leaf_meta_size * insert_index)
                  (leaf_meta_size * (old_num_pairs - insert_index)) page) page
         in leaf_set_entry X insert_index new_entry moved)"

definition leaf_insert_new_kv :: "kv_crates \<Rightarrow> nat \<Rightarrow> bytes \<Rightarrow> bytes \<Rightarrow> bytes \<Rightarrow> bytes kv_result" where
  "leaf_insert_new_kv X insert_index key val page =
     and_then (leaf_entries_ref X page) (\<lambda>entries.
     let old_num_pairs = length entries; new_num_pairs = old_num_pairs + 1 in
     and_then (leaf_append_kv X key val page) (\<lambda>(key_off, value_off, page).
     let new_entry = leaf_meta_new (length key) key_off (length val) value_off in
     and_then (leaf_header_ref X page) (\<lambda>header.
     leaf_insert_metadata X insert_index old_num_pairs new_entry
       (blit 0 (leaf_header_bytes X (header\<lparr>lh_num_pairs := of_nat new_num_pairs,
          lh_kv_pairs_end_offset := of_nat key_off\<rparr>)) page))))"

definition leaf_insert :: "kv_crates \<Rightarrow> bytes \<Rightarrow> bytes \<Rightarrow> bytes \<Rightarrow> bytes kv_result" where
  "leaf_insert X key val page =
     and_then (leaf_from_page X page) (\<lambda>reader.
     and_then (leaf_search_entry_index reader key) (\<lambda>r.
       case r of
         Found entry_index \<Rightarrow> leaf_insert_existing_kv X entry_index key val page
       | NotFound insert_index \<Rightarrow> leaf_insert_new_kv X insert_index key val page))"

end
