(* ===== verification/Leaf_Node_Props.thy ===== *)
theory Leaf_Node_Props
  imports Leaf_Node
begin

text \<open>
  Leaf pages proved against the sorted list of pairs they stand for: the invariant \<open>leaf_wf\<close>, lookup,
  the in-place insertion, building and splitting, and the lists of pairs on which a split panics.
\<close>

section \<open>Leaf pages and what they stand for\<close>

definition extent_end :: "leaf_meta \<Rightarrow> nat" where
  "extent_end m = key_offset m + key_size m + value_size m"

text \<open>An entry whose key and value lie, one after the other, in the data area of the page.\<close>

definition entry_in :: "nat \<Rightarrow> nat \<Rightarrow> leaf_meta \<Rightarrow> bool" where
  "entry_in e len m \<longleftrightarrow> e \<le> key_offset m \<and> extent_end m \<le> len \<and> value_offset m = key_offset m + key_size m"

definition apart :: "leaf_meta \<Rightarrow> leaf_meta \<Rightarrow> bool" where
  "apart a b \<longleftrightarrow> extent_end a \<le> key_offset b \<or> extent_end b \<le> key_offset a"

definition pair_of :: "bytes \<Rightarrow> leaf_meta \<Rightarrow> bytes \<times> bytes" where
  "pair_of page m = (range_of (key_offset m) (key_size m) page, range_of (value_offset m) (value_size m) page)"

definition leaf_metas :: "kv_crates \<Rightarrow> bytes \<Rightarrow> leaf_meta list" where
  "leaf_metas X page = read_array (leaf_meta_of_bytes X) leaf_meta_size leaf_header_size
     (num_pairs (leaf_header_of_bytes X page)) page"

definition leaf_pairs :: "kv_crates \<Rightarrow> bytes \<Rightarrow> (bytes \<times> bytes) list" where
  "leaf_pairs X page = map (pair_of page) (leaf_metas X page)"

definition leaf_wf :: "kv_crates \<Rightarrow> bytes \<Rightarrow> bool" where
  "leaf_wf X page \<longleftrightarrow>
     (let h = leaf_header_of_bytes X page; e = kv_pairs_end_offset h; ms = leaf_metas X page
      in lh_node_type h = node_kind_code LeafKind
         \<and> leaf_header_size + leaf_meta_size * num_pairs h \<le> e \<and> e \<le> length page \<and> length page < 2 ^ 63
         \<and> list_all (entry_in e (length page)) ms \<and> sorted_wrt apart ms
         \<and> sorted_wrt (<) (map fst (leaf_pairs X page)))"

sublocale zerocopy_le \<subseteq> leaf: slotted_page X "leaf_meta_bytes X" "leaf_meta_of_bytes X" leaf_meta_size
proof
  fix m :: leaf_meta and bs :: bytes
  show "length (leaf_meta_bytes X m) = leaf_meta_size"
    by (simp add: leaf_meta_bytes_def leaf_meta_size_def)
  show "leaf_meta_of_bytes X (leaf_meta_bytes X m) = m"
    by (cases m) (simp add: leaf_meta_bytes_def leaf_meta_of_bytes_def range_of_def)
  show "leaf_meta_bytes X (leaf_meta_of_bytes X bs) = bs" if "length bs = leaf_meta_size"
  proof -
    have "bs = range_of 0 8 bs @ range_of 8 8 bs @ range_of 16 8 bs @ range_of 24 8 bs"
      using that range_of_append [of 0 8 24 bs] range_of_append [of 8 8 16 bs] range_of_append [of 16 8 8 bs]
      by (simp add: leaf_meta_size_def)
    then show ?thesis
      using that by (simp add: leaf_meta_bytes_def leaf_meta_of_bytes_def leaf_meta_size_def u64_bytes)
  qed
  show "0 < leaf_meta_size" by (simp add: leaf_meta_size_def)
qed

lemma apart_sym: "apart a b = apart b a"
  by (auto simp: apart_def)

context zerocopy_le
begin

abbreviation leaf_slots :: "bytes \<Rightarrow> leaf_meta list \<Rightarrow> nat \<Rightarrow> bool" where
  "leaf_slots page ms e \<equiv> slotted X (leaf_meta_bytes X) leaf_meta_size (node_kind_code LeafKind) page ms e"

text \<open>The decoded view and the byte view of a leaf.\<close>

lemma leaf_wf_iff:
  "leaf_wf X page \<longleftrightarrow> (\<exists>ms e. leaf_slots page ms e \<and> list_all (entry_in e (length page)) ms
     \<and> sorted_wrt apart ms \<and> sorted_wrt (<) (map (fst \<circ> pair_of page) ms))"
proof
  assume wf: "leaf_wf X page"
  let ?h = "leaf_header_of_bytes X page"
  have "leaf_slots page (leaf_metas X page) (kv_pairs_end_offset ?h)"
    unfolding leaf_metas_def leaf_header_size_def
    by (rule leaf.slotted_of_decode)
      (use wf in \<open>auto simp: leaf_wf_def Let_def leaf_header_of_bytes_def leaf_header_new_def num_pairs_def
        kv_pairs_end_offset_def leaf_header_size_def\<close>)
  with wf show "\<exists>ms e. leaf_slots page ms e \<and> list_all (entry_in e (length page)) ms
     \<and> sorted_wrt apart ms \<and> sorted_wrt (<) (map (fst \<circ> pair_of page) ms)"
    by (auto simp: leaf_wf_def Let_def leaf_pairs_def)
next
  assume "\<exists>ms e. leaf_slots page ms e \<and> list_all (entry_in e (length page)) ms
     \<and> sorted_wrt apart ms \<and> sorted_wrt (<) (map (fst \<circ> pair_of page) ms)"
  then obtain ms e where s: "leaf_slots page ms e" "list_all (entry_in e (length page)) ms"
      "sorted_wrt apart ms" "sorted_wrt (<) (map (fst \<circ> pair_of page) ms)" by blast
  note d = leaf.slotted_decode [OF s(1)]
  have "num_pairs (leaf_header_of_bytes X page) = length ms" "kv_pairs_end_offset (leaf_header_of_bytes X page) = e"
      "lh_node_type (leaf_header_of_bytes X page) = node_kind_code LeafKind"
    using d by (simp_all add: leaf_header_of_bytes_def leaf_header_new_def num_pairs_def kv_pairs_end_offset_def)
  moreover from this d have "leaf_metas X page = ms"
    by (simp add: leaf_metas_def leaf_header_size_def)
  ultimately show "leaf_wf X page"
    using s by (simp add: leaf_wf_def Let_def leaf_pairs_def slotted_def leaf_header_size_def)
qed

lemma leaf_slots_decode:
  assumes "leaf_slots page ms e"
  shows "leaf_from_page X page = Inr \<lparr>lp_header = leaf_header_of_bytes X page, lp_entries = ms, lp_page = page\<rparr>"
    "leaf_header_ref X page = Inr (leaf_header_of_bytes X page)" "leaf_entries_ref X page = Inr ms"
    "leaf_header_of_bytes X page =
       leaf_header_new (node_kind_code LeafKind) (of_nat (length ms)) (of_nat e)"
    "kv_pairs_end_offset (leaf_header_of_bytes X page) = e" "num_pairs (leaf_header_of_bytes X page) = length ms"
    "leaf_metas X page = ms" "leaf_pairs X page = map (pair_of page) ms"
proof -
  note d = leaf.slotted_decode [OF assms]
  show h: "kv_pairs_end_offset (leaf_header_of_bytes X page) = e" "num_pairs (leaf_header_of_bytes X page) = length ms"
    using d by (simp_all add: leaf_header_of_bytes_def leaf_header_new_def num_pairs_def kv_pairs_end_offset_def)
  show m: "leaf_metas X page = ms"
    using d h by (simp add: leaf_metas_def leaf_header_size_def)
  then show "leaf_pairs X page = map (pair_of page) ms" by (simp add: leaf_pairs_def)
  show f: "leaf_from_page X page = Inr \<lparr>lp_header = leaf_header_of_bytes X page, lp_entries = ms, lp_page = page\<rparr>"
    using d h m by (auto simp: leaf_from_page_def Let_def leaf_header_size_def leaf_metas_def mult.commute)
  show "leaf_header_ref X page = Inr (leaf_header_of_bytes X page)"
    using d by (simp add: leaf_header_ref_def leaf_header_size_def)
  show "leaf_entries_ref X page = Inr ms"
    by (simp add: leaf_entries_ref_def f)
  show "leaf_header_of_bytes X page = leaf_header_new (node_kind_code LeafKind) (of_nat (length ms)) (of_nat e)"
    unfolding leaf_header_of_bytes_def using d(1-3) by (simp flip: d(2,3))
qed

section \<open>Lookup\<close>

lemma entry_reads:
  assumes "entry_in e (length page) m"
  shows "leaf_key page m = Inr (fst (pair_of page m))" "leaf_value page m = Inr (snd (pair_of page m))"
  using assms by (auto simp: leaf_key_def leaf_value_def index_range_def pair_of_def entry_in_def extent_end_def)

lemma leaf_search:
  assumes "leaf_slots page ms e" "list_all (entry_in e (length page)) ms"
    and "sorted_wrt (<) (map (fst \<circ> pair_of page) ms)"
    and lp: "lp = \<lparr>lp_header = h, lp_entries = ms, lp_page = page\<rparr>"
  shows "(\<exists>i. leaf_search_entry_index lp key = Inr (Found i) \<and> i < length ms \<and> fst (pair_of page (ms ! i)) = key)
    \<or> (\<exists>i. leaf_search_entry_index lp key = Inr (NotFound i) \<and> i \<le> length ms
        \<and> (\<forall>j < i. fst (pair_of page (ms ! j)) < key)
        \<and> (\<forall>j. i \<le> j \<longrightarrow> j < length ms \<longrightarrow> key < fst (pair_of page (ms ! j))))"
proof -
  have "and_then (leaf_key page m) (\<lambda>k. Inr (slice_cmp k key)) = Inr (slice_cmp ((fst \<circ> pair_of page) m) key)"
    if "m \<in> set ms" for m
    using assms(2) that entry_reads(1) [of e page m] by (simp add: list_all_iff)
  from binary_search_keys [OF this assms(3)] show ?thesis
    by (simp add: leaf_search_entry_index_def lp)
qed

lemma leaf_entries_pairs:
  assumes "list_all (entry_in e (length page)) ms" "lp = \<lparr>lp_header = h, lp_entries = ms, lp_page = page\<rparr>"
  shows "leaf_entries lp = Inr (map (pair_of page) ms)"
  unfolding leaf_entries_def assms(2)
  using assms(1) entry_reads [of e page] by (auto intro!: map_r_total simp: list_all_iff)

lemma map_of_absent_between:
  fixes k :: "'k::linorder"
  assumes "i \<le> length ps" "\<And>j. j < i \<Longrightarrow> fst (ps ! j) < k" "\<And>j. i \<le> j \<Longrightarrow> j < length ps \<Longrightarrow> k < fst (ps ! j)"
  shows "map_of ps k = None"
proof -
  have "fst (ps ! j) \<noteq> k" if "j < length ps" for j
    using assms(2) [of j] assms(3) [of j] that by (cases "j < i") auto
  then show ?thesis by (fastforce simp: map_of_eq_None_iff in_set_conv_nth)
qed

lemma leaf_get_pairs:
  assumes "leaf_wf X page"
  shows "and_then (leaf_from_page X page) (\<lambda>lp. leaf_get_value lp key) = Inr (map_of (leaf_pairs X page) key)"
proof -
  obtain ms e where s: "leaf_slots page ms e" "list_all (entry_in e (length page)) ms"
      "sorted_wrt (<) (map (fst \<circ> pair_of page) ms)"
    using assms by (auto simp: leaf_wf_iff)
  note d = leaf_slots_decode [OF s(1)]
  define lp where "lp = \<lparr>lp_header = leaf_header_of_bytes X page, lp_entries = ms, lp_page = page\<rparr>"
  have from_page: "leaf_from_page X page = Inr lp" using d(1) by (simp add: lp_def)
  from leaf_search [OF s lp_def, of key] show ?thesis
  proof (elim disjE exE conjE)
    fix i
    assume i: "leaf_search_entry_index lp key = Inr (Found i)" "i < length ms" "fst (pair_of page (ms ! i)) = key"
    have "entry_in e (length page) (ms ! i)" using s(2) i(2) by (simp add: list_all_iff)
    then have "leaf_get_value lp key = Inr (Some (snd (pair_of page (ms ! i))))"
      using i entry_reads(2) [of e page "ms ! i"]
      by (simp add: leaf_get_value_def leaf_find_entry_index_def lp_def index_at_def)
    moreover have "map_of (map (pair_of page) ms) key = Some (snd (pair_of page (ms ! i)))"
    proof (rule map_of_is_SomeI)
      show "distinct (map fst (map (pair_of page) ms))"
        using s(3) by (simp add: strict_sorted_iff)
      have "map (pair_of page) ms ! i \<in> set (map (pair_of page) ms)" using i(2) by (intro nth_mem) simp
      then show "(key, snd (pair_of page (ms ! i))) \<in> set (map (pair_of page) ms)"
        using i(2,3) by (metis nth_map prod.collapse)
    qed
    ultimately show ?thesis using from_page d(8) by simp
  next
    fix i
    assume i: "leaf_search_entry_index lp key = Inr (NotFound i)" "i \<le> length ms"
      "\<forall>j < i. fst (pair_of page (ms ! j)) < key"
      "\<forall>j. i \<le> j \<longrightarrow> j < length ms \<longrightarrow> key < fst (pair_of page (ms ! j))"
    have "map_of (map (pair_of page) ms) key = None"
      by (rule map_of_absent_between [of i]) (use i in auto)
    with i(1) from_page d(8) show ?thesis
      by (simp add: leaf_get_value_def leaf_find_entry_index_def)
  qed
qed

section \<open>Insertion\<close>

lemma meta_new_sel:
  assumes "a < 2 ^ 63" "b < 2 ^ 63" "c < 2 ^ 63" "d < 2 ^ 63"
  shows "key_size (leaf_meta_new a b c d) = a" "key_offset (leaf_meta_new a b c d) = b"
    "value_size (leaf_meta_new a b c d) = c" "value_offset (leaf_meta_new a b c d) = d"
  using assms by (simp_all add: leaf_meta_new_def key_size_def key_offset_def value_size_def value_offset_def
      unat_of_nat_small)

text \<open>A pair keeps its bytes when the page changes elsewhere.\<close>

lemma pair_of_frame:
  assumes "entry_in e (length page) m"
    and "\<And>a n. key_offset m \<le> a \<Longrightarrow> a + n \<le> extent_end m \<Longrightarrow> range_of a n q = range_of a n page"
  shows "pair_of q m = pair_of page m"
  using assms by (simp add: pair_of_def entry_in_def extent_end_def)

text \<open>The pair written at \<open>off\<close>: key, then value.\<close>

lemma pair_of_written:
  assumes "off + length key + length val \<le> length q" "length q < 2 ^ 63"
    and "range_of off (length key + length val) q = key @ val"
  shows "pair_of q (leaf_meta_new (length key) off (length val) (off + length key)) = (key, val)"
    "extent_end (leaf_meta_new (length key) off (length val) (off + length key)) = off + length key + length val"
    "key_offset (leaf_meta_new (length key) off (length val) (off + length key)) = off"
    "value_offset (leaf_meta_new (length key) off (length val) (off + length key)) = off + length key"
    "key_size (leaf_meta_new (length key) off (length val) (off + length key)) = length key"
proof -
  have small: "length key < 2 ^ 63" "off < 2 ^ 63" "length val < 2 ^ 63" "off + length key < 2 ^ 63"
    using assms(1,2) by linarith+
  note sel = meta_new_sel [OF small]
  have "range_of off (length key) q @ range_of (off + length key) (length val) q = key @ val"
    using assms(3) by (simp add: range_of_append)
  moreover have "length (range_of off (length key) q) = length key"
    using assms(1) by simp
  ultimately show "pair_of q (leaf_meta_new (length key) off (length val) (off + length key)) = (key, val)"
    by (simp add: pair_of_def sel)
  show "extent_end (leaf_meta_new (length key) off (length val) (off + length key)) = off + length key + length val"
    "key_offset (leaf_meta_new (length key) off (length val) (off + length key)) = off"
    "value_offset (leaf_meta_new (length key) off (length val) (off + length key)) = off + length key"
    "key_size (leaf_meta_new (length key) off (length val) (off + length key)) = length key"
    by (simp_all add: sel extent_end_def)
qed

lemma leaf_write_kv_blit:
  "off + length key + length val \<le> length page \<Longrightarrow>
   leaf_write_kv key val off (off + length key) page = Inr (blit off (key @ val) page)"
  by (simp add: leaf_write_kv_def write_data_at_offset_def blit_blit_adjacent)

lemma leaf_set_entry_slots:
  "leaf_slots page ms e \<Longrightarrow> i < length ms \<Longrightarrow>
   leaf_set_entry X i m page = Inr (blit (24 + leaf_meta_size * i) (leaf_meta_bytes X m) page)"
  by (simp add: leaf_set_entry_def leaf_slots_decode(3) leaf_header_size_def)

lemma leaf_append_slots:
  assumes "leaf_slots page ms e" "off + length key + length val = e"
  shows "leaf_append_kv X key val page = Inr (off, off + length key, blit off (key @ val) page)"
proof -
  have "off + length key + length val \<le> length page" using assms by (simp add: slotted_def)
  then have "leaf_write_kv key val off (off + length key) page = Inr (blit off (key @ val) page)"
    by (rule leaf_write_kv_blit)
  moreover have "e - length key - length val = off" "\<not> e < length key + length val" using assms(2) by auto
  ultimately show ?thesis
    using leaf_slots_decode(2,5) [OF assms(1)] by (simp add: leaf_append_kv_def Let_def)
qed

text \<open>The metadata array of a page whose header is known.\<close>

lemma leaf_entries_ref_len:
  assumes "range_of 0 24 page = triple_bytes X a (of_nat n) c" "24 + leaf_meta_size * n \<le> length page" "n < 2 ^ 63"
  shows "\<exists>es. leaf_entries_ref X page = Inr es \<and> length es = n"
proof -
  have "num_pairs (leaf_header_of_bytes X page) = n"
    using leaf.triple_fields [OF assms(1)] assms(3)
    by (simp add: num_pairs_def leaf_header_of_bytes_def leaf_header_new_def unat_of_nat_small)
  then show ?thesis
    using assms(2)
    by (auto simp: leaf_entries_ref_def leaf_from_page_def Let_def leaf_header_size_def mult.commute)
qed

text \<open>A page that holds the updated records stands for the updated pairs.\<close>

lemma leaf_upserted:
  assumes "leaf_slots q ms e" "list_all (entry_in e (length q)) ms" "sorted_wrt apart ms"
    and "map (pair_of q) ms = upsert key val ps" "sorted_wrt (<) (map fst ps)"
  shows "leaf_wf X q \<and> leaf_pairs X q = upsert key val ps"
proof -
  have "map (fst \<circ> pair_of q) ms = map fst (upsert key val ps)"
    using assms(4) by (metis map_map)
  then have "sorted_wrt (<) (map (fst \<circ> pair_of q) ms)"
    using sorted_upsert [OF assms(5)] by simp
  with assms show ?thesis
    using leaf_slots_decode(8) [OF assms(1)] by (auto simp: leaf_wf_iff)
qed

lemma leaf_insert_new_pairs:
  assumes s: "leaf_slots page ms e" "list_all (entry_in e (length page)) ms" "sorted_wrt apart ms"
      "sorted_wrt (<) (map (fst \<circ> pair_of page) ms)"
    and i: "i \<le> length ms" "\<And>j. j < i \<Longrightarrow> fst (pair_of page (ms ! j)) < key"
      "\<And>j. i \<le> j \<Longrightarrow> j < length ms \<Longrightarrow> key < fst (pair_of page (ms ! j))"
    and fits: "24 + leaf_meta_size * Suc (length ms) + length key + length val \<le> e"
  shows "\<exists>q. leaf_insert_new_kv X i key val page = Inr q \<and> length q = length page \<and> leaf_wf X q
    \<and> leaf_pairs X q = upsert key val (map (pair_of page) ms)"
proof -
  define off d n where "off = e - length key - length val" and "d = key @ val" and "n = length ms"
  define m where "m = leaf_meta_new (length key) off (length val) (off + length key)"
  define p1 where "p1 = blit off d page"
  define h where "h = blit 0 (triple_bytes X (node_kind_code LeafKind) (of_nat (Suc n)) (of_nat off)) p1"
  define moved where
    "moved = blit (24 + leaf_meta_size * Suc i) (range_of (24 + leaf_meta_size * i) (leaf_meta_size * (n - i)) h) h"
  define q where "q = blit (24 + leaf_meta_size * i) (leaf_meta_bytes X m) moved"
  have off: "24 + leaf_meta_size * Suc n \<le> off" "off + length d = e"
    using fits by (simp_all add: off_def d_def n_def)
  have len: "e \<le> length page" "length page < 2 ^ 63" using s(1) by (simp_all add: slotted_def)
  note ins = leaf.slotted_insert [OF s(1) i(1) off(1) [unfolded n_def] off(2) h_def [unfolded n_def p1_def]
      moved_def [unfolded n_def] q_def]
  have p1: "leaf_slots p1 ms e"
    unfolding p1_def using off len by (intro leaf.slotted_data [OF s(1)]) (simp_all add: n_def)
  have "leaf_append_kv X key val page = Inr (off, off + length key, p1)"
    using leaf_append_slots [OF s(1), of off key val] off(2) by (simp add: p1_def d_def)
  moreover have "leaf_header_bytes X ((leaf_header_of_bytes X p1)\<lparr>lh_num_pairs := of_nat (Suc n),
        lh_kv_pairs_end_offset := of_nat off\<rparr>) = triple_bytes X (node_kind_code LeafKind) (of_nat (Suc n)) (of_nat off)"
    by (simp add: leaf_slots_decode(4) [OF p1] leaf_header_new_def leaf_header_bytes_def)
  ultimately have step: "leaf_insert_new_kv X i key val page = leaf_insert_metadata X i n m h"
    using leaf_slots_decode(2) [OF p1]
    by (simp add: leaf_insert_new_kv_def leaf_slots_decode(3) [OF s(1)] Let_def h_def m_def n_def)
  have n63: "Suc n < 2 ^ 63" using off len by (simp add: leaf_meta_size_def)
  have room: "24 + leaf_meta_size * Suc n \<le> length page" using off len by simp
  obtain es where es: "leaf_entries_ref X h = Inr es" "length es = Suc n"
    using leaf_entries_ref_len [OF ins(6) _ n63 [unfolded n_def]] room ins(3) by (auto simp: n_def)
  obtain es' where es': "leaf_entries_ref X moved = Inr es'" "length es' = Suc n"
    using leaf_entries_ref_len [OF ins(7) [unfolded ins(6)] _ n63 [unfolded n_def]] room ins(4)
    by (auto simp: n_def)
  have res: "leaf_insert_new_kv X i key val page = Inr q"
    using i(1) es es'
    by (simp add: step leaf_insert_metadata_def Let_def leaf_header_size_def leaf_set_entry_def moved_def q_def n_def)
  have q_len: "length q = length page" by (rule ins(2))
  have fit_d: "off + length d \<le> length page" using off(2) len by simp
  have "range_of off (length d) q = d"
    unfolding ins(5) [OF order_refl] by (rule range_of_blit_same [OF fit_d refl])
  then have written: "pair_of q m = (key, val)" "extent_end m = e" "key_offset m = off"
      "value_offset m = off + length key" "key_size m = length key"
    unfolding m_def using pair_of_written [of off key val q] off(2) fit_d q_len len by (simp_all add: d_def)
  have in_page: "entry_in e (length page) x" if "x \<in> set ms" for x
    using s(2) that by (simp add: list_all_iff)
  have "range_of a k q = range_of a k page" if "e \<le> a" for a k
    using that off(2) by (simp add: ins(5) range_of_disjoint [OF fit_d])
  then have same: "pair_of q x = pair_of page x" if "x \<in> set ms" for x
    by (rule pair_of_frame [OF in_page [OF that]]) (use in_page [OF that] in \<open>simp add: entry_in_def\<close>)
  let ?ms = "take i ms @ m # drop i ms"
  have all: "list_all (entry_in off (length q)) ?ms"
    using in_page written len off(2)
    by (auto simp: list_all_iff entry_in_def q_len d_def dest!: in_set_takeD in_set_dropD)
      (use in_page in \<open>fastforce simp: entry_in_def\<close>)+
  have sep: "sorted_wrt apart ?ms"
  proof -
    have "sorted_wrt apart (take i ms @ drop i ms)" using s(3) by simp
    moreover have "apart m x" "apart x m" if "x \<in> set ms" for x
      using in_page [OF that] written(2) by (auto simp: apart_def entry_in_def)
    ultimately show ?thesis
      by (auto simp: sorted_wrt_append dest: in_set_takeD in_set_dropD simp del: append_take_drop_id)
  qed
  have pairs: "map (pair_of q) ?ms = upsert key val (map (pair_of page) ms)"
  proof -
    have "map (pair_of q) ?ms = take i (map (pair_of page) ms) @ (key, val) # drop i (map (pair_of page) ms)"
      using same written(1) by (auto simp: take_map drop_map dest: in_set_takeD in_set_dropD)
    also have "\<dots> = upsert key val (map (pair_of page) ms)"
      using i by (intro upsert_at_insert [symmetric]) simp_all
    finally show ?thesis .
  qed
  have "leaf_wf X q \<and> leaf_pairs X q = upsert key val (map (pair_of page) ms)"
    using leaf_upserted [OF ins(1) all sep pairs] s(4) by simp
  with res q_len show ?thesis by blast
qed

text \<open>Overwriting entry \<open>i\<close>: the pair goes to \<open>off\<close>, away from all other entries.\<close>

lemma leaf_replaced:
  assumes s: "leaf_slots p ms e" "leaf_slots page ms e0" "list_all (entry_in e0 (length page)) ms" "sorted_wrt apart ms"
      "sorted_wrt (<) (map (fst \<circ> pair_of page) ms)"
    and i: "i < length ms" "fst (pair_of page (ms ! i)) = key"
    and p: "length p = length page" "e \<le> e0" "e \<le> off" "off + length key + length val \<le> length p"
      "range_of off (length key + length val) p = key @ val"
    and same: "\<And>j. j < length ms \<Longrightarrow> j \<noteq> i \<Longrightarrow> pair_of p (ms ! j) = pair_of page (ms ! j)
      \<and> (extent_end (ms ! j) \<le> off \<or> off + length key + length val \<le> key_offset (ms ! j))"
  shows "\<exists>q. leaf_set_entry X i (leaf_meta_new (length key) off (length val) (off + length key)) p = Inr q
    \<and> length q = length page \<and> leaf_wf X q \<and> leaf_pairs X q = upsert key val (map (pair_of page) ms)"
proof -
  define m where "m = leaf_meta_new (length key) off (length val) (off + length key)"
  define q where "q = blit (24 + leaf_meta_size * i) (leaf_meta_bytes X m) p"
  have bound: "24 + leaf_meta_size * length ms \<le> e" "length p < 2 ^ 63" using s(1) by (simp_all add: slotted_def)
  have "leaf_meta_size * Suc i \<le> leaf_meta_size * length ms" using i(1) by (intro mult_le_mono2) simp
  then have q_len: "length q = length page"
    using bound p s(1) by (simp add: q_def slotted_def)
  note set = leaf.slotted_set [OF s(1) i(1), where m = m, folded q_def]
  have written: "pair_of p m = (key, val)" "extent_end m = off + length key + length val" "key_offset m = off"
      "value_offset m = off + length key" "key_size m = length key"
    unfolding m_def using pair_of_written [OF p(4) bound(2) p(5)] by simp_all
  have keep: "pair_of q x = pair_of p x" if "entry_in e (length p) x" for x
    by (rule pair_of_frame [OF that]) (use that bound in \<open>simp add: set(2) entry_in_def\<close>)
  have m_in: "entry_in e (length p) m" using written p by (simp add: entry_in_def)
  have old_in: "entry_in e (length p) (ms ! j)" if "j < length ms" for j
    using s(3) that p(1,2) by (auto simp: list_all_length entry_in_def)
  have "list_all (entry_in e (length q)) (ms[i := m])"
    using old_in m_in p(1) q_len i(1) by (auto simp: list_all_length nth_list_update)
  moreover have "sorted_wrt apart (ms[i := m])"
    using s(4) same written i(1) by (auto simp: sorted_wrt_iff_nth_less nth_list_update apart_def)
  moreover have "map (pair_of q) (ms[i := m]) = upsert key val (map (pair_of page) ms)"
  proof -
    have "map (pair_of q) (ms[i := m]) = (map (pair_of page) ms)[i := (key, val)]"
      using keep [OF m_in] keep [OF old_in] same written(1) i(1)
      by (intro nth_equalityI) (auto simp: nth_list_update)
    also have "\<dots> = upsert key val (map (pair_of page) ms)"
      using s(5) i by (intro upsert_at_update [symmetric]) simp_all
    finally show ?thesis .
  qed
  ultimately have "leaf_wf X q \<and> leaf_pairs X q = upsert key val (map (pair_of page) ms)"
    using leaf_upserted [OF set(1)] s(5) by simp
  moreover have "leaf_set_entry X i m p = Inr q"
    unfolding q_def by (rule leaf_set_entry_slots [OF s(1) i(1)])
  ultimately show ?thesis
    using q_len by (auto simp: m_def)
qed

lemma leaf_insert_existing_pairs:
  assumes s: "leaf_slots page ms e" "list_all (entry_in e (length page)) ms" "sorted_wrt apart ms"
      "sorted_wrt (<) (map (fst \<circ> pair_of page) ms)"
    and i: "i < length ms" "fst (pair_of page (ms ! i)) = key"
    and fits: "24 + leaf_meta_size * length ms + length key + length val \<le> e"
  shows "\<exists>q. leaf_insert_existing_kv X i key val page = Inr q \<and> length q = length page \<and> leaf_wf X q
    \<and> leaf_pairs X q = upsert key val (map (pair_of page) ms)"
proof -
  define old where "old = ms ! i"
  have len: "e \<le> length page" "length page < 2 ^ 63" "24 + leaf_meta_size * length ms \<le> e"
    using s(1) by (simp_all add: slotted_def)
  have in_page: "entry_in e (length page) (ms ! j)" if "j < length ms" for j
    using s(2) that by (simp add: list_all_length)
  have old_in: "e \<le> key_offset old" "extent_end old \<le> length page"
    using in_page [OF i(1)] by (simp_all add: old_def entry_in_def)
  have size: "kv_size old = Inr (key_size old + value_size old)"
    using old_in(2) len(2) by (simp add: kv_size_def extent_end_def)
  have away: "apart old (ms ! j)" if "j < length ms" "j \<noteq> i" for j
    using s(3) that i(1) apart_sym unfolding old_def sorted_wrt_iff_nth_less by (metis linorder_neqE_nat)
  show ?thesis
  proof (cases "length key + length val \<le> key_size old + value_size old")
    case True
    define off where "off = key_offset old"
    define p where "p = blit off (key @ val) page"
    have fit: "off + length key + length val \<le> length page"
      using True old_in(2) by (simp add: off_def extent_end_def)
    have p: "leaf_slots p ms e" "length p = length page"
      unfolding p_def using old_in(1) len fit by (auto intro!: leaf.slotted_data [OF s(1)] simp: off_def)
    have "leaf_insert_existing_kv X i key val page =
        leaf_set_entry X i (leaf_meta_new (length key) off (length val) (off + length key)) p"
      using i(1) size True leaf_write_kv_blit [OF fit]
      by (simp add: leaf_insert_existing_kv_def leaf_slots_decode(3) [OF s(1)] index_at_def old_def [symmetric] Let_def
          off_def [symmetric] p_def)
    moreover have "range_of off (length key + length val) p = key @ val"
      unfolding p_def using fit by (intro range_of_blit_same) simp_all
    moreover have "pair_of p (ms ! j) = pair_of page (ms ! j)
        \<and> (extent_end (ms ! j) \<le> off \<or> off + length key + length val \<le> key_offset (ms ! j))"
      if j: "j < length ms" "j \<noteq> i" for j
    proof -
      have gap: "extent_end (ms ! j) \<le> off \<or> off + length key + length val \<le> key_offset (ms ! j)"
        using away [OF j] True by (auto simp: apart_def extent_end_def off_def)
      then have "pair_of p (ms ! j) = pair_of page (ms ! j)"
        by (intro pair_of_frame [OF in_page [OF j(1)]])
          (use fit in \<open>auto simp: p_def intro!: range_of_disjoint\<close>)
      with gap show ?thesis by blast
    qed
    ultimately show ?thesis
      using leaf_replaced [OF p(1) s i p(2) order_refl] old_in(1) fit p(2) by (simp add: off_def)
  next
    case False
    define off where "off = e - length key - length val"
    define p where "p = blit 0 (triple_bytes X (node_kind_code LeafKind) (of_nat (length ms)) (of_nat off))
      (blit off (key @ val) page)"
    have off: "24 + leaf_meta_size * length ms \<le> off" "off + length (key @ val) = e"
      using fits by (simp_all add: off_def)
    have b: "leaf_slots (blit off (key @ val) page) ms e"
      using off len by (intro leaf.slotted_data [OF s(1)]) simp_all
    have p: "leaf_slots p ms off" "length p = length page"
      unfolding p_def using leaf.slotted_append [OF s(1) off] off len by simp_all
    have fit: "off + length (key @ val) \<le> length page" using off len by simp
    have above: "range_of a n p = range_of a n (blit off (key @ val) page)" if "off \<le> a" for a n
      unfolding p_def using that off fit by (intro range_of_disjoint) simp_all
    have "leaf_header_bytes X ((leaf_header_of_bytes X (blit off (key @ val) page))
        \<lparr>lh_kv_pairs_end_offset := of_nat off\<rparr>)
        = triple_bytes X (node_kind_code LeafKind) (of_nat (length ms)) (of_nat off)"
      by (simp add: leaf_slots_decode(4) [OF b] leaf_header_new_def leaf_header_bytes_def)
    then have "leaf_insert_existing_kv X i key val page =
        leaf_set_entry X i (leaf_meta_new (length key) off (length val) (off + length key)) p"
      using i(1) size False leaf_append_slots [OF s(1), of off key val] off(2) leaf_slots_decode(2) [OF b]
      by (simp add: leaf_insert_existing_kv_def leaf_slots_decode(3) [OF s(1)] index_at_def old_def [symmetric] p_def)
    moreover have "range_of off (length key + length val) p = key @ val"
      using above [OF order_refl] range_of_blit_same [OF fit refl] by simp
    moreover have "pair_of p (ms ! j) = pair_of page (ms ! j)
        \<and> (extent_end (ms ! j) \<le> off \<or> off + length key + length val \<le> key_offset (ms ! j))"
      if j: "j < length ms" "j \<noteq> i" for j
    proof
      have e: "e \<le> key_offset (ms ! j)" using in_page [OF j(1)] by (simp add: entry_in_def)
      then show "extent_end (ms ! j) \<le> off \<or> off + length key + length val \<le> key_offset (ms ! j)"
        using off(2) by simp
      show "pair_of p (ms ! j) = pair_of page (ms ! j)"
        using e off(2) by (intro pair_of_frame [OF in_page [OF j(1)]]) (simp add: above range_of_disjoint [OF fit])
    qed
    ultimately show ?thesis
      using leaf_replaced [OF p(1) s i p(2) _ order_refl] off fit p(2) by simp
  qed
qed

lemma leaf_insert_pairs:
  assumes "leaf_wf X page" "leaf_fits X page key val = Inr True"
  shows "\<exists>q. leaf_insert X key val page = Inr q \<and> length q = length page \<and> leaf_wf X q
    \<and> leaf_pairs X q = upsert key val (leaf_pairs X page)"
proof -
  obtain ms e where s: "leaf_slots page ms e" "list_all (entry_in e (length page)) ms" "sorted_wrt apart ms"
      "sorted_wrt (<) (map (fst \<circ> pair_of page) ms)"
    using assms(1) by (auto simp: leaf_wf_iff)
  note d = leaf_slots_decode [OF s(1)]
  have fits: "24 + leaf_meta_size * Suc (length ms) + length key + length val \<le> e"
    using assms(2) d(2,5,6) by (auto simp: leaf_fits_def leaf_header_size_def Let_def mult.commute split: if_splits)
  define lp where "lp = \<lparr>lp_header = leaf_header_of_bytes X page, lp_entries = ms, lp_page = page\<rparr>"
  have from_page: "leaf_from_page X page = Inr lp" using d(1) by (simp add: lp_def)
  from leaf_search [OF s(1,2,4) lp_def, of key] show ?thesis
  proof (elim disjE exE conjE)
    fix i
    assume i: "leaf_search_entry_index lp key = Inr (Found i)" "i < length ms" "fst (pair_of page (ms ! i)) = key"
    have "24 + leaf_meta_size * length ms + length key + length val \<le> e" using fits by simp
    from leaf_insert_existing_pairs [OF s i(2,3) this] show ?thesis
      using i(1) from_page d(8) by (simp add: leaf_insert_def)
  next
    fix i
    assume i: "leaf_search_entry_index lp key = Inr (NotFound i)" "i \<le> length ms"
      "\<forall>j < i. fst (pair_of page (ms ! j)) < key"
      "\<forall>j. i \<le> j \<longrightarrow> j < length ms \<longrightarrow> key < fst (pair_of page (ms ! j))"
    from leaf_insert_new_pairs [OF s i(2) _ _ fits] i(3,4) show ?thesis
      using i(1) from_page d(8) by (simp add: leaf_insert_def)
  qed
qed

section \<open>Building and splitting\<close>

text \<open>A partly built page: the records so far and their data, no header yet.\<close>

definition building :: "bytes \<Rightarrow> leaf_meta list \<Rightarrow> nat \<Rightarrow> bool" where
  "building page ms kc \<longleftrightarrow>
     24 + leaf_meta_size * length ms \<le> kc \<and> kc \<le> length page \<and> length page < 2 ^ 63
     \<and> range_of 24 (leaf_meta_size * length ms) page = array_bytes (leaf_meta_bytes X) ms
     \<and> list_all (entry_in kc (length page)) ms \<and> sorted_wrt apart ms"

lemma build_step:
  assumes b: "building page ms kc" and room: "24 + leaf_meta_size * Suc (length ms) + length key + length val \<le> kc"
    and off: "off = kc - length val - length key"
    and m: "m = leaf_meta_new (length key) off (length val) (off + length key)"
    and q: "q = blit (24 + leaf_meta_size * length ms) (leaf_meta_bytes X m) (blit off (key @ val) page)"
  shows "building q (ms @ [m]) off" "length q = length page" "pair_of q m = (key, val)"
    "\<And>x. x \<in> set ms \<Longrightarrow> pair_of q x = pair_of page x"
proof -
  note b = b [unfolded building_def]
  let ?p = "blit off (key @ val) page"
  have kc: "off + length (key @ val) = kc" "24 + leaf_meta_size * Suc (length ms) \<le> off"
    using room by (simp_all add: off)
  have fit: "off + length (key @ val) \<le> length page" using kc(1) b by simp
  have mfit: "24 + leaf_meta_size * length ms + length (leaf_meta_bytes X m) \<le> length ?p"
    using kc fit by simp
  show q_len: "length q = length page" using mfit fit by (simp add: q)
  have above: "range_of a n q = range_of a n ?p" if "off \<le> a" for a n
    unfolding q using that kc(2) by (intro range_of_disjoint [OF mfit]) simp
  have "range_of off (length (key @ val)) q = key @ val"
    using above [OF order_refl] range_of_blit_same [OF fit refl] by simp
  then have written: "pair_of q m = (key, val)" "extent_end m = kc" "key_offset m = off"
      "value_offset m = off + length key" "key_size m = length key"
    unfolding m using pair_of_written [of off key val q] kc fit q_len b by simp_all
  then show "pair_of q m = (key, val)" by simp
  have in_page: "entry_in kc (length page) x" if "x \<in> set ms" for x
    using b that by (simp add: list_all_iff)
  show "pair_of q x = pair_of page x" if "x \<in> set ms" for x
    by (rule pair_of_frame [OF in_page [OF that]])
      (use in_page [OF that] kc(1) in \<open>simp add: entry_in_def above range_of_disjoint [OF fit]\<close>)
  have "range_of 24 (leaf_meta_size * length ms) q = array_bytes (leaf_meta_bytes X) ms"
    using b kc(2) by (simp add: q range_of_disjoint [OF mfit] range_of_disjoint [OF fit])
  moreover have "range_of (24 + leaf_meta_size * length ms) leaf_meta_size q = leaf_meta_bytes X m"
    unfolding q by (rule range_of_blit_same [OF mfit]) simp
  ultimately have "range_of 24 (leaf_meta_size * length ms + leaf_meta_size) q
      = array_bytes (leaf_meta_bytes X) (ms @ [m])"
    by (simp add: range_of_append)
  moreover have "list_all (entry_in off (length q)) (ms @ [m])"
    using in_page written kc b by (fastforce simp: list_all_iff entry_in_def q_len)
  moreover have "sorted_wrt apart (ms @ [m])"
    using b in_page written(2) by (auto simp: sorted_wrt_append apart_def entry_in_def)
  ultimately show "building q (ms @ [m]) off"
    using b kc q_len by (simp add: building_def add.commute)
qed

end

text \<open>The space that a list of pairs takes on a page besides the header.\<close>

definition pair_space :: "(bytes \<times> bytes) list \<Rightarrow> nat" where
  "pair_space es = sum_list (map (\<lambda>(k, v). leaf_meta_size + length k + length v) es)"

text \<open>The gap between the records and the data; an insertion fits when the gap takes it.\<close>

definition leaf_free :: "kv_crates \<Rightarrow> bytes \<Rightarrow> nat" where
  "leaf_free X page =
     (let h = leaf_header_of_bytes X page
      in kv_pairs_end_offset h - (leaf_header_size + leaf_meta_size * num_pairs h))"

lemma pair_space_simps [simp]:
  "pair_space [] = 0" "pair_space ((k, v) # es) = leaf_meta_size + length k + length v + pair_space es"
  "pair_space (es @ fs) = pair_space es + pair_space fs"
  by (simp_all add: pair_space_def)

context zerocopy_le
begin

lemma build_loop_pairs:
  assumes "building page ms kc" "24 + leaf_meta_size * length ms + pair_space es \<le> kc"
  shows "\<exists>kc' q ns. leaf_build_loop X es (24 + leaf_meta_size * length ms) kc page = Inr (kc', q)
    \<and> building q (ms @ ns) kc' \<and> length q = length page \<and> map (pair_of q) ns = es
    \<and> map (pair_of q) ms = map (pair_of page) ms
    \<and> kc' + pair_space es = kc + leaf_meta_size * length es"
  using assms
proof (induction es arbitrary: page ms kc)
  case Nil
  then show ?case by (auto intro: exI [of _ "[]"])
next
  case (Cons kv es)
  obtain key val where kv: "kv = (key, val)" by (cases kv)
  define off where "off = kc - length val - length key"
  define m where "m = leaf_meta_new (length key) off (length val) (off + length key)"
  define q where "q = blit (24 + leaf_meta_size * length ms) (leaf_meta_bytes X m) (blit off (key @ val) page)"
  have room: "24 + leaf_meta_size * Suc (length ms) + length key + length val \<le> kc"
    using Cons.prems(2) kv by simp
  note step = build_step [OF Cons.prems(1) room off_def m_def q_def]
  have kc: "kc \<le> length page" using Cons.prems(1) by (simp add: building_def)
  have off: "off + length key + length val = kc" "kc - length val = off + length key"
      "kc - length key - length val = off"
    using room by (auto simp: off_def)
  have "leaf_build_loop X (kv # es) (24 + leaf_meta_size * length ms) kc page
      = leaf_build_loop X es (24 + leaf_meta_size * length (ms @ [m])) off q"
  proof -
    have w1: "write_data_at_offset page val (kc - length val) = Inr (blit (off + length key) val page)"
      using off kc by (simp add: write_data_at_offset_def)
    have w2: "write_data_at_offset (blit (off + length key) val page) key (kc - length val - length key)
        = Inr (blit off (key @ val) page)"
      using off kc blit_blit_before [of off key val page]
      by (simp add: write_data_at_offset_def off_def [symmetric])
    have w3: "write_prefix_at (blit off (key @ val) page) (leaf_meta_bytes X m) (24 + leaf_meta_size * length ms) = Inr q"
      using off kc room by (simp add: write_prefix_at_def q_def)
    have "\<not> kc < length key + length val" "\<not> 24 + leaf_meta_size * length ms + leaf_meta_size > off"
      using room off by simp_all
    then show ?thesis
      using w1 w2 w3 off by (simp add: kv Let_def off_def [symmetric] m_def [symmetric] ac_simps)
  qed
  moreover have "24 + leaf_meta_size * length (ms @ [m]) + pair_space es \<le> off"
    using Cons.prems(2) off kv by simp
  ultimately obtain kc' r ns where ih:
      "leaf_build_loop X (kv # es) (24 + leaf_meta_size * length ms) kc page = Inr (kc', r)"
      "building r ((ms @ [m]) @ ns) kc'" "length r = length q" "map (pair_of r) ns = es"
      "map (pair_of r) (ms @ [m]) = map (pair_of q) (ms @ [m])"
      "kc' + pair_space es = off + leaf_meta_size * length es"
    using Cons.IH [OF step(1)] by auto
  have "map (pair_of q) ms = map (pair_of page) ms" using step(4) by simp
  with ih step(2,3) kv off(1) show ?case
    by (intro exI [of _ kc'] exI [of _ r] exI [of _ "m # ns"]) auto
qed

lemma leaf_build_pairs:
  assumes "24 + pair_space es \<le> length page" "length page < 2 ^ 63" "sorted_wrt (<) (map fst es)"
  shows "\<exists>q. leaf_build_entries_at_buf X es page = Inr q \<and> length q = length page \<and> leaf_wf X q
    \<and> leaf_pairs X q = es \<and> leaf_free X q + pair_space es + 24 = length page"
proof -
  have "building page [] (length page)"
    using assms(1,2) by (simp add: building_def)
  from build_loop_pairs [OF this, of es] assms(1) obtain kc p ms where p:
      "leaf_build_loop X es 24 (length page) page = Inr (kc, p)" "building p ms kc" "length p = length page"
      "map (pair_of p) ms = es" "kc + pair_space es = length page + leaf_meta_size * length es"
    by auto
  note b = p(2) [unfolded building_def]
  define q where "q = blit 0 (triple_bytes X (node_kind_code LeafKind) (of_nat (length es)) (of_nat kc)) p"
  have n: "length ms = length es" using p(4) by auto
  have fit: "0 + length (triple_bytes X (node_kind_code LeafKind) (of_nat (length es)) (of_nat kc)) \<le> length p"
    using b by simp
  have above: "range_of a k q = range_of a k p" if "24 \<le> a" for a k
    unfolding q_def using that by (intro range_of_disjoint [OF fit]) simp
  have q_len: "length q = length page" unfolding q_def using fit p(3) by simp
  have "range_of 0 24 q = triple_bytes X (node_kind_code LeafKind) (of_nat (length ms)) (of_nat kc)"
    unfolding q_def n using fit by (intro range_of_blit_same) simp_all
  then have slots: "leaf_slots q ms kc"
    using b q_len p(3) above by (simp add: slotted_def)
  have "pair_of q x = pair_of p x" if "x \<in> set ms" for x
  proof (rule pair_of_frame [of kc])
    show x: "entry_in kc (length p) x" using b that by (simp add: list_all_iff)
    show "range_of a k q = range_of a k p" if "key_offset x \<le> a" for a k
      using above x b that by (simp add: entry_in_def)
  qed
  then have pairs: "map (pair_of q) ms = es" using p(4) by (metis map_cong)
  then have "sorted_wrt (<) (map (fst \<circ> pair_of q) ms)" using assms(3) by (metis map_map)
  then have "leaf_wf X q"
    using slots b q_len p(3) by (auto simp: leaf_wf_iff)
  moreover have "leaf_build_entries_at_buf X es page = Inr q"
    using p(1) fit
    by (simp add: leaf_build_entries_at_buf_def leaf_header_size_def write_prefix_at_def leaf_header_bytes_def
        leaf_header_new_def q_def)
  moreover have "leaf_free X q + pair_space es + 24 = length page"
    using p(5) n b leaf_slots_decode(5,6) [OF slots] by (simp add: leaf_free_def leaf_header_size_def)
  ultimately show ?thesis
    using q_len leaf_slots_decode(8) [OF slots] pairs by blast
qed

lemma leaf_fits_free:
  assumes "leaf_wf X page"
  shows "leaf_fits X page key val = Inr (pair_space [(key, val)] \<le> leaf_free X page)"
proof -
  obtain ms e where s: "leaf_slots page ms e" using assms by (auto simp: leaf_wf_iff)
  note d = leaf_slots_decode(2,5,6) [OF s]
  have "24 + leaf_meta_size * length ms \<le> e" "e < 2 ^ 63" using s by (auto simp: slotted_def)
  then show ?thesis
    using d by (auto simp: leaf_fits_def leaf_free_def leaf_header_size_def leaf_meta_size_def Let_def)
qed

lemma leaf_single_space:
  assumes "leaf_wf X page" "leaf_pairs X page = [(key, val)]"
  shows "leaf_free X page + pair_space [(key, val)] + 24 \<le> length page"
proof -
  obtain ms e where s: "leaf_slots page ms e" "list_all (entry_in e (length page)) ms"
    using assms(1) by (auto simp: leaf_wf_iff)
  note d = leaf_slots_decode(5,6,8) [OF s(1)]
  obtain m where m: "ms = [m]" "pair_of page m = (key, val)"
    using assms(2) d(3) by (auto simp: map_eq_Cons_conv)
  then have "entry_in e (length page) m" using s(2) by simp
  then have "e + length key + length val \<le> length page"
    using m(2) by (auto simp: pair_of_def entry_in_def extent_end_def range_of_def)
  moreover have "24 + leaf_meta_size * length ms \<le> e" using s(1) by (simp add: slotted_def)
  ultimately show ?thesis using d m(1) by (simp add: leaf_free_def leaf_header_size_def)
qed

lemma leaf_builder_reads:
  assumes "leaf_wf X page"
  shows "leaf_builder_from_page X page = Inr (leaf_pairs X page)"
proof -
  obtain ms e where s: "leaf_slots page ms e" "list_all (entry_in e (length page)) ms"
    using assms by (auto simp: leaf_wf_iff)
  show ?thesis
    using leaf_entries_pairs [OF s(2)] leaf_slots_decode(1,8) [OF s(1)]
    by (simp add: leaf_builder_from_page_def)
qed

end

lemma leaf_builder_insert_upsert:
  assumes "sorted_wrt (<) (map fst ps)"
  shows "leaf_builder_insert key val ps = Inr (upsert key val ps)"
proof -
  have "Inr (slice_cmp (fst p) key) = (Inr (slice_cmp (fst p) key) :: kv_error fault + ordering)" for p :: "bytes \<times> bytes"
    by simp
  from binary_search_keys [OF this assms] show ?thesis
  proof (elim disjE exE conjE)
    fix i
    assume i: "binary_search_by (\<lambda>p. Inr (slice_cmp (fst p) key) :: kv_error fault + ordering) ps = Inr (Found i)"
      "i < length ps" "fst (ps ! i) = key"
    then show ?thesis
      using upsert_at_update [OF assms i(2,3), of val] by (simp add: leaf_builder_insert_def)
  next
    fix i
    assume i: "binary_search_by (\<lambda>p. Inr (slice_cmp (fst p) key) :: kv_error fault + ordering) ps = Inr (NotFound i)"
      "i \<le> length ps" "\<forall>j < i. fst (ps ! j) < key" "\<forall>j. i \<le> j \<longrightarrow> j < length ps \<longrightarrow> key < fst (ps ! j)"
    then show ?thesis
      using upsert_at_insert [of i ps key val] by (simp add: leaf_builder_insert_def)
  qed
qed

context zerocopy_le
begin

text \<open>Pairs that do not fit make the builder panic.\<close>

lemma build_loop_overflow:
  assumes "kc < wc + pair_space es" "wc \<le> kc" "kc \<le> length page"
  shows "\<exists>msg. leaf_build_loop X es wc kc page = Inl (Panic msg)"
  using assms
proof (induction es arbitrary: wc kc page)
  case (Cons kv es)
  obtain key val where kv: "kv = (key, val)" by (cases kv)
  define off where "off = kc - length val - length key"
  show ?case
  proof (cases "length key + length val \<le> kc \<and> wc + leaf_meta_size \<le> off")
    case True
    then have off: "off + length key + length val = kc" "kc - length val = off + length key"
        "kc - length key - length val = off" by (auto simp: off_def)
    define m where "m = leaf_meta_new (length key) off (length val) (off + length key)"
    define p where "p = blit off key (blit (off + length key) val page)"
    have w1: "write_data_at_offset page val (off + length key) = Inr (blit (off + length key) val page)"
      and w2: "write_data_at_offset (blit (off + length key) val page) key off = Inr p"
      using off Cons.prems(3) by (simp_all add: write_data_at_offset_def p_def)
    have p_len: "length p = length page" using off Cons.prems(3) by (simp add: p_def)
    have w3: "write_prefix_at p (leaf_meta_bytes X m) wc = Inr (blit wc (leaf_meta_bytes X m) p)"
      using True off Cons.prems(3) p_len by (simp add: write_prefix_at_def)
    define q where "q = blit wc (leaf_meta_bytes X m) p"
    have q_len: "length q = length page" using True off Cons.prems(3) p_len by (simp add: q_def)
    have "leaf_build_loop X (kv # es) wc kc page = leaf_build_loop X es (wc + leaf_meta_size) off q"
      using True off w1 w2 w3 by (simp add: kv Let_def off_def [symmetric] m_def [symmetric] q_def)
    moreover have "\<exists>msg. leaf_build_loop X es (wc + leaf_meta_size) off q = Inl (Panic msg)"
      using Cons.prems kv off True q_len by (intro Cons.IH) auto
    ultimately show ?thesis by simp
  next
    case False
    then show ?thesis by (auto simp: kv Let_def off_def)
  qed
qed simp

lemma leaf_build_overflow:
  assumes "length page < 24 + pair_space es" "24 \<le> length page"
  shows "\<exists>msg. leaf_build_entries_at_buf X es page = Inl (Panic msg)"
  using build_loop_overflow [OF assms order_refl]
  by (auto simp: leaf_build_entries_at_buf_def leaf_header_size_def)

end

section \<open>Properties of leaf pages\<close>

text \<open>A concrete leaf page for the witnesses: two pairs on a page of 4096 bytes.\<close>

lemma test_leaf:
  "\<exists>page. leaf_build_page_at_buf le_crates [([1], [10, 11]), ([3], [12])] (replicate 4096 0) = Inr page
    \<and> leaf_wf le_crates page \<and> leaf_pairs le_crates page = [([1], [10, 11]), ([3], [12])]
    \<and> length page = 4096 \<and> leaf_free le_crates page = 4003"
  using le.leaf_build_pairs [of "[([1], [10, 11]), ([3], [12])]" "replicate 4096 0"]
  by (auto simp: leaf_build_page_at_buf_def leaf_meta_size_def)

text \<open>C22: a lookup in a leaf page finds exactly the value that the page's sorted list of pairs gives for
  the key, or nothing; it neither fails nor panics on a well-formed page.\<close>

theorem leaf_get_correct:
  assumes "zerocopy_le X" "leaf_wf X page"
  shows "and_then (leaf_from_page X page) (\<lambda>lp. leaf_get_value lp key) = Inr (map_of (leaf_pairs X page) key)"
  using zerocopy_le.leaf_get_pairs [OF assms] .

theorem leaf_get_correct_witness:
  "\<exists>page. leaf_wf le_crates page
    \<and> and_then (leaf_from_page le_crates page) (\<lambda>lp. leaf_get_value lp [3]) = Inr (Some [12])
    \<and> and_then (leaf_from_page le_crates page) (\<lambda>lp. leaf_get_value lp [2]) = Inr None"
proof -
  obtain page where p: "leaf_wf le_crates page" "leaf_pairs le_crates page = [([1], [10, 11]), ([3], [12])]"
    using test_leaf by blast
  then show ?thesis
    using leaf_get_correct [OF le.zerocopy_le_axioms p(1), of "[3]"]
      leaf_get_correct [OF le.zerocopy_le_axioms p(1), of "[2]"] by auto
qed

text \<open>C20: the in-place insertion of the leaf mutator, on every branch (new key, existing key with a pair
  that is not larger, existing key with a larger pair), turns the page into a well-formed page of the same
  size that stands for the updated sorted list.\<close>

theorem leaf_insert_correct:
  assumes "zerocopy_le X" "leaf_wf X page" "leaf_fits X page key val = Inr True"
  shows "\<exists>q. leaf_insert X key val page = Inr q \<and> length q = length page \<and> leaf_wf X q
    \<and> leaf_pairs X q = upsert key val (leaf_pairs X page)
    \<and> map_of (leaf_pairs X q) = (map_of (leaf_pairs X page))(key \<mapsto> val)"
  using zerocopy_le.leaf_insert_pairs [OF assms] by (auto simp: map_of_upsert)

theorem leaf_insert_correct_witness:
  "\<exists>page q. leaf_wf le_crates page \<and> leaf_insert le_crates [2] [13] page = Inr q
    \<and> leaf_pairs le_crates q = [([1], [10, 11]), ([2], [13]), ([3], [12])]"
proof -
  obtain page where p: "leaf_wf le_crates page" "leaf_pairs le_crates page = [([1], [10, 11]), ([3], [12])]"
      "leaf_free le_crates page = 4003"
    using test_leaf by blast
  then have "leaf_fits le_crates page [2] [13] = Inr True"
    using le.leaf_fits_free [OF p(1)] by (simp add: leaf_meta_size_def)
  from leaf_insert_correct [OF le.zerocopy_le_axioms p(1) this] p show ?thesis by auto
qed

text \<open>Writing a sorted list of pairs into a page and reading it back with the builder gives the same
  list, for every list that fits; a list that does not fit makes the builder panic.\<close>

lemma leaf_build_roundtrip:
  assumes "zerocopy_le X" "24 \<le> length page" "length page < 2 ^ 63" "sorted_wrt (<) (map fst es)"
  shows "if 24 + pair_space es \<le> length page
    then \<exists>q. leaf_build_page_at_buf X es page = Inr q \<and> length q = length page \<and> leaf_wf X q
      \<and> leaf_builder_from_page X q = Inr es
    else \<exists>msg. leaf_build_page_at_buf X es page = Inl (Panic msg)"
proof (cases "24 + pair_space es \<le> length page")
  case True
  then obtain q where q: "leaf_build_entries_at_buf X es page = Inr q" "length q = length page" "leaf_wf X q"
      "leaf_pairs X q = es"
    using zerocopy_le.leaf_build_pairs [OF assms(1) _ assms(3,4)] by blast
  with zerocopy_le.leaf_builder_reads [OF assms(1) q(3)] True show ?thesis
    by (auto simp: leaf_build_page_at_buf_def)
next
  case False
  then show ?thesis
    using zerocopy_le.leaf_build_overflow [OF assms(1) _ assms(2)] by (simp add: leaf_build_page_at_buf_def)
qed

text \<open>C21: splitting a leaf. When both halves fit, the two pages are well-formed, together hold exactly the
  pairs in order, and the separator divides their keys: everything on the left is smaller, everything on the
  right is not.\<close>

theorem leaf_split_correct:
  assumes "zerocopy_le X" "sorted_wrt (<) (map fst es)" "2 \<le> length es"
    and "length left < 2 ^ 63" "length right < 2 ^ 63"
    and "24 + pair_space (take (length es div 2) es) \<le> length left"
    and "24 + pair_space (drop (length es div 2) es) \<le> length right"
  shows "\<exists>sep l r. leaf_build_split_pages X es left right = Inr (sep, l, r)
    \<and> leaf_wf X l \<and> leaf_wf X r \<and> length l = length left \<and> length r = length right
    \<and> leaf_pairs X l @ leaf_pairs X r = es \<and> leaf_pairs X l \<noteq> [] \<and> leaf_pairs X r \<noteq> []
    \<and> (\<forall>k \<in> fst ` set (leaf_pairs X l). k < sep) \<and> (\<forall>k \<in> fst ` set (leaf_pairs X r). sep \<le> k)"
proof -
  define mid where "mid = length es div 2"
  have mid: "0 < mid" "mid < length es" using assms(3) by (auto simp: mid_def)
  have sorted: "sorted_wrt (<) (map fst (take mid es))" "sorted_wrt (<) (map fst (drop mid es))"
    using assms(2) by (simp_all add: take_map [symmetric] drop_map [symmetric] sorted_wrt_take sorted_wrt_drop)
  obtain l where l: "leaf_build_entries_at_buf X (take mid es) left = Inr l" "length l = length left" "leaf_wf X l"
      "leaf_pairs X l = take mid es"
    using zerocopy_le.leaf_build_pairs [OF assms(1) assms(6) assms(4)] sorted(1) by (auto simp: mid_def)
  obtain r where r: "leaf_build_entries_at_buf X (drop mid es) right = Inr r" "length r = length right" "leaf_wf X r"
      "leaf_pairs X r = drop mid es"
    using zerocopy_le.leaf_build_pairs [OF assms(1) assms(7) assms(5)] sorted(2) by (auto simp: mid_def)
  have drop: "drop mid es = es ! mid # drop (Suc mid) es" using mid by (simp add: Cons_nth_drop_Suc)
  have "leaf_build_split_pages X es left right = Inr (fst (es ! mid), l, r)"
    using assms(3) l(1) r(1) drop by (simp add: leaf_build_split_pages_def Let_def mid_def [symmetric])
  moreover have "\<forall>k \<in> fst ` set (take mid es). k < fst (es ! mid)"
    using assms(2) mid by (fastforce simp: in_set_conv_nth sorted_wrt_iff_nth_less)
  moreover have "\<forall>k \<in> fst ` set (drop mid es). fst (es ! mid) \<le> k"
    using sorted(2) unfolding drop by (auto simp: less_imp_le)
  ultimately show ?thesis using l r mid by auto
qed

theorem leaf_split_correct_witness:
  "\<exists>sep l r. leaf_build_split_pages le_crates [([1], [10]), ([3], [12])] (replicate 4096 0) (replicate 4096 0)
      = Inr (sep, l, r) \<and> leaf_pairs le_crates l @ leaf_pairs le_crates r = [([1], [10]), ([3], [12])]"
  using leaf_split_correct [OF le.zerocopy_le_axioms, of "[([1], [10]), ([3], [12])]" "replicate 4096 0"
      "replicate 4096 0"]
  by (auto simp: leaf_meta_size_def)

text \<open>C37: the split is by number of pairs, not by size: it panics whenever the first half of the pairs does not fit on
  its page or the second half on its own, also when another division would fit (the instance below).\<close>

theorem split_by_count_overflows:
  assumes "zerocopy_le X" "2 \<le> length es" "24 \<le> length left" "length left < 2 ^ 63" "24 \<le> length right"
    and "sorted_wrt (<) (map fst es)"
    and "length left < 24 + pair_space (take (length es div 2) es) \<or> length right < 24 + pair_space (drop (length es div 2) es)"
  shows "\<exists>msg. leaf_build_split_pages X es left right = Inl (Panic msg)"
proof -
  let ?l = "take (length es div 2) es" and ?r = "drop (length es div 2) es"
  obtain e r where r: "?r = e # r" using assms(2) by (cases ?r) auto
  show ?thesis
  proof (cases "length left < 24 + pair_space ?l")
    case True
    with zerocopy_le.leaf_build_overflow [OF assms(1) True assms(3)] assms(2) r show ?thesis
      by (auto simp: leaf_build_split_pages_def Let_def)
  next
    case False
    have "sorted_wrt (<) (map fst ?l)" using assms(6) by (simp add: take_map [symmetric] sorted_wrt_take)
    with False obtain q where "leaf_build_entries_at_buf X ?l left = Inr q"
      using zerocopy_le.leaf_build_pairs [OF assms(1), of ?l left] assms(4) by auto
    moreover obtain msg where "leaf_build_entries_at_buf X ?r right = Inl (Panic msg)"
      using zerocopy_le.leaf_build_overflow [OF assms(1) _ assms(5), of ?r] assms(7) False by blast
    ultimately show ?thesis using assms(2) r by (simp add: leaf_build_split_pages_def Let_def)
  qed
qed

theorem split_by_count_overflows_witness:
  "\<exists>es. 24 + pair_space (take 2 es) \<le> 4096 \<and> 24 + pair_space (drop 2 es) \<le> 4096
    \<and> (\<exists>msg. leaf_build_split_pages le_crates es (replicate 4096 0) (replicate 4096 0) = Inl (Panic msg))"
proof -
  let ?es = "[([1], replicate 10 0), ([2], replicate 1500 0), ([3], replicate 2600 0)] :: (bytes \<times> bytes) list"
  have "\<exists>msg. leaf_build_split_pages le_crates ?es (replicate 4096 0) (replicate 4096 0) = Inl (Panic msg)"
    by (rule split_by_count_overflows [OF le.zerocopy_le_axioms]) (simp_all add: leaf_meta_size_def)
  then show ?thesis by (intro exI [of _ ?es]) (simp add: leaf_meta_size_def)
qed

end
