(* ===== verification/Branch_Node.thy ===== *)
theory Branch_Node
  imports Slotted_Page
begin

text \<open>
  Branch pages (\<open>kv/src/btree/branch_node.rs\<close>) at the level of bytes. Entry 0 is the leftmost child, its
  key is ignored; entry \<open>i > 0\<close> is the child for the keys from its key on. The reader \<open>BranchPage\<close>, the
  rebuilding \<open>BranchBuilder\<close> with the split, and the in-place \<open>BranchPageMutator\<close>.
\<close>

section \<open>Layout\<close>

record branch_header =
  bh_node_type :: u64
  bh_num_entries :: u64
  bh_key_data_end_offset :: u64

record branch_meta =
  bm_key_size :: u64
  bm_key_offset :: u64
  bm_child_page_id :: u64
  bm_child_page_checksum :: u128

definition branch_header_new :: "u64 \<Rightarrow> u64 \<Rightarrow> branch_header" where
  "branch_header_new num_entries end_offset =
     \<lparr>bh_node_type = node_kind_code BranchKind, bh_num_entries = num_entries, bh_key_data_end_offset = end_offset\<rparr>"

definition branch_meta_new :: "nat \<Rightarrow> nat \<Rightarrow> u64 \<Rightarrow> u128 \<Rightarrow> branch_meta" where
  "branch_meta_new key_size key_offset child checksum =
     \<lparr>bm_key_size = of_nat key_size, bm_key_offset = of_nat key_offset,
      bm_child_page_id = child, bm_child_page_checksum = checksum\<rparr>"

definition branch_header_size :: nat where "branch_header_size = 24"
definition branch_meta_size :: nat where "branch_meta_size = 40"

definition branch_header_bytes :: "kv_crates \<Rightarrow> branch_header \<Rightarrow> bytes" where
  "branch_header_bytes X h = triple_bytes X (bh_node_type h) (bh_num_entries h) (bh_key_data_end_offset h)"

definition branch_header_of_bytes :: "kv_crates \<Rightarrow> bytes \<Rightarrow> branch_header" where
  "branch_header_of_bytes X bs =
     \<lparr>bh_node_type = u64_of_le X (range_of 0 8 bs), bh_num_entries = u64_of_le X (range_of 8 8 bs),
      bh_key_data_end_offset = u64_of_le X (range_of 16 8 bs)\<rparr>"

definition branch_meta_bytes :: "kv_crates \<Rightarrow> branch_meta \<Rightarrow> bytes" where
  "branch_meta_bytes X m =
     u64_to_le X (bm_key_size m) @ u64_to_le X (bm_key_offset m)
     @ u64_to_le X (bm_child_page_id m) @ u128_to_le X (bm_child_page_checksum m)"

definition branch_meta_of_bytes :: "kv_crates \<Rightarrow> bytes \<Rightarrow> branch_meta" where
  "branch_meta_of_bytes X bs =
     \<lparr>bm_key_size = u64_of_le X (range_of 0 8 bs), bm_key_offset = u64_of_le X (range_of 8 8 bs),
      bm_child_page_id = u64_of_le X (range_of 16 8 bs), bm_child_page_checksum = u128_of_le X (range_of 24 16 bs)\<rparr>"

definition bkey_size :: "branch_meta \<Rightarrow> nat" where "bkey_size m = unat (bm_key_size m)"
definition bkey_offset :: "branch_meta \<Rightarrow> nat" where "bkey_offset m = unat (bm_key_offset m)"

definition num_entries :: "branch_header \<Rightarrow> nat" where "num_entries h = unat (bh_num_entries h)"

definition key_data_end_offset :: "branch_header \<Rightarrow> nat" where
  "key_data_end_offset h = unat (bh_key_data_end_offset h)"

section \<open>Reading\<close>

record branch_page =
  bp_header :: branch_header
  bp_entries :: "branch_meta list"
  bp_page :: bytes

record branch_entry =
  be_key :: bytes
  be_child_page_id :: u64
  be_child_page_checksum :: u128

definition branch_from_page :: "kv_crates \<Rightarrow> bytes \<Rightarrow> branch_page kv_result" where
  "branch_from_page X page =
     (if length page < branch_header_size then Inl (Fail convert_error)
      else let header = branch_header_of_bytes X page in
        if length page - branch_header_size < num_entries header * branch_meta_size then Inl (Fail convert_error)
        else Inr \<lparr>bp_header = header,
               bp_entries = read_array (branch_meta_of_bytes X) branch_meta_size branch_header_size
                 (num_entries header) page,
               bp_page = page\<rparr>)"

definition branch_entry_key :: "bytes \<Rightarrow> branch_meta \<Rightarrow> bytes kv_result" where
  "branch_entry_key page m = index_range page (bkey_offset m) (bkey_size m)"

definition branch_entries :: "branch_page \<Rightarrow> branch_entry list kv_result" where
  "branch_entries bp =
     map_r (\<lambda>m. and_then (branch_entry_key (bp_page bp) m) (\<lambda>key.
       Inr \<lparr>be_key = key, be_child_page_id = bm_child_page_id m,
            be_child_page_checksum = bm_child_page_checksum m\<rparr>)) (bp_entries bp)"

text \<open>\<open>&entries[1..]\<close> panics when there is no entry.\<close>

definition entries_tail :: "'a list \<Rightarrow> 'a list kv_result" where
  "entries_tail es =
     (if es = [] then Inl (Panic ''range start index 1 out of range for slice of length 0'') else Inr (tl es))"

definition branch_search_entry_index :: "branch_page \<Rightarrow> bytes \<Rightarrow> search kv_result" where
  "branch_search_entry_index bp key =
     and_then (entries_tail (bp_entries bp)) (\<lambda>es.
     and_then (binary_search_by (\<lambda>m. and_then (branch_entry_key (bp_page bp) m) (\<lambda>k. Inr (slice_cmp k key))) es)
       (\<lambda>r. Inr (case r of Found i \<Rightarrow> Found (i + 1) | NotFound i \<Rightarrow> NotFound (i + 1))))"

definition child_index_for_key :: "branch_page \<Rightarrow> bytes \<Rightarrow> nat kv_result" where
  "child_index_for_key bp key =
     and_then (entries_tail (bp_entries bp)) (\<lambda>es.
     partition_point (\<lambda>m. and_then (branch_entry_key (bp_page bp) m) (\<lambda>k. Inr (k \<le> key))) es)"

definition child_page_id_at_index :: "branch_page \<Rightarrow> nat \<Rightarrow> u64 kv_result" where
  "child_page_id_at_index bp index =
     and_then (index_at (bp_entries bp) index) (\<lambda>m. Inr (bm_child_page_id m))"

definition child_page_id_for_key :: "branch_page \<Rightarrow> bytes \<Rightarrow> u64 kv_result" where
  "child_page_id_for_key bp key =
     and_then (child_index_for_key bp key) (\<lambda>index.
     and_then (index_at (bp_entries bp) index) (\<lambda>m. Inr (bm_child_page_id m)))"

section \<open>Building\<close>

definition branch_builder_from_page :: "kv_crates \<Rightarrow> bytes \<Rightarrow> branch_entry list kv_result" where
  "branch_builder_from_page X page = and_then (branch_from_page X page) branch_entries"

definition branch_builder_new_root :: "u64 \<Rightarrow> u128 \<Rightarrow> bytes \<Rightarrow> u64 \<Rightarrow> u128 \<Rightarrow> branch_entry list" where
  "branch_builder_new_root left_id left_checksum separator_key right_id right_checksum =
     [\<lparr>be_key = [], be_child_page_id = left_id, be_child_page_checksum = left_checksum\<rparr>,
      \<lparr>be_key = separator_key, be_child_page_id = right_id, be_child_page_checksum = right_checksum\<rparr>]"

definition branch_builder_insert ::
    "bytes \<Rightarrow> u64 \<Rightarrow> u128 \<Rightarrow> branch_entry list \<Rightarrow> branch_entry list kv_result" where
  "branch_builder_insert key child checksum entries =
     and_then (entries_tail entries) (\<lambda>es.
     and_then (binary_search_by (\<lambda>entry. Inr (slice_cmp (be_key entry) key)) es) (\<lambda>r.
       Inr (case r of
              Found index \<Rightarrow>
                entries[index + 1 := (entries ! (index + 1))\<lparr>be_child_page_id := child,
                          be_child_page_checksum := checksum\<rparr>]
            | NotFound index \<Rightarrow>
                take (index + 1) entries @
                  \<lparr>be_key = key, be_child_page_id = child, be_child_page_checksum = checksum\<rparr>
                  # drop (index + 1) entries)))"

fun branch_build_loop ::
    "kv_crates \<Rightarrow> nat \<Rightarrow> branch_entry list \<Rightarrow> nat \<Rightarrow> nat \<Rightarrow> bytes \<Rightarrow> (nat \<times> bytes) kv_result" where
  "branch_build_loop X index [] write_cursor key_data_cursor page = Inr (key_data_cursor, page)"
| "branch_build_loop X index (entry # entries) write_cursor key_data_cursor page =
     (let key = (if index = 0 then [] else be_key entry);
          metadata_end = write_cursor + branch_meta_size in
      if key_data_cursor < length key
      then Inl (Panic ''assertion failed: key_data_cursor >= key.len()'')
      else if metadata_end > key_data_cursor - length key
      then Inl (Panic ''assertion failed: metadata_end <= key_data_cursor - key.len()'')
      else
        let cursor = key_data_cursor - length key in
        and_then (write_data_at_offset page key cursor) (\<lambda>page.
        let metadata = branch_meta_new (length key) cursor (be_child_page_id entry) (be_child_page_checksum entry)
        in and_then (write_prefix_at page (branch_meta_bytes X metadata) write_cursor)
             (branch_build_loop X (index + 1) entries metadata_end cursor)))"

definition branch_build_entries_at_buf :: "kv_crates \<Rightarrow> branch_entry list \<Rightarrow> bytes \<Rightarrow> bytes kv_result" where
  "branch_build_entries_at_buf X entries page =
     and_then (branch_build_loop X 0 entries branch_header_size (length page) page) (\<lambda>(key_data_cursor, page).
       write_prefix_at page
         (branch_header_bytes X (branch_header_new (of_nat (length entries)) (of_nat key_data_cursor))) 0)"

definition branch_build_page_at_buf :: "kv_crates \<Rightarrow> branch_entry list \<Rightarrow> bytes \<Rightarrow> bytes kv_result" where
  "branch_build_page_at_buf X entries page = branch_build_entries_at_buf X entries page"

definition branch_build_split_pages ::
    "kv_crates \<Rightarrow> branch_entry list \<Rightarrow> bytes \<Rightarrow> bytes \<Rightarrow> (bytes \<times> bytes \<times> bytes) kv_result" where
  "branch_build_split_pages X entries left_page right_page =
     (if length entries < 2 then Inl (Panic ''assertion failed: self.branch_entries.len() >= 2'')
      else
        let mid = length entries div 2;
            left_entries = take mid entries; right_entries = drop mid entries in
        case right_entries of
          [] \<Rightarrow> Inl (Panic ''called Option::unwrap() on a None value'')
        | e # _ \<Rightarrow>
            and_then (branch_build_entries_at_buf X left_entries left_page) (\<lambda>left_page.
            and_then (branch_build_entries_at_buf X right_entries right_page) (\<lambda>right_page.
            Inr (be_key e, left_page, right_page))))"

section \<open>Mutating in place\<close>

definition branch_header_ref :: "kv_crates \<Rightarrow> bytes \<Rightarrow> branch_header kv_result" where
  "branch_header_ref X page =
     (if length page < branch_header_size then Inl (Fail convert_error)
      else Inr (branch_header_of_bytes X page))"

definition branch_entries_ref :: "kv_crates \<Rightarrow> bytes \<Rightarrow> branch_meta list kv_result" where
  "branch_entries_ref X page = and_then (branch_from_page X page) (\<lambda>bp. Inr (bp_entries bp))"

definition branch_set_entry :: "kv_crates \<Rightarrow> nat \<Rightarrow> branch_meta \<Rightarrow> bytes \<Rightarrow> bytes kv_result" where
  "branch_set_entry X index m page =
     and_then (branch_entries_ref X page) (\<lambda>entries.
       if index < length entries
       then Inr (blit (branch_header_size + branch_meta_size * index) (branch_meta_bytes X m) page)
       else Inl (Panic ''index out of bounds''))"

definition branch_fits :: "kv_crates \<Rightarrow> bytes \<Rightarrow> bytes \<Rightarrow> bool kv_result" where
  "branch_fits X page key =
     and_then (branch_header_ref X page) (\<lambda>header.
       if key_data_end_offset header < length key then Inr False
       else let metadata_end_offset = branch_header_size + (num_entries header + 1) * branch_meta_size in
         if metadata_end_offset \<ge> 2 ^ 64 then Inl (Panic ''attempt to multiply with overflow'')
         else Inr (metadata_end_offset \<le> key_data_end_offset header - length key))"

definition child_page_for_key :: "kv_crates \<Rightarrow> bytes \<Rightarrow> bytes \<Rightarrow> (nat \<times> u64) kv_result" where
  "child_page_for_key X page key =
     and_then (branch_from_page X page) (\<lambda>reader.
     and_then (child_index_for_key reader key) (\<lambda>child_index.
     and_then (child_page_id_at_index reader child_index) (\<lambda>child. Inr (child_index, child))))"

definition set_child_at_index :: "kv_crates \<Rightarrow> nat \<Rightarrow> u64 \<Rightarrow> u128 \<Rightarrow> bytes \<Rightarrow> bytes kv_result" where
  "set_child_at_index X index child checksum page =
     and_then (branch_entries_ref X page) (\<lambda>entries.
     and_then (index_at entries index) (\<lambda>entry.
       branch_set_entry X index
         (entry\<lparr>bm_child_page_id := child, bm_child_page_checksum := checksum\<rparr>) page))"

definition branch_append_key :: "kv_crates \<Rightarrow> bytes \<Rightarrow> bytes \<Rightarrow> (nat \<times> bytes) kv_result" where
  "branch_append_key X key page =
     and_then (branch_header_ref X page) (\<lambda>header.
       if key_data_end_offset header < length key then Inl (Panic ''attempt to subtract with overflow'')
       else let key_off = key_data_end_offset header - length key
            in and_then (write_data_at_offset page key key_off) (\<lambda>page. Inr (key_off, page)))"

definition branch_insert_metadata :: "kv_crates \<Rightarrow> nat \<Rightarrow> nat \<Rightarrow> branch_meta \<Rightarrow> bytes \<Rightarrow> bytes kv_result" where
  "branch_insert_metadata X insert_index old_num_entries new_entry page =
     and_then (branch_entries_ref X page) (\<lambda>entries.
       if insert_index > old_num_entries \<or> old_num_entries > length entries
          \<or> insert_index + 1 > length entries - (old_num_entries - insert_index)
       then Inl (Panic ''range end index out of range for slice'')
       else
         let moved = blit (branch_header_size + branch_meta_size * Suc insert_index)
               (range_of (branch_header_size + branch_meta_size * insert_index)
                  (branch_meta_size * (old_num_entries - insert_index)) page) page
         in branch_set_entry X insert_index new_entry moved)"

definition branch_insert_new_entry ::
    "kv_crates \<Rightarrow> nat \<Rightarrow> bytes \<Rightarrow> u64 \<Rightarrow> u128 \<Rightarrow> bytes \<Rightarrow> bytes kv_result" where
  "branch_insert_new_entry X insert_index key child checksum page =
     and_then (branch_entries_ref X page) (\<lambda>entries.
     let old_num_entries = length entries; new_num_entries = old_num_entries + 1 in
     and_then (branch_append_key X key page) (\<lambda>(key_off, page).
     let new_entry = branch_meta_new (length key) key_off child checksum in
     and_then (branch_header_ref X page) (\<lambda>header.
     branch_insert_metadata X insert_index old_num_entries new_entry
       (blit 0 (branch_header_bytes X (header\<lparr>bh_num_entries := of_nat new_num_entries,
          bh_key_data_end_offset := of_nat key_off\<rparr>)) page))))"

text \<open>The \<open>debug_assert!\<close> evaluates \<open>fits\<close> and passes its error on.\<close>

definition branch_insert :: "kv_crates \<Rightarrow> bytes \<Rightarrow> u64 \<Rightarrow> u128 \<Rightarrow> bytes \<Rightarrow> bytes kv_result" where
  "branch_insert X key child checksum page =
     and_then (branch_from_page X page) (\<lambda>reader.
     and_then (branch_search_entry_index reader key) (\<lambda>r.
       case r of
         Found entry_index \<Rightarrow> set_child_at_index X entry_index child checksum page
       | NotFound insert_index \<Rightarrow>
           and_then (branch_fits X page key) (\<lambda>ok.
             if ok then branch_insert_new_entry X insert_index key child checksum page
             else Inl (Panic ''assertion failed: self.fits(key)?''))))"

end
