(* ===== verification/Branch_Node_Props.thy ===== *)
theory Branch_Node_Props
  imports Branch_Node
begin

text \<open>
  Branch pages proved against what they stand for: a leftmost child and a sorted list of separator keys
  with their children. Routing of a key, replacement of a child, insertion of a separator, building and
  splitting.
\<close>

section \<open>Branch pages and what they stand for\<close>

definition bentry_in :: "nat \<Rightarrow> nat \<Rightarrow> branch_meta \<Rightarrow> bool" where
  "bentry_in e len m \<longleftrightarrow> e \<le> bkey_offset m \<and> bkey_offset m + bkey_size m \<le> len"

definition entry_of :: "bytes \<Rightarrow> branch_meta \<Rightarrow> branch_entry" where
  "entry_of page m = \<lparr>be_key = range_of (bkey_offset m) (bkey_size m) page,
     be_child_page_id = bm_child_page_id m, be_child_page_checksum = bm_child_page_checksum m\<rparr>"

definition branch_metas :: "kv_crates \<Rightarrow> bytes \<Rightarrow> branch_meta list" where
  "branch_metas X page = read_array (branch_meta_of_bytes X) branch_meta_size branch_header_size
     (num_entries (branch_header_of_bytes X page)) page"

definition branch_view :: "kv_crates \<Rightarrow> bytes \<Rightarrow> branch_entry list" where
  "branch_view X page = map (entry_of page) (branch_metas X page)"

definition branch_wf :: "kv_crates \<Rightarrow> bytes \<Rightarrow> bool" where
  "branch_wf X page \<longleftrightarrow>
     (let h = branch_header_of_bytes X page; e = key_data_end_offset h; ms = branch_metas X page
      in bh_node_type h = node_kind_code BranchKind \<and> 1 \<le> num_entries h
         \<and> branch_header_size + branch_meta_size * num_entries h \<le> e \<and> e \<le> length page \<and> length page < 2 ^ 63
         \<and> list_all (bentry_in e (length page)) ms \<and> sorted_wrt (<) (map be_key (tl (branch_view X page))))"

text \<open>The separators with their children, as an association list.\<close>

definition child_ref :: "branch_entry \<Rightarrow> u64 \<times> u128" where
  "child_ref e = (be_child_page_id e, be_child_page_checksum e)"

definition separators :: "branch_entry list \<Rightarrow> (bytes \<times> u64 \<times> u128) list" where
  "separators es = map (\<lambda>e. (be_key e, child_ref e)) (tl es)"

text \<open>The keys take no more than the data area: no space is lost, since keys are never overwritten.\<close>

definition key_space :: "branch_entry list \<Rightarrow> nat" where
  "key_space es = sum_list (map (\<lambda>e. length (be_key e)) es)"

definition branch_packed :: "kv_crates \<Rightarrow> bytes \<Rightarrow> bool" where
  "branch_packed X page \<longleftrightarrow>
     key_data_end_offset (branch_header_of_bytes X page) + key_space (branch_view X page) \<le> length page"

lemma key_space_simps [simp]:
  "key_space [] = 0" "key_space (e # es) = length (be_key e) + key_space es"
  "key_space (es @ fs) = key_space es + key_space fs"
  by (simp_all add: key_space_def)

lemma key_space_keys:
  assumes "map be_key es = map be_key fs"
  shows "key_space es = key_space fs"
proof -
  have "sum_list (map length (map be_key es)) = sum_list (map length (map be_key fs))"
    by (simp only: assms)
  then show ?thesis by (simp add: key_space_def comp_def)
qed

lemma key_space_take_drop: "key_space (take i es) + key_space (drop i es) = key_space es"
  by (metis append_take_drop_id key_space_simps(3))

text \<open>The child in charge of a key: the last one whose separator is not above it.\<close>

definition route :: "bytes \<Rightarrow> branch_entry list \<Rightarrow> nat" where
  "route key es = length (takeWhile (\<lambda>e. be_key e \<le> key) (tl es))"

sublocale zerocopy_le \<subseteq> branch: slotted_page X "branch_meta_bytes X" "branch_meta_of_bytes X" branch_meta_size
proof
  fix m :: branch_meta and bs :: bytes
  show "length (branch_meta_bytes X m) = branch_meta_size"
    by (simp add: branch_meta_bytes_def branch_meta_size_def)
  show "branch_meta_of_bytes X (branch_meta_bytes X m) = m"
    by (cases m) (simp add: branch_meta_bytes_def branch_meta_of_bytes_def range_of_def)
  show "branch_meta_bytes X (branch_meta_of_bytes X bs) = bs" if "length bs = branch_meta_size"
  proof -
    have "bs = range_of 0 8 bs @ range_of 8 8 bs @ range_of 16 8 bs @ range_of 24 16 bs"
      using that range_of_append [of 0 8 32 bs] range_of_append [of 8 8 24 bs] range_of_append [of 16 8 16 bs]
      by (simp add: branch_meta_size_def)
    then show ?thesis
      using that by (simp add: branch_meta_bytes_def branch_meta_of_bytes_def branch_meta_size_def u64_bytes u128_bytes)
  qed
  show "0 < branch_meta_size" by (simp add: branch_meta_size_def)
qed

lemma entry_of_frame:
  assumes "bentry_in e (length page) m"
    and "\<And>a n. bkey_offset m \<le> a \<Longrightarrow> range_of a n q = range_of a n page"
  shows "entry_of q m = entry_of page m"
  using assms by (simp add: entry_of_def)

lemma bmeta_new_sel:
  assumes "a < 2 ^ 63" "b < 2 ^ 63"
  shows "bkey_size (branch_meta_new a b c d) = a" "bkey_offset (branch_meta_new a b c d) = b"
    "entry_of q (branch_meta_new a b c d) = \<lparr>be_key = range_of b a q, be_child_page_id = c, be_child_page_checksum = d\<rparr>"
  using assms
  by (simp_all add: branch_meta_new_def bkey_size_def bkey_offset_def entry_of_def unat_of_nat_small)

lemma takeWhile_index:
  assumes "i \<le> length xs" "\<And>j. j < i \<Longrightarrow> P (xs ! j)" "\<And>j. i \<le> j \<Longrightarrow> j < length xs \<Longrightarrow> \<not> P (xs ! j)"
  shows "length (takeWhile P xs) = i"
proof -
  have "takeWhile P xs = take i xs"
    using assms by (intro takeWhile_eq_take_P_nth) auto
  with assms(1) show ?thesis by simp
qed

context zerocopy_le
begin

abbreviation branch_slots :: "bytes \<Rightarrow> branch_meta list \<Rightarrow> nat \<Rightarrow> bool" where
  "branch_slots page ms e \<equiv> slotted X (branch_meta_bytes X) branch_meta_size (node_kind_code BranchKind) page ms e"

lemma branch_slots_decode:
  assumes "branch_slots page ms e"
  shows "branch_from_page X page = Inr \<lparr>bp_header = branch_header_of_bytes X page, bp_entries = ms, bp_page = page\<rparr>"
    "branch_header_ref X page = Inr (branch_header_of_bytes X page)" "branch_entries_ref X page = Inr ms"
    "branch_header_of_bytes X page = branch_header_new (of_nat (length ms)) (of_nat e)"
    "key_data_end_offset (branch_header_of_bytes X page) = e" "num_entries (branch_header_of_bytes X page) = length ms"
    "branch_metas X page = ms" "branch_view X page = map (entry_of page) ms"
proof -
  note d = branch.slotted_decode [OF assms]
  show h: "key_data_end_offset (branch_header_of_bytes X page) = e"
      "num_entries (branch_header_of_bytes X page) = length ms"
    using d by (simp_all add: branch_header_of_bytes_def num_entries_def key_data_end_offset_def)
  show m: "branch_metas X page = ms"
    using d h by (simp add: branch_metas_def branch_header_size_def)
  then show "branch_view X page = map (entry_of page) ms" by (simp add: branch_view_def)
  show f: "branch_from_page X page = Inr \<lparr>bp_header = branch_header_of_bytes X page, bp_entries = ms, bp_page = page\<rparr>"
    using d h m by (auto simp: branch_from_page_def Let_def branch_header_size_def branch_metas_def mult.commute)
  show "branch_header_ref X page = Inr (branch_header_of_bytes X page)"
    using d by (simp add: branch_header_ref_def branch_header_size_def)
  show "branch_entries_ref X page = Inr ms"
    by (simp add: branch_entries_ref_def f)
  show "branch_header_of_bytes X page = branch_header_new (of_nat (length ms)) (of_nat e)"
    unfolding branch_header_of_bytes_def branch_header_new_def using d(1-3) by (simp flip: d(2,3))
qed

lemma branch_wf_iff:
  "branch_wf X page \<longleftrightarrow> (\<exists>ms e. branch_slots page ms e \<and> ms \<noteq> [] \<and> list_all (bentry_in e (length page)) ms
     \<and> sorted_wrt (<) (map be_key (tl (map (entry_of page) ms))))"
proof
  assume wf: "branch_wf X page"
  let ?h = "branch_header_of_bytes X page"
  have slots: "branch_slots page (branch_metas X page) (key_data_end_offset ?h)"
    unfolding branch_metas_def branch_header_size_def
    by (rule branch.slotted_of_decode)
      (use wf in \<open>auto simp: branch_wf_def Let_def branch_header_of_bytes_def num_entries_def
        key_data_end_offset_def branch_header_size_def\<close>)
  have "length (branch_metas X page) = num_entries ?h" by (simp add: branch_metas_def)
  then have "branch_metas X page \<noteq> []" using wf by (auto simp: branch_wf_def Let_def)
  with wf slots show "\<exists>ms e. branch_slots page ms e \<and> ms \<noteq> [] \<and> list_all (bentry_in e (length page)) ms
     \<and> sorted_wrt (<) (map be_key (tl (map (entry_of page) ms)))"
    unfolding branch_wf_def Let_def branch_view_def by blast
next
  assume "\<exists>ms e. branch_slots page ms e \<and> ms \<noteq> [] \<and> list_all (bentry_in e (length page)) ms
     \<and> sorted_wrt (<) (map be_key (tl (map (entry_of page) ms)))"
  then obtain ms e where s: "branch_slots page ms e" "ms \<noteq> []" "list_all (bentry_in e (length page)) ms"
      "sorted_wrt (<) (map be_key (tl (map (entry_of page) ms)))" by blast
  note d = branch_slots_decode [OF s(1)]
  have "bh_node_type (branch_header_of_bytes X page) = node_kind_code BranchKind"
    by (simp add: d(4) branch_header_new_def)
  moreover have "1 \<le> length ms" using s(2) by (cases ms) auto
  ultimately show "branch_wf X page"
    using s d(5-8) by (simp add: branch_wf_def Let_def slotted_def branch_header_size_def)
qed

lemma branch_wfI:
  "branch_slots page ms e \<Longrightarrow> ms \<noteq> [] \<Longrightarrow> list_all (bentry_in e (length page)) ms \<Longrightarrow>
   sorted_wrt (<) (map be_key (tl (map (entry_of page) ms))) \<Longrightarrow> branch_wf X page"
  unfolding branch_wf_iff by blast

lemma bentry_key: "bentry_in e (length page) m \<Longrightarrow> branch_entry_key page m = Inr (be_key (entry_of page m))"
  by (simp add: branch_entry_key_def index_range_def entry_of_def bentry_in_def)

section \<open>Routing\<close>

lemma child_index_route:
  assumes "ms \<noteq> []" "list_all (bentry_in e (length page)) ms"
    and "sorted_wrt (<) (map be_key (tl (map (entry_of page) ms)))"
    and bp: "bp = \<lparr>bp_header = h, bp_entries = ms, bp_page = page\<rparr>"
  shows "child_index_for_key bp key = Inr (route key (map (entry_of page) ms))"
    "route key (map (entry_of page) ms) < length ms"
proof -
  let ?key = "\<lambda>m. be_key (entry_of page m)"
  have tl_sub: "m \<in> set ms" if "m \<in> set (tl ms)" for m using that by (cases ms) auto
  have "and_then (branch_entry_key page m) (\<lambda>k. Inr (k \<le> key)) = (Inr (?key m \<le> key) :: bool kv_result)"
    if "m \<in> set (tl ms)" for m
    using assms(2) tl_sub [OF that] bentry_key [of e page m] by (simp add: list_all_iff)
  moreover have "sorted_wrt (<) (map ?key (tl ms))"
    using assms(3) by (simp add: map_tl [symmetric] comp_def)
  ultimately obtain i where i: "partition_point (\<lambda>m. and_then (branch_entry_key page m) (\<lambda>k. Inr (k \<le> key))) (tl ms)
        = (Inr i :: nat kv_result)" "i \<le> length (tl ms)" "\<forall>j < i. ?key (tl ms ! j) \<le> key"
      "\<forall>j. i \<le> j \<longrightarrow> j < length (tl ms) \<longrightarrow> key < ?key (tl ms ! j)"
    using partition_point_keys [of "tl ms" "\<lambda>m. and_then (branch_entry_key page m) (\<lambda>k. Inr (k \<le> key))" ?key key]
    by blast
  have "length (takeWhile (\<lambda>e. be_key e \<le> key) (map (entry_of page) (tl ms))) = i"
    using i by (intro takeWhile_index) (auto simp: not_le)
  then have r: "route key (map (entry_of page) ms) = i" by (simp add: route_def map_tl)
  then show "child_index_for_key bp key = Inr (route key (map (entry_of page) ms))"
    using i(1) assms(1) by (simp add: child_index_for_key_def entries_tail_def bp)
  show "route key (map (entry_of page) ms) < length ms"
    using r i(2) assms(1) by (cases ms) auto
qed

lemma branch_entries_view:
  assumes "list_all (bentry_in e (length page)) ms" "bp = \<lparr>bp_header = h, bp_entries = ms, bp_page = page\<rparr>"
  shows "branch_entries bp = Inr (map (entry_of page) ms)"
  unfolding branch_entries_def assms(2)
  using assms(1) bentry_key [of e page] by (auto intro!: map_r_total simp: list_all_iff entry_of_def)

lemma branch_route:
  assumes "branch_wf X page"
  shows "child_page_for_key X page key = Inr (route key (branch_view X page),
      be_child_page_id (branch_view X page ! route key (branch_view X page)))"
    "and_then (branch_from_page X page) (\<lambda>bp. child_page_id_for_key bp key)
      = Inr (be_child_page_id (branch_view X page ! route key (branch_view X page)))"
    "route key (branch_view X page) < length (branch_view X page)"
    "branch_builder_from_page X page = Inr (branch_view X page)"
proof -
  obtain ms e where s: "branch_slots page ms e" "ms \<noteq> []" "list_all (bentry_in e (length page)) ms"
      "sorted_wrt (<) (map be_key (tl (map (entry_of page) ms)))"
    using assms by (auto simp: branch_wf_iff)
  note d = branch_slots_decode [OF s(1)]
  note r = child_index_route [OF s(2-4) refl, where key = key]
  show "child_page_for_key X page key = Inr (route key (branch_view X page),
      be_child_page_id (branch_view X page ! route key (branch_view X page)))"
    using d(1,8) r by (simp add: child_page_for_key_def child_page_id_at_index_def index_at_def entry_of_def)
  show "and_then (branch_from_page X page) (\<lambda>bp. child_page_id_for_key bp key)
      = Inr (be_child_page_id (branch_view X page ! route key (branch_view X page)))"
    using d(1,8) r by (simp add: child_page_id_for_key_def index_at_def entry_of_def)
  show "route key (branch_view X page) < length (branch_view X page)"
    using d(8) r by simp
  show "branch_builder_from_page X page = Inr (branch_view X page)"
    using d(1,8) branch_entries_view [OF s(3) refl] by (simp add: branch_builder_from_page_def)
qed

section \<open>Replacing a child\<close>

lemma branch_set_child_view:
  assumes "branch_wf X page" "i < length (branch_view X page)"
  shows "\<exists>q. set_child_at_index X i c cs page = Inr q \<and> length q = length page \<and> branch_wf X q
    \<and> branch_view X q = (branch_view X page)[i := (branch_view X page ! i)
        \<lparr>be_child_page_id := c, be_child_page_checksum := cs\<rparr>]
    \<and> (branch_packed X page \<longrightarrow> branch_packed X q)"
proof -
  obtain ms e where s: "branch_slots page ms e" "ms \<noteq> []" "list_all (bentry_in e (length page)) ms"
      "sorted_wrt (<) (map be_key (tl (map (entry_of page) ms)))"
    using assms(1) by (auto simp: branch_wf_iff)
  note d = branch_slots_decode [OF s(1)]
  have i: "i < length ms" using assms(2) d(8) by simp
  define m where "m = (ms ! i)\<lparr>bm_child_page_id := c, bm_child_page_checksum := cs\<rparr>"
  define q where "q = blit (24 + branch_meta_size * i) (branch_meta_bytes X m) page"
  note set = branch.slotted_set [OF s(1) i, where m = m, folded q_def]
  have bound: "24 + branch_meta_size * length ms \<le> e" "e \<le> length page" using s(1) by (simp_all add: slotted_def)
  have "branch_meta_size * Suc i \<le> branch_meta_size * length ms" using i by (intro mult_le_mono2) simp
  then have q_len: "length q = length page" using bound by (simp add: q_def)
  have old_in: "bentry_in e (length page) (ms ! j)" if "j < length ms" for j
    using s(3) that by (simp add: list_all_length)
  have m_in: "bentry_in e (length page) m"
    using old_in [OF i] by (simp add: m_def bentry_in_def bkey_offset_def bkey_size_def)
  have keep: "entry_of q x = entry_of page x" if "bentry_in e (length page) x" for x
    by (rule entry_of_frame [OF that]) (use that bound in \<open>simp add: set(2) bentry_in_def\<close>)
  have view: "map (entry_of q) (ms[i := m]) = (map (entry_of page) ms)
      [i := (entry_of page (ms ! i))\<lparr>be_child_page_id := c, be_child_page_checksum := cs\<rparr>]"
  proof (rule nth_equalityI)
    show "map (entry_of q) (ms[i := m]) ! j = (map (entry_of page) ms)
        [i := (entry_of page (ms ! i))\<lparr>be_child_page_id := c, be_child_page_checksum := cs\<rparr>] ! j"
      if "j < length (map (entry_of q) (ms[i := m]))" for j
      using that keep [OF m_in] keep [OF old_in] i
      by (cases "j = i") (simp_all add: entry_of_def m_def bkey_offset_def bkey_size_def)
  qed simp
  have keys: "map be_key (map (entry_of q) (ms[i := m])) = map be_key (map (entry_of page) ms)"
    unfolding view by (rule nth_equalityI) (auto simp: nth_list_update i)
  have "sorted_wrt (<) (map be_key (tl (map (entry_of q) (ms[i := m]))))"
    using s(4) keys by (metis map_tl)
  moreover have "list_all (bentry_in e (length q)) (ms[i := m])"
    using old_in m_in q_len i by (auto simp: list_all_length nth_list_update)
  ultimately have wf: "branch_wf X q"
    using set(1) s(2) by (intro branch_wfI) simp_all
  have "set_child_at_index X i c cs page = Inr q"
    using i d(3) by (simp add: set_child_at_index_def index_at_def branch_set_entry_def q_def m_def branch_header_size_def)
  moreover have "branch_packed X page \<longrightarrow> branch_packed X q"
    using key_space_keys [OF keys] d(5,8) branch_slots_decode(5,8) [OF set(1)] q_len by (simp add: branch_packed_def)
  ultimately show ?thesis
    using wf q_len view d(8) i branch_slots_decode(8) [OF set(1)] by auto
qed

section \<open>Inserting a separator\<close>

lemma branch_entries_ref_len:
  assumes "range_of 0 24 page = triple_bytes X a (of_nat n) c" "24 + branch_meta_size * n \<le> length page" "n < 2 ^ 63"
  shows "\<exists>es. branch_entries_ref X page = Inr es \<and> length es = n"
proof -
  have "num_entries (branch_header_of_bytes X page) = n"
    using branch.triple_fields [OF assms(1)] assms(3)
    by (simp add: num_entries_def branch_header_of_bytes_def unat_of_nat_small)
  then show ?thesis
    using assms(2)
    by (auto simp: branch_entries_ref_def branch_from_page_def Let_def branch_header_size_def mult.commute)
qed

lemma branch_append_slots:
  assumes "branch_slots page ms e" "off + length key = e"
  shows "branch_append_key X key page = Inr (off, blit off key page)"
proof -
  have "off + length key \<le> length page" using assms by (simp add: slotted_def)
  moreover have "e - length key = off" "\<not> e < length key" using assms(2) by auto
  ultimately show ?thesis
    using branch_slots_decode(2,5) [OF assms(1)] by (simp add: branch_append_key_def write_data_at_offset_def Let_def)
qed

lemma branch_insert_new_view:
  assumes s: "branch_slots page ms e" "ms \<noteq> []" "list_all (bentry_in e (length page)) ms"
    and i: "i \<le> length ms" and fits: "24 + branch_meta_size * Suc (length ms) + length key \<le> e"
  shows "\<exists>q ns. branch_insert_new_entry X i key c cs page = Inr q \<and> length q = length page
    \<and> branch_slots q ns (e - length key) \<and> list_all (bentry_in (e - length key) (length q)) ns
    \<and> map (entry_of q) ns = take i (map (entry_of page) ms)
        @ \<lparr>be_key = key, be_child_page_id = c, be_child_page_checksum = cs\<rparr> # drop i (map (entry_of page) ms)"
proof -
  define off n where "off = e - length key" and "n = length ms"
  define m where "m = branch_meta_new (length key) off c cs"
  define p1 where "p1 = blit off key page"
  define h where "h = blit 0 (triple_bytes X (node_kind_code BranchKind) (of_nat (Suc n)) (of_nat off)) p1"
  define moved where
    "moved = blit (24 + branch_meta_size * Suc i) (range_of (24 + branch_meta_size * i) (branch_meta_size * (n - i)) h) h"
  define q where "q = blit (24 + branch_meta_size * i) (branch_meta_bytes X m) moved"
  have off: "24 + branch_meta_size * Suc n \<le> off" "off + length key = e"
    using fits by (simp_all add: off_def n_def)
  have len: "e \<le> length page" "length page < 2 ^ 63" using s(1) by (simp_all add: slotted_def)
  note ins = branch.slotted_insert [OF s(1) i off(1) [unfolded n_def] off(2) h_def [unfolded n_def p1_def]
      moved_def [unfolded n_def] q_def]
  have p1: "branch_slots p1 ms e"
    unfolding p1_def using off len by (intro branch.slotted_data [OF s(1)]) (simp_all add: n_def)
  have "branch_header_bytes X ((branch_header_of_bytes X p1)\<lparr>bh_num_entries := of_nat (Suc n),
        bh_key_data_end_offset := of_nat off\<rparr>) = triple_bytes X (node_kind_code BranchKind) (of_nat (Suc n)) (of_nat off)"
    by (simp add: branch_slots_decode(4) [OF p1] branch_header_new_def branch_header_bytes_def)
  then have step: "branch_insert_new_entry X i key c cs page = branch_insert_metadata X i n m h"
    using branch_slots_decode(2) [OF p1] branch_append_slots [OF s(1) off(2)]
    by (simp add: branch_insert_new_entry_def branch_slots_decode(3) [OF s(1)] Let_def h_def m_def n_def p1_def)
  have n63: "Suc n < 2 ^ 63" using off len by (simp add: branch_meta_size_def)
  have room: "24 + branch_meta_size * Suc n \<le> length page" using off len by simp
  obtain es where es: "branch_entries_ref X h = Inr es" "length es = Suc n"
    using branch_entries_ref_len [OF ins(6) _ n63 [unfolded n_def]] room ins(3) by (auto simp: n_def)
  obtain es' where es': "branch_entries_ref X moved = Inr es'" "length es' = Suc n"
    using branch_entries_ref_len [OF ins(7) [unfolded ins(6)] _ n63 [unfolded n_def]] room ins(4)
    by (auto simp: n_def)
  have res: "branch_insert_new_entry X i key c cs page = Inr q"
    using i es es'
    by (simp add: step branch_insert_metadata_def Let_def branch_header_size_def branch_set_entry_def moved_def q_def n_def)
  have fit: "off + length key \<le> length page" using off(2) len by simp
  have "range_of off (length key) q = key"
    unfolding ins(5) [OF order_refl] by (rule range_of_blit_same [OF fit refl])
  moreover have "length key < 2 ^ 63" "off < 2 ^ 63" using fit len by linarith+
  ultimately have m: "entry_of q m = \<lparr>be_key = key, be_child_page_id = c, be_child_page_checksum = cs\<rparr>"
      "bkey_offset m = off" "bkey_size m = length key"
    by (simp_all add: m_def bmeta_new_sel)
  have in_page: "bentry_in e (length page) x" if "x \<in> set ms" for x
    using s(3) that by (simp add: list_all_iff)
  have same: "entry_of q x = entry_of page x" if "x \<in> set ms" for x
    by (rule entry_of_frame [OF in_page [OF that]])
      (use in_page [OF that] off(2) in \<open>simp add: bentry_in_def ins(5) range_of_disjoint [OF fit]\<close>)
  let ?ms = "take i ms @ m # drop i ms"
  have "list_all (bentry_in off (length q)) ?ms"
    unfolding list_all_iff
  proof
    fix x
    assume "x \<in> set ?ms"
    then consider "x = m" | "x \<in> set ms" by (auto dest: in_set_takeD in_set_dropD)
    then show "bentry_in off (length q) x"
      using in_page [of x] m off(2) fit ins(2) by cases (auto simp: bentry_in_def)
  qed
  moreover have "map (entry_of q) ?ms = take i (map (entry_of page) ms)
        @ \<lparr>be_key = key, be_child_page_id = c, be_child_page_checksum = cs\<rparr> # drop i (map (entry_of page) ms)"
    using same m(1) by (auto simp: take_map drop_map dest: in_set_takeD in_set_dropD)
  ultimately show ?thesis
    using res ins(1,2) unfolding off_def by blast
qed

lemma branch_search:
  assumes "ms \<noteq> []" "list_all (bentry_in e (length page)) ms"
    and "sorted_wrt (<) (map be_key (tl (map (entry_of page) ms)))"
    and bp: "bp = \<lparr>bp_header = h, bp_entries = ms, bp_page = page\<rparr>" and es: "es = tl (map (entry_of page) ms)"
  shows "(\<exists>i. branch_search_entry_index bp key = Inr (Found (Suc i)) \<and> i < length es \<and> be_key (es ! i) = key)
    \<or> (\<exists>i. branch_search_entry_index bp key = Inr (NotFound (Suc i)) \<and> i \<le> length es
        \<and> (\<forall>j < i. be_key (es ! j) < key) \<and> (\<forall>j. i \<le> j \<longrightarrow> j < length es \<longrightarrow> key < be_key (es ! j)))"
proof -
  let ?key = "\<lambda>m. be_key (entry_of page m)"
  have es': "es = map (entry_of page) (tl ms)" by (simp add: es map_tl)
  have "and_then (branch_entry_key page m) (\<lambda>k. Inr (slice_cmp k key)) = (Inr (slice_cmp (?key m) key) :: ordering kv_result)"
    if "m \<in> set (tl ms)" for m
  proof -
    have "m \<in> set ms" using that by (cases ms) auto
    then show ?thesis using assms(2) bentry_key [of e page m] by (simp add: list_all_iff)
  qed
  moreover have "sorted_wrt (<) (map ?key (tl ms))"
    using assms(3) by (simp add: map_tl [symmetric] comp_def)
  ultimately have "(\<exists>i. binary_search_by (\<lambda>m. and_then (branch_entry_key page m) (\<lambda>k. Inr (slice_cmp k key))) (tl ms)
        = (Inr (Found i) :: search kv_result) \<and> i < length (tl ms) \<and> ?key (tl ms ! i) = key)
    \<or> (\<exists>i. binary_search_by (\<lambda>m. and_then (branch_entry_key page m) (\<lambda>k. Inr (slice_cmp k key))) (tl ms)
        = (Inr (NotFound i) :: search kv_result) \<and> i \<le> length (tl ms)
          \<and> (\<forall>j < i. ?key (tl ms ! j) < key) \<and> (\<forall>j. i \<le> j \<longrightarrow> j < length (tl ms) \<longrightarrow> key < ?key (tl ms ! j)))"
    by (rule binary_search_keys)
  then show ?thesis
    using assms(1) by (auto simp: branch_search_entry_index_def entries_tail_def bp es')
qed

lemma branch_insert_view:
  assumes "branch_wf X page" "branch_fits X page key = Inr True"
  shows "\<exists>q. branch_insert X key c cs page = Inr q \<and> length q = length page \<and> branch_wf X q
    \<and> hd (branch_view X q) = hd (branch_view X page)
    \<and> separators (branch_view X q) = upsert key (c, cs) (separators (branch_view X page))
    \<and> (branch_packed X page \<longrightarrow> branch_packed X q)"
proof -
  obtain ms e where s: "branch_slots page ms e" "ms \<noteq> []" "list_all (bentry_in e (length page)) ms"
      "sorted_wrt (<) (map be_key (tl (map (entry_of page) ms)))"
    using assms(1) by (auto simp: branch_wf_iff)
  note d = branch_slots_decode [OF s(1)]
  define es where "es = tl (map (entry_of page) ms)"
  define ps where "ps = separators (branch_view X page)"
  have ps: "ps = map (\<lambda>e. (be_key e, child_ref e)) es" by (simp add: ps_def separators_def d(8) es_def)
  have sorted: "sorted_wrt (<) (map fst ps)" using s(4) by (simp add: ps es_def comp_def)
  have view: "branch_view X page = entry_of page (hd ms) # es"
    using s(2) d(8) by (cases ms) (auto simp: es_def)
  have fits: "24 + branch_meta_size * Suc (length ms) + length key \<le> e"
    using assms(2) d(2,5,6) by (auto simp: branch_fits_def branch_header_size_def Let_def mult.commute split: if_splits)
  define bp where "bp = \<lparr>bp_header = branch_header_of_bytes X page, bp_entries = ms, bp_page = page\<rparr>"
  from branch_search [OF s(2-4) bp_def es_def, of key] show ?thesis
  proof (elim disjE exE conjE)
    fix i
    assume i: "branch_search_entry_index bp key = Inr (Found (Suc i))" "i < length es" "be_key (es ! i) = key"
    have "Suc i < length (branch_view X page)" using i(2) view by simp
    from branch_set_child_view [OF assms(1) this, of c cs] obtain q where q:
        "set_child_at_index X (Suc i) c cs page = Inr q" "length q = length page" "branch_wf X q"
        "branch_view X q = entry_of page (hd ms) # es[i := (es ! i)\<lparr>be_child_page_id := c, be_child_page_checksum := cs\<rparr>]"
        "branch_packed X page \<longrightarrow> branch_packed X q"
      using view by auto
    have "separators (branch_view X q) = ps[i := (key, c, cs)]"
      using i(2,3) by (simp add: q(4) separators_def ps map_update child_ref_def)
    also have "\<dots> = upsert key (c, cs) ps"
      using i(2,3) by (intro upsert_at_update [OF sorted, symmetric]) (simp_all add: ps)
    finally show ?thesis
      using i(1) q view d(1) by (auto simp: branch_insert_def bp_def ps_def)
  next
    fix i
    assume i: "branch_search_entry_index bp key = Inr (NotFound (Suc i))" "i \<le> length es"
      "\<forall>j < i. be_key (es ! j) < key" "\<forall>j. i \<le> j \<longrightarrow> j < length es \<longrightarrow> key < be_key (es ! j)"
    let ?new = "\<lparr>be_key = key, be_child_page_id = c, be_child_page_checksum = cs\<rparr>"
    have "Suc i \<le> length ms" using i(2) s(2) by (cases ms) (auto simp: es_def)
    from branch_insert_new_view [OF s(1-3) this fits, of c cs] obtain q ns where q:
        "branch_insert_new_entry X (Suc i) key c cs page = Inr q" "length q = length page"
        "branch_slots q ns (e - length key)" "list_all (bentry_in (e - length key) (length q)) ns"
        "map (entry_of q) ns = take (Suc i) (map (entry_of page) ms) @ ?new # drop (Suc i) (map (entry_of page) ms)"
      by blast
    have "map (entry_of page) ms = entry_of page (hd ms) # es" using view d(8) by simp
    then have q_view: "branch_view X q = entry_of page (hd ms) # take i es @ ?new # drop i es"
      using q(5) branch_slots_decode(8) [OF q(3)] by simp
    have "separators (branch_view X q) = take i ps @ (key, c, cs) # drop i ps"
      by (simp add: q_view separators_def ps take_map drop_map child_ref_def)
    also have "\<dots> = upsert key (c, cs) ps"
      using i by (intro upsert_at_insert [symmetric]) (simp_all add: ps)
    finally have sep: "separators (branch_view X q) = upsert key (c, cs) ps" .
    have "map be_key (tl (map (entry_of q) ns)) = map fst (upsert key (c, cs) ps)"
      unfolding sep [symmetric] separators_def using branch_slots_decode(8) [OF q(3)] by (simp add: comp_def)
    then have "branch_wf X q"
      using q(3,4,5) sorted_upsert [OF sorted] by (intro branch_wfI [OF q(3)]) auto
    moreover have "branch_packed X q" if "branch_packed X page"
    proof -
      have "key_space (branch_view X q) = key_space (branch_view X page) + length key"
        using key_space_take_drop [of i es] by (simp add: q_view view)
      moreover have "length key \<le> e" using fits by simp
      ultimately show ?thesis
        using that d(5) branch_slots_decode(5) [OF q(3)] q(2) by (simp add: branch_packed_def)
    qed
    ultimately show ?thesis
      using i(1) q(1,2) q_view view sep d(1) assms(2) by (auto simp: branch_insert_def bp_def ps_def)
  qed
qed

end

section \<open>Building and splitting\<close>

text \<open>The builder ignores the key of the first entry.\<close>

definition strip_first :: "branch_entry list \<Rightarrow> branch_entry list" where
  "strip_first es = (case es of [] \<Rightarrow> [] | e # es \<Rightarrow> e\<lparr>be_key := []\<rparr> # es)"

definition entry_space :: "branch_entry list \<Rightarrow> nat" where
  "entry_space es = sum_list (map (\<lambda>e. branch_meta_size + length (be_key e)) es)"

lemma entry_space_simps [simp]:
  "entry_space [] = 0" "entry_space (e # es) = branch_meta_size + length (be_key e) + entry_space es"
  by (simp_all add: entry_space_def)

lemma entry_key_space: "entry_space es = branch_meta_size * length es + key_space es"
  by (induction es) auto

lemma strip_first_simps [simp]:
  "strip_first [] = []" "strip_first (e # es) = e\<lparr>be_key := []\<rparr> # es" "length (strip_first es) = length es"
  "tl (strip_first es) = tl es"
  by (simp_all add: strip_first_def split: list.split)

lemma branch_build_loop_index: "branch_build_loop X (Suc i) es = branch_build_loop X (Suc j) es"
proof (induction es arbitrary: i j)
  case (Cons e es)
  have "branch_build_loop X (Suc (Suc i)) es = branch_build_loop X (Suc (Suc j)) es" by (rule Cons.IH)
  then show ?case by (intro ext) (simp add: Let_def)
qed (intro ext, simp)

lemma branch_build_loop_strip: "branch_build_loop X 0 es = branch_build_loop X (Suc 0) (strip_first es)"
proof (cases es)
  case (Cons e ts)
  have "branch_build_loop X (Suc 0) ts = branch_build_loop X (Suc (Suc 0)) ts"
    by (rule branch_build_loop_index)
  then show ?thesis by (intro ext) (simp add: Cons Let_def)
qed (intro ext, simp)

text \<open>The gap between the records and the keys.\<close>

definition branch_free :: "kv_crates \<Rightarrow> bytes \<Rightarrow> nat" where
  "branch_free X page =
     (let h = branch_header_of_bytes X page
      in key_data_end_offset h - (branch_header_size + branch_meta_size * num_entries h))"

context zerocopy_le
begin

definition bbuilding :: "bytes \<Rightarrow> branch_meta list \<Rightarrow> nat \<Rightarrow> bool" where
  "bbuilding page ms kc \<longleftrightarrow>
     24 + branch_meta_size * length ms \<le> kc \<and> kc \<le> length page \<and> length page < 2 ^ 63
     \<and> range_of 24 (branch_meta_size * length ms) page = array_bytes (branch_meta_bytes X) ms
     \<and> list_all (bentry_in kc (length page)) ms"

lemma bbuild_step:
  assumes b: "bbuilding page ms kc" and room: "24 + branch_meta_size * Suc (length ms) + length (be_key en) \<le> kc"
    and off: "off = kc - length (be_key en)"
    and m: "m = branch_meta_new (length (be_key en)) off (be_child_page_id en) (be_child_page_checksum en)"
    and q: "q = blit (24 + branch_meta_size * length ms) (branch_meta_bytes X m) (blit off (be_key en) page)"
  shows "bbuilding q (ms @ [m]) off" "length q = length page" "entry_of q m = en"
    "\<And>x. x \<in> set ms \<Longrightarrow> entry_of q x = entry_of page x"
proof -
  note b = b [unfolded bbuilding_def]
  let ?p = "blit off (be_key en) page"
  have kc: "off + length (be_key en) = kc" "24 + branch_meta_size * Suc (length ms) \<le> off"
    using room by (simp_all add: off)
  have fit: "off + length (be_key en) \<le> length page" using kc(1) b by simp
  have mfit: "24 + branch_meta_size * length ms + length (branch_meta_bytes X m) \<le> length ?p"
    using kc fit by simp
  show q_len: "length q = length page" using mfit fit by (simp add: q)
  have above: "range_of a n q = range_of a n ?p" if "off \<le> a" for a n
    unfolding q using that kc(2) by (intro range_of_disjoint [OF mfit]) simp
  have "range_of off (length (be_key en)) q = be_key en"
    using above [OF order_refl] range_of_blit_same [OF fit refl] by simp
  moreover have "length (be_key en) < 2 ^ 63" "off < 2 ^ 63" using fit b by linarith+
  ultimately have w: "entry_of q m = en" "bkey_offset m = off" "bkey_size m = length (be_key en)"
    by (simp_all add: m bmeta_new_sel)
  then show "entry_of q m = en" by simp
  have in_page: "bentry_in kc (length page) x" if "x \<in> set ms" for x
    using b that by (simp add: list_all_iff)
  show "entry_of q x = entry_of page x" if "x \<in> set ms" for x
    by (rule entry_of_frame [OF in_page [OF that]])
      (use in_page [OF that] kc(1) in \<open>simp add: bentry_in_def above range_of_disjoint [OF fit]\<close>)
  have "range_of 24 (branch_meta_size * length ms) q = array_bytes (branch_meta_bytes X) ms"
    using b kc(2) by (simp add: q range_of_disjoint [OF mfit] range_of_disjoint [OF fit])
  moreover have "range_of (24 + branch_meta_size * length ms) branch_meta_size q = branch_meta_bytes X m"
    unfolding q by (rule range_of_blit_same [OF mfit]) simp
  ultimately have "range_of 24 (branch_meta_size * length ms + branch_meta_size) q
      = array_bytes (branch_meta_bytes X) (ms @ [m])"
    by (simp add: range_of_append)
  moreover have "list_all (bentry_in off (length q)) (ms @ [m])"
    using in_page w kc b by (fastforce simp: list_all_iff bentry_in_def q_len)
  ultimately show "bbuilding q (ms @ [m]) off"
    using b kc q_len by (simp add: bbuilding_def add.commute)
qed

lemma bbuild_loop_view:
  assumes "bbuilding page ms kc" "24 + branch_meta_size * length ms + entry_space es \<le> kc"
  shows "\<exists>kc' q ns. branch_build_loop X (Suc j) es (24 + branch_meta_size * length ms) kc page = Inr (kc', q)
    \<and> bbuilding q (ms @ ns) kc' \<and> length q = length page \<and> map (entry_of q) ns = es
    \<and> map (entry_of q) ms = map (entry_of page) ms \<and> kc' + entry_space es = kc + branch_meta_size * length es"
  using assms
proof (induction es arbitrary: page ms kc j)
  case Nil
  then show ?case by (auto intro: exI [of _ "[]"])
next
  case (Cons en es)
  define off where "off = kc - length (be_key en)"
  define m where "m = branch_meta_new (length (be_key en)) off (be_child_page_id en) (be_child_page_checksum en)"
  define q where "q = blit (24 + branch_meta_size * length ms) (branch_meta_bytes X m) (blit off (be_key en) page)"
  have room: "24 + branch_meta_size * Suc (length ms) + length (be_key en) \<le> kc"
    using Cons.prems(2) by simp
  note step = bbuild_step [OF Cons.prems(1) room off_def m_def q_def]
  have kc: "kc \<le> length page" using Cons.prems(1) by (simp add: bbuilding_def)
  have off: "off + length (be_key en) = kc" using room by (auto simp: off_def)
  have "branch_build_loop X (Suc j) (en # es) (24 + branch_meta_size * length ms) kc page
      = branch_build_loop X (Suc (Suc j)) es (24 + branch_meta_size * length (ms @ [m])) off q"
  proof -
    have w1: "write_data_at_offset page (be_key en) off = Inr (blit off (be_key en) page)"
      using off kc by (simp add: write_data_at_offset_def)
    have w2: "write_prefix_at (blit off (be_key en) page) (branch_meta_bytes X m) (24 + branch_meta_size * length ms) = Inr q"
      using off kc room by (simp add: write_prefix_at_def q_def)
    have "\<not> kc < length (be_key en)" "\<not> 24 + branch_meta_size * length ms + branch_meta_size > off"
      using room off by simp_all
    then show ?thesis
      using w1 w2 by (simp add: Let_def off_def [symmetric] m_def [symmetric] ac_simps)
  qed
  moreover have "24 + branch_meta_size * length (ms @ [m]) + entry_space es \<le> off"
    using Cons.prems(2) off by simp
  ultimately obtain kc' r ns where ih:
      "branch_build_loop X (Suc j) (en # es) (24 + branch_meta_size * length ms) kc page = Inr (kc', r)"
      "bbuilding r ((ms @ [m]) @ ns) kc'" "length r = length q" "map (entry_of r) ns = es"
      "map (entry_of r) (ms @ [m]) = map (entry_of q) (ms @ [m])"
      "kc' + entry_space es = off + branch_meta_size * length es"
    using Cons.IH [OF step(1), of "Suc j"] by auto
  have "map (entry_of q) ms = map (entry_of page) ms" using step(4) by simp
  with ih step(2,3) off show ?case
    by (intro exI [of _ kc'] exI [of _ r] exI [of _ "m # ns"]) auto
qed

lemma branch_fits_free:
  assumes "branch_wf X page"
  shows "branch_fits X page key = Inr (branch_meta_size + length key \<le> branch_free X page)"
proof -
  obtain ms e where s: "branch_slots page ms e" using assms unfolding branch_wf_iff by blast
  note d = branch_slots_decode(2,5,6) [OF s]
  have "24 + branch_meta_size * length ms \<le> e" "e < 2 ^ 63" using s by (auto simp: slotted_def)
  then show ?thesis
    using d by (auto simp: branch_fits_def branch_free_def branch_header_size_def branch_meta_size_def Let_def)
qed

lemma branch_build_view:
  assumes "24 + entry_space (strip_first es) \<le> length page" "length page < 2 ^ 63" "es \<noteq> []"
    and "sorted_wrt (<) (map be_key (tl es))"
  shows "\<exists>q. branch_build_entries_at_buf X es page = Inr q \<and> length q = length page \<and> branch_wf X q
    \<and> branch_view X q = strip_first es \<and> branch_free X q + entry_space (strip_first es) + 24 = length page
    \<and> branch_packed X q"
proof -
  have "bbuilding page [] (length page)"
    using assms(1,2) by (simp add: bbuilding_def)
  from bbuild_loop_view [OF this, of "strip_first es" 0] assms(1) obtain kc p ms where p:
      "branch_build_loop X 0 es 24 (length page) page = Inr (kc, p)" "bbuilding p ms kc" "length p = length page"
      "map (entry_of p) ms = strip_first es"
      "kc + entry_space (strip_first es) = length page + branch_meta_size * length es"
    by (auto simp: branch_build_loop_strip)
  note b = p(2) [unfolded bbuilding_def]
  define q where "q = blit 0 (triple_bytes X (node_kind_code BranchKind) (of_nat (length es)) (of_nat kc)) p"
  have n: "length ms = length es" using arg_cong [OF p(4), of length] by simp
  have fit: "0 + length (triple_bytes X (node_kind_code BranchKind) (of_nat (length es)) (of_nat kc)) \<le> length p"
    using b by simp
  have above: "range_of a k q = range_of a k p" if "24 \<le> a" for a k
    unfolding q_def using that by (intro range_of_disjoint [OF fit]) simp
  have q_len: "length q = length page" unfolding q_def using fit p(3) by simp
  have "range_of 0 24 q = triple_bytes X (node_kind_code BranchKind) (of_nat (length ms)) (of_nat kc)"
    unfolding q_def n using fit by (intro range_of_blit_same) simp_all
  then have slots: "branch_slots q ms kc"
    using b q_len p(3) above by (simp add: slotted_def)
  have "entry_of q x = entry_of p x" if "x \<in> set ms" for x
  proof (rule entry_of_frame [of kc])
    show x: "bentry_in kc (length p) x" using b that by (simp add: list_all_iff)
    show "range_of a k q = range_of a k p" if "bkey_offset x \<le> a" for a k
      using above x b that by (simp add: bentry_in_def)
  qed
  then have view: "map (entry_of q) ms = strip_first es" using p(4) by (metis map_cong)
  have "branch_wf X q"
    by (rule branch_wfI [OF slots]) (use n assms(3,4) b q_len p(3) view in auto)
  moreover have "branch_build_entries_at_buf X es page = Inr q"
    using p(1) fit
    by (simp add: branch_build_entries_at_buf_def branch_header_size_def write_prefix_at_def branch_header_bytes_def
        branch_header_new_def q_def)
  moreover have "branch_free X q + entry_space (strip_first es) + 24 = length page"
    using p(5) n b branch_slots_decode(5,6) [OF slots] by (simp add: branch_free_def branch_header_size_def)
  moreover have "branch_packed X q"
    using p(5) entry_key_space [of "strip_first es"] branch_slots_decode(5,8) [OF slots] view q_len
    by (simp add: branch_packed_def)
  ultimately show ?thesis
    using q_len branch_slots_decode(8) [OF slots] view by (intro exI [of _ q]) simp
qed

end

lemma branch_builder_insert_upsert:
  assumes "es \<noteq> []" "sorted_wrt (<) (map be_key (tl es))"
  shows "\<exists>fs. branch_builder_insert key c cs es = Inr fs \<and> fs \<noteq> [] \<and> hd fs = hd es
    \<and> separators fs = upsert key (c, cs) (separators es) \<and> sorted_wrt (<) (map be_key (tl fs))"
proof -
  obtain e ts where es: "es = e # ts" using assms(1) by (cases es) auto
  define ps where "ps = separators es"
  have ps: "ps = map (\<lambda>e. (be_key e, child_ref e)) ts" by (simp add: ps_def es separators_def)
  have sorted: "sorted_wrt (<) (map fst ps)" using assms(2) by (simp add: ps es comp_def)
  have keys: "map be_key (tl fs) = map fst (separators fs)" for fs by (simp add: separators_def)
  have "sorted_wrt (<) (map be_key ts)" using assms(2) es by simp
  from binary_search_keys [OF refl this, of key]
  show ?thesis
    unfolding es list.sel
  proof (elim disjE exE conjE)
    fix i
    assume i: "binary_search_by (\<lambda>x. Inr (slice_cmp (be_key x) key) :: ordering kv_result) ts = Inr (Found i)"
      "i < length ts" "be_key (ts ! i) = key"
    let ?fs = "e # ts[i := (ts ! i)\<lparr>be_child_page_id := c, be_child_page_checksum := cs\<rparr>]"
    have "separators ?fs = ps[i := (key, c, cs)]"
      using i by (simp add: separators_def ps map_update child_ref_def)
    also have "\<dots> = upsert key (c, cs) ps"
      using i by (intro upsert_at_update [OF sorted, symmetric]) (simp_all add: ps)
    finally have sep: "separators ?fs = upsert key (c, cs) ps" .
    then have "sorted_wrt (<) (map be_key (tl ?fs))" unfolding keys using sorted_upsert [OF sorted] by simp
    with sep i show "\<exists>fs. branch_builder_insert key c cs (e # ts) = Inr fs \<and> fs \<noteq> [] \<and> hd fs = e
        \<and> separators fs = upsert key (c, cs) (separators (e # ts)) \<and> sorted_wrt (<) (map be_key (tl fs))"
      by (intro exI [of _ ?fs]) (simp add: branch_builder_insert_def entries_tail_def ps_def es)
  next
    fix i
    assume i: "binary_search_by (\<lambda>x. Inr (slice_cmp (be_key x) key) :: ordering kv_result) ts = Inr (NotFound i)"
      "i \<le> length ts" "\<forall>j < i. be_key (ts ! j) < key" "\<forall>j. i \<le> j \<longrightarrow> j < length ts \<longrightarrow> key < be_key (ts ! j)"
    let ?new = "\<lparr>be_key = key, be_child_page_id = c, be_child_page_checksum = cs\<rparr>"
    let ?fs = "e # take i ts @ ?new # drop i ts"
    have "separators ?fs = take i ps @ (key, c, cs) # drop i ps"
      by (simp add: separators_def ps take_map drop_map child_ref_def)
    also have "\<dots> = upsert key (c, cs) ps"
      using i by (intro upsert_at_insert [symmetric]) (simp_all add: ps)
    finally have sep: "separators ?fs = upsert key (c, cs) ps" .
    then have "sorted_wrt (<) (map be_key (tl ?fs))" unfolding keys using sorted_upsert [OF sorted] by simp
    with sep i show "\<exists>fs. branch_builder_insert key c cs (e # ts) = Inr fs \<and> fs \<noteq> [] \<and> hd fs = e
        \<and> separators fs = upsert key (c, cs) (separators (e # ts)) \<and> sorted_wrt (<) (map be_key (tl fs))"
      by (intro exI [of _ ?fs]) (simp add: branch_builder_insert_def entries_tail_def ps_def es)
  qed
qed

text \<open>The separators up to the chosen child are not above the key, the later ones are.\<close>

lemma route_bounds:
  assumes "sorted_wrt (<) (map be_key (tl es))" "es \<noteq> []"
  shows "1 \<le> j \<Longrightarrow> j \<le> route key es \<Longrightarrow> be_key (es ! j) \<le> key"
    "route key es < j \<Longrightarrow> j < length es \<Longrightarrow> key < be_key (es ! j)"
proof -
  obtain e ts where es: "es = e # ts" using assms(2) by (cases es) auto
  have i: "route key es = length (takeWhile (\<lambda>e. be_key e \<le> key) ts)" by (simp add: route_def es)
  show "be_key (es ! j) \<le> key" if "1 \<le> j" "j \<le> route key es"
  proof -
    have "j - 1 < length (takeWhile (\<lambda>e. be_key e \<le> key) ts)" using that i by simp
    then have "ts ! (j - 1) \<in> set (takeWhile (\<lambda>e. be_key e \<le> key) ts)"
      using nth_mem takeWhile_nth by metis
    then show ?thesis using that(1) es by (auto simp: nth_Cons' dest: set_takeWhileD)
  qed
  show "key < be_key (es ! j)" if "route key es < j" "j < length es"
  proof -
    let ?n = "route key es"
    have n: "?n < length ts" using that es by simp
    have first: "key < be_key (ts ! ?n)" using nth_length_takeWhile [of "\<lambda>e. be_key e \<le> key" ts] n i by simp
    have "be_key (ts ! ?n) \<le> be_key (ts ! (j - 1))"
    proof (cases "?n = j - 1")
      case False
      then have "?n < j - 1" "j - 1 < length ts" using that es by auto
      then show ?thesis using assms(1) es by (simp add: sorted_wrt_iff_nth_less less_imp_le)
    qed simp
    with first show ?thesis using that es by (simp add: nth_Cons')
  qed
qed

section \<open>Properties of branch pages\<close>

text \<open>A concrete branch page for the witnesses.\<close>

definition test_entries :: "branch_entry list" where
  "test_entries = branch_builder_new_root 5 50 [7] 6 60"

lemma test_branch:
  "\<exists>page. branch_build_page_at_buf le_crates test_entries (replicate 4096 0) = Inr page
    \<and> branch_wf le_crates page \<and> branch_view le_crates page = test_entries \<and> length page = 4096
    \<and> branch_free le_crates page = 3991"
  using le.branch_build_view [of test_entries "replicate 4096 0"]
  by (auto simp: branch_build_page_at_buf_def branch_meta_size_def test_entries_def branch_builder_new_root_def)

text \<open>C23: a branch page routes a key to the last child whose separator is not above the key, the leftmost
  child when there is none, in the reader and in the mutator alike.\<close>

theorem branch_route_correct:
  assumes "zerocopy_le X" "branch_wf X page"
  shows "let es = branch_view X page; i = route key es
    in i < length es \<and> child_page_for_key X page key = Inr (i, be_child_page_id (es ! i))
      \<and> and_then (branch_from_page X page) (\<lambda>bp. child_page_id_for_key bp key) = Inr (be_child_page_id (es ! i))
      \<and> (\<forall>j. 1 \<le> j \<longrightarrow> j \<le> i \<longrightarrow> be_key (es ! j) \<le> key) \<and> (\<forall>j. i < j \<longrightarrow> j < length es \<longrightarrow> key < be_key (es ! j))"
proof -
  note r = zerocopy_le.branch_route(1-3) [OF assms, where key = key]
  have "sorted_wrt (<) (map be_key (tl (branch_view X page)))" "branch_view X page \<noteq> []"
    using assms(2) r(3) by (auto simp: branch_wf_def Let_def)
  from route_bounds [OF this, where key = key] r show ?thesis unfolding Let_def by blast
qed

theorem branch_route_correct_witness:
  "\<exists>page. branch_wf le_crates page \<and> child_page_for_key le_crates page [7, 1] = Inr (1, 6)
    \<and> child_page_for_key le_crates page [3] = Inr (0, 5)"
proof -
  obtain page where p: "branch_wf le_crates page" "branch_view le_crates page = test_entries"
    using test_branch by blast
  have "route [7, 1] test_entries = 1" "route [3] test_entries = 0"
      "be_child_page_id (test_entries ! 1) = 6" "be_child_page_id (test_entries ! 0) = 5"
    by (simp_all add: route_def test_entries_def branch_builder_new_root_def)
  with p branch_route_correct [OF le.zerocopy_le_axioms p(1), of "[7, 1]"]
    branch_route_correct [OF le.zerocopy_le_axioms p(1), of "[3]"] show ?thesis
    by (auto simp: Let_def)
qed

text \<open>C24: inserting a separator into a branch page keeps the leftmost child and turns the sorted list of
  separators into its update, whether the separator is new or present.\<close>

theorem branch_insert_correct:
  assumes "zerocopy_le X" "branch_wf X page" "branch_fits X page key = Inr True"
  shows "\<exists>q. branch_insert X key child checksum page = Inr q \<and> length q = length page \<and> branch_wf X q
    \<and> child_ref (hd (branch_view X q)) = child_ref (hd (branch_view X page))
    \<and> separators (branch_view X q) = upsert key (child, checksum) (separators (branch_view X page))"
  using zerocopy_le.branch_insert_view [OF assms] by metis

theorem branch_insert_correct_witness:
  "\<exists>page q. branch_wf le_crates page \<and> branch_insert le_crates [9] 8 80 page = Inr q
    \<and> separators (branch_view le_crates q) = [([7], 6, 60), ([9], 8, 80)]"
proof -
  obtain page where p: "branch_wf le_crates page" "branch_view le_crates page = test_entries"
      "branch_free le_crates page = 3991"
    using test_branch by blast
  have "branch_fits le_crates page [9] = Inr True"
    using le.branch_fits_free [OF p(1)] p(3) by (simp add: branch_meta_size_def)
  from branch_insert_correct [OF le.zerocopy_le_axioms p(1) this, of 8 80] p show ?thesis
    by (auto simp: test_entries_def branch_builder_new_root_def separators_def child_ref_def)
qed

text \<open>C25: splitting a branch. When both halves fit, the two pages are well-formed; together they hold
  the children in order, the separator handed up is the key of the first entry on the right, which that
  page no longer needs.\<close>

theorem branch_split_correct:
  assumes "zerocopy_le X" "sorted_wrt (<) (map be_key (tl es))" "2 \<le> length es"
    and "length left < 2 ^ 63" "length right < 2 ^ 63"
    and "24 + entry_space (strip_first (take (length es div 2) es)) \<le> length left"
    and "24 + entry_space (strip_first (drop (length es div 2) es)) \<le> length right"
  shows "\<exists>l r. branch_build_split_pages X es left right = Inr (be_key (es ! (length es div 2)), l, r)
    \<and> branch_wf X l \<and> branch_wf X r \<and> length l = length left \<and> length r = length right
    \<and> map child_ref (branch_view X l @ branch_view X r) = map child_ref es
    \<and> separators (branch_view X l) @ (be_key (es ! (length es div 2)), child_ref (hd (branch_view X r)))
        # separators (branch_view X r) = separators es"
proof -
  define mid where "mid = length es div 2"
  have mid: "0 < mid" "mid < length es" using assms(3) by (auto simp: mid_def)
  obtain e ts where es: "es = e # ts" using assms(3) by (cases es) auto
  have drop: "drop mid es = es ! mid # drop (Suc mid) es" using mid by (simp add: Cons_nth_drop_Suc)
  have take: "take mid es = e # take (mid - 1) ts" using mid by (simp add: es take_Cons')
  have sorted: "sorted_wrt (<) (map be_key (tl (take mid es)))" "sorted_wrt (<) (map be_key (tl (drop mid es)))"
  proof -
    have "tl (take mid es) = take (mid - 1) ts" "tl (drop mid es) = drop mid ts"
      unfolding take by (simp_all add: tl_drop es)
    then show "sorted_wrt (<) (map be_key (tl (take mid es)))" "sorted_wrt (<) (map be_key (tl (drop mid es)))"
      using assms(2) by (simp_all add: es take_map [symmetric] drop_map [symmetric] sorted_wrt_take sorted_wrt_drop)
  qed
  have "take mid es \<noteq> []" "drop mid es \<noteq> []" using mid by auto
  obtain l where l: "branch_build_entries_at_buf X (take mid es) left = Inr l" "length l = length left" "branch_wf X l"
      "branch_view X l = strip_first (take mid es)"
    using zerocopy_le.branch_build_view [OF assms(1) assms(6) assms(4)] sorted(1) \<open>take mid es \<noteq> []\<close>
    by (auto simp: mid_def)
  obtain r where r: "branch_build_entries_at_buf X (drop mid es) right = Inr r" "length r = length right" "branch_wf X r"
      "branch_view X r = strip_first (drop mid es)"
    using zerocopy_le.branch_build_view [OF assms(1) assms(7) assms(5)] sorted(2) \<open>drop mid es \<noteq> []\<close>
    by (auto simp: mid_def)
  have "branch_build_split_pages X es left right = Inr (be_key (es ! mid), l, r)"
    using assms(3) l(1) r(1) drop by (simp add: branch_build_split_pages_def Let_def mid_def [symmetric])
  moreover have strip: "map child_ref (strip_first xs) = map child_ref xs" for xs
    by (cases xs) (simp_all add: child_ref_def)
  have "map child_ref (branch_view X l @ branch_view X r) = map child_ref es"
    unfolding l(4) r(4) map_append strip by (metis append_take_drop_id map_append)
  moreover have "separators (branch_view X l) @ (be_key (es ! mid), child_ref (hd (branch_view X r)))
        # separators (branch_view X r) = separators es"
  proof -
    have "take (mid - 1) ts @ drop mid es = ts" using mid by (simp add: es drop_Cons')
    then have "separators es = map (\<lambda>e. (be_key e, child_ref e)) (take (mid - 1) ts @ drop mid es)"
      by (simp add: separators_def es)
    then show ?thesis
      by (simp add: l(4) r(4) take drop separators_def child_ref_def)
  qed
  ultimately show ?thesis using l r unfolding mid_def by blast
qed

theorem branch_split_correct_witness:
  "\<exists>l r. branch_build_split_pages le_crates test_entries (replicate 4096 0) (replicate 4096 0) = Inr ([7], l, r)
    \<and> map child_ref (branch_view le_crates l @ branch_view le_crates r) = [(5, 50), (6, 60)]"
  using branch_split_correct [OF le.zerocopy_le_axioms, of test_entries "replicate 4096 0" "replicate 4096 0"]
  by (auto simp: branch_meta_size_def test_entries_def branch_builder_new_root_def child_ref_def)

end
