(* ===== verification/Header.thy ===== *)
theory Header
  imports Kv_Base
begin

text \<open>
  The database header (\<open>kv/src/pages/header.rs\<close>): a page that names two commit slots, one of them
  active. A commit writes the inactive slot and switches, so that the previous commit stays readable in
  the other slot until the next commit.
\<close>

section \<open>Commit slots and header\<close>

record commit_slot =
  root_page_id :: page_id
  root_page_checksum :: u128
  slot_transaction_id :: transaction_id
  slot_next_page_id :: page_id

record db_header =
  magic :: bytes
  active_slot_field :: u64
  header_page_size :: u64
  commit_slots :: "commit_slot \<times> commit_slot"

definition HEADER_MAGIC :: bytes where
  "HEADER_MAGIC = [0x50, 0x49, 0x4E, 0x44, 0x30, 0x53, 0x3A, 0x29]"

definition FIRST_COMMIT_SLOT :: u64 where
  "FIRST_COMMIT_SLOT = 0"

definition commit_slot_new :: "page_id \<Rightarrow> u128 \<Rightarrow> transaction_id \<Rightarrow> page_id \<Rightarrow> commit_slot" where
  "commit_slot_new root checksum tx next =
     \<lparr>root_page_id = root, root_page_checksum = checksum, slot_transaction_id = tx, slot_next_page_id = next\<rparr>"

text \<open>\<open>repr(C)\<close> layout: fields in order, no padding, since the zerocopy integers have alignment 1.\<close>

definition commit_slot_size :: nat where
  "commit_slot_size = 40"

definition header_size :: nat where
  "header_size = 104"

definition commit_slot_bytes :: "kv_crates \<Rightarrow> commit_slot \<Rightarrow> bytes" where
  "commit_slot_bytes X s =
     u64_to_le X (root_page_id s) @ u128_to_le X (root_page_checksum s)
     @ u64_to_le X (slot_transaction_id s) @ u64_to_le X (slot_next_page_id s)"

definition commit_slot_of_bytes :: "kv_crates \<Rightarrow> bytes \<Rightarrow> commit_slot" where
  "commit_slot_of_bytes X bs =
     \<lparr>root_page_id = u64_of_le X (range_of 0 8 bs), root_page_checksum = u128_of_le X (range_of 8 16 bs),
      slot_transaction_id = u64_of_le X (range_of 24 8 bs), slot_next_page_id = u64_of_le X (range_of 32 8 bs)\<rparr>"

definition header_bytes :: "kv_crates \<Rightarrow> db_header \<Rightarrow> bytes" where
  "header_bytes X h =
     magic h @ u64_to_le X (active_slot_field h) @ u64_to_le X (header_page_size h)
     @ commit_slot_bytes X (fst (commit_slots h)) @ commit_slot_bytes X (snd (commit_slots h))"

definition header_of_bytes :: "kv_crates \<Rightarrow> bytes \<Rightarrow> db_header" where
  "header_of_bytes X bs =
     \<lparr>magic = range_of 0 8 bs, active_slot_field = u64_of_le X (range_of 8 8 bs),
      header_page_size = u64_of_le X (range_of 16 8 bs),
      commit_slots = (commit_slot_of_bytes X (range_of 24 40 bs), commit_slot_of_bytes X (range_of 64 40 bs))\<rparr>"

section \<open>Operations\<close>

definition header_parse :: "kv_crates \<Rightarrow> bytes \<Rightarrow> db_header kv_result" where
  "header_parse X bs =
     (if length bs < header_size then Inl (Fail size_error)
      else let header = header_of_bytes X bs in
        if magic header \<noteq> HEADER_MAGIC then Inl (Fail (DatabaseError ''invalid database header magic''))
        else if active_slot_field header > 1 then Inl (Fail (DatabaseError ''invalid active commit slot''))
        else Inr header)"

definition header_initial :: "u64 \<Rightarrow> u128 \<Rightarrow> db_header" where
  "header_initial page_size checksum =
     (let slot = commit_slot_new INITIAL_ROOT_PAGE_ID checksum 0 (INITIAL_ROOT_PAGE_ID + 1)
      in \<lparr>magic = HEADER_MAGIC, active_slot_field = FIRST_COMMIT_SLOT, header_page_size = page_size,
          commit_slots = (slot, slot)\<rparr>)"

definition encode_page :: "kv_crates \<Rightarrow> db_header \<Rightarrow> bytes kv_result" where
  "encode_page X h =
     (let page = replicate (unat (header_page_size h)) 0 in
      if length page < length (header_bytes X h)
      then Inl (Panic ''range end index out of range for slice'')
      else Inr (blit 0 (header_bytes X h) page))"

definition active_slot_index :: "db_header \<Rightarrow> nat" where
  "active_slot_index h = unat (active_slot_field h)"

definition inactive_slot_index :: "db_header \<Rightarrow> nat" where
  "inactive_slot_index h = unat (active_slot_field h XOR 1)"

text \<open>Indexing the array of two slots.\<close>

definition slot_at :: "db_header \<Rightarrow> nat \<Rightarrow> commit_slot kv_result" where
  "slot_at h i =
     (if i = 0 then Inr (fst (commit_slots h)) else if i = 1 then Inr (snd (commit_slots h))
      else Inl (Panic ''index out of bounds''))"

definition set_slot_at :: "nat \<Rightarrow> commit_slot \<Rightarrow> db_header \<Rightarrow> db_header kv_result" where
  "set_slot_at i s h =
     (if i = 0 then Inr (h\<lparr>commit_slots := (s, snd (commit_slots h))\<rparr>)
      else if i = 1 then Inr (h\<lparr>commit_slots := (fst (commit_slots h), s)\<rparr>)
      else Inl (Panic ''index out of bounds''))"

definition active_slot :: "db_header \<Rightarrow> commit_slot kv_result" where
  "active_slot h = slot_at h (active_slot_index h)"

definition inactive_slot :: "db_header \<Rightarrow> commit_slot kv_result" where
  "inactive_slot h = slot_at h (inactive_slot_index h)"

definition switch_to_inactive_slot :: "db_header \<Rightarrow> db_header" where
  "switch_to_inactive_slot h = h\<lparr>active_slot_field := active_slot_field h XOR 1\<rparr>"

definition with_commit :: "page_id \<Rightarrow> u128 \<Rightarrow> transaction_id \<Rightarrow> page_id \<Rightarrow> db_header \<Rightarrow> db_header kv_result" where
  "with_commit root checksum tx next h =
     and_then (set_slot_at (inactive_slot_index h) (commit_slot_new root checksum tx next) h)
       (\<lambda>h1. Inr (switch_to_inactive_slot h1))"

section \<open>Well-formed headers\<close>

definition header_ok :: "db_header \<Rightarrow> bool" where
  "header_ok h \<longleftrightarrow> magic h = HEADER_MAGIC \<and> active_slot_field h \<le> 1"

lemma slot_cases:
  assumes "header_ok h"
  obtains "active_slot_field h = 0" | "active_slot_field h = 1"
proof -
  have "unat (active_slot_field h) \<le> 1"
    using assms by (simp add: header_ok_def word_le_nat_alt)
  then have "unat (active_slot_field h) = 0 \<or> unat (active_slot_field h) = 1" by linarith
  then show thesis using that by (metis unat_eq_zero unat_1 word_unat_eq_iff)
qed

lemma header_initial_ok: "header_ok (header_initial sz c)"
  by (simp add: header_initial_def header_ok_def FIRST_COMMIT_SLOT_def Let_def)

lemma header_ok_slots:
  assumes "header_ok h"
  shows "\<exists>s. active_slot h = Inr s" "\<exists>s. inactive_slot h = Inr s" "header_ok (switch_to_inactive_slot h)"
  by (cases rule: slot_cases [OF assms];
      use assms in \<open>simp add: header_ok_def active_slot_def inactive_slot_def slot_at_def active_slot_index_def
      inactive_slot_index_def switch_to_inactive_slot_def\<close>)+

lemma switch_slots:
  assumes "header_ok h"
  shows "active_slot (switch_to_inactive_slot h) = inactive_slot h"
    "inactive_slot (switch_to_inactive_slot h) = active_slot h"
  by (cases rule: slot_cases [OF assms];
      simp add: active_slot_def inactive_slot_def slot_at_def active_slot_index_def
      inactive_slot_index_def switch_to_inactive_slot_def)+

lemma with_commit_slots:
  assumes "header_ok h"
  shows "\<exists>h'. with_commit root checksum tx next h = Inr h' \<and> header_ok h'
    \<and> active_slot h' = Inr (commit_slot_new root checksum tx next) \<and> inactive_slot h' = active_slot h
    \<and> header_page_size h' = header_page_size h"
  by (cases rule: slot_cases [OF assms];
      use assms in \<open>simp add: header_ok_def with_commit_def set_slot_at_def active_slot_def inactive_slot_def slot_at_def
      active_slot_index_def inactive_slot_index_def switch_to_inactive_slot_def\<close>)

text \<open>C26: a commit never touches the slot of the previous commit: it becomes the inactive slot,
  where \<open>recover_header\<close> finds it when the new commit is damaged.\<close>

theorem with_commit_keeps_previous:
  assumes "header_ok h"
  shows "\<exists>h'. with_commit root checksum tx next h = Inr h' \<and> header_ok h'
    \<and> active_slot h' = Inr (commit_slot_new root checksum tx next) \<and> inactive_slot h' = active_slot h
    \<and> header_page_size h' = header_page_size h"
  by (rule with_commit_slots [OF assms])

theorem with_commit_keeps_previous_witness:
  "\<exists>h'. with_commit 7 9 1 8 (header_initial 4096 5) = Inr h' \<and> active_slot h' = Inr (commit_slot_new 7 9 1 8)
    \<and> inactive_slot h' = Inr (commit_slot_new 1 5 0 2)"
proof -
  have "active_slot (header_initial 4096 5) = Inr (commit_slot_new 1 5 0 2)"
    by code_simp
  then show ?thesis
    using with_commit_keeps_previous [OF header_initial_ok [of 4096 5], of 7 9 1 8] by auto
qed

section \<open>The round trip\<close>

context zerocopy_le
begin

lemma commit_slot_len [simp]: "length (commit_slot_bytes X s) = 40"
  by (simp add: commit_slot_bytes_def)

lemma commit_slot_round [simp]: "commit_slot_of_bytes X (commit_slot_bytes X s) = s"
  by (cases s) (simp add: commit_slot_of_bytes_def commit_slot_bytes_def range_of_def)

lemma header_len: "header_ok h \<Longrightarrow> length (header_bytes X h) = header_size"
  by (simp add: header_bytes_def header_size_def header_ok_def HEADER_MAGIC_def)

lemma header_round:
  assumes "header_ok h" "range_of 0 header_size bs = header_bytes X h"
  shows "header_of_bytes X bs = h"
proof -
  have m: "length (magic h) = 8" using assms(1) by (simp add: header_ok_def HEADER_MAGIC_def)
  have sub: "range_of i n bs = range_of i n (header_bytes X h)" if "i + n \<le> header_size" for i n
    using range_of_range_of [of i n header_size 0 bs] that assms(2) by simp
  have parts: "range_of 0 8 bs = magic h" "range_of 8 8 bs = u64_to_le X (active_slot_field h)"
      "range_of 16 8 bs = u64_to_le X (header_page_size h)"
      "range_of 24 40 bs = commit_slot_bytes X (fst (commit_slots h))"
      "range_of 64 40 bs = commit_slot_bytes X (snd (commit_slots h))"
    using m by (simp_all add: sub header_size_def) (simp_all add: header_bytes_def range_of_def)
  show ?thesis
    by (cases h) (use parts in \<open>simp add: header_of_bytes_def\<close>)
qed

end

lemma encode_page_parse:
  assumes "zerocopy_le X" "header_ok h" "header_size \<le> unat (header_page_size h)"
  shows "\<exists>page. encode_page X h = Inr page \<and> length page = unat (header_page_size h)
    \<and> header_parse X page = Inr h \<and> header_parse X (take header_size page) = Inr h"
proof -
  note len = zerocopy_le.header_len [OF assms(1,2)]
  define page where "page = blit 0 (header_bytes X h) (replicate (unat (header_page_size h)) 0)"
  have plen: "length page = unat (header_page_size h)"
    using len assms(3) by (simp add: page_def)
  have enc: "encode_page X h = Inr page"
    using len assms(3) by (simp add: encode_page_def page_def)
  have "range_of 0 header_size page = header_bytes X h"
    unfolding page_def using len assms(3) by (intro range_of_blit_same) simp_all
  moreover have "range_of 0 header_size (take header_size page) = range_of 0 header_size page"
    by (simp add: range_of_def)
  ultimately have "header_of_bytes X page = h" "header_of_bytes X (take header_size page) = h"
    using zerocopy_le.header_round [OF assms(1,2)] by simp_all
  with enc plen assms(2,3) show ?thesis
    by (simp add: header_parse_def header_ok_def Let_def not_less)
qed

text \<open>C27: a header that was encoded into its page is read back unchanged, whatever the codec of the
  integers, also when only the first bytes of the page are read, as \<open>read_header\<close> does.\<close>

theorem header_roundtrip:
  assumes "zerocopy_le X" "header_ok h" "header_size \<le> unat (header_page_size h)"
  shows "\<exists>page. encode_page X h = Inr page \<and> length page = unat (header_page_size h)
    \<and> header_parse X page = Inr h \<and> header_parse X (take header_size page) = Inr h"
  by (rule encode_page_parse [OF assms])

theorem header_roundtrip_witness:
  "\<exists>page. encode_page le_crates (header_initial 4096 5) = Inr page
    \<and> header_parse le_crates page = Inr (header_initial 4096 5)"
proof -
  have "header_size \<le> unat (header_page_size (header_initial 4096 5))"
    by (simp add: header_initial_def header_size_def Let_def)
  then show ?thesis
    using header_roundtrip [OF le.zerocopy_le_axioms header_initial_ok] by blast
qed

section \<open>A header write that stops half-way\<close>

lemma encode_page_prefix:
  assumes "zerocopy_le X" "header_ok h" "encode_page X h = Inr page"
  shows "\<exists>rest. page = header_bytes X h @ rest"
  using assms by (auto simp: encode_page_def blit_def Let_def split: if_splits)

text \<open>C36: the header page carries no checksum of its own, and the number of the active slot is stored in front of
  the slots. A write of the new header that stops behind this number leaves a valid header on disk in which the
  active slot is neither the new commit nor the previous one but the slot of the commit before it: the data that
  \<open>with_commit\<close> was about to overwrite. The previous commit is found in the inactive slot only, where
  \<open>recover_header\<close> does not look while the older tree still verifies.\<close>

theorem torn_header_reverts:
  assumes "zerocopy_le X" "header_ok h" "with_commit root checksum tx next h = Inr h'"
    and "encode_page X h = Inr page" "encode_page X h' = Inr page'"
  shows "header_parse X (take 16 page' @ drop 16 page) = Inr (switch_to_inactive_slot h)
    \<and> active_slot (switch_to_inactive_slot h) = inactive_slot h \<and> inactive_slot (switch_to_inactive_slot h) = active_slot h"
proof -
  have h': "header_ok h'" "magic h' = magic h" "active_slot_field h' = active_slot_field (switch_to_inactive_slot h)"
    using with_commit_slots [OF assms(2), of root checksum tx "next"] assms(3)
    by (auto simp: with_commit_def set_slot_at_def switch_to_inactive_slot_def result_simps split: if_splits)
  obtain r r' where r: "page = header_bytes X h @ r" "page' = header_bytes X h' @ r'"
    using encode_page_prefix [OF assms(1,2,4)] encode_page_prefix [OF assms(1) h'(1) assms(5)] by blast
  note len = zerocopy_le.header_len [OF assms(1)]
  have m: "length (magic h) = 8" using assms(2) by (simp add: header_ok_def HEADER_MAGIC_def)
  have new: "take 16 page' @ drop 16 page = header_bytes X (switch_to_inactive_slot h) @ r"
    using m zerocopy_le.u64_len [OF assms(1)] h'(2,3)
    by (simp add: r header_bytes_def switch_to_inactive_slot_def)
  have sw: "header_ok (switch_to_inactive_slot h)" using header_ok_slots(3) [OF assms(2)] .
  have "header_of_bytes X (take 16 page' @ drop 16 page) = switch_to_inactive_slot h"
    by (rule zerocopy_le.header_round [OF assms(1) sw]) (simp add: new range_of_def len [OF sw])
  moreover have "header_size \<le> length (take 16 page' @ drop 16 page)" unfolding new using len [OF sw] by simp
  ultimately have "header_parse X (take 16 page' @ drop 16 page) = Inr (switch_to_inactive_slot h)"
    using sw by (simp add: header_parse_def header_ok_def Let_def not_less)
  with switch_slots [OF assms(2)] show ?thesis by blast
qed

theorem torn_header_reverts_witness:
  "\<exists>h h' page page'. with_commit 3 6 1 4 (header_initial 4096 5) = Inr h \<and> with_commit 7 9 2 8 h = Inr h'
    \<and> encode_page le_crates h = Inr page \<and> encode_page le_crates h' = Inr page'
    \<and> active_slot h = Inr (commit_slot_new 3 6 1 4) \<and> active_slot h' = Inr (commit_slot_new 7 9 2 8)
    \<and> (\<exists>torn. header_parse le_crates (take 16 page' @ drop 16 page) = Inr torn
         \<and> active_slot torn = Inr (commit_slot_new 1 5 0 2) \<and> inactive_slot torn = Inr (commit_slot_new 3 6 1 4))"
proof -
  have i: "active_slot (header_initial 4096 5) = Inr (commit_slot_new 1 5 0 2)" "header_page_size (header_initial 4096 5) = 4096"
    by code_simp+
  obtain h where h: "with_commit 3 6 1 4 (header_initial 4096 5) = Inr h" "header_ok h" "active_slot h = Inr (commit_slot_new 3 6 1 4)"
      "inactive_slot h = Inr (commit_slot_new 1 5 0 2)" "header_page_size h = 4096"
    using with_commit_slots [OF header_initial_ok, of 3 6 1 4 4096 5] i by auto
  obtain h' where h': "with_commit 7 9 2 8 h = Inr h'" "header_ok h'" "active_slot h' = Inr (commit_slot_new 7 9 2 8)" "header_page_size h' = 4096"
    using with_commit_slots [OF h(2), of 7 9 2 8] h(5) by auto
  obtain page page' where p: "encode_page le_crates h = Inr page" "encode_page le_crates h' = Inr page'"
    using encode_page_parse [OF le.zerocopy_le_axioms h(2)] encode_page_parse [OF le.zerocopy_le_axioms h'(2)] h(5) h'(4)
    by (auto simp: header_size_def)
  from torn_header_reverts [OF le.zerocopy_le_axioms h(2) h'(1) p] h h' p show ?thesis by auto
qed

end
