(* ===== verification/Page_Store.thy ===== *)
theory Page_Store
  imports Header
begin

text \<open>
  The page layer of the \<open>kv\<close> crate: file access (\<open>pages/file_handler.rs\<close>), the page cache
  (\<open>pages/page_cache.rs\<close>), page input and output (\<open>pages/page_io.rs\<close>), the reader counts
  (\<open>ReadTracker\<close> of \<open>transactions/read_transaction.rs\<close>), the page allocator
  (\<open>pages/page_allocator.rs\<close>) and the page manager (\<open>pages/page_manager.rs\<close>).

Operations pass their state explicitly and return a result together with the new state, also when they
  fail. A file is its contents and a script of the outcomes of the coming system calls: a call may fail with
  an operating-system error and change nothing, or transfer fewer bytes than asked for; beyond the end of the
  script calls succeed. \<open>read_at\<close> and \<open>write_at\<close> are those of the Windows configuration; the
  bodies of the Unix configuration call \<open>self.read_exact_at\<close> and \<open>self.write_all_at\<close>, which
  \<open>FileHandler\<close> does not have. The cache is the third-party crate \<open>moka\<close>, a parameter with the laws
  of the locale \<open>moka_cache\<close>. Locks are not modelled: every operation here runs under the lock that the
  code takes for it.
\<close>

section \<open>Operations with state\<close>

type_synonym ('s, 'a) op = "'s \<Rightarrow> 'a kv_result \<times> 's"

definition ret :: "'a \<Rightarrow> ('s, 'a) op" where
  "ret a s = (Inr a, s)"

definition fail :: "kv_error fault \<Rightarrow> ('s, 'a) op" where
  "fail e s = (Inl e, s)"

definition bind_op :: "('s, 'a) op \<Rightarrow> ('a \<Rightarrow> ('s, 'b) op) \<Rightarrow> ('s, 'b) op" where
  "bind_op m k s = (case m s of (Inl e, s') \<Rightarrow> (Inl e, s') | (Inr a, s') \<Rightarrow> k a s')"

definition lift_r :: "'a kv_result \<Rightarrow> ('s, 'a) op" where
  "lift_r r s = (r, s)"

definition zoom :: "('s \<Rightarrow> 'p) \<Rightarrow> ('p \<Rightarrow> 's \<Rightarrow> 's) \<Rightarrow> ('p, 'a) op \<Rightarrow> ('s, 'a) op" where
  "zoom get put m s = (case m (get s) of (r, p) \<Rightarrow> (r, put p s))"

lemma bind_op_simps [simp]:
  "m s = (Inr a, s') \<Longrightarrow> bind_op m k s = k a s'" "m s = (Inl e, s') \<Longrightarrow> bind_op m k s = (Inl e, s')"
  by (simp_all add: bind_op_def)

lemma op_simps [simp]: "ret a s = (Inr a, s)" "fail e s = (Inl e, s)" "lift_r r s = (r, s)"
  by (simp_all add: ret_def fail_def lift_r_def)

lemma bind_op_Inr [result_simps]:
  "bind_op m k s = (Inr b, t) \<longleftrightarrow> (\<exists>a s'. m s = (Inr a, s') \<and> k a s' = (Inr b, t))"
  by (auto simp: bind_op_def split: prod.splits sum.splits)

lemma bind_op_cong [fundef_cong]:
  "m s = m' s' \<Longrightarrow> (\<And>a t. m' s' = (Inr a, t) \<Longrightarrow> k a t = k' a t) \<Longrightarrow> bind_op m k s = bind_op m' k' s'"
  by (auto simp: bind_op_def split: prod.splits sum.splits)

section \<open>File access\<close>

datatype io_outcome = Complete | Short nat | Failed

record file_handler =
  contents :: bytes
  io_script :: "io_outcome list"

definition io_error :: "kv_error fault" where
  "io_error = Fail (IoError ''operating system error'')"

definition next_outcome :: "file_handler \<Rightarrow> io_outcome \<times> file_handler" where
  "next_outcome f =
     (case io_script f of [] \<Rightarrow> (Complete, f) | oc # rest \<Rightarrow> (oc, f\<lparr>io_script := rest\<rparr>))"

text \<open>A system call that transfers no data.\<close>

definition sys_call :: "(file_handler, unit) op" where
  "sys_call f = (case next_outcome f of (Failed, f) \<Rightarrow> (Inl io_error, f) | (_, f) \<Rightarrow> (Inr (), f))"

text \<open>\<open>seek_read\<close> and \<open>seek_write\<close>: the bytes read, which are none at the end of the file, and the number
  of bytes written. A write may make the file longer, but a file is shorter than \<open>2 ^ 64\<close> bytes.\<close>

definition transferred :: "io_outcome \<Rightarrow> nat \<Rightarrow> nat" where
  "transferred oc n = (case oc of Short k \<Rightarrow> min k n | _ \<Rightarrow> n)"

definition seek_read :: "nat \<Rightarrow> nat \<Rightarrow> (file_handler, bytes) op" where
  "seek_read offset n f =
     (case next_outcome f of
        (Failed, f) \<Rightarrow> (Inl io_error, f)
      | (oc, f) \<Rightarrow> (Inr (range_of offset (transferred oc n) (contents f)), f))"

definition seek_write :: "nat \<Rightarrow> bytes \<Rightarrow> (file_handler, nat) op" where
  "seek_write offset src f =
     (case next_outcome f of
        (Failed, f) \<Rightarrow> (Inl io_error, f)
      | (oc, f) \<Rightarrow>
          if 2 ^ 64 \<le> offset + length src then (Inl io_error, f)
          else
            let n = transferred oc (length src)
            in (Inr n, f\<lparr>contents := blit offset (take n src) (contents f)\<rparr>))"

definition file_len :: "(file_handler, nat) op" where
  "file_len = bind_op sys_call (\<lambda>_ f. (Inr (length (contents f)), f))"

definition assert_offset :: "nat \<Rightarrow> (file_handler, unit) op" where
  "assert_offset offset =
     bind_op file_len (\<lambda>len.
       if offset \<le> len then ret ()
       else fail (Panic ''assertion failed: offset <= self.file.metadata()?.len()''))"

text \<open>The loop of \<open>read_at\<close>: read until the buffer of \<open>n\<close> bytes is full or nothing more comes.\<close>

function read_loop :: "nat \<Rightarrow> nat \<Rightarrow> (file_handler, bytes) op" where
  "read_loop offset n f =
     (if n = 0 then (Inr [], f)
      else bind_op (seek_read offset n) (\<lambda>data.
             if data = [] then fail (Fail (IoError ''unexpected end of file''))
             else bind_op (read_loop (offset + length data) (n - length data)) (\<lambda>rest. ret (data @ rest))) f)"
  by pat_completeness auto
termination
  by (relation "measure (\<lambda>(offset, n, f). n)") auto

definition read_at :: "nat \<Rightarrow> nat \<Rightarrow> (file_handler, bytes) op" where
  "read_at offset n = bind_op (assert_offset offset) (\<lambda>_. read_loop offset n)"

definition write_at :: "nat \<Rightarrow> bytes \<Rightarrow> (file_handler, unit) op" where
  "write_at offset src =
     bind_op (assert_offset offset) (\<lambda>_.
     bind_op (seek_write offset src) (\<lambda>byte_written.
       if byte_written \<noteq> length src
       then fail (Fail (DatabaseError ''Failed to write the expected number of bytes to the file''))
       else ret ()))"

text \<open>Multiplication and addition of \<open>u64\<close> in a debug build.\<close>

definition checked_mul :: "u64 \<Rightarrow> u64 \<Rightarrow> nat kv_result" where
  "checked_mul a b =
     (if unat a * unat b < 2 ^ 64 then Inr (unat a * unat b)
      else Inl (Panic ''attempt to multiply with overflow''))"

definition write_at_page :: "page_id \<Rightarrow> u64 \<Rightarrow> bytes \<Rightarrow> (file_handler, unit) op" where
  "write_at_page pid page_size src =
     bind_op (lift_r (checked_mul pid page_size)) (\<lambda>offset. write_at offset src)"

definition file_sync_data :: "(file_handler, unit) op" where
  "file_sync_data = sys_call"

definition preallocate_pages :: "u64 \<Rightarrow> u64 \<Rightarrow> (file_handler, u64) op" where
  "preallocate_pages additional_pages page_size =
     bind_op file_len (\<lambda>len.
     bind_op (lift_r (checked_mul page_size additional_pages)) (\<lambda>extra.
     if len + extra \<ge> 2 ^ 64 then fail (Panic ''attempt to add with overflow'')
     else
       bind_op sys_call (\<lambda>_ f.
         if page_size = 0
         then (Inl (Panic ''attempt to divide by zero''), f\<lparr>contents := contents f @ replicate extra 0\<rparr>)
         else (Inr (of_nat ((len + extra) div unat page_size)),
               f\<lparr>contents := contents f @ replicate extra 0\<rparr>))))"

text \<open>Opening takes the stored bytes of the path; \<open>open_new\<close> truncates them.\<close>

definition open_existing_file :: "bytes \<Rightarrow> io_outcome list \<Rightarrow> file_handler kv_result" where
  "open_existing_file stored script =
     (case sys_call \<lparr>contents = stored, io_script = script\<rparr> of (r, f) \<Rightarrow> and_then r (\<lambda>_. Inr f))"

definition open_new_file :: "io_outcome list \<Rightarrow> file_handler kv_result" where
  "open_new_file script =
     (case sys_call \<lparr>contents = [], io_script = script\<rparr> of (r, f) \<Rightarrow> and_then r (\<lambda>_. Inr f))"

section \<open>The page cache\<close>

record 'c moka =
  m_new :: "nat \<Rightarrow> 'c"
  m_get :: "page_id \<Rightarrow> 'c \<Rightarrow> bytes option \<times> 'c"
  m_insert :: "page_id \<Rightarrow> bytes \<Rightarrow> 'c \<Rightarrow> 'c"
  m_invalidate :: "page_id \<Rightarrow> 'c \<Rightarrow> 'c"

text \<open>What a cache promises: it returns only what was last inserted under the key and not invalidated
  since; it may forget anything at any time.\<close>

locale moka_cache =
  fixes K :: "'c moka" and view :: "'c \<Rightarrow> page_id \<Rightarrow> bytes option"
  assumes new_view: "view (m_new K n) = (\<lambda>_. None)"
    and get_view: "m_get K i c = (r, c') \<Longrightarrow> view c' \<subseteq>\<^sub>m view c \<and> (\<forall>d. r = Some d \<longrightarrow> view c i = Some d)"
    and insert_view: "view (m_insert K i d c) \<subseteq>\<^sub>m (view c)(i \<mapsto> d)"
    and invalidate_view: "view (m_invalidate K i c) \<subseteq>\<^sub>m (view c)(i := None)"

text \<open>A cache of bounded size that forgets the oldest entries, as a concrete instance.\<close>

definition fifo_cache :: "(nat \<times> (page_id \<times> bytes) list) moka" where
  "fifo_cache = \<lparr>m_new = \<lambda>n. (n, []), m_get = \<lambda>i c. (map_of (snd c) i, c),
     m_insert = \<lambda>i d c. (fst c, take (fst c) ((i, d) # filter (\<lambda>(j, _). j \<noteq> i) (snd c))),
     m_invalidate = \<lambda>i c. (fst c, filter (\<lambda>(j, _). j \<noteq> i) (snd c))\<rparr>"

lemma map_of_take_le: "map_of (take n xs) \<subseteq>\<^sub>m map_of xs"
proof -
  have "map_of xs = map_of (drop n xs) ++ map_of (take n xs)"
    by (metis append_take_drop_id map_of_append)
  then show ?thesis by simp
qed

lemma map_of_remove: "map_of (filter (\<lambda>(j, _). j \<noteq> i) xs) = (map_of xs)(i := None)"
  by (induction xs) (auto simp: fun_upd_def)

interpretation fifo: moka_cache fifo_cache "\<lambda>c. map_of (snd c)"
proof
  fix i d n and c c' :: "nat \<times> (page_id \<times> bytes) list" and r
  show "map_of (snd (m_new fifo_cache n)) = (\<lambda>_. None)"
    by (simp add: fifo_cache_def)
  show "map_of (snd c') \<subseteq>\<^sub>m map_of (snd c) \<and> (\<forall>d. r = Some d \<longrightarrow> map_of (snd c) i = Some d)"
    if "m_get fifo_cache i c = (r, c')"
    using that by (auto simp: fifo_cache_def)
  have "map_of ((i, d) # filter (\<lambda>(j, _). j \<noteq> i) (snd c)) = (map_of (snd c))(i \<mapsto> d)"
    by (simp add: map_of_remove)
  then show "map_of (snd (m_insert fifo_cache i d c)) \<subseteq>\<^sub>m (map_of (snd c))(i \<mapsto> d)"
    using map_of_take_le [of "fst c" "(i, d) # filter (\<lambda>(j, _). j \<noteq> i) (snd c)"]
    by (simp add: fifo_cache_def del: map_of.simps)
  show "map_of (snd (m_invalidate fifo_cache i c)) \<subseteq>\<^sub>m (map_of (snd c))(i := None)"
    by (simp add: fifo_cache_def map_of_remove)
qed

definition page_cache_new :: "'c moka \<Rightarrow> nat \<Rightarrow> 'c" where
  "page_cache_new K cache_capacity = m_new K cache_capacity"

definition page_cache_get :: "'c moka \<Rightarrow> page_id \<Rightarrow> 'c \<Rightarrow> bytes option \<times> 'c" where
  "page_cache_get K pid c = m_get K pid c"

definition page_cache_insert :: "'c moka \<Rightarrow> page_id \<Rightarrow> bytes \<Rightarrow> 'c \<Rightarrow> 'c" where
  "page_cache_insert K pid data c = m_insert K pid data c"

definition page_cache_remove :: "'c moka \<Rightarrow> page_id \<Rightarrow> 'c \<Rightarrow> 'c" where
  "page_cache_remove K pid c = m_invalidate K pid c"

section \<open>Page input and output\<close>

record page =
  page_no :: page_id
  page_data :: bytes

record 'c page_io =
  io_file :: file_handler
  io_cache :: 'c
  io_page_size :: u64

definition on_file :: "(file_handler, 'a) op \<Rightarrow> ('c page_io, 'a) op" where
  "on_file = zoom io_file (\<lambda>f s. s\<lparr>io_file := f\<rparr>)"

definition page_io_new :: "'c moka \<Rightarrow> file_handler \<Rightarrow> u64 \<Rightarrow> nat \<Rightarrow> 'c page_io" where
  "page_io_new K file page_size cache_capacity =
     \<lparr>io_file = file, io_cache = page_cache_new K cache_capacity, io_page_size = page_size\<rparr>"

definition read_page :: "'c moka \<Rightarrow> page_id \<Rightarrow> ('c page_io, page) op" where
  "read_page K pid s =
     (case page_cache_get K pid (io_cache s) of
        (Some data, c) \<Rightarrow> (Inr \<lparr>page_no = pid, page_data = data\<rparr>, s\<lparr>io_cache := c\<rparr>)
      | (None, c) \<Rightarrow>
          bind_op (lift_r (checked_mul pid (io_page_size s))) (\<lambda>offset.
          bind_op (on_file (read_at offset (unat (io_page_size s)))) (\<lambda>data s.
            (Inr \<lparr>page_no = pid, page_data = data\<rparr>, s\<lparr>io_cache := page_cache_insert K pid data (io_cache s)\<rparr>)))
          (s\<lparr>io_cache := c\<rparr>))"

definition write_page :: "'c moka \<Rightarrow> page \<Rightarrow> ('c page_io, unit) op" where
  "write_page K p s =
     (if length (page_data p) \<noteq> unat (io_page_size s)
      then (Inl (Fail (DatabaseError ''page has unexpected size'')), s)
      else
        bind_op (on_file (write_at_page (page_no p) (io_page_size s) (page_data p))) (\<lambda>_ s.
          (Inr (), s\<lparr>io_cache := page_cache_insert K (page_no p) (page_data p) (io_cache s)\<rparr>)) s)"

definition remove_page :: "'c moka \<Rightarrow> page_id \<Rightarrow> 'c page_io \<Rightarrow> 'c page_io" where
  "remove_page K pid s = s\<lparr>io_cache := page_cache_remove K pid (io_cache s)\<rparr>"

definition sync_data :: "('c page_io, unit) op" where
  "sync_data = on_file file_sync_data"

section \<open>Readers\<close>

text \<open>A \<open>BTreeMap\<close> from transaction ids to the number of their readers, as a sorted list.\<close>

type_synonym read_tracker = "(transaction_id \<times> u64) list"

definition tracker_begin_read :: "transaction_id \<Rightarrow> read_tracker \<Rightarrow> read_tracker kv_result" where
  "tracker_begin_read tx readers =
     (case map_of readers tx of
        None \<Rightarrow> Inr (upsert tx 1 readers)
      | Some n \<Rightarrow>
          if n = - 1 then Inl (Panic ''attempt to add with overflow'')
          else Inr (upsert tx (n + 1) readers))"

definition oldest_active_transaction :: "read_tracker \<Rightarrow> transaction_id option" where
  "oldest_active_transaction readers = (case readers of [] \<Rightarrow> None | (tx, _) # _ \<Rightarrow> Some tx)"

definition read_guard_drop :: "transaction_id \<Rightarrow> read_tracker \<Rightarrow> read_tracker kv_result" where
  "read_guard_drop tx readers =
     (case map_of readers tx of
        None \<Rightarrow> Inr readers
      | Some n \<Rightarrow>
          if n = 0 then Inl (Panic ''attempt to subtract with overflow'')
          else if n - 1 = 0 then Inr (filter (\<lambda>(t, _). t \<noteq> tx) readers)
          else Inr (upsert tx (n - 1) readers))"

section \<open>Page allocation\<close>

definition PAGE_ALLOCATION_BATCH :: u64 where
  "PAGE_ALLOCATION_BATCH = 1024"

record freed_page =
  fp_page_id :: page_id
  fp_transaction_id :: u64

record page_allocator_state =
  pending_free_pages :: "freed_page list"
  next_page_id :: page_id
  reserved_page_count :: u64

record 'c page_manager =
  pm_io :: "'c page_io"
  pm_readers :: read_tracker
  pm_alloc :: page_allocator_state

definition on_io :: "('c page_io, 'a) op \<Rightarrow> ('c page_manager, 'a) op" where
  "on_io = zoom pm_io (\<lambda>io s. s\<lparr>pm_io := io\<rparr>)"

definition page_allocator_new :: "nat \<Rightarrow> u64 \<Rightarrow> page_id \<Rightarrow> page_allocator_state kv_result" where
  "page_allocator_new len page_size next =
     (if page_size = 0 then Inl (Panic ''attempt to divide by zero'')
      else Inr \<lparr>pending_free_pages = [], next_page_id = next,
                 reserved_page_count = of_nat (len div unat page_size)\<rparr>)"

definition allocate_page_id :: "('c page_manager, page_id) op" where
  "allocate_page_id s =
     (let st = pm_alloc s;
          oldest = (case oldest_active_transaction (pm_readers s) of None \<Rightarrow> - 1 | Some t \<Rightarrow> t);
          fresh =
            (if next_page_id st = - 1 then (Inl (Panic ''attempt to add with overflow''), s)
             else
               let result = next_page_id st; s1 = s\<lparr>pm_alloc := st\<lparr>next_page_id := result + 1\<rparr>\<rparr> in
               if result + 1 > reserved_page_count st
               then bind_op (on_io (on_file (preallocate_pages PAGE_ALLOCATION_BATCH (io_page_size (pm_io s)))))
                      (\<lambda>count s. (Inr result, s\<lparr>pm_alloc := (pm_alloc s)\<lparr>reserved_page_count := count\<rparr>\<rparr>)) s1
               else (Inr result, s1))
      in case pending_free_pages st of
           freed # rest \<Rightarrow>
             if fp_transaction_id freed < oldest
             then (Inr (fp_page_id freed), s\<lparr>pm_alloc := st\<lparr>pending_free_pages := rest\<rparr>\<rparr>)
             else fresh
         | [] \<Rightarrow> fresh)"

definition free_page :: "page_id \<Rightarrow> u64 \<Rightarrow> 'c page_manager \<Rightarrow> 'c page_manager" where
  "free_page pid tx s =
     s\<lparr>pm_alloc := (pm_alloc s)\<lparr>pending_free_pages :=
        pending_free_pages (pm_alloc s) @ [\<lparr>fp_page_id = pid, fp_transaction_id = tx\<rparr>]\<rparr>\<rparr>"

definition page_manager_new :: "'c page_io \<Rightarrow> read_tracker \<Rightarrow> page_id \<Rightarrow> 'c page_manager kv_result" where
  "page_manager_new io readers next =
     (case file_len (io_file io) of
        (Inl e, f) \<Rightarrow> Inl e
      | (Inr len, f) \<Rightarrow>
          and_then (page_allocator_new len (io_page_size io) next) (\<lambda>alloc.
            Inr \<lparr>pm_io = io\<lparr>io_file := f\<rparr>, pm_readers = readers, pm_alloc = alloc\<rparr>))"

definition page_zeroed :: "page_id \<Rightarrow> nat \<Rightarrow> page" where
  "page_zeroed pid page_size = \<lparr>page_no = pid, page_data = replicate page_size 0\<rparr>"

definition allocate_page :: "'c moka \<Rightarrow> ('c page_manager, page) op" where
  "allocate_page K =
     bind_op allocate_page_id (\<lambda>pid s.
       (Inr (page_zeroed pid (unat (io_page_size (pm_io s)))),
        s\<lparr>pm_io := remove_page K pid (pm_io s)\<rparr>))"

definition manager_read_page :: "'c moka \<Rightarrow> page_id \<Rightarrow> ('c page_manager, page) op" where
  "manager_read_page K pid = on_io (read_page K pid)"

definition manager_write_page :: "'c moka \<Rightarrow> page \<Rightarrow> ('c page_manager, unit) op" where
  "manager_write_page K p = on_io (write_page K p)"

definition manager_sync_data :: "('c page_manager, unit) op" where
  "manager_sync_data = on_io sync_data"

end
