(* ===== verification/Write_Transaction.thy ===== *)
theory Write_Transaction
  imports Page_Store
begin

text \<open>
  The pages of a write transaction (\<open>kv/src/transactions/write_transaction.rs\<close>): the tracker of dirty
  pages with its checked-out slots, allocation and copy-on-write. Commit and the public \<open>insert\<close> are in the
  theory \<open>Database\<close>, after the tree they call.

  A \<open>DirtyPage\<close> is a page that the caller owns while its slot is \<open>CheckedOut\<close>; its \<open>Drop\<close>, which puts
  the page back, is the call of \<open>return_page\<close> that \<open>with_page\<close> makes at the end of the scope, on error
  paths and during unwinding too. A node operation that fails leaves the page as it was in the model; the
  transaction is failed then and its pages are never written.
\<close>

section \<open>Dirty pages\<close>

datatype dirty_page_slot = Available page | CheckedOut

type_synonym dirty_page_tracker = "(page_id, dirty_page_slot) hash_map"

definition tracker_contains :: "page_id \<Rightarrow> dirty_page_tracker \<Rightarrow> bool" where
  "tracker_contains pid d \<longleftrightarrow> hm_get d pid \<noteq> None"

definition tracker_add :: "page \<Rightarrow> (dirty_page_tracker, page) op" where
  "tracker_add p d =
     ((if hm_get d (page_no p) \<noteq> None then Inl (Panic ''page is already dirty in this transaction'') else Inr p),
      hm_insert (page_no p) CheckedOut d)"

definition tracker_check_out :: "page_id \<Rightarrow> (dirty_page_tracker, page) op" where
  "tracker_check_out pid d =
     (case hm_get d pid of
        None \<Rightarrow> (Inl (Panic ''page is not dirty''), d)
      | Some slot \<Rightarrow>
          ((case slot of
              Available p \<Rightarrow> Inr p
            | CheckedOut \<Rightarrow> Inl (Panic ''dirty page is already checked out'')),
           hm_insert pid CheckedOut d))"

definition tracker_return_page :: "page \<Rightarrow> (dirty_page_tracker, unit) op" where
  "tracker_return_page p d =
     (case hm_get d (page_no p) of
        Some CheckedOut \<Rightarrow> (Inr (), hm_insert (page_no p) (Available p) d)
      | Some (Available _) \<Rightarrow> (Inl (Panic ''dirty page was returned while it was not checked out''), d)
      | None \<Rightarrow> (Inl (Panic ''dirty page was removed while it was checked out''), d))"

text \<open>One element of the iterator \<open>into_pages\<close>, which is lazy.\<close>

definition slot_page :: "dirty_page_slot \<Rightarrow> page kv_result" where
  "slot_page slot =
     (case slot of
        Available p \<Rightarrow> Inr p
      | CheckedOut \<Rightarrow> Inl (Panic ''cannot commit while a dirty page is checked out''))"

section \<open>The transaction\<close>

record write_transaction =
  wt_transaction :: transaction_id
  wt_root_page :: page_id
  wt_root_page_checksum :: u128
  wt_dirty_pages :: dirty_page_tracker
  wt_freed_pages :: "page_id list"
  wt_failed :: bool

definition write_transaction_new :: "commit_slot \<Rightarrow> write_transaction kv_result" where
  "write_transaction_new slot =
     (if slot_transaction_id slot = - 1 then Inl (Panic ''attempt to add with overflow'')
      else Inr \<lparr>wt_transaction = slot_transaction_id slot + 1, wt_root_page = root_page_id slot,
             wt_root_page_checksum = root_page_checksum slot, wt_dirty_pages = [], wt_freed_pages = [],
             wt_failed = False\<rparr>)"

text \<open>The transaction together with the shared page manager it works on.\<close>

record 'c tx_state =
  ts_pages :: "'c page_manager"
  ts_tx :: write_transaction

definition on_pages :: "('c page_manager, 'a) op \<Rightarrow> ('c tx_state, 'a) op" where
  "on_pages = zoom ts_pages (\<lambda>p s. s\<lparr>ts_pages := p\<rparr>)"

definition on_dirty :: "(dirty_page_tracker, 'a) op \<Rightarrow> ('c tx_state, 'a) op" where
  "on_dirty = zoom (\<lambda>s. wt_dirty_pages (ts_tx s)) (\<lambda>d s. s\<lparr>ts_tx := (ts_tx s)\<lparr>wt_dirty_pages := d\<rparr>\<rparr>)"

definition tx_allocate_page :: "'c moka \<Rightarrow> ('c tx_state, page) op" where
  "tx_allocate_page K = bind_op (on_pages (allocate_page K)) (\<lambda>p. on_dirty (tracker_add p))"

definition push_freed :: "page_id \<Rightarrow> ('c tx_state, unit) op" where
  "push_freed pid s =
     (Inr (), s\<lparr>ts_tx := (ts_tx s)\<lparr>wt_freed_pages := wt_freed_pages (ts_tx s) @ [pid]\<rparr>\<rparr>)"

text \<open>\<open>copy_from_slice\<close>\<close>

definition copy_page_from :: "bytes \<Rightarrow> page \<Rightarrow> page kv_result" where
  "copy_page_from src p =
     (if length src = length (page_data p) then Inr (p\<lparr>page_data := src\<rparr>)
      else Inl (Panic ''copy_from_slice: source slice length does not match destination slice length''))"

definition cow_page :: "'c moka \<Rightarrow> page_id \<Rightarrow> ('c tx_state, page) op" where
  "cow_page K pid s =
     (if tracker_contains pid (wt_dirty_pages (ts_tx s)) then on_dirty (tracker_check_out pid) s
      else
        bind_op (on_pages (manager_read_page K pid)) (\<lambda>old_page.
        bind_op (on_pages (allocate_page K)) (\<lambda>p.
        bind_op (lift_r (copy_page_from (page_data old_page) p)) (\<lambda>p.
        bind_op (push_freed pid) (\<lambda>_.
        on_dirty (tracker_add p))))) s)"

definition set_root_page :: "page_id \<Rightarrow> u128 \<Rightarrow> ('c tx_state, unit) op" where
  "set_root_page pid checksum s =
     (Inr (), s\<lparr>ts_tx := (ts_tx s)\<lparr>wt_root_page := pid, wt_root_page_checksum := checksum\<rparr>\<rparr>)"

section \<open>Scopes of a dirty page\<close>

text \<open>The body works on the page and on the transaction; the page goes back at the end of the scope. A
  panic while the page is put back replaces the result of the body.\<close>

definition with_page ::
    "('s, page) op \<Rightarrow> (page \<Rightarrow> ('s, unit) op) \<Rightarrow> (page \<Rightarrow> 's \<Rightarrow> 'a kv_result \<times> page \<times> 's) \<Rightarrow> ('s, 'a) op" where
  "with_page acquire giveback body s =
     (case acquire s of
        (Inl e, s) \<Rightarrow> (Inl e, s)
      | (Inr p, s) \<Rightarrow>
          (case body p s of
             (r, p, s) \<Rightarrow> (case giveback p s of (Inr _, s) \<Rightarrow> (r, s) | (Inl e, s) \<Rightarrow> (Inl e, s))))"

definition return_page :: "page \<Rightarrow> ('c tx_state, unit) op" where
  "return_page p = on_dirty (tracker_return_page p)"

end
