(* ===== verification/Tree.thy ===== *)
theory Tree
  imports Leaf_Node_Props Branch_Node_Props Write_Transaction
begin

text \<open>
  The B+-tree of pages (\<open>kv/src/btree/tree.rs\<close>): verification of the checksums, lookup and insertion
  with splits. The functions take the page operations they call as arguments: \<open>verify_pages\<close> and \<open>get\<close> the
  function that reads a page, \<open>insert\<close> a record of the operations of the write transaction, instantiated by
  \<open>tx_ops\<close>.

  The recursion of \<open>verify_pages\<close> and \<open>insert_recursive\<close> is bounded by the number of stack frames, the
  first argument, and overflows the stack beyond; the loop of \<open>get\<close> has fuel and returns \<open>None\<close> without.
\<close>

section \<open>Data\<close>

definition checksum_page :: "kv_crates \<Rightarrow> bytes \<Rightarrow> u128" where
  "checksum_page X data = xxh3_128 X data"

record page_split =
  ps_separator_key :: bytes
  ps_right_page_id :: page_id
  ps_right_page_checksum :: u128

record insertion_result =
  ir_replacement_page_id :: page_id
  ir_replacement_page_checksum :: u128
  ir_split :: "page_split option"

datatype node_page = LeafNode leaf_page | BranchNode branch_page

definition node_page_from_page :: "kv_crates \<Rightarrow> bytes \<Rightarrow> node_page kv_result" where
  "node_page_from_page X page =
     and_then (node_kind_parse X page) (\<lambda>kind.
       case kind of
         LeafKind \<Rightarrow> and_then (leaf_from_page X page) (\<lambda>lp. Inr (LeafNode lp))
       | BranchKind \<Rightarrow> and_then (branch_from_page X page) (\<lambda>bp. Inr (BranchNode bp)))"

definition stack_overflow :: "kv_error fault" where
  "stack_overflow = Panic ''stack overflow''"

section \<open>Verification\<close>

fun for_op :: "('a \<Rightarrow> ('s, unit) op) \<Rightarrow> 'a list \<Rightarrow> ('s, unit) op" where
  "for_op f [] = ret ()"
| "for_op f (x # xs) = bind_op (f x) (\<lambda>_. for_op f xs)"

primrec verify_pages ::
    "nat \<Rightarrow> kv_crates \<Rightarrow> (page_id \<Rightarrow> ('s, page) op) \<Rightarrow> page_id \<Rightarrow> u128 \<Rightarrow> ('s, unit) op" where
  "verify_pages 0 X rd pid expected_checksum = fail stack_overflow"
| "verify_pages (Suc frames) X rd pid expected_checksum =
     bind_op (rd pid) (\<lambda>page.
       if checksum_page X (page_data page) \<noteq> expected_checksum
       then fail (Fail (DatabaseError ''Checksum mismatch for page''))
       else bind_op (lift_r (node_page_from_page X (page_data page))) (\<lambda>node.
         case node of
           LeafNode _ \<Rightarrow> ret ()
         | BranchNode bp \<Rightarrow>
             for_op (\<lambda>m. bind_op (lift_r (branch_entry_key (bp_page bp) m)) (\<lambda>_.
               verify_pages frames X rd (bm_child_page_id m) (bm_child_page_checksum m))) (bp_entries bp)))"

section \<open>Lookup\<close>

primrec get_loop ::
    "nat \<Rightarrow> kv_crates \<Rightarrow> (page_id \<Rightarrow> ('s, page) op) \<Rightarrow> page_id \<Rightarrow> bytes \<Rightarrow> 's
     \<Rightarrow> (bytes option kv_result \<times> 's) option" where
  "get_loop 0 X rd node_page_id key s = None"
| "get_loop (Suc fuel) X rd node_page_id key s =
     (case rd node_page_id s of
        (Inl e, s) \<Rightarrow> Some (Inl e, s)
      | (Inr node_page, s) \<Rightarrow>
          (case node_page_from_page X (page_data node_page) of
             Inl e \<Rightarrow> Some (Inl e, s)
           | Inr (LeafNode lp) \<Rightarrow> Some (leaf_get_value lp key, s)
           | Inr (BranchNode bp) \<Rightarrow>
               (case child_page_id_for_key bp key of
                  Inl e \<Rightarrow> Some (Inl e, s)
                | Inr child \<Rightarrow> get_loop fuel X rd child key s)))"

section \<open>Insertion\<close>

record 's page_ops =
  po_get_root :: "'s \<Rightarrow> page_id"
  po_set_root :: "page_id \<Rightarrow> u128 \<Rightarrow> ('s, unit) op"
  po_cow :: "page_id \<Rightarrow> ('s, page) op"
  po_allocate :: "('s, page) op"
  po_return :: "page \<Rightarrow> ('s, unit) op"

definition tx_ops :: "'c moka \<Rightarrow> 'c tx_state page_ops" where
  "tx_ops K = \<lparr>po_get_root = \<lambda>s. wt_root_page (ts_tx s), po_set_root = set_root_page, po_cow = cow_page K,
     po_allocate = tx_allocate_page K, po_return = return_page\<rparr>"

text \<open>The end of both splitting branches: a right page is allocated, the builder fills a scratch page and the
  right page, and the scratch page is copied over the page that was split.\<close>

definition split_node ::
    "kv_crates \<Rightarrow> 's page_ops \<Rightarrow> (bytes \<Rightarrow> bytes \<Rightarrow> (bytes \<times> bytes \<times> bytes) kv_result) \<Rightarrow> page \<Rightarrow> 's
     \<Rightarrow> insertion_result kv_result \<times> page \<times> 's" where
  "split_node X ops build_split_pages page s =
     (case with_page (po_allocate ops) (po_return ops) (\<lambda>right_page s.
             case and_then (build_split_pages (replicate (length (page_data page)) 0) (page_data right_page))
                    (\<lambda>(separator_key, left_scratch, right_data).
                       and_then (copy_page_from left_scratch page) (\<lambda>page.
                         Inr (separator_key, page, right_page\<lparr>page_data := right_data\<rparr>))) of
               Inl e \<Rightarrow> (Inl e, right_page, s)
             | Inr (separator_key, page, right_page) \<Rightarrow>
                 (Inr (\<lparr>ir_replacement_page_id = page_no page,
                        ir_replacement_page_checksum = checksum_page X (page_data page),
                        ir_split = Some \<lparr>ps_separator_key = separator_key, ps_right_page_id = page_no right_page,
                          ps_right_page_checksum = checksum_page X (page_data right_page)\<rparr>\<rparr>, page),
                  right_page, s)) s of
        (Inl e, s) \<Rightarrow> (Inl e, page, s)
      | (Inr (result, page), s) \<Rightarrow> (Inr result, page, s))"

text \<open>The page was changed in place and keeps its id.\<close>

definition in_place :: "kv_crates \<Rightarrow> page \<Rightarrow> bytes \<Rightarrow> 's \<Rightarrow> insertion_result kv_result \<times> page \<times> 's" where
  "in_place X page data s =
     (Inr \<lparr>ir_replacement_page_id = page_no page, ir_replacement_page_checksum = checksum_page X data,
           ir_split = None\<rparr>, page\<lparr>page_data := data\<rparr>, s)"

definition insert_leaf ::
    "kv_crates \<Rightarrow> 's page_ops \<Rightarrow> bytes \<Rightarrow> bytes \<Rightarrow> page \<Rightarrow> 's \<Rightarrow> insertion_result kv_result \<times> page \<times> 's" where
  "insert_leaf X ops key val page s =
     (case leaf_fits X (page_data page) key val of
        Inl e \<Rightarrow> (Inl e, page, s)
      | Inr True \<Rightarrow>
          (case leaf_insert X key val (page_data page) of
             Inl e \<Rightarrow> (Inl e, page, s)
           | Inr data \<Rightarrow> in_place X page data s)
      | Inr False \<Rightarrow>
          split_node X ops (\<lambda>left_scratch right_page.
            and_then (leaf_builder_from_page X (page_data page)) (\<lambda>leaf_builder.
            and_then (leaf_builder_insert key val leaf_builder) (\<lambda>leaf_builder.
            leaf_build_split_pages X leaf_builder left_scratch right_page))) page s)"

definition insert_branch ::
    "kv_crates \<Rightarrow> 's page_ops \<Rightarrow> (page_id \<Rightarrow> ('s, insertion_result) op) \<Rightarrow> bytes \<Rightarrow> page \<Rightarrow> 's
     \<Rightarrow> insertion_result kv_result \<times> page \<times> 's" where
  "insert_branch X ops insert_child key page s =
     (case child_page_for_key X (page_data page) key of
        Inl e \<Rightarrow> (Inl e, page, s)
      | Inr (child_index, child_page_id) \<Rightarrow>
     (case insert_child child_page_id s of
        (Inl e, s) \<Rightarrow> (Inl e, page, s)
      | (Inr result, s) \<Rightarrow>
     (case set_child_at_index X child_index (ir_replacement_page_id result)
             (ir_replacement_page_checksum result) (page_data page) of
        Inl e \<Rightarrow> (Inl e, page, s)
      | Inr data \<Rightarrow>
     (case ir_split result of
        None \<Rightarrow> in_place X page data s
      | Some child_split \<Rightarrow>
     (case branch_fits X data (ps_separator_key child_split) of
        Inl e \<Rightarrow> (Inl e, page\<lparr>page_data := data\<rparr>, s)
      | Inr True \<Rightarrow>
          (case branch_insert X (ps_separator_key child_split) (ps_right_page_id child_split)
                  (ps_right_page_checksum child_split) data of
             Inl e \<Rightarrow> (Inl e, page\<lparr>page_data := data\<rparr>, s)
           | Inr data \<Rightarrow> in_place X page data s)
      | Inr False \<Rightarrow>
          split_node X ops (\<lambda>left_scratch right_page.
            and_then (branch_builder_from_page X data) (\<lambda>branch_builder.
            and_then (branch_builder_insert (ps_separator_key child_split) (ps_right_page_id child_split)
              (ps_right_page_checksum child_split) branch_builder) (\<lambda>branch_builder.
            branch_build_split_pages X branch_builder left_scratch right_page))) (page\<lparr>page_data := data\<rparr>) s)))))"

primrec insert_recursive ::
    "nat \<Rightarrow> kv_crates \<Rightarrow> 's page_ops \<Rightarrow> bytes \<Rightarrow> bytes \<Rightarrow> page_id \<Rightarrow> ('s, insertion_result) op" where
  "insert_recursive 0 X ops key val node_page_id = fail stack_overflow"
| "insert_recursive (Suc frames) X ops key val node_page_id =
     with_page (po_cow ops node_page_id) (po_return ops) (\<lambda>page s.
       case node_kind_parse X (page_data page) of
         Inl e \<Rightarrow> (Inl e, page, s)
       | Inr LeafKind \<Rightarrow> insert_leaf X ops key val page s
       | Inr BranchKind \<Rightarrow> insert_branch X ops (insert_recursive frames X ops key val) key page s)"

definition tree_insert :: "nat \<Rightarrow> kv_crates \<Rightarrow> 's page_ops \<Rightarrow> bytes \<Rightarrow> bytes \<Rightarrow> ('s, unit) op" where
  "tree_insert frames X ops key val s =
     bind_op (insert_recursive frames X ops key val (po_get_root ops s)) (\<lambda>result.
       case ir_split result of
         Some split \<Rightarrow>
           with_page (po_allocate ops) (po_return ops) (\<lambda>new_root_page s.
             case branch_build_page_at_buf X
                    (branch_builder_new_root (ir_replacement_page_id result) (ir_replacement_page_checksum result)
                       (ps_separator_key split) (ps_right_page_id split) (ps_right_page_checksum split))
                    (page_data new_root_page) of
               Inl e \<Rightarrow> (Inl e, new_root_page, s)
             | Inr data \<Rightarrow>
                 (case po_set_root ops (page_no new_root_page) (checksum_page X data) s of
                    (r, s) \<Rightarrow> (r, new_root_page\<lparr>page_data := data\<rparr>, s)))
       | None \<Rightarrow> po_set_root ops (ir_replacement_page_id result) (ir_replacement_page_checksum result)) s"

end
