(* ===== verification/Database.thy ===== *)
theory Database
  imports Tree
begin

text \<open>
  The database (\<open>kv/src/db.rs\<close>) and its transactions (\<open>transactions/read_transaction.rs\<close>,
  \<open>transactions/write_transaction.rs\<close>): creating and opening a file, recovery of the header, snapshots,
  insertion, commit and lookup.

  The state shared by all handles is the record \<open>database\<close>: the page manager with the reader counts, the
  committed header, the snapshot that readers start from, and whether the writer lock is poisoned by a panic
  during a write transaction. A read or write transaction is a value of its own; operations of different
  transactions interleave as sequences of calls on the shared state. The writer lock admits one write
  transaction at a time.
\<close>

section \<open>State\<close>

record 'c database =
  db_pages :: "'c page_manager"
  db_commit_header :: db_header
  db_snapshot :: "page_id \<times> transaction_id"
  db_writer_poisoned :: bool

record read_transaction =
  rt_root_page_id :: page_id
  rt_transaction :: transaction_id

definition on_db_pages :: "('c page_manager, 'a) op \<Rightarrow> ('c database, 'a) op" where
  "on_db_pages = zoom db_pages (\<lambda>p s. s\<lparr>db_pages := p\<rparr>)"

text \<open>\<open>CommitState::new\<close> and \<open>Database::from_parts\<close>.\<close>

definition commit_state_new :: "db_header \<Rightarrow> (db_header \<times> page_id \<times> transaction_id) kv_result" where
  "commit_state_new header =
     and_then (active_slot header) (\<lambda>slot. Inr (header, root_page_id slot, slot_transaction_id slot))"

definition from_parts :: "'c page_io \<Rightarrow> db_header \<Rightarrow> 'c database kv_result" where
  "from_parts io header =
     and_then (active_slot header) (\<lambda>slot.
     and_then (page_manager_new io [] (slot_next_page_id slot)) (\<lambda>pages.
     and_then (commit_state_new header) (\<lambda>(header, snapshot).
     Inr \<lparr>db_pages = pages, db_commit_header = header, db_snapshot = snapshot, db_writer_poisoned = False\<rparr>)))"

section \<open>Opening\<close>

definition validate_page_size :: "u64 \<Rightarrow> unit kv_result" where
  "validate_page_size page_size =
     (if page_size < MIN_PAGE_SIZE then Inl (Fail (DatabaseError ''page size must be at least 4096''))
      else Inr ())"

definition read_header :: "kv_crates \<Rightarrow> (file_handler, db_header) op" where
  "read_header X =
     bind_op file_len (\<lambda>len.
       if len < header_size then fail (Fail (DatabaseError ''Database file size is less than header size''))
       else bind_op (read_at (unat HEADER_PAGE_ID) header_size) (\<lambda>header_page.
            bind_op (lift_r (header_parse X header_page)) (\<lambda>header.
            bind_op (lift_r (validate_page_size (header_page_size header))) (\<lambda>_. ret header))))"

definition recover_header :: "nat \<Rightarrow> kv_crates \<Rightarrow> 'c moka \<Rightarrow> db_header \<Rightarrow> ('c page_io, db_header) op" where
  "recover_header frames X K header =
     bind_op (on_file file_len) (\<lambda>len.
       if len < unat (header_page_size header)
       then fail (Fail (DatabaseError ''Database file size is less than page size''))
       else bind_op (lift_r (active_slot header)) (\<lambda>slot s.
         case verify_pages frames X (read_page K) (root_page_id slot) (root_page_checksum slot) s of
           (Inr _, s) \<Rightarrow> (Inr header, s)
         | (Inl (Fail (DatabaseError _)), s) \<Rightarrow>
             bind_op (lift_r (inactive_slot header)) (\<lambda>slot.
             bind_op (verify_pages frames X (read_page K) (root_page_id slot) (root_page_checksum slot)) (\<lambda>_.
             ret (switch_to_inactive_slot header))) s
         | (Inl e, s) \<Rightarrow> (Inl e, s)))"

definition open_existing ::
    "nat \<Rightarrow> kv_crates \<Rightarrow> 'c moka \<Rightarrow> bytes \<Rightarrow> io_outcome list \<Rightarrow> nat \<Rightarrow> 'c database kv_result" where
  "open_existing frames X K stored script cache_capacity =
     and_then (open_existing_file stored script) (\<lambda>file.
       case read_header X file of
         (Inl e, _) \<Rightarrow> Inl e
       | (Inr header, file) \<Rightarrow>
           (case recover_header frames X K header (page_io_new K file (header_page_size header) cache_capacity) of
              (Inl e, _) \<Rightarrow> Inl e
            | (Inr header, io) \<Rightarrow> from_parts io header))"

definition new_file :: "kv_crates \<Rightarrow> 'c moka \<Rightarrow> ('c page_io, db_header) op" where
  "new_file X K s =
     bind_op (lift_r (get_empty_leaf_page X (unat (io_page_size s)))) (\<lambda>empty_leaf.
     let header = header_initial (io_page_size s) (checksum_page X empty_leaf) in
     bind_op (lift_r (active_slot header)) (\<lambda>slot.
     bind_op (on_file (preallocate_pages (slot_next_page_id slot) (io_page_size s))) (\<lambda>_.
     bind_op (lift_r (encode_page X header)) (\<lambda>header_page.
     bind_op (write_page K \<lparr>page_no = HEADER_PAGE_ID, page_data = header_page\<rparr>) (\<lambda>_.
     bind_op (write_page K \<lparr>page_no = INITIAL_ROOT_PAGE_ID, page_data = empty_leaf\<rparr>) (\<lambda>_.
     ret header)))))) s"

definition open_new ::
    "kv_crates \<Rightarrow> 'c moka \<Rightarrow> io_outcome list \<Rightarrow> u64 \<Rightarrow> nat \<Rightarrow> 'c database kv_result" where
  "open_new X K script page_size cache_capacity =
     and_then (validate_page_size page_size) (\<lambda>_.
     and_then (open_new_file script) (\<lambda>file.
       case new_file X K (page_io_new K file page_size cache_capacity) of
         (Inl e, _) \<Rightarrow> Inl e
       | (Inr header, io) \<Rightarrow> from_parts io header))"

section \<open>Reading\<close>

definition begin_read :: "('c database, read_transaction) op" where
  "begin_read s =
     (let (root, tx) = db_snapshot s in
      case tracker_begin_read tx (pm_readers (db_pages s)) of
        Inl e \<Rightarrow> (Inl e, s)
      | Inr readers \<Rightarrow>
          (Inr \<lparr>rt_root_page_id = root, rt_transaction = tx\<rparr>,
           s\<lparr>db_pages := (db_pages s)\<lparr>pm_readers := readers\<rparr>\<rparr>))"

definition transaction_read ::
    "nat \<Rightarrow> kv_crates \<Rightarrow> 'c moka \<Rightarrow> read_transaction \<Rightarrow> bytes \<Rightarrow> 'c database
     \<Rightarrow> (bytes option kv_result \<times> 'c database) option" where
  "transaction_read fuel X K rt key s =
     map_option (\<lambda>(r, pages). (r, s\<lparr>db_pages := pages\<rparr>))
       (get_loop fuel X (manager_read_page K) (rt_root_page_id rt) key (db_pages s))"

definition end_read :: "read_transaction \<Rightarrow> ('c database, unit) op" where
  "end_read rt s =
     (case read_guard_drop (rt_transaction rt) (pm_readers (db_pages s)) of
        Inl e \<Rightarrow> (Inl e, s)
      | Inr readers \<Rightarrow> (Inr (), s\<lparr>db_pages := (db_pages s)\<lparr>pm_readers := readers\<rparr>\<rparr>))"

section \<open>Writing\<close>

text \<open>A panic while the transaction is alive poisons the writer lock when the transaction is dropped.\<close>

definition poison :: "'a kv_result \<Rightarrow> 'c database \<Rightarrow> 'c database" where
  "poison r s = (case r of Inl (Panic _) \<Rightarrow> s\<lparr>db_writer_poisoned := True\<rparr> | _ \<Rightarrow> s)"

definition begin_write :: "'c database \<Rightarrow> write_transaction kv_result" where
  "begin_write s =
     (if db_writer_poisoned s then Inl (Panic ''writer lock poisoned'')
      else and_then (active_slot (db_commit_header s)) write_transaction_new)"

text \<open>\<open>inspect_err\<close> marks the transaction as failed on an error.\<close>

definition tx_insert :: "nat \<Rightarrow> kv_crates \<Rightarrow> 'c moka \<Rightarrow> bytes \<Rightarrow> bytes \<Rightarrow> ('c tx_state, unit) op" where
  "tx_insert frames X K key val s =
     (if wt_failed (ts_tx s) then (Inl (Fail TransactionFailed), s)
      else case tree_insert frames X (tx_ops K) key val s of
             (Inl (Fail e), s) \<Rightarrow> (Inl (Fail e), s\<lparr>ts_tx := (ts_tx s)\<lparr>wt_failed := True\<rparr>\<rparr>)
           | (r, s) \<Rightarrow> (r, s))"

definition transaction_insert ::
    "nat \<Rightarrow> kv_crates \<Rightarrow> 'c moka \<Rightarrow> bytes \<Rightarrow> bytes \<Rightarrow> ('c database \<times> write_transaction, unit) op" where
  "transaction_insert frames X K key val =
     (\<lambda>(s, wt). case tx_insert frames X K key val \<lparr>ts_pages = db_pages s, ts_tx = wt\<rparr> of
        (r, ts) \<Rightarrow> (r, poison r (s\<lparr>db_pages := ts_pages ts\<rparr>), ts_tx ts))"

definition publish ::
    "kv_crates \<Rightarrow> 'c moka \<Rightarrow> page_id \<Rightarrow> u128 \<Rightarrow> transaction_id \<Rightarrow> ('c database, unit) op" where
  "publish X K root checksum tx s =
     bind_op (lift_r (with_commit root checksum tx (next_page_id (pm_alloc (db_pages s))) (db_commit_header s)))
       (\<lambda>new_header.
     bind_op (lift_r (encode_page X new_header)) (\<lambda>header_page.
     bind_op (on_db_pages (manager_write_page K \<lparr>page_no = HEADER_PAGE_ID, page_data = header_page\<rparr>)) (\<lambda>_.
     bind_op (on_db_pages manager_sync_data) (\<lambda>_.
     bind_op (lift_r (active_slot new_header)) (\<lambda>slot s.
       (Inr (), s\<lparr>db_commit_header := new_header,
                  db_snapshot := (root_page_id slot, slot_transaction_id slot)\<rparr>)))))) s"

definition write_dirty_pages :: "'c moka \<Rightarrow> dirty_page_tracker \<Rightarrow> ('c database, unit) op" where
  "write_dirty_pages K dirty =
     for_op (\<lambda>slot. bind_op (lift_r (slot_page slot)) (\<lambda>p. on_db_pages (manager_write_page K p))) (map snd dirty)"

definition free_pages :: "page_id list \<Rightarrow> transaction_id \<Rightarrow> 'c database \<Rightarrow> 'c database" where
  "free_pages freed tx s = s\<lparr>db_pages := fold (\<lambda>pid. free_page pid tx) freed (db_pages s)\<rparr>"

definition commit :: "kv_crates \<Rightarrow> 'c moka \<Rightarrow> write_transaction \<Rightarrow> ('c database, unit) op" where
  "commit X K wt s =
     (if wt_failed wt then (Inl (Fail TransactionFailed), s)
      else case bind_op (write_dirty_pages K (wt_dirty_pages wt)) (\<lambda>_.
                bind_op (publish X K (wt_root_page wt) (wt_root_page_checksum wt) (wt_transaction wt)) (\<lambda>_ s.
                (Inr (), free_pages (wt_freed_pages wt) (wt_transaction wt) s))) s of
             (r, s) \<Rightarrow> (r, poison r s))"

end
