(* ===== verification/Page_Store_Props.thy ===== *)
theory Page_Store_Props
  imports Page_Store
begin

text \<open>
  The page layer against what it stands for: the map \<open>page_view\<close> from page ids to the bytes that a read
  returns. Reading, allocation and growth of the file only ever extend this map, a successful write updates it
  at one page, and a failed write, also one that wrote a part of the page, spoils only the page it was for.
\<close>

section \<open>Operations that keep a relation\<close>

text \<open>\<open>op_keeps R m\<close>: whatever the outcome, the states before and after are related by \<open>R\<close>.\<close>

definition op_keeps :: "('s \<Rightarrow> 's \<Rightarrow> bool) \<Rightarrow> ('s, 'a) op \<Rightarrow> bool" where
  "op_keeps R m \<longleftrightarrow> (\<forall>s r t. m s = (r, t) \<longrightarrow> R s t)"

named_theorems keeps \<open>operations that keep a relation\<close>

lemma op_keepsI: "(\<And>s r t. m s = (r, t) \<Longrightarrow> R s t) \<Longrightarrow> op_keeps R m"
  by (simp add: op_keeps_def)

lemma op_keepsD: "op_keeps R m \<Longrightarrow> m s = (r, t) \<Longrightarrow> R s t"
  by (simp add: op_keeps_def)

lemma op_keeps_basic:
  assumes "reflp R"
  shows "op_keeps R (ret a)" "op_keeps R (fail e)" "op_keeps R (lift_r r)"
  using assms by (auto simp: op_keeps_def dest: reflpD)

lemma op_keeps_bind:
  assumes "transp R" "op_keeps R m" "\<And>a. op_keeps R (k a)"
  shows "op_keeps R (bind_op m k)"
proof (rule op_keepsI)
  fix s r t
  assume "bind_op m k s = (r, t)"
  then consider e where "m s = (Inl e, t)" | a u where "m s = (Inr a, u)" "k a u = (r, t)"
    by (auto simp: bind_op_def split: prod.splits sum.splits)
  then show "R s t"
    using assms by cases (auto dest: op_keepsD transpD)
qed

lemma op_keeps_zoom:
  assumes "op_keeps R m" "\<And>s q. R (get s) q \<Longrightarrow> R' s (put q s)"
  shows "op_keeps R' (zoom get put m)"
  using assms by (auto simp: op_keeps_def zoom_def split: prod.splits)

section \<open>Files\<close>

definition calm_file :: "file_handler \<Rightarrow> bool" where
  "calm_file f \<longleftrightarrow> io_script f = []"

text \<open>An outcome that the operating system is to blame for.\<close>

definition io_failure :: "kv_error fault \<Rightarrow> bool" where
  "io_failure e \<longleftrightarrow> (case e of Fail (IoError _) \<Rightarrow> True | _ \<Rightarrow> False)"

lemma io_failure_simps [simp]:
  "io_failure io_error" "io_failure (Fail (IoError m))" "\<not> io_failure (Panic p)"
  "\<not> io_failure (Fail (DatabaseError m))"
  by (simp_all add: io_failure_def io_error_def)

lemma next_outcome_simps [simp]:
  "next_outcome f = (oc, g) \<Longrightarrow> contents g = contents f"
  "calm_file f \<Longrightarrow> next_outcome f = (Complete, f)"
  by (auto simp: next_outcome_def calm_file_def split: list.splits)

lemma sys_call_spec:
  assumes "sys_call f = (r, g)"
  shows "contents g = contents f" "r = Inr () \<or> r = Inl io_error"
    "calm_file f \<Longrightarrow> r = Inr () \<and> g = f"
  using assms by (auto simp: sys_call_def split: prod.splits io_outcome.splits dest: next_outcome_simps(1))

lemma file_len_spec:
  assumes "file_len f = (r, g)"
  shows "contents g = contents f" "r = Inr (length (contents f)) \<or> r = Inl io_error"
    "calm_file f \<Longrightarrow> r = Inr (length (contents f)) \<and> g = f"
proof -
  obtain q h where s: "sys_call f = (q, h)" by fastforce
  note c = sys_call_spec [OF s]
  show "contents g = contents f" "r = Inr (length (contents f)) \<or> r = Inl io_error"
    using assms s c by (auto simp: file_len_def)
  show "r = Inr (length (contents f)) \<and> g = f" if "calm_file f"
    using assms s c that by (auto simp: file_len_def)
qed

lemma assert_offset_spec:
  assumes "assert_offset off f = (r, g)"
  shows "contents g = contents f" "off \<le> length (contents f) \<Longrightarrow> r = Inr () \<or> r = Inl io_error"
    "r = Inr () \<Longrightarrow> off \<le> length (contents f)"
    "calm_file f \<Longrightarrow> off \<le> length (contents f) \<Longrightarrow> r = Inr () \<and> g = f"
proof -
  obtain q h where s: "file_len f = (q, h)" by fastforce
  note c = file_len_spec [OF s]
  show "contents g = contents f"
    using assms s c by (cases q) (auto simp: assert_offset_def split: if_splits)
  show "r = Inr () \<or> r = Inl io_error" if "off \<le> length (contents f)"
    using assms s c that by (cases q) (auto simp: assert_offset_def)
  show "off \<le> length (contents f)" if "r = Inr ()"
    using assms s c that by (cases q) (auto simp: assert_offset_def split: if_splits)
  show "r = Inr () \<and> g = f" if "calm_file f" "off \<le> length (contents f)"
    using assms s c that by (auto simp: assert_offset_def)
qed

lemma seek_read_spec:
  assumes "seek_read off n f = (r, g)"
  shows "contents g = contents f" "r = Inl io_error \<or> (\<exists>k \<le> n. r = Inr (range_of off k (contents f)))"
    "calm_file f \<Longrightarrow> r = Inr (range_of off n (contents f)) \<and> g = f"
proof -
  obtain oc h where s: "next_outcome f = (oc, h)" by fastforce
  note c = next_outcome_simps(1) [OF s]
  show "contents g = contents f"
    using assms s c by (cases oc) (auto simp: seek_read_def)
  have "transferred oc n \<le> n" by (cases oc) (simp_all add: transferred_def)
  then show "r = Inl io_error \<or> (\<exists>k \<le> n. r = Inr (range_of off k (contents f)))"
    using assms s c by (cases oc) (auto simp: seek_read_def)
  show "r = Inr (range_of off n (contents f)) \<and> g = f" if "calm_file f"
    using assms that by (auto simp: seek_read_def transferred_def)
qed

declare read_loop.simps [simp del]

text \<open>The loop of \<open>read_at\<close> returns the whole range or an error, and leaves the contents alone.\<close>

lemma range_of_length_le: "length (range_of off k xs) \<le> k"
  by (simp add: range_of_def)

lemma range_of_shorter: "range_of off k xs = range_of off (length (range_of off k xs)) xs"
  by (cases "k \<le> length xs - off") (simp_all add: range_of_def min_def)

lemma read_loop_spec:
  assumes "read_loop off n f = (r, g)"
  shows "contents g = contents f \<and> (r = Inr (range_of off n (contents f)) \<and> (n = 0 \<or> off + n \<le> length (contents f))
    \<or> (\<exists>e. r = Inl e \<and> io_failure e))"
  using assms
proof (induction off n f arbitrary: r g rule: read_loop.induct)
  case (1 off n f)
  show ?case
  proof (cases "n = 0")
    case True
    with "1.prems" show ?thesis by (simp add: read_loop.simps)
  next
    case False
    obtain q h where s: "seek_read off n f = (q, h)" by fastforce
    note c = seek_read_spec [OF s]
    show ?thesis
    proof (cases q)
      case (Inl e)
      with c(2) have "q = Inl io_error" by auto
      with "1.prems" False s c(1) show ?thesis by (auto simp: read_loop.simps [of off n])
    next
      case (Inr data)
      obtain k where k: "k \<le> n" "data = range_of off k (contents f)" using c(2) Inr by auto
      show ?thesis
      proof (cases "data = []")
        case True
        with "1.prems" False s Inr c(1) show ?thesis by (auto simp: read_loop.simps [of off n])
      next
        case nonempty: False
        define m where "m = length data"
        have m: "m \<le> n" "data = range_of off m (contents f)" "0 < m" "off + m \<le> length (contents f)"
          using k nonempty range_of_length_le [of off k "contents f"] range_of_shorter [of off k "contents f"]
          by (auto simp: m_def range_of_def)
        obtain q2 h2 where l: "read_loop (off + m) (n - m) h = (q2, h2)" by fastforce
        have ih: "contents h2 = contents h \<and> (q2 = Inr (range_of (off + m) (n - m) (contents h))
            \<and> (n - m = 0 \<or> off + m + (n - m) \<le> length (contents h)) \<or> (\<exists>e. q2 = Inl e \<and> io_failure e))"
          by (rule "1.IH" [OF False s [unfolded Inr] nonempty l [unfolded m_def], folded m_def])
        have split: "range_of off n (contents f) = data @ range_of (off + m) (n - m) (contents f)"
          using range_of_append [of off m "n - m" "contents f"] m by simp
        have "(r, g) = (case q2 of Inl e \<Rightarrow> (Inl e, h2) | Inr rest \<Rightarrow> (Inr (data @ rest), h2))"
          using "1.prems" False s Inr nonempty l
          by (cases q2) (auto simp: read_loop.simps [of off n] m_def)
        with ih c(1) split m show ?thesis by (cases q2) auto
      qed
    qed
  qed
qed

lemma read_loop_calm:
  assumes "calm_file f" "off + n \<le> length (contents f)"
  shows "read_loop off n f = (Inr (range_of off n (contents f)), f)"
proof (cases "n = 0")
  case False
  have "seek_read off n f = (Inr (range_of off n (contents f)), f)"
    using seek_read_spec(3) [OF _ assms(1)] by (metis surj_pair)
  moreover have "length (range_of off n (contents f)) = n" using assms(2) by simp
  ultimately show ?thesis
    using False by (auto simp: read_loop.simps [of off n] read_loop.simps [of _ 0])
qed (simp add: read_loop.simps)

lemma read_at_spec:
  assumes "read_at off n f = (r, g)" "off \<le> length (contents f)"
  shows "contents g = contents f"
    "r = Inr (range_of off n (contents f)) \<and> (n = 0 \<or> off + n \<le> length (contents f)) \<or> (\<exists>e. r = Inl e \<and> io_failure e)"
    "calm_file f \<Longrightarrow> off + n \<le> length (contents f) \<Longrightarrow> r = Inr (range_of off n (contents f)) \<and> g = f"
proof -
  obtain q h where s: "assert_offset off f = (q, h)" by fastforce
  note c = assert_offset_spec [OF s]
  have *: "contents g = contents f \<and> (r = Inr (range_of off n (contents f)) \<and> (n = 0 \<or> off + n \<le> length (contents f))
      \<or> (\<exists>e. r = Inl e \<and> io_failure e))"
  proof (cases q)
    case (Inr u)
    then show ?thesis
      using assms(1) s c(1) read_loop_spec [of off n h r g] by (auto simp: read_at_def)
  next
    case (Inl e)
    then show ?thesis using assms s c by (auto simp: read_at_def)
  qed
  then show "contents g = contents f"
    "r = Inr (range_of off n (contents f)) \<and> (n = 0 \<or> off + n \<le> length (contents f)) \<or> (\<exists>e. r = Inl e \<and> io_failure e)"
    by auto
  show "r = Inr (range_of off n (contents f)) \<and> g = f" if "calm_file f" "off + n \<le> length (contents f)"
    using assms s c(4) that read_loop_calm [OF that] by (auto simp: read_at_def)
qed

text \<open>A write changes at most the range it is for.\<close>

lemma seek_write_spec:
  assumes "seek_write off src f = (r, g)"
  shows "(\<exists>k \<le> length src. contents g = blit off (take k src) (contents f) \<and> r = Inr k \<and> off + length src < 2 ^ 64)
      \<or> (contents g = contents f \<and> r = Inl io_error)"
    "calm_file f \<Longrightarrow> off + length src < 2 ^ 64 \<Longrightarrow> r = Inr (length src) \<and> g = f\<lparr>contents := blit off src (contents f)\<rparr>"
proof -
  obtain oc h where s: "next_outcome f = (oc, h)" by fastforce
  note c = next_outcome_simps(1) [OF s]
  show "(\<exists>k \<le> length src. contents g = blit off (take k src) (contents f) \<and> r = Inr k \<and> off + length src < 2 ^ 64)
      \<or> (contents g = contents f \<and> r = Inl io_error)"
    using assms s c by (cases oc) (auto simp: seek_write_def transferred_def Let_def split: if_splits)
  show "r = Inr (length src) \<and> g = f\<lparr>contents := blit off src (contents f)\<rparr>" if "calm_file f" "off + length src < 2 ^ 64"
    using assms that by (auto simp: seek_write_def transferred_def Let_def)
qed

lemma blit_grow:
  assumes "off \<le> length xs"
  shows "length (blit off d xs) = max (length xs) (off + length d)"
    "a + n \<le> off \<Longrightarrow> range_of a n (blit off d xs) = range_of a n xs"
    "off + length d \<le> a \<Longrightarrow> range_of a n (blit off d xs) = range_of a n xs"
    "range_of off (length d) (blit off d xs) = d"
  using assms by (auto simp: blit_def range_of_def min_def max_def drop_take)

lemma write_at_spec:
  assumes "write_at off src f = (r, g)" "length (contents f) < 2 ^ 64"
  shows "r = Inr () \<Longrightarrow> off \<le> length (contents f) \<and> contents g = blit off src (contents f)"
    "length (contents f) \<le> length (contents g)" "length (contents g) < 2 ^ 64"
    "contents g = contents f \<or> off \<le> length (contents f) \<and> length (contents g) \<le> max (length (contents f)) (off + length src)"
    "\<And>a n. a + n \<le> off \<or> off + length src \<le> a \<Longrightarrow> range_of a n (contents g) = range_of a n (contents f)"
    "calm_file f \<Longrightarrow> off + length src \<le> length (contents f) \<Longrightarrow> r = Inr () \<and> calm_file g"
proof -
  obtain q h where s: "assert_offset off f = (q, h)" by fastforce
  note c = assert_offset_spec [OF s]
  have *: "contents g = contents f \<and> (\<exists>e. r = Inl e) \<or> (\<exists>k \<le> length src. off \<le> length (contents f) \<and> off + length src < 2 ^ 64
      \<and> contents g = blit off (take k src) (contents f) \<and> (r = Inr () \<longrightarrow> k = length src))"
  proof (cases q)
    case (Inl e)
    then show ?thesis using assms(1) s c(1) by (auto simp: write_at_def)
  next
    case (Inr u)
    have off: "off \<le> length (contents f)" using c(3) Inr by simp
    obtain q2 h2 where w: "seek_write off src h = (q2, h2)" by fastforce
    from seek_write_spec(1) [OF w] show ?thesis
    proof
      assume "contents h2 = contents h \<and> q2 = Inl io_error"
      then show ?thesis using assms(1) s Inr w c(1) by (auto simp: write_at_def)
    next
      assume "\<exists>k\<le>length src. contents h2 = blit off (take k src) (contents h) \<and> q2 = Inr k \<and> off + length src < 2 ^ 64"
      then obtain k where k: "k \<le> length src" "contents h2 = blit off (take k src) (contents h)" "q2 = Inr k" "off + length src < 2 ^ 64"
        by blast
      have "contents g = contents h2 \<and> (r = Inr () \<longrightarrow> k = length src)"
        using assms(1) s Inr w k(3) by (auto simp: write_at_def split: if_splits)
      with k off c(1) show ?thesis by auto
    qed
  qed
  then show "r = Inr () \<Longrightarrow> off \<le> length (contents f) \<and> contents g = blit off src (contents f)" by auto
  show "length (contents f) \<le> length (contents g)" "length (contents g) < 2 ^ 64"
    "contents g = contents f \<or> off \<le> length (contents f) \<and> length (contents g) \<le> max (length (contents f)) (off + length src)"
    using * assms(2) by (auto simp: blit_grow(1) max_def)
  show "range_of a n (contents g) = range_of a n (contents f)" if a: "a + n \<le> off \<or> off + length src \<le> a" for a n
    using *
  proof
    assume "\<exists>k \<le> length src. off \<le> length (contents f) \<and> off + length src < 2 ^ 64
      \<and> contents g = blit off (take k src) (contents f) \<and> (r = Inr () \<longrightarrow> k = length src)"
    then obtain k where k: "k \<le> length src" "off \<le> length (contents f)" "contents g = blit off (take k src) (contents f)" by blast
    show ?thesis unfolding k(3) using a blit_grow(2) [OF k(2), of a n "take k src"] blit_grow(3) [OF k(2), of "take k src" a n] k(1) by auto
  qed simp
  show "r = Inr () \<and> calm_file g" if calm: "calm_file f" "off + length src \<le> length (contents f)"
  proof -
    have off: "off \<le> length (contents f)" "off + length src < 2 ^ 64" using calm(2) assms(2) by auto
    have "q = Inr () \<and> h = f" using c(4) [OF calm(1) off(1)] .
    moreover from this have "seek_write off src h = (Inr (length src), f\<lparr>contents := blit off src (contents f)\<rparr>)"
      using seek_write_spec(2) [OF _ calm(1) off(2)] by (metis surj_pair)
    ultimately show ?thesis
      using assms(1) s calm by (auto simp: write_at_def calm_file_def)
  qed
qed

section \<open>Pages\<close>

definition psize :: "'c page_io \<Rightarrow> nat" where
  "psize s = unat (io_page_size s)"

text \<open>The page in the file.\<close>

definition stored :: "'c page_io \<Rightarrow> page_id \<Rightarrow> bytes option" where
  "stored s pid =
     (if unat pid * psize s + psize s \<le> length (contents (io_file s))
      then Some (range_of (unat pid * psize s) (psize s) (contents (io_file s))) else None)"

text \<open>What a read of a page returns, defined where the cache does not contradict the file.\<close>

definition page_view :: "('c \<Rightarrow> page_id \<Rightarrow> bytes option) \<Rightarrow> 'c page_io \<Rightarrow> page_id \<Rightarrow> bytes option" where
  "page_view cv s pid =
     (if cv (io_cache s) pid = None \<or> cv (io_cache s) pid = stored s pid then stored s pid else None)"

definition io_ok :: "'c page_io \<Rightarrow> bool" where
  "io_ok s \<longleftrightarrow> length (contents (io_file s)) < 2 ^ 64"

definition calm_io :: "'c page_io \<Rightarrow> bool" where
  "calm_io s \<longleftrightarrow> calm_file (io_file s)"

lemma page_view_length: "page_view cv s pid = Some d \<Longrightarrow> length d = psize s"
  by (auto simp: page_view_def stored_def split: if_splits)

lemma page_view_stored: "page_view cv s pid = Some d \<Longrightarrow> stored s pid = Some d"
  by (simp add: page_view_def split: if_splits)

text \<open>Steps that extend the view: the contents of the file keep their beginning, and the cache holds
  nothing new but what is stored.\<close>

definition extends :: "('c \<Rightarrow> page_id \<Rightarrow> bytes option) \<Rightarrow> 'c page_io \<Rightarrow> 'c page_io \<Rightarrow> bool" where
  "extends cv s t \<longleftrightarrow> io_page_size t = io_page_size s \<and> page_view cv s \<subseteq>\<^sub>m page_view cv t
     \<and> stored s \<subseteq>\<^sub>m stored t \<and> (io_ok s \<longrightarrow> io_ok t)"

lemma extends_refl [simp]: "extends cv s s"
  by (simp add: extends_def)

lemma extends_trans: "extends cv s t \<Longrightarrow> extends cv t u \<Longrightarrow> extends cv s u"
  by (auto simp: extends_def intro: map_le_trans)

lemma stored_prefix:
  assumes "io_page_size t = io_page_size s" "contents (io_file t) = contents (io_file s) @ zs"
  shows "stored s \<subseteq>\<^sub>m stored t"
  using assms by (auto simp: map_le_def stored_def psize_def range_of_def split: if_splits)

lemma map_leD: "m \<subseteq>\<^sub>m n \<Longrightarrow> m x = Some y \<Longrightarrow> n x = Some y"
  by (metis domI map_le_def)

lemma extendsI:
  assumes "io_page_size t = io_page_size s" "contents (io_file t) = contents (io_file s) @ zs"
    and "\<And>pid d. cv (io_cache t) pid = Some d \<Longrightarrow> cv (io_cache s) pid = Some d \<or> stored s pid = Some d"
    and "length (contents (io_file t)) < 2 ^ 64 \<or> zs = []"
  shows "extends cv s t"
proof -
  note st = stored_prefix [OF assms(1,2)]
  have "page_view cv t pid = Some d" if v: "page_view cv s pid = Some d" for pid d
  proof -
    have "stored s pid = Some d" using page_view_stored [OF v] .
    moreover from this have "stored t pid = Some d" using map_leD [OF st] by simp
    moreover have "cv (io_cache s) pid = None \<or> cv (io_cache s) pid = Some d"
      using v by (auto simp: page_view_def split: if_splits)
    ultimately show ?thesis
      using assms(3) [of pid] by (cases "cv (io_cache t) pid") (auto simp: page_view_def)
  qed
  then have "page_view cv s \<subseteq>\<^sub>m page_view cv t" by (auto simp: map_le_def)
  with st assms show ?thesis by (auto simp: extends_def io_ok_def)
qed

lemma on_file_def': "on_file m s = (case m (io_file s) of (r, f) \<Rightarrow> (r, s\<lparr>io_file := f\<rparr>))"
  by (simp add: on_file_def zoom_def)

lemma on_io_def': "on_io m s = (case m (pm_io s) of (r, f) \<Rightarrow> (r, s\<lparr>pm_io := f\<rparr>))"
  by (simp add: on_io_def zoom_def)

lemma checked_mul_small: "unat a * unat b < 2 ^ 64 \<Longrightarrow> checked_mul a b = Inr (unat a * unat b)"
  by (simp add: checked_mul_def)

lemma stored_frame:
  assumes "io_page_size t = io_page_size s" "length (contents (io_file s)) \<le> length (contents (io_file t))"
    and "contents (io_file t) = contents (io_file s) \<or> unat pid * psize s \<le> length (contents (io_file s))
      \<and> length (contents (io_file t)) \<le> max (length (contents (io_file s))) (unat pid * psize s + psize s)"
    and "\<And>a n. a + n \<le> unat pid * psize s \<or> unat pid * psize s + psize s \<le> a
      \<Longrightarrow> range_of a n (contents (io_file t)) = range_of a n (contents (io_file s))"
    and "q \<noteq> pid"
  shows "stored t q = stored s q"
proof -
  have "unat q \<noteq> unat pid" using assms(5) by (simp add: word_unat_eq_iff)
  then consider "Suc (unat q) \<le> unat pid" | "Suc (unat pid) \<le> unat q" by linarith
  then have apart: "unat q * psize s + psize s \<le> unat pid * psize s \<or> unat pid * psize s + psize s \<le> unat q * psize s"
  proof cases
    case 1
    then have "Suc (unat q) * psize s \<le> unat pid * psize s" by (rule mult_le_mono1)
    then show ?thesis by simp
  next
    case 2
    then have "Suc (unat pid) * psize s \<le> unat q * psize s" by (rule mult_le_mono1)
    then show ?thesis by simp
  qed
  then have "range_of (unat q * psize s) (psize s) (contents (io_file t))
      = range_of (unat q * psize s) (psize s) (contents (io_file s))"
    by (rule assms(4))
  moreover have "unat q * psize s + psize s \<le> length (contents (io_file t)) \<longleftrightarrow> unat q * psize s + psize s \<le> length (contents (io_file s))"
    using apart assms(2,3) by (auto simp: max_def split: if_splits)
  ultimately show ?thesis using assms(1) by (simp add: stored_def psize_def)
qed

context moka_cache
begin

lemma insert_at: "view (m_insert K i d c) q = Some x \<Longrightarrow> (if q = i then x = d else view c q = Some x)"
  using map_leD [OF insert_view, of i d c q x] by (auto split: if_splits)

lemma read_page_extends: "op_keeps (extends view) (read_page K pid)"
proof (rule op_keepsI)
  fix s r t
  assume rd: "read_page K pid s = (r, t)"
  obtain x c where g: "m_get K pid (io_cache s) = (x, c)" by fastforce
  note gv = get_view [OF g]
  have sub: "view (io_cache s) q = Some d" if "view c q = Some d" for q d
    using map_leD [of "view c" "view (io_cache s)" q d] gv that by simp
  let ?s = "s\<lparr>io_cache := c\<rparr>"
  have ext: "extends view s u"
    if "io_page_size u = io_page_size s" "contents (io_file u) = contents (io_file s)" "io_cache u = c" for u
    using that sub by (intro extendsI [where zs = "[]"]) auto
  show "extends view s t"
  proof (cases x)
    case (Some d)
    with rd g show ?thesis by (auto simp: read_page_def page_cache_get_def intro: ext)
  next
    case None
    show ?thesis
    proof (cases "unat pid * psize s < 2 ^ 64")
      case False
      with rd g None show ?thesis
        by (auto simp: read_page_def page_cache_get_def checked_mul_def psize_def intro: ext)
    next
      case True
      obtain q h where rl: "read_at (unat pid * psize s) (psize s) (io_file s) = (q, h)" by fastforce
      have t: "(r, t) = (case q of Inl e \<Rightarrow> (Inl e, ?s\<lparr>io_file := h\<rparr>)
          | Inr data \<Rightarrow> (Inr \<lparr>page_no = pid, page_data = data\<rparr>, ?s\<lparr>io_file := h, io_cache := m_insert K pid data c\<rparr>))"
        using rd g None True rl
        by (auto simp: read_page_def page_cache_get_def checked_mul_def psize_def on_file_def' page_cache_insert_def
            bind_op_def split: sum.splits)
      show ?thesis
      proof (cases "unat pid * psize s \<le> length (contents (io_file s))")
        case False
        obtain q2 h2 where a: "assert_offset (unat pid * psize s) (io_file s) = (q2, h2)" by fastforce
        note as = assert_offset_spec(1,3) [OF a]
        from False as(2) obtain e where "q2 = Inl e" by (cases q2) auto
        with rl a have "q = Inl e" "h = h2" by (auto simp: read_at_def)
        with t as(1) show ?thesis by (auto intro: ext)
      next
        case off: True
        note sp = read_at_spec [OF rl off]
        show ?thesis
        proof (cases q)
          case (Inl e)
          with t sp(1) show ?thesis by (auto intro: ext)
        next
          case (Inr data)
          with sp(2) have d: "data = range_of (unat pid * psize s) (psize s) (contents (io_file s))"
              "psize s = 0 \<or> unat pid * psize s + psize s \<le> length (contents (io_file s))" by auto
          with off have st: "stored s pid = Some data" by (auto simp: stored_def)
          have "view (m_insert K pid data c) q = Some x \<Longrightarrow> view (io_cache s) q = Some x \<or> stored s q = Some x" for q x
            using insert_at [of pid data c q x] sub st by (auto split: if_splits)
          then have "extends view s (?s\<lparr>io_file := h, io_cache := m_insert K pid data c\<rparr>)"
            using sp(1) by (intro extendsI [where zs = "[]"]) auto
          with t Inr show ?thesis by simp
        qed
      qed
    qed
  qed
qed

lemma read_page_value:
  assumes "io_ok s" "page_view view s pid = Some d" "read_page K pid s = (r, t)"
  shows "r = Inr \<lparr>page_no = pid, page_data = d\<rparr> \<or> (\<exists>e. r = Inl e \<and> io_failure e)"
    "calm_io s \<Longrightarrow> r = Inr \<lparr>page_no = pid, page_data = d\<rparr> \<and> calm_io t"
    "contents (io_file t) = contents (io_file s)"
proof -
  obtain x c where g: "m_get K pid (io_cache s) = (x, c)" by fastforce
  note st = page_view_stored [OF assms(2)]
  have fit: "unat pid * psize s + psize s \<le> length (contents (io_file s))"
      "d = range_of (unat pid * psize s) (psize s) (contents (io_file s))"
    using st by (auto simp: stored_def split: if_splits)
  have "r = Inr \<lparr>page_no = pid, page_data = d\<rparr> \<and> io_file t = io_file s" if "x = Some d'" for d'
  proof -
    have "view (io_cache s) pid = Some d'" using get_view [OF g] that by simp
    then have "d' = d" using assms(2) st by (auto simp: page_view_def split: if_splits)
    with assms(3) g that show ?thesis by (auto simp: read_page_def page_cache_get_def)
  qed
  moreover have "(r = Inr \<lparr>page_no = pid, page_data = d\<rparr> \<or> (\<exists>e. r = Inl e \<and> io_failure e))
      \<and> (calm_io s \<longrightarrow> r = Inr \<lparr>page_no = pid, page_data = d\<rparr> \<and> calm_io t)
      \<and> contents (io_file t) = contents (io_file s)" if "x = None"
  proof -
    obtain q h where rl: "read_at (unat pid * psize s) (psize s) (io_file s) = (q, h)" by fastforce
    have "unat pid * psize s < 2 ^ 64" using fit(1) assms(1) unfolding io_ok_def by linarith
    then have t: "(r, t) = (case q of Inl e \<Rightarrow> (Inl e, s\<lparr>io_cache := c, io_file := h\<rparr>)
        | Inr data \<Rightarrow> (Inr \<lparr>page_no = pid, page_data = data\<rparr>, s\<lparr>io_file := h, io_cache := m_insert K pid data c\<rparr>))"
      using assms(3) g that rl
      by (auto simp: read_page_def page_cache_get_def checked_mul_def psize_def on_file_def' page_cache_insert_def
          bind_op_def split: sum.splits)
    have "unat pid * psize s \<le> length (contents (io_file s))" using fit(1) by simp
    note sp = read_at_spec [OF rl this]
    from t sp fit show ?thesis by (cases q) (auto simp: calm_io_def)
  qed
  ultimately show "r = Inr \<lparr>page_no = pid, page_data = d\<rparr> \<or> (\<exists>e. r = Inl e \<and> io_failure e)"
      "calm_io s \<Longrightarrow> r = Inr \<lparr>page_no = pid, page_data = d\<rparr> \<and> calm_io t"
      "contents (io_file t) = contents (io_file s)"
    by (cases x; auto simp: calm_io_def)+
qed

lemma page_view_other:
  assumes "stored t q = stored s q" "\<And>x. view (io_cache t) q = Some x \<Longrightarrow> view (io_cache s) q = Some x"
    and "page_view view s q = Some d"
  shows "page_view view t q = Some d"
proof -
  have "stored s q = Some d" "view (io_cache s) q = None \<or> view (io_cache s) q = Some d"
    using assms(3) by (auto simp: page_view_def split: if_splits)
  with assms(1,2) show ?thesis by (cases "view (io_cache t) q") (auto simp: page_view_def)
qed

text \<open>A write of a page changes the view at that page only; when it succeeds the page reads back.\<close>

lemma write_page_spec:
  assumes "io_ok s" "write_page K p s = (r, t)"
  shows "io_page_size t = io_page_size s" "io_ok t"
    "length (contents (io_file s)) \<le> length (contents (io_file t))"
    "\<And>q. q \<noteq> page_no p \<Longrightarrow> stored t q = stored s q"
    "\<And>q d. q \<noteq> page_no p \<Longrightarrow> page_view view s q = Some d \<Longrightarrow> page_view view t q = Some d"
    "r = Inr () \<Longrightarrow> page_view view t (page_no p) = Some (page_data p)"
    "calm_io s \<Longrightarrow> length (page_data p) = psize s
      \<Longrightarrow> unat (page_no p) * psize s + psize s \<le> length (contents (io_file s)) \<Longrightarrow> r = Inr () \<and> calm_io t"
    "unat (page_no p) * psize s + psize s \<le> length (contents (io_file s))
      \<Longrightarrow> length (contents (io_file t)) = length (contents (io_file s))"
proof -
  define off where "off = unat (page_no p) * psize s"
  have "io_page_size t = io_page_size s \<and> io_ok t \<and> length (contents (io_file s)) \<le> length (contents (io_file t))
    \<and> (\<forall>q. q \<noteq> page_no p \<longrightarrow> stored t q = stored s q)
    \<and> (\<forall>q d. q \<noteq> page_no p \<longrightarrow> page_view view s q = Some d \<longrightarrow> page_view view t q = Some d)
    \<and> (r = Inr () \<longrightarrow> page_view view t (page_no p) = Some (page_data p))
    \<and> (calm_io s \<longrightarrow> length (page_data p) = psize s \<longrightarrow> off + psize s \<le> length (contents (io_file s)) \<longrightarrow> r = Inr () \<and> calm_io t)
    \<and> (off + psize s \<le> length (contents (io_file s)) \<longrightarrow> length (contents (io_file t)) = length (contents (io_file s)))"
  proof (cases "length (page_data p) = psize s \<and> off < 2 ^ 64")
    case False
    then have "(\<exists>e. r = Inl e) \<and> t = s"
      using assms(2) by (auto simp: write_page_def psize_def off_def write_at_page_def checked_mul_def on_file_def' split: if_splits)
    with False assms(1) show ?thesis by (auto simp: io_ok_def)
  next
    case True
    obtain q h where w: "write_at off (page_data p) (io_file s) = (q, h)" by fastforce
    have t: "(r, t) = (case q of Inl e \<Rightarrow> (Inl e, s\<lparr>io_file := h\<rparr>)
        | Inr _ \<Rightarrow> (Inr (), s\<lparr>io_file := h, io_cache := m_insert K (page_no p) (page_data p) (io_cache s)\<rparr>))"
      using assms(2) True w
      by (auto simp: write_page_def write_at_page_def checked_mul_def psize_def on_file_def' off_def
          page_cache_insert_def bind_op_def split: sum.splits)
    have "length (contents (io_file s)) < 2 ^ 64" using assms(1) by (simp add: io_ok_def)
    note sp = write_at_spec [OF w this]
    have fl: "io_file t = h" "io_page_size t = io_page_size s" using t by (cases q; simp)+
    have fr: "stored t q' = stored s q'" if "q' \<noteq> page_no p" for q'
      using that fl sp(2,4,5) True by (intro stored_frame [where pid = "page_no p"]) (simp_all add: off_def)
    note ins = insert_at [of "page_no p" "page_data p"]
    have cv: "view (io_cache t) q' = Some x \<Longrightarrow> view (io_cache s) q' = Some x" if "q' \<noteq> page_no p" for q' x
      using t ins [of "io_cache s" q' x] that by (cases q) (auto split: if_splits)
    have "page_view view t (page_no p) = Some (page_data p)" if "r = Inr ()"
    proof -
      have q: "q = Inr ()" using t that by (cases q) auto
      then have "off \<le> length (contents (io_file s))" "contents (io_file t) = blit off (page_data p) (contents (io_file s))"
        using sp(1) fl by simp_all
      then have "stored t (page_no p) = Some (page_data p)"
        using True fl(2) blit_grow(1,4) [of off "contents (io_file s)" "page_data p"] by (simp add: stored_def psize_def off_def)
      moreover have "view (io_cache t) (page_no p) = Some x \<Longrightarrow> x = page_data p" for x
        using t q ins [of "io_cache s" "page_no p" x] by (auto split: if_splits)
      ultimately show ?thesis by (cases "view (io_cache t) (page_no p)") (auto simp: page_view_def)
    qed
    moreover have "r = Inr () \<and> calm_io t" if "calm_io s" "off + psize s \<le> length (contents (io_file s))"
      using sp(6) that True t fl by (cases q) (auto simp: calm_io_def)
    moreover have "page_view view t q' = Some d" if "q' \<noteq> page_no p" "page_view view s q' = Some d" for q' d
      using page_view_other [OF fr cv that(2)] that(1) by blast
    moreover have "length (contents h) = length (contents (io_file s))" if "off + psize s \<le> length (contents (io_file s))"
      using sp(2,4) that True by auto
    ultimately show ?thesis
      using fl fr sp(2,3) by (auto simp: io_ok_def)
  qed
  then show "io_page_size t = io_page_size s" "io_ok t"
    "length (contents (io_file s)) \<le> length (contents (io_file t))"
    "\<And>q. q \<noteq> page_no p \<Longrightarrow> stored t q = stored s q"
    "\<And>q d. q \<noteq> page_no p \<Longrightarrow> page_view view s q = Some d \<Longrightarrow> page_view view t q = Some d"
    "r = Inr () \<Longrightarrow> page_view view t (page_no p) = Some (page_data p)"
    "calm_io s \<Longrightarrow> length (page_data p) = psize s
      \<Longrightarrow> unat (page_no p) * psize s + psize s \<le> length (contents (io_file s)) \<Longrightarrow> r = Inr () \<and> calm_io t"
    "unat (page_no p) * psize s + psize s \<le> length (contents (io_file s))
      \<Longrightarrow> length (contents (io_file t)) = length (contents (io_file s))"
    unfolding off_def by blast+
qed

lemma remove_page_extends: "extends view s (remove_page K pid s)"
proof (rule extendsI [where zs = "[]"])
  show "view (io_cache s) q = Some d \<or> stored s q = Some d"
    if "view (io_cache (remove_page K pid s)) q = Some d" for q d
    using map_leD [OF invalidate_view, of pid "io_cache s" q d] that
    by (auto simp: remove_page_def page_cache_remove_def split: if_splits)
qed (simp_all add: remove_page_def)

end

section \<open>Allocation\<close>

lemma preallocate_pages_spec:
  assumes "preallocate_pages k sz f = (r, g)" "length (contents f) < 2 ^ 64"
  shows "\<exists>zs. contents g = contents f @ zs" "length (contents g) < 2 ^ 64"
    "r = Inr c \<Longrightarrow> length (contents g) = length (contents f) + unat sz * unat k
      \<and> unat c = length (contents g) div unat sz \<and> sz \<noteq> 0"
    "calm_file f \<Longrightarrow> sz \<noteq> 0 \<Longrightarrow> length (contents f) + unat sz * unat k < 2 ^ 64 \<Longrightarrow>
      (\<exists>c. r = Inr c) \<and> calm_file g"
proof -
  obtain q h where fl: "file_len f = (q, h)" by fastforce
  note fs = file_len_spec [OF fl]
  obtain q2 h2 where sc: "sys_call h = (q2, h2)" by fastforce
  note ss = sys_call_spec [OF sc]
  have grown: "unat (of_nat ((length (contents f) + x) div unat sz) :: u64) = (length (contents f) + x) div unat sz"
    if "length (contents f) + x < 2 ^ 64" for x
  proof -
    have "(length (contents f) + x) div unat sz \<le> length (contents f) + x" by (rule div_le_dividend)
    with that have "(length (contents f) + x) div unat sz < 2 ^ 64" by linarith
    then show ?thesis by (simp add: unat_of_nat)
  qed
  have all: "(\<exists>zs. contents g = contents f @ zs) \<and> length (contents g) < 2 ^ 64
      \<and> (\<forall>c. r = Inr c \<longrightarrow> length (contents g) = length (contents f) + unat sz * unat k
          \<and> unat c = length (contents g) div unat sz \<and> sz \<noteq> 0)"
  proof (cases "q = Inr (length (contents f)) \<and> unat sz * unat k < 2 ^ 64
      \<and> length (contents f) + unat sz * unat k < 2 ^ 64 \<and> q2 = Inr ()")
    case True
    with assms(1) fl sc fs(1) ss(1) grown [of "unat sz * unat k"] show ?thesis
      by (cases "sz = 0") (auto simp: preallocate_pages_def checked_mul_def)
  next
    case False
    then have "(\<exists>e. r = Inl e) \<and> contents g = contents f"
      using assms(1) fl sc fs(1,2) ss(1,2)
      by (cases q; cases q2) (auto simp: preallocate_pages_def checked_mul_def split: if_splits)
    with assms(2) show ?thesis by auto
  qed
  then show "\<exists>zs. contents g = contents f @ zs" "length (contents g) < 2 ^ 64"
    "r = Inr c \<Longrightarrow> length (contents g) = length (contents f) + unat sz * unat k
      \<and> unat c = length (contents g) div unat sz \<and> sz \<noteq> 0" by blast+
  show "(\<exists>c. r = Inr c) \<and> calm_file g"
    if "calm_file f" "sz \<noteq> 0" "length (contents f) + unat sz * unat k < 2 ^ 64"
  proof -
    have "q = Inr (length (contents f))" "h = f" using fs(3) [OF that(1)] by auto
    moreover from this that(1) have "q2 = Inr ()" "h2 = f" using ss(3) by auto
    ultimately show ?thesis
      using assms(1) fl sc that by (auto simp: preallocate_pages_def checked_mul_def calm_file_def)
  qed
qed

definition pending_ids :: "'c page_manager \<Rightarrow> page_id list" where
  "pending_ids s = map fp_page_id (pending_free_pages (pm_alloc s))"

text \<open>The pages that may be handed out from now on.\<close>

definition avail :: "'c page_manager \<Rightarrow> page_id set" where
  "avail s = set (pending_ids s) \<union> {pid. next_page_id (pm_alloc s) \<le> pid}"

definition pm_safe :: "'c page_manager \<Rightarrow> bool" where
  "pm_safe s \<longleftrightarrow> io_ok (pm_io s) \<and> distinct (pending_ids s) \<and> (\<forall>pid \<in> set (pending_ids s). pid < next_page_id (pm_alloc s))"

text \<open>Every page below \<open>next_page_id\<close> lies in the file.\<close>

definition pm_ok :: "'c page_manager \<Rightarrow> bool" where
  "pm_ok s \<longleftrightarrow> pm_safe s \<and> 0 < psize (pm_io s) \<and> next_page_id (pm_alloc s) \<le> reserved_page_count (pm_alloc s)
     \<and> unat (reserved_page_count (pm_alloc s)) * psize (pm_io s) \<le> length (contents (io_file (pm_io s)))"

text \<open>No system call fails and \<open>n\<close> more allocations do not overflow.\<close>

definition calm_pm :: "nat \<Rightarrow> 'c page_manager \<Rightarrow> bool" where
  "calm_pm n s \<longleftrightarrow> calm_io (pm_io s) \<and> unat (next_page_id (pm_alloc s)) + n < 2 ^ 64
     \<and> length (contents (io_file (pm_io s))) + n * (1024 * psize (pm_io s)) < 2 ^ 64"

lemma calm_pm_le: "calm_pm n s \<Longrightarrow> m \<le> n \<Longrightarrow> calm_pm m s"
proof -
  assume a: "calm_pm n s" "m \<le> n"
  have "m * (1024 * psize (pm_io s)) \<le> n * (1024 * psize (pm_io s))" using a(2) by (rule mult_le_mono1)
  with a show ?thesis unfolding calm_pm_def by linarith
qed

lemma pm_ok_in_file:
  assumes "pm_ok s" "pid < next_page_id (pm_alloc s)"
  shows "unat pid * psize (pm_io s) + psize (pm_io s) \<le> length (contents (io_file (pm_io s)))"
proof -
  have "Suc (unat pid) \<le> unat (reserved_page_count (pm_alloc s))"
    using assms by (simp add: pm_ok_def word_less_nat_alt word_le_nat_alt)
  then have "Suc (unat pid) * psize (pm_io s) \<le> unat (reserved_page_count (pm_alloc s)) * psize (pm_io s)"
    by (rule mult_le_mono1)
  with assms(1) show ?thesis by (simp add: pm_ok_def)
qed

lemma word_add_1:
  fixes x :: u64
  assumes "x \<noteq> - 1"
  shows "unat (x + 1) = Suc (unat x)" "{p. x \<le> p} = insert x {p. x + 1 \<le> p}" "x \<notin> {p. x + 1 \<le> p}"
proof -
  have "1 + x \<noteq> 0" using assms by (metis add.commute add_eq_0_iff2)
  then show u: "unat (x + 1) = Suc (unat x)" using unatSuc [of x] by (simp add: add.commute)
  show "{p. x \<le> p} = insert x {p. x + 1 \<le> p}"
  proof (rule set_eqI)
    fix p :: u64
    have "unat x \<le> unat p \<longleftrightarrow> unat p = unat x \<or> Suc (unat x) \<le> unat p" by linarith
    then show "p \<in> {p. x \<le> p} \<longleftrightarrow> p \<in> insert x {p. x + 1 \<le> p}"
      using u by (auto simp: word_le_nat_alt word_unat_eq_iff)
  qed
  show "x \<notin> {p. x + 1 \<le> p}" using u by (simp add: word_le_nat_alt)
qed

text \<open>The allocator proper: it takes the front of the free list or a fresh page.\<close>

lemma allocate_page_id_cases:
  assumes "allocate_page_id s = (r, t)"
  obtains (reuse) freed rest where "pending_free_pages (pm_alloc s) = freed # rest" "r = Inr (fp_page_id freed)"
      "t = s\<lparr>pm_alloc := (pm_alloc s)\<lparr>pending_free_pages := rest\<rparr>\<rparr>"
      "\<And>tx n readers. pm_readers s = (tx, n) # readers \<Longrightarrow> fp_transaction_id freed < tx"
  | (overflow) e where "r = Inl e" "t = s" "next_page_id (pm_alloc s) = - 1"
  | (fresh) "next_page_id (pm_alloc s) \<noteq> - 1" "r = Inr (next_page_id (pm_alloc s))"
      "t = s\<lparr>pm_alloc := (pm_alloc s)\<lparr>next_page_id := next_page_id (pm_alloc s) + 1\<rparr>\<rparr>"
      "next_page_id (pm_alloc s) + 1 \<le> reserved_page_count (pm_alloc s)"
  | (grow) q g where "next_page_id (pm_alloc s) \<noteq> - 1"
      "preallocate_pages PAGE_ALLOCATION_BATCH (io_page_size (pm_io s)) (io_file (pm_io s)) = (q, g)"
      "next_page_id (pm_alloc s) + 1 > reserved_page_count (pm_alloc s)"
      "case q of Inl e \<Rightarrow> r = Inl e \<and> t = s\<lparr>pm_io := (pm_io s)\<lparr>io_file := g\<rparr>,
            pm_alloc := (pm_alloc s)\<lparr>next_page_id := next_page_id (pm_alloc s) + 1\<rparr>\<rparr>
        | Inr c \<Rightarrow> r = Inr (next_page_id (pm_alloc s)) \<and> t = s\<lparr>pm_io := (pm_io s)\<lparr>io_file := g\<rparr>,
            pm_alloc := (pm_alloc s)\<lparr>next_page_id := next_page_id (pm_alloc s) + 1, reserved_page_count := c\<rparr>\<rparr>"
proof -
  define oldest where "oldest = (case oldest_active_transaction (pm_readers s) of None \<Rightarrow> - 1 | Some t \<Rightarrow> t)"
  obtain q g where pre: "preallocate_pages PAGE_ALLOCATION_BATCH (io_page_size (pm_io s)) (io_file (pm_io s)) = (q, g)"
    by fastforce
  have old: "oldest = tx" if "pm_readers s = (tx, n) # readers" for tx n readers
    using that by (simp add: oldest_def oldest_active_transaction_def)
  show thesis
  proof (cases "\<exists>freed rest. pending_free_pages (pm_alloc s) = freed # rest \<and> fp_transaction_id freed < oldest")
    case True
    then obtain freed rest where fr: "pending_free_pages (pm_alloc s) = freed # rest" "fp_transaction_id freed < oldest"
      by blast
    then have "r = Inr (fp_page_id freed)" "t = s\<lparr>pm_alloc := (pm_alloc s)\<lparr>pending_free_pages := rest\<rparr>\<rparr>"
      using assms by (auto simp: allocate_page_id_def Let_def oldest_def)
    with fr old show ?thesis by (intro reuse) auto
  next
    case False
    then have as: "(r, t) = (if next_page_id (pm_alloc s) = - 1 then (Inl (Panic ''attempt to add with overflow''), s)
        else let s1 = s\<lparr>pm_alloc := (pm_alloc s)\<lparr>next_page_id := next_page_id (pm_alloc s) + 1\<rparr>\<rparr> in
          if next_page_id (pm_alloc s) + 1 > reserved_page_count (pm_alloc s)
          then bind_op (on_io (on_file (preallocate_pages PAGE_ALLOCATION_BATCH (io_page_size (pm_io s)))))
             (\<lambda>count u. (Inr (next_page_id (pm_alloc s)), u\<lparr>pm_alloc := (pm_alloc u)\<lparr>reserved_page_count := count\<rparr>\<rparr>)) s1
          else (Inr (next_page_id (pm_alloc s)), s1))"
      using assms by (auto simp: allocate_page_id_def Let_def oldest_def split: list.splits if_splits)
    show ?thesis
    proof (cases "next_page_id (pm_alloc s) = - 1")
      case True
      with as show ?thesis by (intro overflow) auto
    next
      case no: False
      show ?thesis
      proof (cases "next_page_id (pm_alloc s) + 1 > reserved_page_count (pm_alloc s)")
        case True
        with as no pre show ?thesis
          by (intro grow [of q g]) (auto simp: Let_def on_io_def' on_file_def' bind_op_def split: sum.splits)
      next
        case False
        with as no show ?thesis by (intro fresh) (auto simp: not_less)
      qed
    qed
  qed
qed

lemma file_extends:
  assumes "contents g = contents (io_file s) @ zs" "length (contents g) < 2 ^ 64"
  shows "extends cv s (s\<lparr>io_file := g\<rparr>)"
  using assms by (intro extendsI [where zs = zs]) auto

lemma allocate_page_id_spec:
  assumes "allocate_page_id s = (r, t)" "pm_safe s"
  shows "extends cv (pm_io s) (pm_io t)" "pm_readers t = pm_readers s" "pm_safe t" "avail t \<subseteq> avail s"
    "next_page_id (pm_alloc s) \<le> next_page_id (pm_alloc t)"
    "r = Inr pid \<Longrightarrow> pid \<in> avail s \<and> pid \<notin> avail t"
    "r = Inr pid \<Longrightarrow> pm_ok s \<Longrightarrow> pm_ok t \<and> pid < next_page_id (pm_alloc t)"
    "pm_ok s \<Longrightarrow> calm_pm (Suc n) s \<Longrightarrow> (\<exists>pid. r = Inr pid) \<and> calm_pm n t"
proof -
  let ?n = "next_page_id (pm_alloc s)"
  have "extends cv (pm_io s) (pm_io t) \<and> pm_readers t = pm_readers s \<and> pm_safe t \<and> avail t \<subseteq> avail s
    \<and> ?n \<le> next_page_id (pm_alloc t) \<and> (\<forall>pid. r = Inr pid \<longrightarrow> pid \<in> avail s \<and> pid \<notin> avail t)
    \<and> (\<forall>pid. r = Inr pid \<longrightarrow> pm_ok s \<longrightarrow> pm_ok t \<and> pid < next_page_id (pm_alloc t))
    \<and> (pm_ok s \<longrightarrow> calm_pm (Suc n) s \<longrightarrow> (\<exists>pid. r = Inr pid) \<and> calm_pm n t)"
    using assms(1)
  proof (cases rule: allocate_page_id_cases)
    case (reuse freed rest)
    have ids: "pending_ids s = fp_page_id freed # map fp_page_id rest" "pending_ids t = map fp_page_id rest"
      using reuse(1,3) by (simp_all add: pending_ids_def)
    have same: "pm_io t = pm_io s" "pm_readers t = pm_readers s" "next_page_id (pm_alloc t) = ?n"
        "reserved_page_count (pm_alloc t) = reserved_page_count (pm_alloc s)"
      using reuse(3) by simp_all
    have safe: "pm_safe t" "fp_page_id freed \<notin> set (map fp_page_id rest)" "fp_page_id freed < ?n"
      using assms(2) ids same by (auto simp: pm_safe_def)
    have "calm_pm n t" if "calm_pm (Suc n) s"
      using calm_pm_le [OF that, of n] same by (simp add: calm_pm_def)
    moreover have "pm_ok t" if "pm_ok s" using that safe(1) same by (simp add: pm_ok_def)
    moreover have "fp_page_id freed \<in> avail s" "avail t \<subseteq> avail s"
      using ids same by (auto simp: avail_def)
    moreover have "fp_page_id freed \<notin> avail t"
      using safe(2,3) ids same by (simp add: avail_def not_le)
    ultimately show ?thesis
      using same safe reuse(2) by simp
  next
    case (overflow e)
    have "unat (- 1 :: u64) = 2 ^ 64 - 1" by (simp add: unsigned_minus_1_eq_mask mask_eq_exp_minus_1)
    with overflow show ?thesis using assms(2) by (auto simp: calm_pm_def)
  next
    case fresh
    note w = word_add_1 [OF fresh(1)]
    have ids: "pending_ids t = pending_ids s" using fresh by (simp add: pending_ids_def)
    have "avail s = insert ?n (avail t)" "?n \<notin> avail t"
      using w assms(2) fresh ids by (auto simp: avail_def pm_safe_def)
    moreover have "pm_safe t"
      using assms(2) fresh ids w(1) by (auto simp: pm_safe_def word_less_nat_alt)
    moreover have "calm_pm n t" if "calm_pm (Suc n) s"
      using that fresh w(1) by (simp add: calm_pm_def)
    ultimately show ?thesis
      using fresh w(1) by (auto simp: pm_ok_def word_le_nat_alt word_less_nat_alt)
  next
    case (grow q g)
    note w = word_add_1 [OF grow(1)]
    have "length (contents (io_file (pm_io s))) < 2 ^ 64" using assms(2) by (simp add: pm_safe_def io_ok_def)
    note pre = preallocate_pages_spec [OF grow(2) this]
    have io: "pm_io t = (pm_io s)\<lparr>io_file := g\<rparr>" "pm_readers t = pm_readers s" "pending_ids t = pending_ids s"
        "next_page_id (pm_alloc t) = ?n + 1"
      using grow(4) by (cases q; simp add: pending_ids_def)+
    have ext: "extends cv (pm_io s) (pm_io t)"
      using pre(1,2) io(1) file_extends by metis
    have av: "avail s = insert ?n (avail t)" "?n \<notin> avail t"
      using w assms(2) io by (auto simp: avail_def pm_safe_def)
    have safe: "pm_safe t"
      using assms(2) io w(1) pre(2) by (auto simp: pm_safe_def word_less_nat_alt io_ok_def)
    have res: "r = Inr pid \<longrightarrow> pid = ?n \<and> (\<exists>c. q = Inr c \<and> reserved_page_count (pm_alloc t) = c)" for pid
      using grow(4) by (cases q) auto
    have okk: "pm_ok t \<and> pid < next_page_id (pm_alloc t)" if "r = Inr pid" "pm_ok s" for pid
    proof -
      from res [of pid] that(1) obtain c where c: "pid = ?n" "q = Inr c" "reserved_page_count (pm_alloc t) = c"
        by blast
      have sz: "psize (pm_io t) = psize (pm_io s)" "0 < psize (pm_io s)" "unat (io_page_size (pm_io s)) = psize (pm_io s)"
        using io(1) that(2) by (auto simp: psize_def pm_ok_def)
      have len: "length (contents g) = length (contents (io_file (pm_io s))) + psize (pm_io s) * 1024"
          "unat c = length (contents g) div psize (pm_io s)"
        using pre(3) [OF c(2)] sz by (auto simp: PAGE_ALLOCATION_BATCH_def)
      have "unat ?n * psize (pm_io s) \<le> unat (reserved_page_count (pm_alloc s)) * psize (pm_io s)"
        using that(2) by (intro mult_le_mono1) (simp add: pm_ok_def word_le_nat_alt)
      also have "\<dots> \<le> length (contents (io_file (pm_io s)))" using that(2) by (simp add: pm_ok_def)
      finally have "Suc (unat ?n) * psize (pm_io s) \<le> length (contents g)" using len(1) sz(2) by simp
      then have "Suc (unat ?n) \<le> unat c" unfolding len(2) using sz(2) by (simp add: less_eq_div_iff_mult_less_eq)
      moreover have "unat c * psize (pm_io s) \<le> length (contents g)" unfolding len(2) by (rule div_times_less_eq_dividend)
      ultimately show ?thesis
        using safe c io sz w(1) by (auto simp: pm_ok_def word_le_nat_alt word_less_nat_alt)
    qed
    have calm: "(\<exists>pid. r = Inr pid) \<and> calm_pm n t" if "pm_ok s" "calm_pm (Suc n) s"
    proof -
      have sz: "io_page_size (pm_io s) \<noteq> 0" "unat (io_page_size (pm_io s)) = psize (pm_io s)"
        using that(1) by (auto simp: pm_ok_def psize_def)
      have fits: "length (contents (io_file (pm_io s))) + psize (pm_io s) * 1024 + n * (1024 * psize (pm_io s)) < 2 ^ 64"
        using that(2) by (simp add: calm_pm_def algebra_simps)
      have "calm_file (io_file (pm_io s))" using that(2) by (simp add: calm_pm_def calm_io_def)
      from pre(4) [OF this sz(1)] fits sz obtain c where c: "q = Inr c" "calm_file g"
        by (auto simp: PAGE_ALLOCATION_BATCH_def)
      have "length (contents g) = length (contents (io_file (pm_io s))) + psize (pm_io s) * 1024"
        using pre(3) [OF c(1)] sz(2) by (simp add: PAGE_ALLOCATION_BATCH_def)
      moreover have "psize (pm_io t) = psize (pm_io s)" "\<exists>pid. r = Inr pid"
        using io(1) grow(4) c(1) by (simp_all add: psize_def)
      ultimately show ?thesis
        using fits that(2) io(1,4) w(1) c(2) by (simp add: calm_pm_def calm_io_def)
    qed
    have "?n \<le> next_page_id (pm_alloc t)" using w(1) io(4) by (simp add: word_le_nat_alt)
    moreover have "avail t \<subseteq> avail s" using av(1) by blast
    moreover have "\<forall>pid. r = Inr pid \<longrightarrow> pid \<in> avail s \<and> pid \<notin> avail t" using res av by blast
    ultimately show ?thesis
      using ext io(2) safe okk calm by blast
  qed
  then show "extends cv (pm_io s) (pm_io t)" "pm_readers t = pm_readers s" "pm_safe t" "avail t \<subseteq> avail s"
    "next_page_id (pm_alloc s) \<le> next_page_id (pm_alloc t)"
    "r = Inr pid \<Longrightarrow> pid \<in> avail s \<and> pid \<notin> avail t"
    "r = Inr pid \<Longrightarrow> pm_ok s \<Longrightarrow> pm_ok t \<and> pid < next_page_id (pm_alloc t)"
    "pm_ok s \<Longrightarrow> calm_pm (Suc n) s \<Longrightarrow> (\<exists>pid. r = Inr pid) \<and> calm_pm n t"
    by blast+
qed

context moka_cache
begin

lemma allocate_page_spec:
  assumes "allocate_page K s = (r, t)" "pm_safe s"
  shows "extends view (pm_io s) (pm_io t)" "pm_readers t = pm_readers s" "pm_safe t" "avail t \<subseteq> avail s"
    "next_page_id (pm_alloc s) \<le> next_page_id (pm_alloc t)"
    "r = Inr p \<Longrightarrow> page_no p \<in> avail s \<and> page_no p \<notin> avail t \<and> page_data p = replicate (psize (pm_io s)) 0"
    "r = Inr p \<Longrightarrow> pm_ok s \<Longrightarrow> pm_ok t \<and> page_no p < next_page_id (pm_alloc t)"
    "pm_ok s \<Longrightarrow> calm_pm (Suc n) s \<Longrightarrow> (\<exists>p. r = Inr p) \<and> calm_pm n t"
proof -
  obtain q u where a: "allocate_page_id s = (q, u)" by fastforce
  note sp = allocate_page_id_spec [OF a assms(2)]
  note ex = sp(1) [of view]
  have sz: "psize (pm_io u) = psize (pm_io s)" using ex by (simp add: extends_def psize_def)
  have rt: "(r, t) = (case q of Inl e \<Rightarrow> (Inl e, u)
      | Inr pid \<Rightarrow> (Inr (page_zeroed pid (psize (pm_io s))), u\<lparr>pm_io := remove_page K pid (pm_io u)\<rparr>))"
    using assms(1) a sz by (auto simp: allocate_page_def bind_op_def psize_def split: sum.splits)
  define v where "v pid = u\<lparr>pm_io := remove_page K pid (pm_io u)\<rparr>" for pid
  have v: "extends view (pm_io u) (pm_io (v pid))" "pm_safe (v pid) = pm_safe u" "avail (v pid) = avail u"
      "pm_ok (v pid) = pm_ok u" "calm_pm k (v pid) = calm_pm k u" "pm_readers (v pid) = pm_readers u"
      "next_page_id (pm_alloc (v pid)) = next_page_id (pm_alloc u)" for pid k
    using remove_page_extends
    by (simp_all add: v_def pm_safe_def avail_def pm_ok_def calm_pm_def pending_ids_def remove_page_def io_ok_def psize_def
        calm_io_def)
  consider (err) e where "q = Inl e" "r = Inl e" "t = u"
    | (good) pid where "q = Inr pid" "r = Inr (page_zeroed pid (psize (pm_io s)))" "t = v pid"
    using rt by (cases q) (auto simp: v_def)
  note cs = this
  show "extends view (pm_io s) (pm_io t)" using cs by cases (use ex extends_trans [OF ex v(1)] in auto)
  show "pm_readers t = pm_readers s" "pm_safe t" "avail t \<subseteq> avail s" "next_page_id (pm_alloc s) \<le> next_page_id (pm_alloc t)"
    using cs by (cases; use sp(2-5) v in simp)+
  show "r = Inr p \<Longrightarrow> page_no p \<in> avail s \<and> page_no p \<notin> avail t \<and> page_data p = replicate (psize (pm_io s)) 0"
    using cs by cases (use sp(6) v(3) in \<open>auto simp: page_zeroed_def\<close>)
  show "r = Inr p \<Longrightarrow> pm_ok s \<Longrightarrow> pm_ok t \<and> page_no p < next_page_id (pm_alloc t)"
    using cs by cases (use sp(7) v(4,7) in \<open>auto simp: page_zeroed_def\<close>)
  show "pm_ok s \<Longrightarrow> calm_pm (Suc n) s \<Longrightarrow> (\<exists>p. r = Inr p) \<and> calm_pm n t"
    using cs by cases (use sp(8) [of n] v(5) in auto)
qed

end

section \<open>Readers\<close>

text \<open>The reader counts: sorted by transaction, and no count is zero.\<close>

definition tracker_ok :: "read_tracker \<Rightarrow> bool" where
  "tracker_ok rs \<longleftrightarrow> sorted_wrt (<) (map fst rs) \<and> (\<forall>(tx, n) \<in> set rs. n \<noteq> 0)"

lemma filter_upsert_new: "map_of rs k = None \<Longrightarrow> filter (\<lambda>(t, _). t \<noteq> k) (upsert k v rs) = rs"
proof (induction rs)
  case (Cons p rs)
  have "map_of xs k = None \<Longrightarrow> filter (\<lambda>(t, _). t \<noteq> k) xs = xs" for xs
    by (induction xs) (auto split: if_splits)
  with Cons show ?case by (cases p) (auto split: if_splits)
qed simp

lemma upsert_upsert:
  fixes k :: "'k::linorder"
  shows "sorted_wrt (<) (map fst rs) \<Longrightarrow> upsert k w (upsert k v rs) = upsert k w rs"
  by (induction rs) auto

lemma upsert_same:
  fixes k :: "'k::linorder"
  assumes "sorted_wrt (<) (map fst rs)" "map_of rs k = Some v"
  shows "upsert k v rs = rs"
  using assms
proof (induction rs)
  case (Cons p rs)
  obtain a b where p: "p = (a, b)" by (cases p)
  have "a < k" if "k \<noteq> a"
    using Cons.prems that p by (force dest: map_of_SomeD)
  with Cons p show ?case by auto
qed simp

lemma oldest_least:
  assumes "sorted_wrt (<) (map fst rs)" "(tx, n) \<in> set rs"
  shows "\<exists>t. oldest_active_transaction rs = Some t \<and> t \<le> tx"
  using assms by (cases rs) (auto simp: oldest_active_transaction_def split: prod.splits)

text \<open>C28: a reader is counted from its start to its end. While it is counted, the oldest active
  transaction is not younger than the reader's snapshot; ending the reader restores the counts.\<close>

theorem reader_counted:
  assumes "tracker_ok rs" "tracker_begin_read tx rs = Inr rs'"
  shows "tracker_ok rs' \<and> (\<exists>t. oldest_active_transaction rs' = Some t \<and> t \<le> tx)
    \<and> (\<forall>t \<in> fst ` set rs. t \<in> fst ` set rs') \<and> read_guard_drop tx rs' = Inr rs"
proof -
  note ok = assms(1) [unfolded tracker_ok_def]
  obtain n where n: "rs' = upsert tx n rs" "n \<noteq> 0"
    "map_of rs tx = None \<and> n = 1 \<or> (\<exists>m. map_of rs tx = Some m \<and> n = m + 1 \<and> m \<noteq> - 1)"
  proof (cases "map_of rs tx")
    case None
    with assms(2) that show ?thesis by (auto simp: tracker_begin_read_def)
  next
    case (Some m)
    then have "m \<noteq> - 1" "rs' = upsert tx (m + 1) rs"
      using assms(2) by (auto simp: tracker_begin_read_def split: if_splits)
    moreover from this have "m + 1 \<noteq> 0" by (metis add_eq_0_iff2)
    ultimately show ?thesis using that Some by blast
  qed
  have sorted: "sorted_wrt (<) (map fst rs')" using sorted_upsert [of rs] ok n(1) by simp
  have m: "map_of rs' = (map_of rs)(tx \<mapsto> n)" by (simp add: n(1) map_of_upsert)
  then have get: "map_of rs' tx = Some n" by simp
  have "tracker_ok rs'"
    using sorted ok n(2) set_upsert_subset [of tx n rs] unfolding tracker_ok_def n(1) by fastforce
  moreover have "\<exists>t. oldest_active_transaction rs' = Some t \<and> t \<le> tx"
    using oldest_least [OF sorted] map_of_SomeD [OF get] by blast
  moreover have "\<forall>t \<in> fst ` set rs. t \<in> fst ` set rs'"
    using arg_cong [OF m, of dom] by (simp add: dom_map_of_conv_image_fst)
  moreover have "read_guard_drop tx rs' = Inr rs"
    using n(3)
  proof (elim disjE conjE exE)
    assume "map_of rs tx = None" "n = 1"
    then show ?thesis using get n(1) by (simp add: read_guard_drop_def filter_upsert_new)
  next
    fix k assume k: "map_of rs tx = Some k" "n = k + 1"
    then have "k \<noteq> 0" using ok map_of_SomeD [of rs tx k] by auto
    with get k n(1,2) ok show ?thesis by (simp add: read_guard_drop_def upsert_upsert upsert_same)
  qed
  ultimately show ?thesis by blast
qed

theorem reader_counted_witness:
  "tracker_begin_read 5 [(3, 1), (5, 2)] = Inr [(3, 1), (5, 3)] \<and> read_guard_drop 5 [(3, 1), (5, 3)] = Inr [(3, 1), (5, 2)]"
proof -
  have b: "tracker_begin_read 5 [(3, 1), (5, 2)] = Inr [(3, 1), (5, 3)]" "tracker_ok [(3, 1), (5, 2)]"
    by (simp_all add: tracker_begin_read_def tracker_ok_def)
  with reader_counted [OF b(2,1)] show ?thesis by simp
qed

text \<open>C29: the allocator never hands out a page that a reader may still see: a page is either fresh or was
  freed by a transaction older than the snapshot of every active reader. It is not handed out twice.\<close>

theorem allocate_respects_readers:
  assumes "allocate_page_id s = (Inr pid, t)" "pm_safe s" "tracker_ok (pm_readers s)"
  shows "pm_safe t \<and> pid \<in> avail s \<and> pid \<notin> avail t \<and> avail t \<subseteq> avail s
    \<and> (pid = next_page_id (pm_alloc s)
       \<or> (\<exists>f \<in> set (pending_free_pages (pm_alloc s)). fp_page_id f = pid
            \<and> (\<forall>(tx, n) \<in> set (pm_readers s). fp_transaction_id f < tx)))"
proof -
  note sp = allocate_page_id_spec [OF assms(1,2)]
  have "pid = next_page_id (pm_alloc s)
       \<or> (\<exists>f \<in> set (pending_free_pages (pm_alloc s)). fp_page_id f = pid
            \<and> (\<forall>(tx, n) \<in> set (pm_readers s). fp_transaction_id f < tx))"
    using assms(1)
  proof (cases rule: allocate_page_id_cases)
    case (reuse freed rest)
    have "fp_transaction_id freed < tx" if "(tx, n) \<in> set (pm_readers s)" for tx n
    proof -
      from that obtain t0 n0 rs where rs: "pm_readers s = (t0, n0) # rs" by (cases "pm_readers s") auto
      then have "fp_transaction_id freed < t0" by (rule reuse(4))
      also have "t0 \<le> tx" using assms(3) rs that by (auto simp: tracker_ok_def)
      finally show ?thesis .
    qed
    with reuse(1,2) show ?thesis by auto
  next
    case (grow q g)
    then show ?thesis by (cases q) auto
  qed auto
  with sp show ?thesis by blast
qed

definition test_file :: "bytes \<Rightarrow> file_handler" where
  "test_file bs = \<lparr>contents = bs, io_script = []\<rparr>"

definition test_manager :: "(nat \<times> (page_id \<times> bytes) list) page_manager" where
  "test_manager = \<lparr>pm_io = page_io_new fifo_cache (test_file (replicate 12 0)) 4 2, pm_readers = [(7, 1)],
     pm_alloc = \<lparr>pending_free_pages = [\<lparr>fp_page_id = 2, fp_transaction_id = 6\<rparr>], next_page_id = 3,
       reserved_page_count = 3\<rparr>\<rparr>"

theorem allocate_respects_readers_witness:
  "\<exists>t. allocate_page_id test_manager = (Inr 2, t) \<and> 2 \<notin> avail t"
proof -
  have a: "fst (allocate_page_id test_manager) = Inr 2"
    by (simp add: allocate_page_id_def test_manager_def oldest_active_transaction_def)
  have s: "pm_safe test_manager" "tracker_ok (pm_readers test_manager)"
    by (simp_all add: pm_safe_def test_manager_def pending_ids_def io_ok_def page_io_new_def test_file_def tracker_ok_def)
  from a obtain t where t: "allocate_page_id test_manager = (Inr 2, t)" by (metis prod.collapse)
  with allocate_respects_readers [OF t s] show ?thesis by blast
qed

section \<open>Reading and writing\<close>

text \<open>C31: a page that was written reads back as written, through the cache or from the file, and every other
  page reads as before. A write that fails, also one that stopped in the middle of the page, spoils no other
  page.\<close>

theorem write_page_read_back:
  assumes "moka_cache K cv" "io_ok s" "write_page K p s = (r, t)"
  shows "(\<forall>q d. q \<noteq> page_no p \<longrightarrow> page_view cv s q = Some d \<longrightarrow> page_view cv t q = Some d)
    \<and> (r = Inr () \<longrightarrow> (\<forall>r' u. read_page K (page_no p) t = (r', u) \<longrightarrow>
         r' = Inr p \<or> (\<exists>m. r' = Inl (Fail (IoError m)))))
    \<and> (calm_io s \<longrightarrow> length (page_data p) = psize s \<longrightarrow> unat (page_no p) * psize s + psize s \<le> length (contents (io_file s))
       \<longrightarrow> r = Inr () \<and> fst (read_page K (page_no p) t) = Inr p)"
proof -
  note w = moka_cache.write_page_spec [OF assms]
  have p: "\<lparr>page_no = page_no p, page_data = page_data p\<rparr> = p" by simp
  have io: "\<exists>m. e = Fail (IoError m)" if "io_failure e" for e
    using that by (simp add: io_failure_def split: fault.splits kv_error.splits)
  have rd: "r' = Inr p \<or> (\<exists>m. r' = Inl (Fail (IoError m)))" "calm_io t \<Longrightarrow> r' = Inr p"
    if "r = Inr ()" "read_page K (page_no p) t = (r', u)" for r' u
  proof -
    note v = moka_cache.read_page_value [OF assms(1) w(2) w(6) [OF that(1)] that(2), unfolded p]
    show "r' = Inr p \<or> (\<exists>m. r' = Inl (Fail (IoError m)))" using v(1) io by blast
    show "calm_io t \<Longrightarrow> r' = Inr p" using v(2) by blast
  qed
  have "fst (read_page K (page_no p) t) = Inr p" if "calm_io s" "length (page_data p) = psize s"
      "unat (page_no p) * psize s + psize s \<le> length (contents (io_file s))"
    using w(7) [OF that] rd(2) by (metis prod.collapse)
  with w(5,7) rd(1) show ?thesis by blast
qed

theorem write_page_read_back_witness:
  "let s = page_io_new fifo_cache (test_file (replicate 12 0)) 4 2; p = \<lparr>page_no = 1, page_data = [1, 2, 3, 4]\<rparr>
   in fst (read_page fifo_cache 1 (snd (write_page fifo_cache p s))) = Inr p"
proof -
  define s where "s = page_io_new fifo_cache (test_file (replicate 12 0)) 4 2"
  define p :: page where "p = \<lparr>page_no = 1, page_data = [1, 2, 3, 4]\<rparr>"
  have s: "io_ok s" "unat (page_no p) * psize s + psize s \<le> length (contents (io_file s))" "calm_io s"
      "length (page_data p) = psize s"
    by (simp_all add: s_def p_def io_ok_def page_io_new_def test_file_def psize_def calm_io_def calm_file_def)
  obtain r t where w: "write_page fifo_cache p s = (r, t)" by fastforce
  from write_page_read_back [OF fifo.moka_cache_axioms s(1) w] s(2-4) w
  have "fst (read_page fifo_cache (page_no p) (snd (write_page fifo_cache p s))) = Inr p" by simp
  then show ?thesis by (simp add: s_def p_def Let_def)
qed

end
