(* ===== verification/Tree_Shape.thy ===== *)
theory Tree_Shape
  imports Tree Page_Store_Props
begin

text \<open>
  What a tree of pages stands for. Over a map \<open>V\<close> from page ids to pages, \<open>subtree h X Q V lo hi pid\<close> says that
  \<open>pid\<close> is the root of a well-formed tree of height \<open>h\<close> whose keys lie in \<open>[lo, hi)\<close> and whose pairs
  satisfy \<open>Q\<close>, with correct checksums; \<open>tree_pairs\<close> is the sorted list of its pairs and \<open>tree_pages\<close> the
  list of its pages. All three depend on the pages of the tree only.

  The interface \<open>page_reader\<close> is what the tree needs of a function that reads pages; lookup and
  verification are proved inside it, once for the page layer and once for the page manager.
\<close>

section \<open>Key ranges\<close>

definition below :: "bytes \<Rightarrow> bytes option \<Rightarrow> bool" where
  "below k hi \<longleftrightarrow> (case hi of None \<Rightarrow> True | Some h \<Rightarrow> k < h)"

definition within :: "bytes \<Rightarrow> bytes option \<Rightarrow> bytes \<Rightarrow> bool" where
  "within lo hi k \<longleftrightarrow> lo \<le> k \<and> below k hi"

lemma below_simps [simp]: "below k None" "below k (Some h) \<longleftrightarrow> k < h"
  by (simp_all add: below_def)

lemma below_trans: "j \<le> k \<Longrightarrow> below k hi \<Longrightarrow> below j hi"
  by (cases hi) auto

lemma within_all [simp]: "within [] None k"
  by (simp add: within_def)

text \<open>A list of children with the least key of each; the next key bounds a child from above.\<close>

fun nxt :: "bytes option \<Rightarrow> (bytes \<times> 'r) list \<Rightarrow> bytes option" where
  "nxt hi [] = hi"
| "nxt hi ((k, r) # ks) = Some k"

fun kids_ok :: "(bytes \<Rightarrow> bytes option \<Rightarrow> 'r \<Rightarrow> bool) \<Rightarrow> bytes option \<Rightarrow> (bytes \<times> 'r) list \<Rightarrow> bool" where
  "kids_ok P hi [] \<longleftrightarrow> True"
| "kids_ok P hi ((k, r) # ks) \<longleftrightarrow> P k (nxt hi ks) r \<and> kids_ok P hi ks"

lemma nxt_append [simp]: "nxt hi (xs @ ys) = nxt (nxt hi ys) xs"
  by (cases xs) auto

lemma kids_ok_append [simp]: "kids_ok P hi (xs @ ys) \<longleftrightarrow> kids_ok P (nxt hi ys) xs \<and> kids_ok P hi ys"
  by (induction xs) auto

lemma kids_ok_cong:
  "(\<And>k u r. r \<in> snd ` set ks \<Longrightarrow> P k u r = P' k u r) \<Longrightarrow> kids_ok P hi ks = kids_ok P' hi ks"
  by (induction ks) force+

lemma kids_ok_member:
  "kids_ok P hi ks \<Longrightarrow> (k, r) \<in> set ks \<Longrightarrow> \<exists>u. P k u r"
  by (induction ks) auto

section \<open>Trees\<close>

definition kids :: "kv_crates \<Rightarrow> bytes \<Rightarrow> bytes \<Rightarrow> (bytes \<times> u64 \<times> u128) list" where
  "kids X lo page = (lo, child_ref (hd (branch_view X page))) # separators (branch_view X page)"

definition refs :: "kv_crates \<Rightarrow> bytes \<Rightarrow> (u64 \<times> u128) list" where
  "refs X page = child_ref (hd (branch_view X page)) # map snd (separators (branch_view X page))"

lemma snd_kids [simp]: "map snd (kids X lo page) = refs X page"
  by (simp add: kids_def refs_def)

definition checksummed :: "kv_crates \<Rightarrow> (page_id \<Rightarrow> bytes option) \<Rightarrow> page_id \<Rightarrow> u128 \<Rightarrow> bool" where
  "checksummed X V pid c \<longleftrightarrow> (case V pid of None \<Rightarrow> False | Some d \<Rightarrow> checksum_page X d = c)"

primrec subtree ::
    "nat \<Rightarrow> kv_crates \<Rightarrow> (bytes \<times> bytes \<Rightarrow> bool) \<Rightarrow> (page_id \<Rightarrow> bytes option) \<Rightarrow> bytes \<Rightarrow> bytes option \<Rightarrow> page_id
     \<Rightarrow> bool" where
  "subtree 0 X Q V lo hi pid \<longleftrightarrow>
     (case V pid of
        None \<Rightarrow> False
      | Some page \<Rightarrow> leaf_wf X page \<and> (\<forall>kv \<in> set (leaf_pairs X page). within lo hi (fst kv) \<and> Q kv))"
| "subtree (Suc h) X Q V lo hi pid \<longleftrightarrow>
     (case V pid of
        None \<Rightarrow> False
      | Some page \<Rightarrow>
          branch_wf X page \<and> branch_packed X page \<and> sorted_wrt (<) (map fst (kids X lo page))
          \<and> (\<forall>k \<in> fst ` set (separators (branch_view X page)). below k hi \<and> (\<exists>v. Q (k, v)))
          \<and> kids_ok (\<lambda>l u (c, cs). subtree h X Q V l u c \<and> checksummed X V c cs) hi (kids X lo page))"

primrec tree_pairs :: "nat \<Rightarrow> kv_crates \<Rightarrow> (page_id \<Rightarrow> bytes option) \<Rightarrow> page_id \<Rightarrow> (bytes \<times> bytes) list" where
  "tree_pairs 0 X V pid = (case V pid of None \<Rightarrow> [] | Some page \<Rightarrow> leaf_pairs X page)"
| "tree_pairs (Suc h) X V pid =
     (case V pid of
        None \<Rightarrow> []
      | Some page \<Rightarrow> concat (map (\<lambda>(c, cs). tree_pairs h X V c) (refs X page)))"

primrec tree_pages :: "nat \<Rightarrow> kv_crates \<Rightarrow> (page_id \<Rightarrow> bytes option) \<Rightarrow> page_id \<Rightarrow> page_id list" where
  "tree_pages 0 X V pid = [pid]"
| "tree_pages (Suc h) X V pid =
     pid # (case V pid of
              None \<Rightarrow> []
            | Some page \<Rightarrow> concat (map (\<lambda>(c, cs). tree_pages h X V c) (refs X page)))"

lemma root_in_pages [simp]: "pid \<in> set (tree_pages h X V pid)"
  by (cases h) auto

text \<open>The tree depends on its pages only.\<close>

lemma tree_cong:
  assumes "\<forall>q \<in> set (tree_pages h X V pid). V' q = V q"
  shows "subtree h X Q V' lo hi pid = subtree h X Q V lo hi pid" "tree_pairs h X V' pid = tree_pairs h X V pid"
    "tree_pages h X V' pid = tree_pages h X V pid"
proof -
  have "subtree h X Q V' lo hi pid = subtree h X Q V lo hi pid \<and> tree_pairs h X V' pid = tree_pairs h X V pid
      \<and> tree_pages h X V' pid = tree_pages h X V pid"
    using assms
  proof (induction h arbitrary: pid lo hi)
    case (Suc h)
    have at: "V' pid = V pid" using Suc.prems by simp
    show ?case
    proof (cases "V pid")
      case (Some page)
      have ih: "subtree h X Q V' l u c = subtree h X Q V l u c" "tree_pairs h X V' c = tree_pairs h X V c"
          "tree_pages h X V' c = tree_pages h X V c" "V' c = V c" if "(c, cs) \<in> set (refs X page)" for c cs l u
      proof -
        have "\<forall>q \<in> set (tree_pages h X V c). V' q = V q" using Suc.prems Some that by force
        then show "subtree h X Q V' l u c = subtree h X Q V l u c" "tree_pairs h X V' c = tree_pairs h X V c"
          "tree_pages h X V' c = tree_pages h X V c" "V' c = V c" using Suc.IH by auto
      qed
      have "kids_ok (\<lambda>l u (c, cs). subtree h X Q V' l u c \<and> checksummed X V' c cs) hi (kids X lo page)
          = kids_ok (\<lambda>l u (c, cs). subtree h X Q V l u c \<and> checksummed X V c cs) hi (kids X lo page)"
      proof (rule kids_ok_cong)
        fix k u r
        assume "r \<in> snd ` set (kids X lo page)"
        then have "r \<in> set (refs X page)" by (metis set_map snd_kids)
        with ih show "(case r of (c, cs) \<Rightarrow> subtree h X Q V' k u c \<and> checksummed X V' c cs)
            = (case r of (c, cs) \<Rightarrow> subtree h X Q V k u c \<and> checksummed X V c cs)"
          by (cases r) (auto simp: checksummed_def)
      qed
      moreover have "map (\<lambda>(c, cs). tree_pairs h X V' c) (refs X page) = map (\<lambda>(c, cs). tree_pairs h X V c) (refs X page)"
          "map (\<lambda>(c, cs). tree_pages h X V' c) (refs X page) = map (\<lambda>(c, cs). tree_pages h X V c) (refs X page)"
        using ih by auto
      ultimately show ?thesis using Some at by (simp del: map_eq_conv)
    qed (use at in simp)
  qed simp
  then show "subtree h X Q V' lo hi pid = subtree h X Q V lo hi pid" "tree_pairs h X V' pid = tree_pairs h X V pid"
    "tree_pages h X V' pid = tree_pages h X V pid" by simp_all
qed

text \<open>Every page of a tree is in the map, so that a larger map holds the same tree.\<close>

lemma subtree_dom:
  "subtree h X Q V lo hi pid \<Longrightarrow> q \<in> set (tree_pages h X V pid) \<Longrightarrow> V q \<noteq> None"
proof (induction h arbitrary: pid lo hi)
  case (Suc h)
  then obtain page where page: "V pid = Some page" by (cases "V pid") auto
  show ?case
  proof (cases "q = pid")
    case False
    then obtain c cs where c: "(c, cs) \<in> set (refs X page)" "q \<in> set (tree_pages h X V c)"
      using Suc.prems(2) page by auto
    then have "(c, cs) \<in> snd ` set (kids X lo page)" by (metis set_map snd_kids)
    then obtain k where "(k, c, cs) \<in> set (kids X lo page)" by force
    moreover have "kids_ok (\<lambda>l u (c, cs). subtree h X Q V l u c \<and> checksummed X V c cs) hi (kids X lo page)"
      using Suc.prems(1) page by simp
    ultimately have "\<exists>u. subtree h X Q V k u c" using kids_ok_member by fastforce
    then show ?thesis using Suc.IH c(2) by blast
  qed (use page in simp)
qed (auto split: option.splits)

lemma tree_extend:
  assumes "V \<subseteq>\<^sub>m V'" "subtree h X Q V lo hi pid"
  shows "subtree h X Q V' lo hi pid" "tree_pairs h X V' pid = tree_pairs h X V pid"
    "tree_pages h X V' pid = tree_pages h X V pid"
proof -
  have "\<forall>q \<in> set (tree_pages h X V pid). V' q = V q"
    using subtree_dom [OF assms(2)] map_leD [OF assms(1)] by fastforce
  note c = tree_cong [OF this]
  from c assms(2) show "subtree h X Q V' lo hi pid" "tree_pairs h X V' pid = tree_pairs h X V pid"
    "tree_pages h X V' pid = tree_pages h X V pid" by auto
qed

section \<open>Descending to a key\<close>

text \<open>The keys of a tree lie in its range, and its pairs are sorted.\<close>

lemma kids_keys_range:
  assumes "kids_ok P hi ks" "sorted_wrt (<) (map fst ks)" "\<forall>k \<in> fst ` set (tl ks). below k hi"
    and "\<And>k u r kv. P k u r \<Longrightarrow> kv \<in> set (f r) \<Longrightarrow> within k u (fst kv)"
    and "kv \<in> set (concat (map (\<lambda>(k, r). f r) ks))"
  shows "fst (hd ks) \<le> fst kv \<and> below (fst kv) hi"
  using assms
proof (induction ks)
  case (Cons p ks)
  obtain k r where p: "p = (k, r)" by (cases p)
  show ?case
  proof (cases "kv \<in> set (f r)")
    case True
    have "P k (nxt hi ks) r" using Cons.prems(1) p by simp
    then have w: "within k (nxt hi ks) (fst kv)" by (rule Cons.prems(4)) (rule True)
    have "below (fst kv) hi"
    proof (cases ks)
      case (Cons q qs)
      have "fst kv < fst q" using w Cons by (cases q) (simp add: within_def)
      moreover have "below (fst q) hi" using \<open>\<forall>k \<in> fst ` set (tl (p # ks)). below k hi\<close> Cons by simp
      ultimately show ?thesis using below_trans [of "fst kv" "fst q" hi] by simp
    qed (use w in \<open>simp add: within_def\<close>)
    with w p show ?thesis by (simp add: within_def)
  next
    case False
    with Cons.prems(5) p have kv: "kv \<in> set (concat (map (\<lambda>(k, r). f r) ks))" by simp
    then obtain q qs where ks: "ks = q # qs" by (cases ks) auto
    have "fst (hd ks) \<le> fst kv \<and> below (fst kv) hi"
      using Cons.prems p ks kv by (intro Cons.IH) auto
    moreover have "k < fst q" using Cons.prems(2) p ks by simp
    ultimately show ?thesis using p ks by auto
  qed
qed simp

lemma concat_refs: "concat (map (\<lambda>(c, cs). f c) (refs X page)) = concat (map (\<lambda>(k, c, cs). f c) (kids X lo page))"
  by (auto simp: refs_def kids_def comp_def intro!: arg_cong [where f = concat])

lemma tree_range:
  assumes "subtree h X Q V lo hi pid" "kv \<in> set (tree_pairs h X V pid)"
  shows "within lo hi (fst kv)"
  using assms
proof (induction h arbitrary: lo hi pid kv)
  case 0
  then show ?case by (auto split: option.splits)
next
  case (Suc h)
  then obtain page where page: "V pid = Some page" by (cases "V pid") auto
  have kv: "kv \<in> set (concat (map (\<lambda>(k, r). tree_pairs h X V (fst r)) (kids X lo page)))"
    using Suc.prems(2) page concat_refs [of "tree_pairs h X V" X page lo] by (simp add: case_prod_beta)
  have "fst (hd (kids X lo page)) \<le> fst kv \<and> below (fst kv) hi"
  proof (rule kids_keys_range [OF _ _ _ _ kv])
    show "kids_ok (\<lambda>l u (c, cs). subtree h X Q V l u c \<and> checksummed X V c cs) hi (kids X lo page)"
        "sorted_wrt (<) (map fst (kids X lo page))" "\<forall>k \<in> fst ` set (tl (kids X lo page)). below k hi"
      using Suc.prems(1) page by (auto simp: kids_def)
    show "within k u (fst x)" if "case r of (c, cs) \<Rightarrow> subtree h X Q V k u c \<and> checksummed X V c cs"
        "x \<in> set (tree_pairs h X V (fst r))" for k u r x
      using that Suc.IH [of k u "fst r" x] by (cases r) simp
  qed
  then show ?case by (simp add: within_def kids_def)
qed

text \<open>A key of the range of a branch belongs to the child that \<open>route\<close> chooses: what is left of it has
  smaller keys, what is right of it has larger ones.\<close>

lemma kids_split:
  assumes "branch_wf X page" "i = route key (branch_view X page)" "lo \<le> key" "below key hi"
  shows "\<exists>xs k c cs ys. kids X lo page = xs @ (k, c, cs) # ys \<and> length xs = i
    \<and> be_child_page_id (branch_view X page ! i) = c \<and> k \<le> key \<and> below key (nxt hi ys)
    \<and> child_ref (branch_view X page ! i) = (c, cs)"
proof -
  define es where "es = branch_view X page"
  have wf: "sorted_wrt (<) (map be_key (tl es))" "es \<noteq> []"
    using assms(1) length_read_array [of "branch_meta_of_bytes X" branch_meta_size branch_header_size
        "num_entries (branch_header_of_bytes X page)" page]
    by (auto simp: branch_wf_def Let_def es_def branch_view_def branch_metas_def simp del: length_read_array)
  note b = route_bounds [OF wf, where key = key]
  have i: "i < length es" using wf(2) assms(2)
    by (cases es) (simp_all add: es_def [symmetric] route_def length_takeWhile_le le_imp_less_Suc)
  have len: "length (kids X lo page) = length es" using wf(2) by (simp add: kids_def separators_def es_def)
  have nth: "kids X lo page ! j = (if j = 0 then lo else be_key (es ! j), child_ref (es ! j))" if "j < length es" for j
    using that wf(2) by (cases es) (auto simp: kids_def separators_def es_def [symmetric] nth_Cons' hd_conv_nth)
  define xs ys where "xs = take i (kids X lo page)" and "ys = drop (Suc i) (kids X lo page)"
  have ks: "kids X lo page = xs @ kids X lo page ! i # ys"
    unfolding xs_def ys_def using i len by (simp add: id_take_nth_drop)
  have "(if i = 0 then lo else be_key (es ! i)) \<le> key"
    using b(1) [of i] assms(2,3) by (simp add: es_def)
  moreover have "below key (nxt hi ys)"
  proof (cases "Suc i < length es")
    case True
    then have "ys = kids X lo page ! Suc i # drop (Suc (Suc i)) (kids X lo page)"
      unfolding ys_def using len by (simp add: Cons_nth_drop_Suc)
    moreover have "key < be_key (es ! Suc i)" using b(2) [of "Suc i"] True assms(2) by (simp add: es_def)
    ultimately show ?thesis using nth [OF True] by simp
  next
    case False
    then have "ys = []" unfolding ys_def using len by simp
    then show ?thesis using assms(4) by simp
  qed
  moreover have "length xs = i" unfolding xs_def using i len by simp
  moreover obtain c cs where "child_ref (es ! i) = (c, cs)" "be_child_page_id (es ! i) = c"
    by (simp add: child_ref_def)
  ultimately show ?thesis
    using ks nth [OF i] unfolding es_def [symmetric] by metis
qed

abbreviation pairs_of :: "nat \<Rightarrow> kv_crates \<Rightarrow> (page_id \<Rightarrow> bytes option) \<Rightarrow> (bytes \<times> u64 \<times> u128) list \<Rightarrow> (bytes \<times> bytes) list" where
  "pairs_of h X V ks \<equiv> concat (map (\<lambda>(k, c, cs). tree_pairs h X V c) ks)"

abbreviation kid_ok :: "nat \<Rightarrow> kv_crates \<Rightarrow> (bytes \<times> bytes \<Rightarrow> bool) \<Rightarrow> (page_id \<Rightarrow> bytes option) \<Rightarrow> bytes \<Rightarrow> bytes option
    \<Rightarrow> u64 \<times> u128 \<Rightarrow> bool" where
  "kid_ok h X Q V \<equiv> (\<lambda>l u (c, cs). subtree h X Q V l u c \<and> checksummed X V c cs)"

lemma kids_pairs_range:
  assumes "kids_ok (kid_ok h X Q V) hi ks" "sorted_wrt (<) (map fst ks)" "\<forall>k \<in> fst ` set (tl ks). below k hi"
    and "kv \<in> set (pairs_of h X V ks)"
  shows "fst (hd ks) \<le> fst kv \<and> below (fst kv) hi"
proof (rule kids_keys_range [OF assms(1-3), where f = "\<lambda>(c, cs). tree_pairs h X V c"])
  show "within k u (fst x)" if "kid_ok h X Q V k u r" "x \<in> set (case r of (c, cs) \<Rightarrow> tree_pairs h X V c)" for k u r x
    using that tree_range [of h X Q V k u "fst r" x] by (cases r) simp
  show "kv \<in> set (concat (map (\<lambda>(k, r). case r of (c, cs) \<Rightarrow> tree_pairs h X V c) ks))"
    using assms(4) by (simp add: case_prod_beta)
qed

lemma kids_apart:
  assumes "kids_ok (kid_ok h X Q V) hi (xs @ (k, c, cs) # ys)" "sorted_wrt (<) (map fst (xs @ (k, c, cs) # ys))"
    and "\<forall>k \<in> fst ` set (tl (xs @ (k, c, cs) # ys)). below k hi" "k \<le> key" "below key (nxt hi ys)"
  shows "\<forall>kv \<in> set (pairs_of h X V xs). fst kv < key" "\<forall>kv \<in> set (pairs_of h X V ys). key < fst kv"
    "subtree h X Q V k (nxt hi ys) c" "checksummed X V c cs"
proof -
  have parts: "kids_ok (kid_ok h X Q V) (Some k) xs" "kids_ok (kid_ok h X Q V) hi ys" using assms(1) by auto
  have keys: "sorted_wrt (<) (map fst xs)" "sorted_wrt (<) (map fst ys)" "\<forall>x \<in> set xs. fst x < k" "\<forall>y \<in> set ys. below (fst y) hi"
    using assms(2,3) by (auto simp: sorted_wrt_append tl_append split: list.splits)
  show "\<forall>kv \<in> set (pairs_of h X V xs). fst kv < key"
  proof
    fix kv assume "kv \<in> set (pairs_of h X V xs)"
    then have "below (fst kv) (Some k)"
      using kids_pairs_range [OF parts(1) keys(1)] keys(3) by (cases xs) auto
    with assms(4) show "fst kv < key" by simp
  qed
  show "\<forall>kv \<in> set (pairs_of h X V ys). key < fst kv"
  proof
    fix kv assume kv: "kv \<in> set (pairs_of h X V ys)"
    then obtain y ys' where ys: "ys = y # ys'" by (cases ys) auto
    have "fst (hd ys) \<le> fst kv" using kids_pairs_range [OF parts(2) keys(2) _ kv] keys(4) ys by auto
    moreover have "key < fst (hd ys)" using assms(5) ys by (cases y) simp
    ultimately show "key < fst kv" by simp
  qed
  show "subtree h X Q V k (nxt hi ys) c" "checksummed X V c cs" using assms(1) by auto
qed

lemma branch_descend:
  assumes "subtree (Suc h) X Q V lo hi pid" "within lo hi key"
  obtains page xs k c cs ys where "V pid = Some page" "branch_wf X page" "branch_packed X page"
    "kids X lo page = xs @ (k, c, cs) # ys" "length xs = route key (branch_view X page)"
    "be_child_page_id (branch_view X page ! route key (branch_view X page)) = c"
    "sorted_wrt (<) (map fst (xs @ (k, c, cs) # ys))"
    "\<forall>k \<in> fst ` set (separators (branch_view X page)). below k hi \<and> (\<exists>v. Q (k, v))"
    "kids_ok (kid_ok h X Q V) (Some k) xs" "kids_ok (kid_ok h X Q V) hi ys"
    "subtree h X Q V k (nxt hi ys) c" "checksummed X V c cs" "within k (nxt hi ys) key"
    "\<forall>kv \<in> set (pairs_of h X V xs). fst kv < key" "\<forall>kv \<in> set (pairs_of h X V ys). key < fst kv"
    "tree_pairs (Suc h) X V pid = pairs_of h X V xs @ tree_pairs h X V c @ pairs_of h X V ys"
proof -
  obtain page where page: "V pid = Some page" using assms(1) by (cases "V pid") auto
  note s = assms(1) [unfolded subtree.simps page option.case]
  have wf: "branch_wf X page" using s by blast
  obtain xs k c cs ys where ks: "kids X lo page = xs @ (k, c, cs) # ys" "length xs = route key (branch_view X page)"
      "be_child_page_id (branch_view X page ! route key (branch_view X page)) = c" "k \<le> key" "below key (nxt hi ys)"
    using kids_split [OF wf refl] assms(2) unfolding within_def by metis
  have ok: "kids_ok (kid_ok h X Q V) hi (xs @ (k, c, cs) # ys)" "sorted_wrt (<) (map fst (xs @ (k, c, cs) # ys))"
    using s unfolding ks(1) by blast+
  have "\<forall>k \<in> fst ` set (tl (kids X lo page)). below k hi" using s by (simp add: kids_def)
  note ap = kids_apart [OF ok this [unfolded ks(1)] ks(4,5)]
  have "tree_pairs (Suc h) X V pid = pairs_of h X V xs @ tree_pairs h X V c @ pairs_of h X V ys"
    using page concat_refs [of "tree_pairs h X V" X page lo] by (simp add: ks(1))
  with page ks ok ap s that show thesis by (simp add: within_def)
qed

section \<open>Lookup\<close>

context zerocopy_le
begin

lemma leaf_node_page:
  assumes "leaf_wf X page"
  shows "node_kind_parse X page = Inr LeafKind"
    "\<exists>lp. node_page_from_page X page = Inr (LeafNode lp) \<and> leaf_get_value lp key = Inr (map_of (leaf_pairs X page) key)"
proof -
  have "leaf_header_size + leaf_meta_size * num_pairs (leaf_header_of_bytes X page) \<le> length page"
      "u64_of_le X (range_of 0 8 page) = node_kind_code LeafKind"
    using assms by (auto simp: leaf_wf_def Let_def leaf_header_of_bytes_def leaf_header_new_def)
  then show k: "node_kind_parse X page = Inr LeafKind"
    by (simp add: node_kind_parse_def leaf_header_size_def)
  from leaf_get_pairs [OF assms, of key]
  show "\<exists>lp. node_page_from_page X page = Inr (LeafNode lp) \<and> leaf_get_value lp key = Inr (map_of (leaf_pairs X page) key)"
    by (auto simp: node_page_from_page_def k result_simps)
qed

lemma branch_node_page:
  assumes "branch_wf X page"
  shows "node_kind_parse X page = Inr BranchKind"
    "\<exists>bp. node_page_from_page X page = Inr (BranchNode bp) \<and> branch_from_page X page = Inr bp
      \<and> child_page_id_for_key bp key = Inr (be_child_page_id (branch_view X page ! route key (branch_view X page)))"
proof -
  have "branch_header_size + branch_meta_size * num_entries (branch_header_of_bytes X page) \<le> length page"
      "u64_of_le X (range_of 0 8 page) = node_kind_code BranchKind"
    using assms by (auto simp: branch_wf_def Let_def branch_header_of_bytes_def)
  then show k: "node_kind_parse X page = Inr BranchKind"
    by (simp add: node_kind_parse_def branch_header_size_def node_kind_code_def Let_def)
  from branch_route(2) [OF assms, of key]
  show "\<exists>bp. node_page_from_page X page = Inr (BranchNode bp) \<and> branch_from_page X page = Inr bp
      \<and> child_page_id_for_key bp key = Inr (be_child_page_id (branch_view X page ! route key (branch_view X page)))"
    by (auto simp: node_page_from_page_def k result_simps)
qed

end

text \<open>What the tree needs of a function that reads pages: it returns the page of the view, unless the
  operating system fails, and it never loses a page.\<close>

locale page_reader =
  fixes rd :: "page_id \<Rightarrow> ('s, page) op" and pview :: "'s \<Rightarrow> page_id \<Rightarrow> bytes option"
    and inv :: "'s \<Rightarrow> bool" and calm :: "'s \<Rightarrow> bool"
  assumes rd_view: "inv s \<Longrightarrow> pview s pid = Some d \<Longrightarrow> rd pid s = (r, t) \<Longrightarrow>
      inv t \<and> pview s \<subseteq>\<^sub>m pview t
      \<and> (r = Inr \<lparr>page_no = pid, page_data = d\<rparr> \<or> (\<exists>e. r = Inl e \<and> io_failure e))
      \<and> (calm s \<longrightarrow> r = Inr \<lparr>page_no = pid, page_data = d\<rparr> \<and> calm t)"

locale tree_reader = zerocopy_le X + page_reader rd pview inv calm
  for X and rd :: "page_id \<Rightarrow> ('s, page) op" and pview inv calm
begin

text \<open>The loop of \<open>get\<close> ends after as many steps as the tree is high, with what the pairs of the tree say.\<close>

lemma get_loop_correct:
  assumes "inv s" "subtree h X Q (pview s) lo hi pid" "within lo hi key" "h < fuel"
  shows "\<exists>r t. get_loop fuel X rd pid key s = Some (r, t) \<and> inv t \<and> pview s \<subseteq>\<^sub>m pview t
    \<and> (r = Inr (map_of (tree_pairs h X (pview s) pid) key) \<or> (\<exists>e. r = Inl e \<and> io_failure e))
    \<and> (calm s \<longrightarrow> r = Inr (map_of (tree_pairs h X (pview s) pid) key) \<and> calm t)"
  using assms
proof (induction h arbitrary: s pid lo hi fuel)
  case 0
  then obtain page where page: "pview s pid = Some page" "leaf_wf X page" by (auto split: option.splits)
  obtain q t where rd: "rd pid s = (q, t)" by fastforce
  note v = rd_view [OF "0.prems"(1) page(1) rd]
  obtain f where f: "fuel = Suc f" using "0.prems"(4) by (cases fuel) auto
  obtain lp where lp: "node_page_from_page X page = Inr (LeafNode lp)"
      "leaf_get_value lp key = Inr (map_of (leaf_pairs X page) key)"
    using leaf_node_page(2) [OF page(2)] by blast
  show ?case
  proof (cases q)
    case (Inl e)
    with v rd f show ?thesis by auto
  next
    case (Inr p)
    with v have p: "p = \<lparr>page_no = pid, page_data = page\<rparr>" by auto
    with v rd f Inr lp page show ?thesis by auto
  qed
next
  case (Suc h)
  obtain page xs k c cs ys where b:
      "pview s pid = Some page" "branch_wf X page"
      "be_child_page_id (branch_view X page ! route key (branch_view X page)) = c"
      "subtree h X Q (pview s) k (nxt hi ys) c" "within k (nxt hi ys) key"
      "\<forall>kv \<in> set (pairs_of h X (pview s) xs). fst kv < key" "\<forall>kv \<in> set (pairs_of h X (pview s) ys). key < fst kv"
      "tree_pairs (Suc h) X (pview s) pid = pairs_of h X (pview s) xs @ tree_pairs h X (pview s) c @ pairs_of h X (pview s) ys"
    by (rule branch_descend [OF Suc.prems(2,3)]) (rule that; assumption)
  have "map_of (pairs_of h X (pview s) xs) key = None" "map_of (pairs_of h X (pview s) ys) key = None"
    using b(6,7) by (fastforce simp: map_of_eq_None_iff)+
  then have look: "map_of (tree_pairs (Suc h) X (pview s) pid) key = map_of (tree_pairs h X (pview s) c) key"
    unfolding b(8) by (simp add: map_add_def split: option.split)
  obtain q t where rd: "rd pid s = (q, t)" by fastforce
  note v = rd_view [OF Suc.prems(1) b(1) rd]
  obtain f where f: "fuel = Suc f" "h < f" using Suc.prems(4) by (cases fuel) auto
  obtain bp where bp: "node_page_from_page X page = Inr (BranchNode bp)" "child_page_id_for_key bp key = Inr c"
    using branch_node_page(2) [OF b(2)] b(3) by metis
  show ?case
  proof (cases q)
    case (Inl e)
    with v rd f show ?thesis by auto
  next
    case (Inr p)
    with v have p: "page_data p = page" by auto
    have le: "pview s \<subseteq>\<^sub>m pview t" and inv: "inv t" using v by auto
    note e = tree_extend [OF le b(4)]
    from Suc.IH [OF inv e(1) b(5) f(2)] obtain r u where ih: "get_loop f X rd c key t = Some (r, u)" "inv u"
        "pview t \<subseteq>\<^sub>m pview u" "r = Inr (map_of (tree_pairs h X (pview s) c) key) \<or> (\<exists>e. r = Inl e \<and> io_failure e)"
        "calm t \<longrightarrow> r = Inr (map_of (tree_pairs h X (pview s) c) key) \<and> calm u"
      unfolding e(2) by blast
    have "get_loop fuel X rd pid key s = Some (r, u)"
      using rd Inr p bp ih(1) f(1) by simp
    moreover have "calm s \<longrightarrow> calm t" using v by blast
    ultimately show ?thesis
      using ih(2,4,5) map_le_trans [OF le ih(3)] unfolding look by blast
  qed
qed

section \<open>Verification\<close>

lemma for_op_outcome:
  assumes "\<And>x s. x \<in> set xs \<Longrightarrow> I s \<Longrightarrow> \<exists>r t. f x s = (r, t) \<and> I t
      \<and> (r = Inr () \<or> (\<exists>e. r = Inl e \<and> io_failure e)) \<and> (C s \<longrightarrow> r = Inr () \<and> C t)"
    and "I s"
  shows "\<exists>r t. for_op f xs s = (r, t) \<and> I t
      \<and> (r = Inr () \<or> (\<exists>e. r = Inl e \<and> io_failure e)) \<and> (C s \<longrightarrow> r = Inr () \<and> C t)"
  using assms
proof (induction xs arbitrary: s)
  case (Cons x xs)
  obtain r t where f: "f x s = (r, t)" "I t" "r = Inr () \<or> (\<exists>e. r = Inl e \<and> io_failure e)" "C s \<longrightarrow> r = Inr () \<and> C t"
    using Cons.prems(1) [of x s] Cons.prems(2) by auto
  show ?case
  proof (cases r)
    case (Inr u)
    have "\<exists>r t'. for_op f xs t = (r, t') \<and> I t'
      \<and> (r = Inr () \<or> (\<exists>e. r = Inl e \<and> io_failure e)) \<and> (C t \<longrightarrow> r = Inr () \<and> C t')"
      using Cons.prems(1) f(2) by (intro Cons.IH) auto
    with f Inr show ?thesis by auto
  qed (use f in auto)
qed simp

text \<open>A tree with correct checksums passes, unless the operating system fails.\<close>

lemma verify_pages_passes:
  assumes "inv s" "subtree h X Q (pview s) lo hi pid" "checksummed X (pview s) pid c" "h < frames"
  shows "\<exists>r t. verify_pages frames X rd pid c s = (r, t) \<and> inv t \<and> pview s \<subseteq>\<^sub>m pview t
    \<and> (r = Inr () \<or> (\<exists>e. r = Inl e \<and> io_failure e)) \<and> (calm s \<longrightarrow> r = Inr () \<and> calm t)"
  using assms
proof (induction h arbitrary: s pid lo hi frames c)
  case 0
  then obtain page where page: "pview s pid = Some page" "leaf_wf X page" "checksum_page X page = c"
    by (auto split: option.splits simp: checksummed_def)
  obtain q t where rd: "rd pid s = (q, t)" by fastforce
  note v = rd_view [OF "0.prems"(1) page(1) rd]
  obtain f where f: "frames = Suc f" using "0.prems"(4) by (cases frames) auto
  obtain lp where lp: "node_page_from_page X page = Inr (LeafNode lp)"
    using leaf_node_page(2) [OF page(2)] by blast
  show ?case
  proof (cases q)
    case (Inr p)
    with v have "page_data p = page" by auto
    with v rd f Inr lp page show ?thesis by (auto simp: bind_op_def)
  qed (use v rd f in \<open>auto simp: bind_op_def\<close>)
next
  case (Suc h)
  obtain page where page: "pview s pid = Some page" using Suc.prems(2) by (cases "pview s pid") auto
  have wf: "branch_wf X page" "kids_ok (kid_ok h X Q (pview s)) hi (kids X lo page)"
    using Suc.prems(2) page by auto
  have c: "checksum_page X page = c" using Suc.prems(3) page by (simp add: checksummed_def)
  obtain q t where rd: "rd pid s = (q, t)" by fastforce
  note v = rd_view [OF Suc.prems(1) page rd]
  obtain f where f: "frames = Suc f" "h < f" using Suc.prems(4) by (cases frames) auto
  obtain ms e where ms: "branch_slots page ms e" "ms \<noteq> []" "list_all (bentry_in e (length page)) ms"
    using wf(1) unfolding branch_wf_iff by blast
  note d = branch_slots_decode [OF ms(1)]
  have np: "node_page_from_page X page
      = Inr (BranchNode \<lparr>bp_header = branch_header_of_bytes X page, bp_entries = ms, bp_page = page\<rparr>)"
    using branch_node_page(1) [OF wf(1)] d(1) by (simp add: node_page_from_page_def)
  have key: "\<exists>k. branch_entry_key page m = Inr k" if "m \<in> set ms" for m
    using bentry_key [of e page m] ms(3) that by (auto simp: list_all_iff)
  have kid: "\<exists>l u. subtree h X Q (pview s) l u (bm_child_page_id m)
      \<and> checksummed X (pview s) (bm_child_page_id m) (bm_child_page_checksum m)" if "m \<in> set ms" for m
  proof -
    have "map child_ref (branch_view X page) = refs X page"
      using ms(2) d(8) by (cases ms) (auto simp: refs_def separators_def)
    then have "refs X page = map (\<lambda>m. (bm_child_page_id m, bm_child_page_checksum m)) ms"
      using d(8) by (simp add: child_ref_def entry_of_def comp_def)
    then have "(bm_child_page_id m, bm_child_page_checksum m) \<in> set (refs X page)"
      using that by simp
    then have "(bm_child_page_id m, bm_child_page_checksum m) \<in> snd ` set (kids X lo page)" by (metis set_map snd_kids)
    then obtain k where "(k, bm_child_page_id m, bm_child_page_checksum m) \<in> set (kids X lo page)" by force
    from kids_ok_member [OF wf(2) this] show ?thesis by auto
  qed
  define loop where "loop = (\<lambda>m. bind_op (lift_r (branch_entry_key page m)) (\<lambda>_.
      verify_pages f X rd (bm_child_page_id m) (bm_child_page_checksum m)))"
  show ?case
  proof (cases q)
    case (Inr p)
    with v have p: "page_data p = page" by auto
    have "\<exists>r u. for_op loop ms t = (r, u) \<and> (inv u \<and> pview s \<subseteq>\<^sub>m pview u)
        \<and> (r = Inr () \<or> (\<exists>e. r = Inl e \<and> io_failure e)) \<and> (calm t \<longrightarrow> r = Inr () \<and> calm u)"
    proof (rule for_op_outcome)
      show "inv t \<and> pview s \<subseteq>\<^sub>m pview t" using v by blast
      fix m w
      assume m: "m \<in> set ms" and w: "inv w \<and> pview s \<subseteq>\<^sub>m pview w"
      obtain l u where lu: "subtree h X Q (pview s) l u (bm_child_page_id m)"
          "checksummed X (pview s) (bm_child_page_id m) (bm_child_page_checksum m)"
        using kid [OF m] by blast
      have sub: "subtree h X Q (pview w) l u (bm_child_page_id m)" using tree_extend(1) w lu(1) by blast
      have sum: "checksummed X (pview w) (bm_child_page_id m) (bm_child_page_checksum m)"
        using lu(2) w map_leD by (fastforce simp: checksummed_def split: option.splits)
      obtain k where k: "branch_entry_key page m = Inr k" using key [OF m] by blast
      from Suc.IH [OF _ sub sum f(2)] w obtain r t' where
          "verify_pages f X rd (bm_child_page_id m) (bm_child_page_checksum m) w = (r, t')" "inv t'"
          "pview w \<subseteq>\<^sub>m pview t'" "r = Inr () \<or> (\<exists>e. r = Inl e \<and> io_failure e)" "calm w \<longrightarrow> r = Inr () \<and> calm t'"
        by blast
      with k w map_le_trans show "\<exists>r t'. loop m w = (r, t') \<and> (inv t' \<and> pview s \<subseteq>\<^sub>m pview t')
          \<and> (r = Inr () \<or> (\<exists>e. r = Inl e \<and> io_failure e)) \<and> (calm w \<longrightarrow> r = Inr () \<and> calm t')"
        by (auto simp: loop_def)
    qed
    moreover have "verify_pages frames X rd pid c s = for_op loop ms t"
      using rd Inr p np c f(1) by (simp add: loop_def)
    ultimately show ?thesis using v by auto
  qed (use v rd f in \<open>auto simp: bind_op_def\<close>)
qed

end

end
