(* ===== verification/Tree_Insert.thy ===== *)
theory Tree_Insert
  imports Tree_Shape
begin

text \<open>
  Insertion into the tree. The interface \<open>cow_store\<close> is what the tree needs of a write transaction: pages
  are checked out by copy-on-write or allocation and put back, and no other page is touched. Inside it,
  \<open>insert_recursive\<close> and \<open>insert\<close> are proved to turn the sorted list of pairs of the tree into its update, to
  keep the tree well-formed with correct checksums, and to leave every page outside the path alone.
\<close>

section \<open>Splitting nodes\<close>

context zerocopy_le
begin

lemma leaf_split_result:
  assumes "sorted_wrt (<) (map fst es)" "leaf_build_split_pages X es left right = Inr (sep, l, r)"
    and "24 \<le> length left" "length left < 2 ^ 63" "24 \<le> length right" "length right < 2 ^ 63"
  shows "2 \<le> length es" "sep = fst (es ! (length es div 2))" "leaf_wf X l" "leaf_wf X r"
    "leaf_pairs X l = take (length es div 2) es" "leaf_pairs X r = drop (length es div 2) es"
    "length l = length left" "length r = length right"
proof -
  define mid where "mid = length es div 2"
  show two: "2 \<le> length es" using assms(2) by (auto simp: leaf_build_split_pages_def split: if_splits)
  then have drop: "drop mid es = es ! mid # drop (Suc mid) es" by (simp add: mid_def Cons_nth_drop_Suc)
  have parts: "sep = fst (es ! mid)" "leaf_build_entries_at_buf X (take mid es) left = Inr l"
      "leaf_build_entries_at_buf X (drop mid es) right = Inr r"
    using assms(2) two drop by (auto simp: leaf_build_split_pages_def Let_def mid_def [symmetric] result_simps)
  have sorted: "sorted_wrt (<) (map fst (take mid es))" "sorted_wrt (<) (map fst (drop mid es))"
    using assms(1) by (simp_all add: take_map [symmetric] drop_map [symmetric] sorted_wrt_take sorted_wrt_drop)
  have "24 + pair_space (take mid es) \<le> length left"
    using leaf_build_overflow [of left "take mid es"] assms(3) parts(2) by fastforce
  from leaf_build_pairs [OF this assms(4) sorted(1)] parts(2)
  show "leaf_wf X l" "leaf_pairs X l = take (length es div 2) es" "length l = length left" by (auto simp: mid_def)
  have "24 + pair_space (drop mid es) \<le> length right"
    using leaf_build_overflow [of right "drop mid es"] assms(5) parts(3) by fastforce
  from leaf_build_pairs [OF this assms(6) sorted(2)] parts(3)
  show "leaf_wf X r" "leaf_pairs X r = drop (length es div 2) es" "length r = length right" by (auto simp: mid_def)
  show "sep = fst (es ! (length es div 2))" using parts(1) by (simp add: mid_def)
qed

lemma bbuild_loop_fits:
  "branch_build_loop X (Suc j) es wc kc page = Inr x \<Longrightarrow> wc \<le> kc \<Longrightarrow> wc + entry_space es \<le> kc"
proof (induction es arbitrary: j wc kc page)
  case (Cons e es)
  have ok: "length (be_key e) \<le> kc" "wc + branch_meta_size \<le> kc - length (be_key e)"
    using Cons.prems(1) by (auto simp: Let_def split: if_splits)
  obtain page' where "branch_build_loop X (Suc (Suc j)) es (wc + branch_meta_size) (kc - length (be_key e)) page' = Inr x"
    using Cons.prems(1) ok by (auto simp: Let_def result_simps)
  from Cons.IH [OF this ok(2)] ok show ?case by simp
qed simp

lemma branch_split_result:
  assumes "sorted_wrt (<) (map be_key (tl es))" "branch_build_split_pages X es left right = Inr (sep, l, r)"
    and "24 \<le> length left" "length left < 2 ^ 63" "24 \<le> length right" "length right < 2 ^ 63"
  shows "2 \<le> length es" "sep = be_key (es ! (length es div 2))" "branch_wf X l" "branch_wf X r"
    "branch_view X l = strip_first (take (length es div 2) es)"
    "branch_view X r = strip_first (drop (length es div 2) es)"
    "branch_packed X l" "branch_packed X r" "length l = length left" "length r = length right"
proof -
  define mid where "mid = length es div 2"
  show two: "2 \<le> length es" using assms(2) by (auto simp: branch_build_split_pages_def split: if_splits)
  then have mid: "0 < mid" "mid < length es" by (auto simp: mid_def)
  then have drop: "drop mid es = es ! mid # drop (Suc mid) es" by (simp add: Cons_nth_drop_Suc)
  have parts: "sep = be_key (es ! mid)" "branch_build_entries_at_buf X (take mid es) left = Inr l"
      "branch_build_entries_at_buf X (drop mid es) right = Inr r"
    using assms(2) two drop by (auto simp: branch_build_split_pages_def Let_def mid_def [symmetric] result_simps)
  have tls: "tl (take mid es) = take (mid - 1) (tl es)" "tl (drop mid es) = drop mid (tl es)"
    using mid by (simp_all add: tl_take tl_drop)
  have sorted: "sorted_wrt (<) (map be_key (tl (take mid es)))" "sorted_wrt (<) (map be_key (tl (drop mid es)))"
    using assms(1) by (simp_all add: tls take_map [symmetric] drop_map [symmetric] sorted_wrt_take sorted_wrt_drop)
  have fits: "24 + entry_space (strip_first ds) \<le> length page"
    if "branch_build_entries_at_buf X ds page = Inr q" "24 \<le> length page" for ds page q
    using that bbuild_loop_fits [of 0 "strip_first ds" 24 "length page" page]
    by (auto simp: branch_build_entries_at_buf_def branch_header_size_def result_simps branch_build_loop_strip)
  have ne: "take mid es \<noteq> []" "drop mid es \<noteq> []" using mid by auto
  from branch_build_view [OF fits [OF parts(2) assms(3)] assms(4) ne(1) sorted(1)] parts(2)
  show "branch_wf X l" "branch_view X l = strip_first (take (length es div 2) es)" "branch_packed X l"
      "length l = length left" by (auto simp: mid_def)
  from branch_build_view [OF fits [OF parts(3) assms(5)] assms(6) ne(2) sorted(2)] parts(3)
  show "branch_wf X r" "branch_view X r = strip_first (drop (length es div 2) es)" "branch_packed X r"
      "length r = length right" by (auto simp: mid_def)
  show "sep = be_key (es ! (length es div 2))" using parts(1) by (simp add: mid_def)
qed

end

section \<open>Children of a node\<close>

definition kids_of :: "bytes \<Rightarrow> branch_entry list \<Rightarrow> (bytes \<times> u64 \<times> u128) list" where
  "kids_of lo es = (lo, child_ref (hd es)) # separators es"

lemma kids_kids_of: "kids X lo page = kids_of lo (branch_view X page)"
  by (simp add: kids_def kids_of_def)

lemma kids_of_strip [simp]: "es \<noteq> [] \<Longrightarrow> kids_of lo (strip_first es) = kids_of lo es"
  by (cases es) (simp_all add: kids_of_def separators_def child_ref_def)

lemma kids_of_split:
  assumes "0 < mid" "mid < length es"
  shows "kids_of lo (take mid es) @ kids_of (be_key (es ! mid)) (drop mid es) = kids_of lo es"
proof -
  obtain e ts where es: "es = e # ts" using assms by (cases es) auto
  obtain j where j: "mid = Suc j" using assms(1) by (cases mid) auto
  have d: "drop j ts = ts ! j # drop (Suc j) ts" using assms(2) es j by (simp add: Cons_nth_drop_Suc)
  have "map f (take j ts) @ f (ts ! j) # map f (drop (Suc j) ts) = map f ts" for f :: "branch_entry \<Rightarrow> bytes \<times> u64 \<times> u128"
    using arg_cong [OF append_take_drop_id [of j ts], of "map f"] by (simp add: d)
  then show ?thesis using d by (simp add: es j kids_of_def separators_def)
qed

lemma kids_of_update:
  assumes "kids_of lo es = xs @ (k, c, cs) # ys" "es \<noteq> []" "length xs = i"
  shows "kids_of lo (es[i := (es ! i)\<lparr>be_child_page_id := c', be_child_page_checksum := cs'\<rparr>]) = xs @ (k, c', cs') # ys"
proof -
  obtain e ts where es: "es = e # ts" using assms(2) by (cases es) auto
  show ?thesis
  proof (cases xs)
    case Nil
    with assms es show ?thesis by (auto simp: kids_of_def separators_def child_ref_def)
  next
    case (Cons x xs')
    define f where "f = (\<lambda>e. (be_key e, child_ref e))"
    have ts: "map f ts = xs' @ (k, c, cs) # ys" "x = (lo, child_ref e)" "i = Suc (length xs')"
      using assms es Cons by (auto simp: kids_of_def separators_def f_def)
    then have j: "length xs' < length ts" by (metis add_Suc_right length_append length_Cons length_map less_add_Suc1)
    have "f (ts ! length xs') = (k, c, cs)"
      using arg_cong [OF ts(1), of "\<lambda>l. l ! length xs'"] j by simp
    then have "f ((ts ! length xs')\<lparr>be_child_page_id := c', be_child_page_checksum := cs'\<rparr>) = (k, c', cs')"
      by (simp add: f_def child_ref_def)
    then have "map f (ts[length xs' := (ts ! length xs')\<lparr>be_child_page_id := c', be_child_page_checksum := cs'\<rparr>])
        = xs' @ (k, c', cs') # ys"
      by (simp add: map_update ts(1))
    then show ?thesis using Cons es ts by (simp add: kids_of_def separators_def f_def [symmetric])
  qed
qed

lemma kids_of_upsert:
  assumes "kids_of lo es = xs @ (k, r) # ys" "sorted_wrt (<) (map fst (xs @ (k, r) # ys))"
    and "k < sep" "below sep (nxt hi ys)" "hd fs = hd es" "separators fs = upsert sep n (separators es)"
  shows "kids_of lo fs = xs @ (k, r) # (sep, n) # ys"
proof -
  have low: "\<forall>x \<in> set (xs @ [(k, r)]). fst x < sep" using assms(2,3) by (auto simp: sorted_wrt_append)
  have high: "\<forall>y \<in> set ys. sep < fst y"
    using assms(2,4) by (cases ys) (auto simp: sorted_wrt_append split: prod.splits)
  have "lo < sep" using assms(1) low by (cases xs) (auto simp: kids_of_def)
  then have "kids_of lo fs = upsert sep n (kids_of lo es)" by (auto simp: kids_of_def assms(5,6))
  also have "\<dots> = upsert sep n ((xs @ [(k, r)]) @ ys)" by (simp add: assms(1))
  also have "\<dots> = (xs @ [(k, r)]) @ upsert sep n ys" by (rule upsert_append_high [OF low])
  also have "\<dots> = (xs @ [(k, r)]) @ (sep, n) # ys" by (simp add: upsert_low [OF high])
  finally show ?thesis by simp
qed

lemma upsert_append_low:
  fixes k :: "'k::linorder"
  shows "\<forall>x \<in> set qs. k < fst x \<Longrightarrow> upsert k v (ps @ qs) = upsert k v ps @ qs"
  by (induction ps) (auto simp: upsert_low)

section \<open>The interface of a write transaction\<close>

text \<open>\<open>pview\<close> is the map of the pages that are in place, \<open>out\<close> the checked-out pages, \<open>free\<close> the pages that may
  still be allocated, \<open>freed\<close> the pages that the commit will free, \<open>root_sum\<close> the checksum of the root, \<open>n\<close> the
  page size; \<open>calm m\<close> says that no system call fails and \<open>m\<close> more allocations are possible.\<close>

definition keeps_others :: "('s \<Rightarrow> page_id \<Rightarrow> bytes option) \<Rightarrow> page_id set \<Rightarrow> 's \<Rightarrow> 's \<Rightarrow> bool" where
  "keeps_others pview qs s t \<longleftrightarrow> (\<forall>q x. q \<notin> qs \<longrightarrow> pview s q = Some x \<longrightarrow> pview t q = Some x)"

locale cow_store =
  fixes ops :: "'s page_ops" and pview :: "'s \<Rightarrow> page_id \<Rightarrow> bytes option" and out free freed :: "'s \<Rightarrow> page_id set"
    and root_sum :: "'s \<Rightarrow> u128" and n :: nat and inv :: "'s \<Rightarrow> bool" and calm :: "nat \<Rightarrow> 's \<Rightarrow> bool"
  assumes view_size: "inv s \<Longrightarrow> pview s q = Some d \<Longrightarrow> length d = n"
    and size_bounds: "inv s \<Longrightarrow> 24 \<le> n \<and> n < 2 ^ 63"
    and free_freed: "inv s \<Longrightarrow> free s \<inter> freed s = {}"
    and calm_le: "calm m s \<Longrightarrow> k \<le> m \<Longrightarrow> calm k s"
    and cow_ok: "inv s \<Longrightarrow> pview s pid = Some d \<Longrightarrow> pid \<notin> free s \<Longrightarrow> pid \<notin> freed s \<Longrightarrow> po_cow ops pid s = (Inr p, t) \<Longrightarrow>
      inv t \<and> page_data p = d \<and> page_no p \<notin> out s \<and> out t = insert (page_no p) (out s) \<and> free t \<subseteq> free s
      \<and> page_no p \<notin> free t \<and> po_get_root ops t = po_get_root ops s
      \<and> (page_no p = pid \<and> freed t = freed s \<or> page_no p \<in> free s \<and> freed t = insert pid (freed s))
      \<and> keeps_others pview {page_no p} s t \<and> (\<forall>m. calm (Suc m) s \<longrightarrow> calm m t)"
    and cow_total: "inv s \<Longrightarrow> pview s pid = Some d \<Longrightarrow> pid \<notin> free s \<Longrightarrow> pid \<notin> freed s \<Longrightarrow> calm (Suc m) s \<Longrightarrow>
      \<exists>p t. po_cow ops pid s = (Inr p, t)"
    and allocate_ok: "inv s \<Longrightarrow> po_allocate ops s = (Inr p, t) \<Longrightarrow>
      inv t \<and> length (page_data p) = n \<and> page_no p \<notin> out s \<and> out t = insert (page_no p) (out s) \<and> free t \<subseteq> free s
      \<and> page_no p \<in> free s \<and> page_no p \<notin> free t \<and> freed t = freed s \<and> po_get_root ops t = po_get_root ops s
      \<and> keeps_others pview {page_no p} s t \<and> (\<forall>m. calm (Suc m) s \<longrightarrow> calm m t)"
    and allocate_total: "inv s \<Longrightarrow> calm (Suc m) s \<Longrightarrow> \<exists>p t. po_allocate ops s = (Inr p, t)"
    and return_ok: "inv s \<Longrightarrow> page_no p \<in> out s \<Longrightarrow> length (page_data p) = n \<Longrightarrow>
      \<exists>t. po_return ops p s = (Inr (), t) \<and> inv t \<and> out t = out s - {page_no p} \<and> free t = free s
        \<and> freed t = freed s \<and> pview t = (pview s)(page_no p \<mapsto> page_data p) \<and> po_get_root ops t = po_get_root ops s
        \<and> root_sum t = root_sum s \<and> (\<forall>m. calm m s \<longrightarrow> calm m t)"
    and set_root_ok: "inv s \<Longrightarrow> \<exists>t. po_set_root ops pid c s = (Inr (), t) \<and> inv t \<and> out t = out s \<and> free t = free s
        \<and> freed t = freed s \<and> pview t = pview s \<and> po_get_root ops t = pid \<and> root_sum t = c \<and> (\<forall>m. calm m s \<longrightarrow> calm m t)"

lemma keeps_othersD: "keeps_others pview qs s t \<Longrightarrow> q \<notin> qs \<Longrightarrow> pview s q = Some x \<Longrightarrow> pview t q = Some x"
  by (simp add: keeps_others_def)

lemma keeps_others_trans:
  "keeps_others pview qs s t \<Longrightarrow> keeps_others pview rs t u \<Longrightarrow> keeps_others pview (qs \<union> rs) s u"
  by (simp add: keeps_others_def)

lemma keeps_others_mono: "keeps_others pview qs s t \<Longrightarrow> qs \<subseteq> rs \<Longrightarrow> keeps_others pview rs s t"
  by (auto simp: keeps_others_def)

definition new_kids :: "bytes \<Rightarrow> insertion_result \<Rightarrow> (bytes \<times> u64 \<times> u128) list" where
  "new_kids lo res =
     (lo, ir_replacement_page_id res, ir_replacement_page_checksum res)
     # (case ir_split res of
          None \<Rightarrow> []
        | Some sp \<Rightarrow> [(ps_separator_key sp, ps_right_page_id sp, ps_right_page_checksum sp)])"

abbreviation pages_of :: "nat \<Rightarrow> kv_crates \<Rightarrow> (page_id \<Rightarrow> bytes option) \<Rightarrow> (bytes \<times> u64 \<times> u128) list \<Rightarrow> page_id list" where
  "pages_of h X V ks \<equiv> concat (map (\<lambda>(k, c, cs). tree_pages h X V c) ks)"

text \<open>A list of children that forms the children of one node, or of several neighbours, at a height.\<close>

definition forest :: "nat \<Rightarrow> kv_crates \<Rightarrow> (bytes \<times> bytes \<Rightarrow> bool) \<Rightarrow> (page_id \<Rightarrow> bytes option) \<Rightarrow> bytes option
    \<Rightarrow> (bytes \<times> u64 \<times> u128) list \<Rightarrow> bool" where
  "forest h X Q V hi ks \<longleftrightarrow> kids_ok (kid_ok h X Q V) hi ks \<and> sorted_wrt (<) (map fst ks)
     \<and> (\<forall>k \<in> fst ` set (tl ks). below k hi \<and> (\<exists>v. Q (k, v))) \<and> distinct (pages_of h X V ks)"

lemma kids_of_views:
  assumes "V pid = Some page"
  shows "tree_pairs (Suc h) X V pid = pairs_of h X V (kids X lo page)"
    "tree_pages (Suc h) X V pid = pid # pages_of h X V (kids X lo page)"
  using assms concat_refs [of "tree_pairs h X V" X page lo] concat_refs [of "tree_pages h X V" X page lo] by simp_all

lemma kids_views_cong:
  assumes "\<forall>q \<in> set (pages_of h X V ks). V' q = V q"
  shows "kids_ok (kid_ok h X Q V') hi ks = kids_ok (kid_ok h X Q V) hi ks"
    "pairs_of h X V' ks = pairs_of h X V ks" "pages_of h X V' ks = pages_of h X V ks"
proof -
  have eq: "subtree h X Q V' l u c = subtree h X Q V l u c" "tree_pairs h X V' c = tree_pairs h X V c"
      "tree_pages h X V' c = tree_pages h X V c" "V' c = V c" if "(k, c, cs) \<in> set ks" for k c cs l u
  proof -
    have same: "\<forall>q \<in> set (tree_pages h X V c). V' q = V q" using assms that by force
    show "subtree h X Q V' l u c = subtree h X Q V l u c" "tree_pairs h X V' c = tree_pairs h X V c"
      "tree_pages h X V' c = tree_pages h X V c" by (rule tree_cong [OF same])+
    show "V' c = V c" using same by simp
  qed
  show "kids_ok (kid_ok h X Q V') hi ks = kids_ok (kid_ok h X Q V) hi ks"
    by (rule kids_ok_cong) (use eq in \<open>auto simp: checksummed_def\<close>)
  show "pairs_of h X V' ks = pairs_of h X V ks" "pages_of h X V' ks = pages_of h X V ks"
    by (rule arg_cong [where f = concat], rule map_cong [OF refl], use eq in auto)+
qed

lemma forest_cong:
  assumes "\<forall>q \<in> set (pages_of h X V ks). V' q = V q"
  shows "forest h X Q V' hi ks = forest h X Q V hi ks"
  using kids_views_cong [OF assms] by (simp add: forest_def)

lemma forest_append:
  assumes "forest h X Q V hi (A @ B)" "A \<noteq> []" "B \<noteq> []"
  shows "forest h X Q V (nxt hi B) A" "forest h X Q V hi B" "fst (hd A) < fst (hd B)" "below (fst (hd B)) hi"
    "\<exists>v. Q (fst (hd B), v)"
proof -
  obtain a as b bs where ab: "A = a # as" "B = b # bs" using assms(2,3) by (meson neq_Nil_conv)
  note f = assms(1) [unfolded forest_def]
  have keys: "\<forall>x \<in> set A. \<forall>y \<in> set B. fst x < fst y" "sorted_wrt (<) (map fst A)" "sorted_wrt (<) (map fst B)"
    using f by (auto simp: sorted_wrt_append)
  have tails: "\<forall>x \<in> set as. below (fst x) hi \<and> (\<exists>v. Q (fst x, v))" "\<forall>x \<in> set B. below (fst x) hi \<and> (\<exists>v. Q (fst x, v))"
    using f ab by auto
  have nb: "nxt hi B = Some (fst b)" using ab by (cases b) simp
  have "\<forall>x \<in> set as. below (fst x) (nxt hi B)" unfolding nb using keys(1) ab by simp
  then have "\<forall>k \<in> fst ` set (tl A). below k (nxt hi B) \<and> (\<exists>v. Q (k, v))" "\<forall>k \<in> fst ` set (tl B). below k hi \<and> (\<exists>v. Q (k, v))"
    using tails ab by auto
  moreover have "kids_ok (kid_ok h X Q V) (nxt hi B) A" "kids_ok (kid_ok h X Q V) hi B"
      "distinct (pages_of h X V A)" "distinct (pages_of h X V B)"
    using f by simp_all
  ultimately show "forest h X Q V (nxt hi B) A" "forest h X Q V hi B"
    unfolding forest_def using keys(2,3) by blast+
  show "fst (hd A) < fst (hd B)" using keys(1) ab by simp
  show "below (fst (hd B)) hi" "\<exists>v. Q (fst (hd B), v)" using tails(2) ab by auto
qed

text \<open>A branch page whose children form a forest is the root of a tree, and two such pages side by side
  form a forest again.\<close>

lemma subtree_branch:
  assumes "V pid = Some page" "branch_wf X page" "branch_packed X page" "kids X lo page = ks" "forest h X Q V hi ks"
  shows "subtree (Suc h) X Q V lo hi pid"
proof -
  have "tl ks = separators (branch_view X page)" using assms(4) by (auto simp: kids_def)
  with assms show ?thesis by (simp add: forest_def)
qed

lemma forest_pages:
  assumes "forest h X Q V hi (xs @ (k, c, cs) # ys)"
  shows "distinct (pages_of h X V xs)" "distinct (tree_pages h X V c)" "distinct (pages_of h X V ys)"
    "set (pages_of h X V xs) \<inter> set (pages_of h X V ys) = {}"
    "set (tree_pages h X V c) \<inter> (set (pages_of h X V xs) \<union> set (pages_of h X V ys)) = {}"
proof -
  have "distinct (pages_of h X V xs @ tree_pages h X V c @ pages_of h X V ys)" using assms by (simp add: forest_def)
  then show "distinct (pages_of h X V xs)" "distinct (tree_pages h X V c)" "distinct (pages_of h X V ys)"
    "set (pages_of h X V xs) \<inter> set (pages_of h X V ys) = {}"
    "set (tree_pages h X V c) \<inter> (set (pages_of h X V xs) \<union> set (pages_of h X V ys)) = {}"
    unfolding distinct_append set_append by blast+
qed

text \<open>One child of a forest is replaced by the one or two children that an insertion below it returned.\<close>

lemma forest_replace:
  assumes F: "forest h X Q V hi (xs @ (k, c, cs) # ys)" and G: "forest h X Q V' (nxt hi ys) (new_kids k res)"
    and same: "\<forall>q \<in> set (pages_of h X V xs) \<union> set (pages_of h X V ys). V' q = V q"
    and dis: "set (pages_of h X V' (new_kids k res)) \<inter> (set (pages_of h X V xs) \<union> set (pages_of h X V ys)) = {}"
  shows "forest h X Q V' hi (xs @ new_kids k res @ ys)"
    "pages_of h X V' (xs @ new_kids k res @ ys) = pages_of h X V xs @ pages_of h X V' (new_kids k res) @ pages_of h X V ys"
    "pairs_of h X V' (xs @ new_kids k res @ ys) = pairs_of h X V xs @ pairs_of h X V' (new_kids k res) @ pairs_of h X V ys"
proof -
  have sx: "\<forall>q \<in> set (pages_of h X V xs). V' q = V q" and sy: "\<forall>q \<in> set (pages_of h X V ys). V' q = V q"
    using same by blast+
  note cx = kids_views_cong [OF sx] and cy = kids_views_cong [OF sy]
  show pages: "pages_of h X V' (xs @ new_kids k res @ ys) = pages_of h X V xs @ pages_of h X V' (new_kids k res) @ pages_of h X V ys"
    using cx(3) cy(3) by simp
  show "pairs_of h X V' (xs @ new_kids k res @ ys) = pairs_of h X V xs @ pairs_of h X V' (new_kids k res) @ pairs_of h X V ys"
    using cx(2) cy(2) by simp
  note f = F [unfolded forest_def] and g = G [unfolded forest_def]
  have nk: "fst (hd (new_kids k res)) = k" "new_kids k res \<noteq> []" "\<exists>r rest. new_kids k res = (k, r) # rest"
    by (simp_all add: new_kids_def)
  have "kids_ok (kid_ok h X Q V') hi (xs @ new_kids k res @ ys)"
    using f g cx(1) cy(1) nk(3) by auto
  moreover have "distinct (pages_of h X V' (xs @ new_kids k res @ ys))"
  proof -
    have "distinct (pages_of h X V xs)" "distinct (pages_of h X V ys)"
        "set (pages_of h X V xs) \<inter> set (pages_of h X V ys) = {}"
      by (rule forest_pages [OF F])+
    moreover have "distinct (pages_of h X V' (new_kids k res))" using g by blast
    ultimately show ?thesis unfolding pages distinct_append set_append using dis by blast
  qed
  moreover have keys: "\<forall>x \<in> set (tl (new_kids k res)). k < fst x \<and> below (fst x) (nxt hi ys) \<and> (\<exists>v. Q (fst x, v))"
    using g nk(3) by force
  have sorted: "sorted_wrt (<) (map fst xs)" "sorted_wrt (<) (map fst ys)" "\<forall>x \<in> set xs. fst x < k" "\<forall>y \<in> set ys. k < fst y"
      "\<forall>x \<in> set xs. \<forall>y \<in> set ys. fst x < fst y"
    using f by (auto simp: sorted_wrt_append)
  have ys: "below j hi \<and> (\<forall>y \<in> set ys. j < fst y)" if "below j (nxt hi ys)" for j
  proof (cases ys)
    case (Cons y zs)
    have "j < fst y" using that Cons by (cases y) simp
    moreover have "below (fst y) hi" using f Cons by (auto simp: tl_append split: list.splits)
    ultimately show ?thesis using sorted(2) Cons below_trans [of j "fst y" hi] by auto
  qed (use that in simp)
  have mem: "fst x < fst y" if "x \<in> set xs" "y \<in> set (new_kids k res)" for x y
  proof -
    have "k \<le> fst y" using that(2) keys nk(3) by (auto simp: less_imp_le)
    then show ?thesis using sorted(3) that(1) by (auto intro: less_le_trans)
  qed
  have mem2: "fst x < fst y" if "x \<in> set (new_kids k res)" "y \<in> set ys" for x y
    using that sorted(4) keys ys nk(3) by auto
  have "sorted_wrt (<) (map fst (xs @ new_kids k res @ ys))"
    using sorted(1,2,5) g mem mem2 by (auto simp: sorted_wrt_append)
  moreover have "\<forall>j \<in> fst ` set (tl (xs @ new_kids k res @ ys)). below j hi \<and> (\<exists>v. Q (j, v))"
  proof -
    have old: "\<forall>x \<in> set (tl (xs @ (k, c, cs) # ys)). below (fst x) hi \<and> (\<exists>v. Q (fst x, v))" using f by auto
    have new: "\<forall>x \<in> set (tl (new_kids k res)). below (fst x) hi \<and> (\<exists>v. Q (fst x, v))" using keys ys by blast
    obtain r rest where nkr: "new_kids k res = (k, r) # rest" using nk(3) by blast
    show ?thesis
    proof (cases xs)
      case Nil
      with old new nkr show ?thesis by auto
    next
      case (Cons x xs')
      with old new nkr show ?thesis by auto
    qed
  qed
  ultimately show "forest h X Q V' hi (xs @ new_kids k res @ ys)" unfolding forest_def by blast
qed

text \<open>A tree that holds all keys, with the checksum of its root.\<close>

definition rooted :: "nat \<Rightarrow> kv_crates \<Rightarrow> (bytes \<times> bytes \<Rightarrow> bool) \<Rightarrow> (page_id \<Rightarrow> bytes option) \<Rightarrow> page_id \<Rightarrow> u128 \<Rightarrow> bool" where
  "rooted h X Q V root c \<longleftrightarrow> subtree h X Q V [] None root \<and> checksummed X V root c \<and> distinct (tree_pages h X V root)"

lemma rooted_forest: "rooted h X Q V root c \<longleftrightarrow> forest h X Q V None [([], root, c)]"
  by (simp add: rooted_def forest_def)

section \<open>One node\<close>

lemma with_page_Inr:
  "with_page acquire giveback body s = (Inr r, t) \<longleftrightarrow>
     (\<exists>p s1 p' s2. acquire s = (Inr p, s1) \<and> body p s1 = (Inr r, p', s2) \<and> giveback p' s2 = (Inr (), t))"
proof -
  obtain a s1 where a: "acquire s = (a, s1)" by fastforce
  show ?thesis
  proof (cases a)
    case (Inr p)
    obtain b p' s2 where b: "body p s1 = (b, p', s2)" by (cases "body p s1") auto
    obtain g u where g: "giveback p' s2 = (g, u)" by fastforce
    have "with_page acquire giveback body s = (case g of Inl e \<Rightarrow> (Inl e, u) | Inr _ \<Rightarrow> (b, u))"
      using a Inr b g by (cases g) (simp_all add: with_page_def)
    with a Inr b g show ?thesis by (cases g) auto
  qed (use a in \<open>simp add: with_page_def\<close>)
qed

lemma split_node_Inr:
  fixes ops :: "'s page_ops"
  assumes "split_node X ops build page s = (Inr res, page', t)"
  obtains right s1 sep l r where "po_allocate ops s = (Inr right, s1)"
    "build (replicate (length (page_data page)) 0) (page_data right) = Inr (sep, l, r)"
    "length l = length (page_data page)" "page' = page\<lparr>page_data := l\<rparr>"
    "po_return ops (right\<lparr>page_data := r\<rparr>) s1 = (Inr (), t)"
    "res = \<lparr>ir_replacement_page_id = page_no page, ir_replacement_page_checksum = checksum_page X l,
       ir_split = Some \<lparr>ps_separator_key = sep, ps_right_page_id = page_no right,
         ps_right_page_checksum = checksum_page X r\<rparr>\<rparr>"
proof -
  define body where "body = (\<lambda>(right_page :: page) (s :: 's).
      case and_then (build (replicate (length (page_data page)) 0) (page_data right_page))
             (\<lambda>(separator_key, left_scratch, right_data). and_then (copy_page_from left_scratch page) (\<lambda>page.
                Inr (separator_key, page, right_page\<lparr>page_data := right_data\<rparr>))) of
        Inl e \<Rightarrow> (Inl e, right_page, s)
      | Inr (separator_key, page, right_page) \<Rightarrow>
          (Inr (\<lparr>ir_replacement_page_id = page_no page, ir_replacement_page_checksum = checksum_page X (page_data page),
             ir_split = Some \<lparr>ps_separator_key = separator_key, ps_right_page_id = page_no right_page,
               ps_right_page_checksum = checksum_page X (page_data right_page)\<rparr>\<rparr>, page), right_page, s))"
  have "with_page (po_allocate ops) (po_return ops) body s = (Inr (res, page'), t)"
    using assms by (auto simp: split_node_def body_def split: prod.splits sum.splits)
  then obtain right s1 right' s2 where w: "po_allocate ops s = (Inr right, s1)" "body right s1 = (Inr (res, page'), right', s2)"
      "po_return ops right' s2 = (Inr (), t)"
    by (auto simp: with_page_Inr)
  from w(2) obtain sep l r where "build (replicate (length (page_data page)) 0) (page_data right) = Inr (sep, l, r)"
      "copy_page_from l page = Inr page'" "right' = right\<lparr>page_data := r\<rparr>" "s2 = s1"
      "res = \<lparr>ir_replacement_page_id = page_no page', ir_replacement_page_checksum = checksum_page X (page_data page'),
       ir_split = Some \<lparr>ps_separator_key = sep, ps_right_page_id = page_no right,
         ps_right_page_checksum = checksum_page X r\<rparr>\<rparr>"
    by (auto simp: body_def and_then_def split: sum.splits)
  with w(1,3) obtain right s1 sep l r where parts: "po_allocate ops s = (Inr right, s1)"
      "build (replicate (length (page_data page)) 0) (page_data right) = Inr (sep, l, r)"
      "copy_page_from l page = Inr page'" "po_return ops (right\<lparr>page_data := r\<rparr>) s1 = (Inr (), t)"
      "res = \<lparr>ir_replacement_page_id = page_no page', ir_replacement_page_checksum = checksum_page X (page_data page'),
       ir_split = Some \<lparr>ps_separator_key = sep, ps_right_page_id = page_no right,
         ps_right_page_checksum = checksum_page X r\<rparr>\<rparr>"
    by blast
  then show thesis
    by (intro that [OF parts(1,2)]) (auto simp: copy_page_from_def split: if_splits)
qed

locale tree_writer = zerocopy_le X + cow_store ops pview out free freed root_sum n inv calm
  for X and ops :: "'s page_ops" and pview out free freed root_sum n inv calm +
  fixes Q :: "bytes \<times> bytes \<Rightarrow> bool"
begin

text \<open>The work on the checked-out page \<open>w\<close> of a node and the return of the page: \<open>P\<close> are the pages of its
  children before, \<open>ps\<close> the pairs after.\<close>

definition node_done :: "'s \<Rightarrow> 's \<Rightarrow> page_id \<Rightarrow> page_id set \<Rightarrow> nat \<Rightarrow> bytes \<Rightarrow> bytes option \<Rightarrow> insertion_result
    \<Rightarrow> (bytes \<times> bytes) list \<Rightarrow> bool" where
  "node_done s t w P h lo hi res ps \<longleftrightarrow>
     inv t \<and> out t = out s - {w} \<and> free t \<subseteq> free s \<and> po_get_root ops t = po_get_root ops s
     \<and> freed t \<subseteq> freed s \<union> P \<and> keeps_others pview ({w} \<union> P \<union> free s) s t
     \<and> forest h X Q (pview t) hi (new_kids lo res) \<and> pairs_of h X (pview t) (new_kids lo res) = ps
     \<and> set (pages_of h X (pview t) (new_kids lo res)) \<subseteq> {w} \<union> P \<union> (free s - free t)
     \<and> set (pages_of h X (pview t) (new_kids lo res)) \<inter> freed t = {}"

lemma insert_leaf_done:
  assumes "inv s" "page_no p \<in> out s" "page_no p \<notin> free s" "page_no p \<notin> freed s" "length (page_data p) = n"
    and "leaf_wf X (page_data p)" "\<forall>kv \<in> set (leaf_pairs X (page_data p)). within lo hi (fst kv) \<and> Q kv"
    and "within lo hi key" "Q (key, val)" "insert_leaf X ops key val p s = (Inr res, p', s2)"
    and "po_return ops p' s2 = (r, t)"
  shows "r = Inr () \<and> node_done s t (page_no p) {} 0 lo hi res (upsert key val (leaf_pairs X (page_data p)))"
proof -
  define ps es where "ps = leaf_pairs X (page_data p)" and "es = upsert key val ps"
  have sorted: "sorted_wrt (<) (map fst ps)" using assms(6) by (simp add: leaf_wf_def Let_def ps_def)
  have es: "sorted_wrt (<) (map fst es)" "\<forall>kv \<in> set es. within lo hi (fst kv) \<and> Q kv"
    using sorted_upsert [OF sorted] set_upsert_subset [of key val ps] assms(7-9) by (auto simp: es_def ps_def)
  obtain fits where fits: "leaf_fits X (page_data p) key val = Inr fits"
    using leaf_fits_free [OF assms(6)] by blast
  show ?thesis
  proof (cases fits)
    case True
    with fits have f: "leaf_fits X (page_data p) key val = Inr True" by simp
    obtain q where q: "leaf_insert X key val (page_data p) = Inr q" "length q = n" "leaf_wf X q" "leaf_pairs X q = es"
      using leaf_insert_pairs [OF assms(6) f] assms(5) by (auto simp: es_def ps_def)
    have eq: "p' = p\<lparr>page_data := q\<rparr>" "s2 = s" "new_kids lo res = [(lo, page_no p, checksum_page X q)]"
      using assms(10) f q(1) by (auto simp: insert_leaf_def in_place_def new_kids_def)
    obtain t' where t': "po_return ops p' s = (Inr (), t')" "inv t'" "out t' = out s - {page_no p}" "free t' = free s"
        "freed t' = freed s" "pview t' = (pview s)(page_no p \<mapsto> q)" "po_get_root ops t' = po_get_root ops s"
      using return_ok [of s p'] assms(1,2) q(2) eq(1) by auto
    have "t = t'" "r = Inr ()" using assms(11) t'(1) eq(2) by auto
    with t' eq(3) q es assms(3,4) show ?thesis
      unfolding es_def [symmetric] ps_def [symmetric]
      by (auto simp: node_done_def keeps_others_def forest_def checksummed_def)
  next
    case False
    with fits have f: "leaf_fits X (page_data p) key val = Inr False" by simp
    have "split_node X ops (\<lambda>left_scratch right_page.
            and_then (leaf_builder_from_page X (page_data p)) (\<lambda>leaf_builder.
            and_then (leaf_builder_insert key val leaf_builder) (\<lambda>leaf_builder.
            leaf_build_split_pages X leaf_builder left_scratch right_page))) p s = (Inr res, p', s2)"
      using assms(10) f by (simp add: insert_leaf_def)
    then obtain right s1 sep l rd where sp: "po_allocate ops s = (Inr right, s1)"
        "leaf_build_split_pages X es (replicate (length (page_data p)) 0) (page_data right) = Inr (sep, l, rd)"
        "length l = length (page_data p)" "p' = p\<lparr>page_data := l\<rparr>"
        "po_return ops (right\<lparr>page_data := rd\<rparr>) s1 = (Inr (), s2)"
        "new_kids lo res = [(lo, page_no p, checksum_page X l), (sep, page_no right, checksum_page X rd)]"
      using leaf_builder_reads [OF assms(6)] leaf_builder_insert_upsert [OF sorted]
      by (elim split_node_Inr) (auto simp: ps_def es_def new_kids_def)
    note al = allocate_ok [OF assms(1) sp(1)]
    have bounds: "24 \<le> length (replicate (length (page_data p)) 0 :: bytes)" "length (replicate (length (page_data p)) 0 :: bytes) < 2 ^ 63"
        "24 \<le> length (page_data right)" "length (page_data right) < 2 ^ 63"
      using size_bounds [OF assms(1)] assms(5) al by auto
    note lr = leaf_split_result [OF es(1) sp(2) bounds]
    obtain u where u: "po_return ops (right\<lparr>page_data := rd\<rparr>) s1 = (Inr (), u)" "inv u" "out u = out s1 - {page_no right}"
        "free u = free s1" "freed u = freed s1" "pview u = (pview s1)(page_no right \<mapsto> rd)"
        "po_get_root ops u = po_get_root ops s1"
      using return_ok [of s1 "right\<lparr>page_data := rd\<rparr>"] al lr(8) by auto
    have u2: "u = s2" using u(1) sp(5) by simp
    have ne: "page_no right \<noteq> page_no p" using al assms(3) by auto
    have "page_no p \<in> out s2" using u u2 al ne assms(2) by auto
    then obtain t' where t': "po_return ops p' s2 = (Inr (), t')" "inv t'" "out t' = out s2 - {page_no p}" "free t' = free s2"
        "freed t' = freed s2" "pview t' = (pview s2)(page_no p \<mapsto> l)" "po_get_root ops t' = po_get_root ops s2"
      using return_ok [of s2 p'] u(2) u2 sp(3,4) assms(5) by auto
    have tt: "t = t'" "r = Inr ()" using assms(11) t'(1) by auto
    define mid where "mid = length es div 2"
    have mid: "0 < mid" "mid < length es" using lr(1) by (auto simp: mid_def)
    have keys: "fst x < sep" if "x \<in> set (take mid es)" for x
      using es(1) that mid lr(2) by (fastforce simp: in_set_conv_nth sorted_wrt_iff_nth_less mid_def [symmetric])
    have "es ! mid \<in> set es" "es ! 0 \<in> set (take mid es)" using mid by (auto simp: in_set_conv_nth intro: exI [of _ 0])
    then have sep: "lo < sep" "below sep hi" "\<exists>v. Q (sep, v)"
      using keys [of "es ! 0"] es(2) mid lr(2) by (auto simp: within_def mid_def [symmetric] intro: exI [of _ "snd (es ! mid)"] dest!: in_set_takeD)
    have right: "sep \<le> fst x" if "x \<in> set (drop mid es)" for x
    proof -
      have "drop mid es = es ! mid # drop (Suc mid) es" using mid by (simp add: Cons_nth_drop_Suc)
      moreover have "sorted_wrt (<) (map fst (drop mid es))" using es(1) by (simp add: drop_map [symmetric] sorted_wrt_drop)
      ultimately show ?thesis using that lr(2) by (auto simp: mid_def [symmetric] less_imp_le)
    qed
    have V: "pview t (page_no p) = Some l" "pview t (page_no right) = Some rd"
      using t' tt u u2 ne by auto
    have "forest 0 X Q (pview t) hi (new_kids lo res)"
      using V lr sep ne keys right es(2)
      by (auto simp: sp(6) forest_def checksummed_def within_def mid_def [symmetric] dest: in_set_takeD in_set_dropD)
    moreover have "pairs_of 0 X (pview t) (new_kids lo res) = es"
      using V lr(5,6) by (simp add: sp(6) mid_def)
    moreover have "keeps_others pview ({page_no p} \<union> free s) s t"
      using al t' tt u u2 by (auto simp: keeps_others_def)
    ultimately show ?thesis
      using al t' tt u u2 ne sp(6) assms(3,4) free_freed [OF assms(1)]
      unfolding es_def [symmetric] ps_def [symmetric] by (auto simp: node_done_def)
  qed
qed

text \<open>A branch whose children are in place is finished: the page is written in place or split in two.\<close>

lemma branch_in_place_done:
  assumes "inv s" "w \<in> out s" "w \<notin> free s" "w \<notin> freed s" "page_no p = w" "page_data p = d" "length d = n"
    and "branch_wf X d" "branch_packed X d" "kids X lo d = ks" "forest h X Q (pview s) hi ks"
    and "w \<notin> set (pages_of h X (pview s) ks)" "set (pages_of h X (pview s) ks) \<inter> freed s = {}"
    and "new_kids lo res = [(lo, w, checksum_page X d)]" "po_return ops p s = (r, t)"
  shows "r = Inr () \<and> node_done s t w (set (pages_of h X (pview s) ks)) (Suc h) lo hi res (pairs_of h X (pview s) ks)
    \<and> freed t = freed s"
proof -
  obtain t' where t': "po_return ops p s = (Inr (), t')" "inv t'" "out t' = out s - {w}" "free t' = free s"
      "freed t' = freed s" "pview t' = (pview s)(w \<mapsto> d)" "po_get_root ops t' = po_get_root ops s"
    using return_ok [of s p] assms(1,2,5-7) by auto
  have tt: "t = t'" "r = Inr ()" using assms(15) t'(1) by auto
  have same: "\<forall>q \<in> set (pages_of h X (pview s) ks). pview t q = pview s q" using assms(12) t'(6) tt by auto
  note c = kids_views_cong [OF same] forest_cong [OF same, of Q hi]
  have V: "pview t w = Some d" using t'(6) tt by simp
  note v = kids_of_views [of "pview t" w d h X lo, OF V, unfolded assms(10) c(2,3)]
  have sub: "subtree (Suc h) X Q (pview t) lo hi w"
    by (rule subtree_branch [where V = "pview t", OF V assms(8-10)]) (use c(4) assms(11) in simp)
  have dist: "distinct (pages_of h X (pview s) ks)" using assms(11) by (simp add: forest_def)
  have pages: "pages_of (Suc h) X (pview t) (new_kids lo res) = w # pages_of h X (pview s) ks"
      "pairs_of (Suc h) X (pview t) (new_kids lo res) = pairs_of h X (pview s) ks"
    unfolding assms(14) by (simp_all add: v del: tree_pages.simps tree_pairs.simps)
  have "forest (Suc h) X Q (pview t) hi (new_kids lo res)"
    unfolding forest_def pages using sub V dist assms(12) by (simp add: assms(14) checksummed_def del: subtree.simps)
  moreover have "keeps_others pview ({w} \<union> set (pages_of h X (pview s) ks) \<union> free s) s t"
    using t'(6) tt by (auto simp: keeps_others_def)
  ultimately show ?thesis
    using t' tt assms(4,13) unfolding node_done_def pages by auto
qed

lemma branch_split_done:
  assumes "inv s" "w \<in> out s" "w \<notin> free s" "w \<notin> freed s" "page_no p = w" "length (page_data p) = n"
    and "kids_of lo es = ks" "es \<noteq> []" "sorted_wrt (<) (map be_key (tl es))" "forest h X Q (pview s) hi ks"
    and "w \<notin> set (pages_of h X (pview s) ks)" "set (pages_of h X (pview s) ks) \<inter> freed s = {}"
    and "set (pages_of h X (pview s) ks) \<inter> free s = {}"
    and "split_node X ops (branch_build_split_pages X es) p s = (Inr res, p', s2)" "po_return ops p' s2 = (r, t)"
  shows "r = Inr () \<and> node_done s t w (set (pages_of h X (pview s) ks)) (Suc h) lo hi res (pairs_of h X (pview s) ks)
    \<and> freed t = freed s"
proof -
  obtain right s1 sep l rd where sp: "po_allocate ops s = (Inr right, s1)"
      "branch_build_split_pages X es (replicate (length (page_data p)) 0) (page_data right) = Inr (sep, l, rd)"
      "length l = length (page_data p)" "p' = p\<lparr>page_data := l\<rparr>"
      "po_return ops (right\<lparr>page_data := rd\<rparr>) s1 = (Inr (), s2)"
      "new_kids lo res = [(lo, w, checksum_page X l), (sep, page_no right, checksum_page X rd)]"
    using assms(14) by (elim split_node_Inr) (auto simp: new_kids_def assms(5))
  note al = allocate_ok [OF assms(1) sp(1)]
  have bounds: "24 \<le> length (replicate (length (page_data p)) 0 :: bytes)" "length (replicate (length (page_data p)) 0 :: bytes) < 2 ^ 63"
      "24 \<le> length (page_data right)" "length (page_data right) < 2 ^ 63"
    using size_bounds [OF assms(1)] assms(6) al by auto
  note lr = branch_split_result [OF assms(9) sp(2) bounds]
  define mid where "mid = length es div 2"
  have mid: "0 < mid" "mid < length es" using lr(1) by (auto simp: mid_def)
  define A B where "A = kids X lo l" and "B = kids X sep rd"
  have "take mid es \<noteq> []" "drop mid es \<noteq> []" using mid by auto
  then have "A = kids_of lo (take mid es)" "B = kids_of sep (drop mid es)"
    using lr(5,6) by (simp_all add: A_def B_def kids_kids_of mid_def [symmetric])
  then have AB: "A @ B = ks" "B \<noteq> []" "fst (hd B) = sep" "A \<noteq> []" "fst (hd A) = lo"
    using kids_of_split [OF mid, of lo] assms(7) lr(2) by (simp_all add: mid_def [symmetric] kids_of_def)
  have nB: "nxt hi B = Some sep" using AB(2,3) by (cases B) auto
  obtain u where u: "po_return ops (right\<lparr>page_data := rd\<rparr>) s1 = (Inr (), u)" "inv u" "out u = out s1 - {page_no right}"
      "free u = free s1" "freed u = freed s1" "pview u = (pview s1)(page_no right \<mapsto> rd)"
      "po_get_root ops u = po_get_root ops s1"
    using return_ok [of s1 "right\<lparr>page_data := rd\<rparr>"] al lr(10) by auto
  have u2: "u = s2" using u(1) sp(5) by simp
  have ne: "page_no right \<noteq> w" using al assms(3) by auto
  have "page_no p \<in> out s2" using u u2 al ne assms(2,5) by auto
  then obtain t' where t': "po_return ops p' s2 = (Inr (), t')" "inv t'" "out t' = out s2 - {w}" "free t' = free s2"
      "freed t' = freed s2" "pview t' = (pview s2)(w \<mapsto> l)" "po_get_root ops t' = po_get_root ops s2"
    using return_ok [of s2 p'] u(2) u2 sp(3,4) assms(5,6) by auto
  have tt: "t = t'" "r = Inr ()" using assms(15) t'(1) by auto
  have V: "pview t w = Some l" "pview t (page_no right) = Some rd" using t' tt u u2 ne by auto
  have dom: "pview s q \<noteq> None" if "q \<in> set (pages_of h X (pview s) ks)" for q
  proof -
    from that obtain k c cs where c: "(k, c, cs) \<in> set ks" "q \<in> set (tree_pages h X (pview s) c)" by auto
    moreover have "kids_ok (kid_ok h X Q (pview s)) hi ks" using assms(10) by (simp add: forest_def)
    ultimately obtain v where "subtree h X Q (pview s) k v c" using kids_ok_member by fastforce
    with c(2) show ?thesis using subtree_dom by blast
  qed
  have same: "\<forall>q \<in> set (pages_of h X (pview s) ks). pview t q = pview s q"
  proof
    fix q assume q: "q \<in> set (pages_of h X (pview s) ks)"
    then obtain x where x: "pview s q = Some x" using dom by blast
    have "page_no right \<in> free s" using al by blast
    then have "q \<noteq> w" "q \<noteq> page_no right" using q assms(11,13) by blast+
    then have "pview t q = pview s1 q" using t' tt u u2 by auto
    moreover have "pview s1 q = Some x" using al x \<open>q \<noteq> page_no right\<close> by (auto simp: keeps_others_def)
    ultimately show "pview t q = pview s q" using x by simp
  qed
  note c = kids_views_cong [OF same] forest_cong [OF same, of Q hi]
  have F: "forest h X Q (pview t) hi (A @ B)" using c(4) assms(10) AB(1) by simp
  note parts = forest_append [OF F AB(4,2)]
  have FA: "forest h X Q (pview t) (Some sep) A" and FB: "forest h X Q (pview t) hi B"
    and sep: "lo < sep" "below sep hi" "\<exists>v. Q (sep, v)"
    using parts nB AB(3,5) by simp_all
  have subs: "subtree (Suc h) X Q (pview t) lo (Some sep) w" "subtree (Suc h) X Q (pview t) sep hi (page_no right)"
    using subtree_branch [where V = "pview t", OF V(1) lr(3,7) A_def [symmetric] FA]
      subtree_branch [where V = "pview t", OF V(2) lr(4,8) B_def [symmetric] FB] by auto
  note vA = kids_of_views [of "pview t" w l h X lo, OF V(1), folded A_def]
    and vB = kids_of_views [of "pview t" "page_no right" rd h X sep, OF V(2), folded B_def]
  have "pairs_of (Suc h) X (pview t) (new_kids lo res) = pairs_of h X (pview t) (A @ B)"
    unfolding sp(6) by (simp add: vA(1) vB(1) del: tree_pairs.simps)
  then have pairs: "pairs_of (Suc h) X (pview t) (new_kids lo res) = pairs_of h X (pview s) ks"
    by (simp only: AB(1) c(2))
  have "set (pages_of (Suc h) X (pview t) (new_kids lo res)) = {w, page_no right} \<union> set (pages_of h X (pview t) (A @ B))"
    unfolding sp(6) by (auto simp: vA(2) vB(2) simp del: tree_pages.simps)
  then have pages: "set (pages_of (Suc h) X (pview t) (new_kids lo res)) = {w, page_no right} \<union> set (pages_of h X (pview s) ks)"
    by (simp only: AB(1) c(3))
  have "distinct (pages_of h X (pview t) A @ pages_of h X (pview t) B)" using F by (simp add: forest_def)
  moreover have "page_no right \<in> free s" using al by blast
  then have "w \<notin> set (pages_of h X (pview t) (A @ B))" "page_no right \<notin> set (pages_of h X (pview t) (A @ B))"
    using assms(11,13) unfolding AB(1) c(3) by blast+
  ultimately have "distinct (pages_of (Suc h) X (pview t) (new_kids lo res))"
    using ne unfolding sp(6) by (auto simp: vA(2) vB(2) simp del: tree_pages.simps)
  then have "forest (Suc h) X Q (pview t) hi (new_kids lo res)"
    unfolding forest_def using subs V sep by (simp add: sp(6) checksummed_def del: subtree.simps tree_pages.simps)
  moreover have "keeps_others pview ({w} \<union> set (pages_of h X (pview s) ks) \<union> free s) s t"
    using al t' tt u u2 by (auto simp: keeps_others_def)
  moreover have "freed t = freed s" "page_no right \<in> free s" using al t'(5) tt(1) u(5) u2 by auto
  then have "({w, page_no right} \<union> set (pages_of h X (pview s) ks)) \<inter> freed t = {}"
    using assms(4,12) free_freed [OF assms(1)] by blast
  ultimately show ?thesis
    using al t' tt u u2 ne unfolding node_done_def pages pairs by auto
qed

definition inserted :: "'s \<Rightarrow> 's \<Rightarrow> nat \<Rightarrow> bytes \<Rightarrow> bytes option \<Rightarrow> page_id \<Rightarrow> bytes \<Rightarrow> bytes \<Rightarrow> insertion_result \<Rightarrow> bool" where
  "inserted s t h lo hi pid key val res \<longleftrightarrow>
     inv t \<and> out t = out s \<and> free t \<subseteq> free s \<and> po_get_root ops t = po_get_root ops s
     \<and> freed t \<subseteq> freed s \<union> set (tree_pages h X (pview s) pid)
     \<and> keeps_others pview (set (tree_pages h X (pview s) pid) \<union> free s) s t
     \<and> forest h X Q (pview t) hi (new_kids lo res)
     \<and> pairs_of h X (pview t) (new_kids lo res) = upsert key val (tree_pairs h X (pview s) pid)
     \<and> set (pages_of h X (pview t) (new_kids lo res)) \<subseteq> set (tree_pages h X (pview s) pid) \<union> (free s - free t)
     \<and> set (pages_of h X (pview t) (new_kids lo res)) \<inter> freed t = {}"

lemma forest_dom:
  assumes "forest h X Q V hi ks" "q \<in> set (pages_of h X V ks)"
  shows "\<exists>x. V q = Some x"
proof -
  from assms(2) obtain k c cs where c: "(k, c, cs) \<in> set ks" "q \<in> set (tree_pages h X V c)" by auto
  moreover have "kids_ok (kid_ok h X Q V) hi ks" using assms(1) by (simp add: forest_def)
  ultimately obtain v where "subtree h X Q V k v c" using kids_ok_member by fastforce
  with c(2) show ?thesis using subtree_dom by blast
qed

text \<open>Branches: the child that the key belongs to is replaced by the children that the recursive call returned.\<close>

lemma insert_branch_done:
  assumes s: "inv s" "page_no p \<in> out s" "page_no p \<notin> free s" "page_no p \<notin> freed s" "length (page_data p) = n"
    and b: "branch_wf X (page_data p)" "branch_packed X (page_data p)" "kids X lo (page_data p) = ks" "forest h X Q (pview s) hi ks"
    and P: "P = set (pages_of h X (pview s) ks)" "P \<inter> free s = {}" "P \<inter> freed s = {}" "page_no p \<notin> P"
    and key: "within lo hi key"
    and child: "\<And>xs k c cs ys res t. ks = xs @ (k, c, cs) # ys \<Longrightarrow> within k (nxt hi ys) key \<Longrightarrow> insert_child c s = (Inr res, t)
      \<Longrightarrow> inserted s t h k (nxt hi ys) c key val res"
    and run: "insert_branch X ops insert_child key p s = (Inr res, p', s2)" "po_return ops p' s2 = (r, t)"
  shows "r = Inr () \<and> node_done s t (page_no p) P (Suc h) lo hi res (upsert key val (pairs_of h X (pview s) ks))"
proof -
  define d w where "d = page_data p" and "w = page_no p"
  note b = b [folded d_def]
  have "lo \<le> key" "below key hi" using key by (auto simp: within_def)
  from kids_split [OF b(1) refl this] obtain xs k c cs ys where ks: "ks = xs @ (k, c, cs) # ys"
      "length xs = route key (branch_view X d)" "be_child_page_id (branch_view X d ! route key (branch_view X d)) = c"
      "k \<le> key" "below key (nxt hi ys)"
    unfolding b(3) by blast
  have route: "child_page_for_key X d key = Inr (length xs, c)" "length xs < length (branch_view X d)"
    using branch_route(1,3) [OF b(1), of key] ks(2,3) by simp_all
  obtain res1 s1 where c1: "insert_child c s = (Inr res1, s1)"
    using run(1) route(1) by (auto simp: insert_branch_def d_def split: prod.splits sum.splits)
  have i: "inserted s s1 h k (nxt hi ys) c key val res1"
    using child [OF ks(1) _ c1] ks(4,5) by (simp add: within_def)
  note i = i [unfolded inserted_def]
  let ?V = "pview s" and ?V1 = "pview s1"
  note fo = b(4) [unfolded ks(1)]
  have Pc: "P = set (pages_of h X ?V xs) \<union> set (tree_pages h X ?V c) \<union> set (pages_of h X ?V ys)"
    unfolding P(1) ks(1) by auto
  have dist: "set (tree_pages h X ?V c) \<inter> (set (pages_of h X ?V xs) \<union> set (pages_of h X ?V ys)) = {}"
    by (rule forest_pages [OF fo])
  have same: "\<forall>q \<in> set (pages_of h X ?V xs) \<union> set (pages_of h X ?V ys). ?V1 q = ?V q"
  proof
    fix q assume q: "q \<in> set (pages_of h X ?V xs) \<union> set (pages_of h X ?V ys)"
    then obtain x where "?V q = Some x" using forest_dom [OF b(4)] Pc P(1) by blast
    moreover have "q \<notin> set (tree_pages h X ?V c) \<union> free s" using q dist Pc P(2) by blast
    ultimately show "?V1 q = ?V q" using i keeps_othersD by metis
  qed
  have dis: "set (pages_of h X ?V1 (new_kids k res1)) \<inter> (set (pages_of h X ?V xs) \<union> set (pages_of h X ?V ys)) = {}"
    using i dist Pc P(2) by blast
  define K where "K = xs @ new_kids k res1 @ ys"
  have G: "forest h X Q ?V1 (nxt hi ys) (new_kids k res1)" using i by blast
  note fr = forest_replace [OF fo G same dis, folded K_def]
  have "\<forall>k \<in> fst ` set (tl (xs @ (k, c, cs) # ys)). below k hi" using fo by (auto simp: forest_def)
  note ap = kids_apart [OF _ _ this ks(4,5), of h X Q ?V]
  have pairs: "pairs_of h X ?V1 K = upsert key val (pairs_of h X ?V ks)"
  proof -
    have low: "\<forall>kv \<in> set (pairs_of h X ?V xs). fst kv < key" and high: "\<forall>kv \<in> set (pairs_of h X ?V ys). key < fst kv"
      using ap(1,2) fo by (auto simp: forest_def)
    have "pairs_of h X ?V1 K = pairs_of h X ?V xs @ upsert key val (tree_pairs h X ?V c) @ pairs_of h X ?V ys"
      using fr(3) i by simp
    also have "\<dots> = upsert key val (pairs_of h X ?V xs @ tree_pairs h X ?V c @ pairs_of h X ?V ys)"
      by (simp only: upsert_append_high [OF low] upsert_append_low [OF high])
    finally show ?thesis by (simp add: ks(1))
  qed
  have pg: "set (pages_of h X ?V1 K) \<subseteq> P \<union> (free s - free s1)" "set (pages_of h X ?V1 K) \<inter> freed s1 = {}"
      "w \<notin> set (pages_of h X ?V1 K)" "set (pages_of h X ?V1 K) \<inter> free s1 = {}"
  proof -
    have set: "set (pages_of h X ?V1 K) = set (pages_of h X ?V xs) \<union> set (pages_of h X ?V1 (new_kids k res1)) \<union> set (pages_of h X ?V ys)"
      unfolding fr(2) by auto
    show sub: "set (pages_of h X ?V1 K) \<subseteq> P \<union> (free s - free s1)" unfolding set using i Pc by blast
    have "freed s1 \<subseteq> freed s \<union> set (tree_pages h X ?V c)" using i by blast
    then show "set (pages_of h X ?V1 K) \<inter> freed s1 = {}" unfolding set using i dist Pc P(3) by blast
    show "w \<notin> set (pages_of h X ?V1 K)" using sub P(4) s(3) unfolding w_def by blast
    have "free s1 \<subseteq> free s" using i by blast
    then show "set (pages_of h X ?V1 K) \<inter> free s1 = {}" using sub P(2) by blast
  qed
  have s1: "inv s1" "w \<in> out s1" "w \<notin> free s1" "w \<notin> freed s1"
    using i s Pc P(4) by (auto simp: w_def)
  obtain d1 where d1: "set_child_at_index X (length xs) (ir_replacement_page_id res1) (ir_replacement_page_checksum res1) d = Inr d1"
      "length d1 = length d" "branch_wf X d1" "branch_packed X d1"
      "branch_view X d1 = (branch_view X d)[length xs := (branch_view X d ! length xs)
        \<lparr>be_child_page_id := ir_replacement_page_id res1, be_child_page_checksum := ir_replacement_page_checksum res1\<rparr>]"
    using branch_set_child_view [OF b(1) route(2)] b(2) by blast
  define rk where "rk = (k, ir_replacement_page_id res1, ir_replacement_page_checksum res1)"
  have k1: "kids_of lo (branch_view X d1) = xs @ rk # ys"
    unfolding d1(5) rk_def using b(3) ks(1) route(2) by (intro kids_of_update) (auto simp: kids_kids_of)
  have d1n: "length d1 = n" using d1(2) s(5) by (simp add: d_def)
  let ?goal = "r = Inr () \<and> node_done s t (page_no p) P (Suc h) lo hi res (upsert key val (pairs_of h X (pview s) ks))"
  have finish: ?goal
    if nd: "r = Inr () \<and> node_done s1 t w (set (pages_of h X ?V1 K)) (Suc h) lo hi res (pairs_of h X ?V1 K) \<and> freed t = freed s1"
  proof -
    note nd = nd [unfolded node_done_def]
    have "keeps_others pview ({w} \<union> P \<union> free s) s s1"
      by (rule keeps_others_mono [of _ "set (tree_pages h X ?V c) \<union> free s"]) (use i Pc in auto)
    moreover have "keeps_others pview ({w} \<union> P \<union> free s) s1 t"
      by (rule keeps_others_mono [of _ "{w} \<union> set (pages_of h X ?V1 K) \<union> free s1"]) (use nd pg(1) i in blast)+
    ultimately have "keeps_others pview ({w} \<union> P \<union> free s) s t" using keeps_others_trans by force
    moreover have "freed t \<subseteq> freed s \<union> P" using nd i Pc by blast
    moreover have "set (pages_of (Suc h) X (pview t) (new_kids lo res)) \<subseteq> {w} \<union> P \<union> (free s - free t)"
      using nd pg(1) i by blast
    moreover have "out t = out s1 - {w}" "out s1 = out s" "po_get_root ops t = po_get_root ops s1"
        "po_get_root ops s1 = po_get_root ops s" "free t \<subseteq> free s1" "free s1 \<subseteq> free s"
      using nd i by blast+
    then have "out t = out s - {w}" "po_get_root ops t = po_get_root ops s" "free t \<subseteq> free s" by auto
    ultimately show ?thesis
      unfolding node_done_def w_def [symmetric] pairs [symmetric] using nd by blast
  qed
  have in_place: ?goal
    if "branch_wf X e" "branch_packed X e" "length e = n" "kids X lo e = K" "in_place X p e s1 = (Inr res, p', s2)" for e
  proof (rule finish, rule branch_in_place_done [OF s1 _ _ that(3,1,2,4) fr(1) pg(3,2)])
    show "page_no p' = w" "page_data p' = e" "new_kids lo res = [(lo, w, checksum_page X e)]" "po_return ops p' s1 = (r, t)"
      using that(5) run(2) by (auto simp: in_place_def new_kids_def w_def)
  qed
  show ?thesis
  proof (cases "ir_split res1")
    case None
    then have "in_place X p d1 s1 = (Inr res, p', s2)" "K = xs @ rk # ys"
      using run(1) route(1) c1 d1(1) by (auto simp: insert_branch_def d_def new_kids_def K_def rk_def)
    then show ?thesis using in_place [OF d1(3,4) d1n] k1 by (simp add: kids_kids_of)
  next
    case (Some sp)
    define sep rid rsum where "sep = ps_separator_key sp" and "rid = ps_right_page_id sp" and "rsum = ps_right_page_checksum sp"
    have nk: "new_kids k res1 = [rk, (sep, rid, rsum)]"
      by (simp add: new_kids_def Some rk_def sep_def rid_def rsum_def)
    have K': "K = xs @ rk # (sep, rid, rsum) # ys" by (simp add: K_def nk)
    have ksep: "k < sep" "below sep (nxt hi ys)" using G nk by (auto simp: forest_def rk_def)
    have sorted: "sorted_wrt (<) (map fst (xs @ rk # ys))" using fo by (simp add: forest_def rk_def)
    have ups: "kids_of lo fs = K" if "hd fs = hd (branch_view X d1)" "separators fs = upsert sep (rid, rsum) (separators (branch_view X d1))" for fs
      using kids_of_upsert [OF k1 [unfolded rk_def] sorted [unfolded rk_def] ksep that] by (simp add: K' rk_def)
    obtain fits where fits: "branch_fits X d1 sep = Inr fits" using branch_fits_free [OF d1(3)] by blast
    show ?thesis
    proof (cases fits)
      case True
      with fits have f: "branch_fits X d1 sep = Inr True" by simp
      obtain d2 where d2: "branch_insert X sep rid rsum d1 = Inr d2" "length d2 = length d1" "branch_wf X d2"
          "hd (branch_view X d2) = hd (branch_view X d1)" "branch_packed X d2"
          "separators (branch_view X d2) = upsert sep (rid, rsum) (separators (branch_view X d1))"
        using branch_insert_view [OF d1(3) f] d1(4) by blast
      have "in_place X p d2 s1 = (Inr res, p', s2)"
        using run(1) route(1) c1 d1(1) Some f d2(1) by (simp add: insert_branch_def d_def sep_def rid_def rsum_def)
      then show ?thesis
        using in_place [OF d2(3,5)] ups [OF d2(4,6)] d2(2) d1n by (simp add: kids_kids_of)
    next
      case False
      with fits have f: "branch_fits X d1 sep = Inr False" by simp
      have wf1: "branch_view X d1 \<noteq> []" "sorted_wrt (<) (map be_key (tl (branch_view X d1)))"
        using route(2) d1(3,5) by (auto simp: branch_wf_def Let_def)
      obtain fs where fs: "branch_builder_insert sep rid rsum (branch_view X d1) = Inr fs" "fs \<noteq> []" "hd fs = hd (branch_view X d1)"
          "separators fs = upsert sep (rid, rsum) (separators (branch_view X d1))" "sorted_wrt (<) (map be_key (tl fs))"
        using branch_builder_insert_upsert [OF wf1] by blast
      have "split_node X ops (branch_build_split_pages X fs) (p\<lparr>page_data := d1\<rparr>) s1 = (Inr res, p', s2)"
        using run(1) route(1) c1 d1(1) Some f fs(1) branch_route(4) [OF d1(3)]
        by (simp add: insert_branch_def d_def sep_def rid_def rsum_def)
      then show ?thesis
        using branch_split_done [OF s1, of "p\<lparr>page_data := d1\<rparr>" lo fs K h hi res p' s2 r t] ups [OF fs(3,4)] fs(2,5)
          fr(1) pg(2-4) run(2) d1n by (intro finish) (simp add: w_def)
    qed
  qed
qed

text \<open>The whole recursive call: the page of the node is copied first when it is not dirty yet.\<close>

lemma inserted_node:
  assumes cow: "inv s" "po_cow ops pid s = (Inr p, s1)" "pview s pid = Some d"
    and nd: "node_done s1 t (page_no p) P h lo hi res (upsert key val (tree_pairs h X (pview s) pid))"
    and pages: "set (tree_pages h X (pview s) pid) = insert pid P" "insert pid P \<inter> free s = {}" "insert pid P \<inter> freed s = {}"
  shows "inserted s t h lo hi pid key val res"
proof -
  have "pid \<notin> free s" "pid \<notin> freed s" using pages by auto
  note c = cow_ok [OF cow(1,3) this cow(2)] and nd = nd [unfolded node_done_def]
  define w where "w = page_no p"
  note c = c [folded w_def] and nd = nd [folded w_def]
  have w: "w = pid \<or> w \<in> free s - free s1" "free t \<subseteq> free s1" "free s1 \<subseteq> free s" using c nd by auto
  have k1: "keeps_others pview {w} s s1" and k2: "keeps_others pview ({w} \<union> P \<union> free s1) s1 t" using c nd by blast+
  have "keeps_others pview (insert pid P \<union> free s) s s1" by (rule keeps_others_mono [OF k1]) (use w in blast)
  moreover have "keeps_others pview (insert pid P \<union> free s) s1 t" by (rule keeps_others_mono [OF k2]) (use w in blast)
  ultimately have "keeps_others pview (insert pid P \<union> free s) s t" using keeps_others_trans by force
  moreover have "freed t \<subseteq> freed s \<union> insert pid P" using c nd by blast
  moreover have "set (pages_of h X (pview t) (new_kids lo res)) \<subseteq> insert pid P \<union> (free s - free t)" using nd w by blast
  moreover have "out t = out s" using nd c by auto
  moreover have "po_get_root ops t = po_get_root ops s" using nd c by simp
  moreover have "free t \<subseteq> free s" using w by blast
  moreover have "inv t" "forest h X Q (pview t) hi (new_kids lo res)"
      "pairs_of h X (pview t) (new_kids lo res) = upsert key val (tree_pairs h X (pview s) pid)"
      "set (pages_of h X (pview t) (new_kids lo res)) \<inter> freed t = {}"
    using nd by (simp_all only: simp_thms)
  ultimately show ?thesis unfolding inserted_def pages(1) by (intro conjI)
qed

lemma insert_recursive_inserted:
  assumes "inv s" "subtree h X Q (pview s) lo hi pid" "distinct (tree_pages h X (pview s) pid)"
    and "set (tree_pages h X (pview s) pid) \<inter> free s = {}" "set (tree_pages h X (pview s) pid) \<inter> freed s = {}"
    and "within lo hi key" "Q (key, val)" "insert_recursive frames X ops key val pid s = (Inr res, t)"
  shows "inserted s t h lo hi pid key val res"
  using assms
proof (induction h arbitrary: s lo hi pid frames res t)
  case 0
  obtain f where f: "frames = Suc f" using "0.prems"(8) by (cases frames) auto
  obtain d where d: "pview s pid = Some d" "leaf_wf X d" "\<forall>kv \<in> set (leaf_pairs X d). within lo hi (fst kv) \<and> Q kv"
    using "0.prems"(2) by (auto split: option.splits)
  obtain p s1 p' s2 where run: "po_cow ops pid s = (Inr p, s1)" "po_return ops p' s2 = (Inr (), t)"
      "(case node_kind_parse X (page_data p) of Inl e \<Rightarrow> (Inl e, p, s1) | Inr LeafKind \<Rightarrow> insert_leaf X ops key val p s1
         | Inr BranchKind \<Rightarrow> insert_branch X ops (insert_recursive f X ops key val) key p s1) = (Inr res, p', s2)"
    using "0.prems"(8) unfolding f insert_recursive.simps with_page_Inr by blast
  have free: "pid \<notin> free s" "pid \<notin> freed s" using "0.prems"(4,5) by auto
  note c = cow_ok [OF "0.prems"(1) d(1) free run(1)]
  have pd: "page_data p = d" using c by blast
  have leaf: "insert_leaf X ops key val p s1 = (Inr res, p', s2)" using run(3) leaf_node_page(1) [OF d(2)] pd by simp
  have "page_no p \<notin> freed s1" using c free free_freed [OF "0.prems"(1)] by auto
  then have "node_done s1 t (page_no p) {} 0 lo hi res (upsert key val (leaf_pairs X d))"
    using insert_leaf_done [OF _ _ _ _ _ _ _ "0.prems"(6,7) leaf run(2)] c d view_size [OF "0.prems"(1) d(1)] pd by auto
  then show ?case
    using "0.prems"(4,5) d(1) by (intro inserted_node [OF "0.prems"(1) run(1) d(1)]) auto
next
  case (Suc h)
  obtain f where f: "frames = Suc f" using Suc.prems(8) by (cases frames) auto
  obtain d where d: "pview s pid = Some d" using Suc.prems(2) by (cases "pview s pid") auto
  have wf: "branch_wf X d" "branch_packed X d" using Suc.prems(2) d by auto
  define ks P where "ks = kids X lo d" and "P = set (pages_of h X (pview s) ks)"
  have tp: "tree_pages (Suc h) X (pview s) pid = pid # pages_of h X (pview s) ks"
      "tree_pairs (Suc h) X (pview s) pid = pairs_of h X (pview s) ks"
    using kids_of_views [of "pview s" pid d h X lo, OF d] by (simp_all add: ks_def)
  have F: "forest h X Q (pview s) hi ks"
    using Suc.prems(2,3) d unfolding tp by (auto simp: forest_def ks_def kids_def)
  have P: "insert pid P \<inter> free s = {}" "insert pid P \<inter> freed s = {}" "pid \<notin> P"
    using Suc.prems(3-5) unfolding tp P_def by auto
  obtain p s1 p' s2 where run: "po_cow ops pid s = (Inr p, s1)" "po_return ops p' s2 = (Inr (), t)"
      "(case node_kind_parse X (page_data p) of Inl e \<Rightarrow> (Inl e, p, s1) | Inr LeafKind \<Rightarrow> insert_leaf X ops key val p s1
         | Inr BranchKind \<Rightarrow> insert_branch X ops (insert_recursive f X ops key val) key p s1) = (Inr res, p', s2)"
    using Suc.prems(8) unfolding f insert_recursive.simps with_page_Inr by blast
  have free: "pid \<notin> free s" "pid \<notin> freed s" using P by auto
  note c = cow_ok [OF Suc.prems(1) d free run(1)]
  have pd: "page_data p = d" using c by blast
  have branch: "insert_branch X ops (insert_recursive f X ops key val) key p s1 = (Inr res, p', s2)"
    using run(3) branch_node_page(1) [OF wf(1)] pd by simp
  have w: "page_no p \<notin> freed s1" "page_no p \<notin> P" "P \<inter> free s1 = {}" "P \<inter> freed s1 = {}"
    using c P free free_freed [OF Suc.prems(1)] by auto
  have same: "\<forall>q \<in> set (pages_of h X (pview s) ks). pview s1 q = pview s q"
  proof
    fix q assume q: "q \<in> set (pages_of h X (pview s) ks)"
    then obtain x where x: "pview s q = Some x" using forest_dom [OF F] by blast
    have "q \<notin> {page_no p}" using q w(2) P_def by blast
    moreover have "keeps_others pview {page_no p} s s1" using c by (elim conjE)
    ultimately have "pview s1 q = Some x" using x by (intro keeps_othersD [of pview "{page_no p}" s s1])
    with x show "pview s1 q = pview s q" by simp
  qed
  note cong = kids_views_cong [OF same] forest_cong [OF same, of Q hi]
  have F1: "forest h X Q (pview s1) hi ks" using F cong(4) by simp
  have child: "inserted s1 u h k (nxt hi ys) c key val r"
    if "ks = xs @ (k, c, cs) # ys" "within k (nxt hi ys) key" "insert_recursive f X ops key val c s1 = (Inr r, u)"
    for xs k c cs ys r u
  proof -
    have inv1: "inv s1" using c by blast
    have sub: "subtree h X Q (pview s1) k (nxt hi ys) c" using F1 that(1) by (simp add: forest_def)
    have dis: "distinct (tree_pages h X (pview s1) c)" using forest_pages(2) F1 that(1) by blast
    have "set (tree_pages h X (pview s1) c) \<subseteq> set (pages_of h X (pview s1) ks)" using that(1) by auto
    then have "set (tree_pages h X (pview s1) c) \<subseteq> P" unfolding cong(3) P_def .
    then have "set (tree_pages h X (pview s1) c) \<inter> free s1 = {}" "set (tree_pages h X (pview s1) c) \<inter> freed s1 = {}"
      using w(3,4) by blast+
    from Suc.IH [OF inv1 sub dis this that(2) Suc.prems(7) that(3)] show ?thesis .
  qed
  have pg: "inv s1" "page_no p \<in> out s1" "page_no p \<notin> free s1" "length (page_data p) = n" "branch_wf X (page_data p)"
      "branch_packed X (page_data p)" "kids X lo (page_data p) = ks" "P = set (pages_of h X (pview s1) ks)"
    using c pd wf view_size [OF Suc.prems(1) d] by (simp_all add: ks_def P_def cong(3) [unfolded ks_def])
  note bd = insert_branch_done [OF pg(1-3) w(1) pg(4-7) F1 pg(8) w(3,4,2) Suc.prems(6) child branch run(2)]
  have "node_done s1 t (page_no p) P (Suc h) lo hi res (upsert key val (pairs_of h X (pview s1) ks))"
    by (rule conjunct2 [OF bd])
  then show ?case
    unfolding cong(2) tp(2) [symmetric]
    by (intro inserted_node [OF Suc.prems(1) run(1) d]) (use P tp(1) in \<open>auto simp: P_def\<close>)
qed

text \<open>The root: a new root is put above the two halves of a root that was split.\<close>

lemma new_root_page:
  assumes "ir_split res = Some sp" "24 \<le> length page" "length page < 2 ^ 63"
    and "branch_build_page_at_buf X (branch_builder_new_root (ir_replacement_page_id res) (ir_replacement_page_checksum res)
        (ps_separator_key sp) (ps_right_page_id sp) (ps_right_page_checksum sp)) page = Inr q"
  shows "branch_wf X q" "branch_packed X q" "kids X [] q = new_kids [] res" "length q = length page"
proof -
  define es where "es = branch_builder_new_root (ir_replacement_page_id res) (ir_replacement_page_checksum res)
        (ps_separator_key sp) (ps_right_page_id sp) (ps_right_page_checksum sp)"
  have b: "branch_build_entries_at_buf X es page = Inr q" using assms(4) by (simp add: es_def branch_build_page_at_buf_def)
  have es: "es \<noteq> []" "sorted_wrt (<) (map be_key (tl es))" "kids_of [] es = new_kids [] res"
    by (simp_all add: es_def branch_builder_new_root_def kids_of_def new_kids_def assms(1) separators_def child_ref_def)
  have "24 + entry_space (strip_first es) \<le> length page"
    using b assms(2) bbuild_loop_fits [of 0 "strip_first es" 24 "length page" page]
    by (auto simp: branch_build_entries_at_buf_def branch_header_size_def result_simps branch_build_loop_strip)
  from branch_build_view [OF this assms(3) es(1,2)] b es(3)
  show "branch_wf X q" "branch_packed X q" "kids X [] q = new_kids [] res" "length q = length page"
    using kids_of_strip [OF es(1)] by (auto simp: kids_kids_of)
qed

lemma new_root_done:
  assumes s: "inv s" and F: "forest h X Q (pview s) None (new_kids [] res)" and sp: "ir_split res = Some sp"
    and P: "P = set (pages_of h X (pview s) (new_kids [] res))" "P \<inter> free s = {}" "P \<inter> freed s = {}"
    and run: "with_page (po_allocate ops) (po_return ops) (\<lambda>new_root_page s.
             case branch_build_page_at_buf X
                    (branch_builder_new_root (ir_replacement_page_id res) (ir_replacement_page_checksum res)
                       (ps_separator_key sp) (ps_right_page_id sp) (ps_right_page_checksum sp))
                    (page_data new_root_page) of
               Inl e \<Rightarrow> (Inl e, new_root_page, s)
             | Inr data \<Rightarrow>
                 (case po_set_root ops (page_no new_root_page) (checksum_page X data) s of
                    (r, s) \<Rightarrow> (r, new_root_page\<lparr>page_data := data\<rparr>, s))) s = (Inr (), t)"
  shows "inv t \<and> out t = out s \<and> free t \<subseteq> free s \<and> freed t = freed s \<and> keeps_others pview (free s) s t
    \<and> rooted (Suc h) X Q (pview t) (po_get_root ops t) (root_sum t)
    \<and> tree_pairs (Suc h) X (pview t) (po_get_root ops t) = pairs_of h X (pview s) (new_kids [] res)
    \<and> set (tree_pages (Suc h) X (pview t) (po_get_root ops t)) \<subseteq> P \<union> (free s - free t)"
proof -
  obtain np s1 r p' s2 where al: "po_allocate ops s = (Inr np, s1)" and body:
      "(case branch_build_page_at_buf X
                    (branch_builder_new_root (ir_replacement_page_id res) (ir_replacement_page_checksum res)
                       (ps_separator_key sp) (ps_right_page_id sp) (ps_right_page_checksum sp))
                    (page_data np) of
               Inl e \<Rightarrow> (Inl e, np, s1)
             | Inr data \<Rightarrow>
                 (case po_set_root ops (page_no np) (checksum_page X data) s1 of
                    (r, s) \<Rightarrow> (r, np\<lparr>page_data := data\<rparr>, s))) = (Inr (), p', s2)"
      and ret: "po_return ops p' s2 = (Inr (), t)"
    using run unfolding with_page_Inr by blast
  note a = allocate_ok [OF s al]
  obtain data where data: "branch_build_page_at_buf X
      (branch_builder_new_root (ir_replacement_page_id res) (ir_replacement_page_checksum res)
         (ps_separator_key sp) (ps_right_page_id sp) (ps_right_page_checksum sp)) (page_data np) = Inr data"
    using body by (auto split: sum.splits)
  have "24 \<le> length (page_data np)" "length (page_data np) < 2 ^ 63" using a size_bounds [OF s] by auto
  note q = new_root_page [OF sp this data]
  define w where "w = page_no np"
  obtain u where u: "po_set_root ops w (checksum_page X data) s1 = (Inr (), u)" "inv u" "out u = out s1" "free u = free s1"
      "freed u = freed s1" "pview u = pview s1" "po_get_root ops u = w" "root_sum u = checksum_page X data"
    using set_root_ok [of s1 w "checksum_page X data"] a by auto
  have s2: "s2 = u" "p' = np\<lparr>page_data := data\<rparr>" using body data u(1) by (auto simp: w_def)
  obtain t' where t': "po_return ops p' u = (Inr (), t')" "inv t'" "out t' = out u - {w}" "free t' = free u" "freed t' = freed u"
      "pview t' = (pview u)(w \<mapsto> data)" "po_get_root ops t' = po_get_root ops u" "root_sum t' = root_sum u"
    using return_ok [of u p'] u(2,3) a q(4) s2(2) by (auto simp: w_def)
  have t: "t' = t" using t'(1) ret s2(1) by simp
  note t' = t' [unfolded t]
  have w: "w \<in> free s" "w \<notin> free t" "w \<notin> P" "w \<notin> out s" using a t'(4) u(4) P(2) by (auto simp: w_def)
  have keep: "keeps_others pview {w} s s1" using a by (simp add: w_def)
  have same: "\<forall>q \<in> set (pages_of h X (pview s) (new_kids [] res)). pview t q = pview s q"
  proof
    fix q assume q: "q \<in> set (pages_of h X (pview s) (new_kids [] res))"
    then obtain x where x: "pview s q = Some x" using forest_dom [OF F] by blast
    have "q \<noteq> w" using q w(3) P(1) by blast
    with keeps_othersD [OF keep _ x] x show "pview t q = pview s q" by (simp add: t'(6) u(6))
  qed
  note cong = kids_views_cong [OF same] forest_cong [OF same, of Q None]
  have V: "pview t w = Some data" by (simp add: t'(6))
  have root: "po_get_root ops t = w" "root_sum t = checksum_page X data" using t'(7,8) u(7,8) by simp_all
  note v = kids_of_views [of "pview t" w data h X "[]", OF V, unfolded q(3) cong(2,3)]
  have "subtree (Suc h) X Q (pview t) [] None w"
    by (rule subtree_branch [where V = "pview t", OF V q(1-3)]) (use cong(4) F in simp)
  moreover have "distinct (w # pages_of h X (pview s) (new_kids [] res))"
    using F w(3) P(1) unfolding forest_def distinct.simps by blast
  ultimately have "rooted (Suc h) X Q (pview t) w (checksum_page X data)"
    unfolding rooted_def v(2) by (simp add: checksummed_def V)
  moreover have "keeps_others pview (free s) s t"
    using keep w(1) by (auto simp: keeps_others_def t'(6) u(6))
  moreover have "out t = out s" using t'(3) u(3) a w(4) by (auto simp: w_def)
  moreover have "free t \<subseteq> free s" "freed t = freed s" "inv t" using t' u a by auto
  moreover have "set (tree_pages (Suc h) X (pview t) w) \<subseteq> P \<union> (free s - free t)"
    unfolding v(2) using w P(1) by auto
  ultimately show ?thesis unfolding root using v(1) by blast
qed

text \<open>A well-formed tree whose pages are neither free nor given up.\<close>

definition tree_ok :: "nat \<Rightarrow> 's \<Rightarrow> bool" where
  "tree_ok h s \<longleftrightarrow> inv s \<and> rooted h X Q (pview s) (po_get_root ops s) (root_sum s)
     \<and> set (tree_pages h X (pview s) (po_get_root ops s)) \<inter> (free s \<union> freed s) = {}"

lemma tree_insert_correct:
  assumes "tree_ok h s" "Q (key, val)" "tree_insert frames X ops key val s = (Inr (), t)"
  defines "P \<equiv> set (tree_pages h X (pview s) (po_get_root ops s))"
  shows "\<exists>h'. (h' = h \<or> h' = Suc h) \<and> tree_ok h' t
    \<and> tree_pairs h' X (pview t) (po_get_root ops t) = upsert key val (tree_pairs h X (pview s) (po_get_root ops s))
    \<and> set (tree_pages h' X (pview t) (po_get_root ops t)) \<subseteq> P \<union> (free s - free t)
    \<and> out t = out s \<and> free t \<subseteq> free s \<and> freed t \<subseteq> freed s \<union> P \<and> keeps_others pview (P \<union> free s) s t"
proof -
  define root where "root = po_get_root ops s"
  note P_def = P_def [folded root_def]
  have ok: "inv s" "subtree h X Q (pview s) [] None root" "distinct (tree_pages h X (pview s) root)"
      "set (tree_pages h X (pview s) root) \<inter> free s = {}" "set (tree_pages h X (pview s) root) \<inter> freed s = {}"
    using assms(1) unfolding tree_ok_def rooted_def root_def by blast+
  obtain res s1 where r: "insert_recursive frames X ops key val root s = (Inr res, s1)"
    and rest: "(case ir_split res of
         Some sp \<Rightarrow>
           with_page (po_allocate ops) (po_return ops) (\<lambda>new_root_page s.
             case branch_build_page_at_buf X
                    (branch_builder_new_root (ir_replacement_page_id res) (ir_replacement_page_checksum res)
                       (ps_separator_key sp) (ps_right_page_id sp) (ps_right_page_checksum sp))
                    (page_data new_root_page) of
               Inl e \<Rightarrow> (Inl e, new_root_page, s)
             | Inr data \<Rightarrow>
                 (case po_set_root ops (page_no new_root_page) (checksum_page X data) s of
                    (r, s) \<Rightarrow> (r, new_root_page\<lparr>page_data := data\<rparr>, s)))
       | None \<Rightarrow> po_set_root ops (ir_replacement_page_id res) (ir_replacement_page_checksum res)) s1 = (Inr (), t)"
    using assms(3) by (auto simp: tree_insert_def result_simps root_def)
  note i = insert_recursive_inserted [OF ok within_all assms(2) r, unfolded inserted_def, folded P_def]
  define N where "N = set (pages_of h X (pview s1) (new_kids [] res))"
  have N: "N \<subseteq> P \<union> (free s - free s1)" "N \<inter> freed s1 = {}" using i unfolding N_def by (simp_all only: simp_thms)
  have F: "forest h X Q (pview s1) None (new_kids [] res)" and inv1: "inv s1"
    and pairs: "pairs_of h X (pview s1) (new_kids [] res) = upsert key val (tree_pairs h X (pview s) root)"
    and st: "out s1 = out s" "free s1 \<subseteq> free s" "freed s1 \<subseteq> freed s \<union> P" "keeps_others pview (P \<union> free s) s s1"
    using i by (simp_all only: simp_thms)
  have Nf: "N \<inter> free s1 = {}" using N(1) ok(4) st(2) unfolding P_def by blast
  show ?thesis
  proof (cases "ir_split res")
    case None
    define r c where "r = ir_replacement_page_id res" and "c = ir_replacement_page_checksum res"
    have nk: "new_kids [] res = [([], r, c)]" by (simp add: new_kids_def None r_def c_def)
    obtain t' where t': "po_set_root ops r c s1 = (Inr (), t')" "inv t'" "out t' = out s1" "free t' = free s1" "freed t' = freed s1"
        "pview t' = pview s1" "po_get_root ops t' = r" "root_sum t' = c"
      using set_root_ok [OF inv1, of r c] by blast
    have "t' = t" using rest t'(1) by (simp add: None r_def c_def)
    note t' = t' [unfolded this]
    have "rooted h X Q (pview t) r c" using F unfolding nk t'(6) by (simp add: rooted_forest)
    moreover have "N = set (tree_pages h X (pview t) r)" unfolding N_def nk t'(6) by simp
    moreover have "tree_pairs h X (pview t) r = upsert key val (tree_pairs h X (pview s) root)"
      using pairs unfolding nk t'(6) by simp
    moreover have "keeps_others pview (P \<union> free s) s t" using st(4) by (simp add: keeps_others_def t'(6))
    ultimately show ?thesis
      unfolding tree_ok_def root_def [symmetric] using t' st N Nf
      by (intro exI [of _ h]) (simp add: Int_Un_distrib)
  next
    case (Some sp)
    note n = new_root_done [OF inv1 F Some N_def Nf N(2) rest [unfolded Some option.case]]
    have "keeps_others pview (P \<union> free s) s1 t"
      by (rule keeps_others_mono [of _ "free s1"]) (use n st(2) in blast)+
    then have k: "keeps_others pview (P \<union> free s) s t" using keeps_others_trans [OF st(4)] by force
    have pg: "set (tree_pages (Suc h) X (pview t) (po_get_root ops t)) \<subseteq> N \<union> (free s1 - free t)" using n by (elim conjE)
    have "free s1 \<inter> freed s1 = {}" using free_freed [OF inv1] .
    then have "set (tree_pages (Suc h) X (pview t) (po_get_root ops t)) \<inter> (free t \<union> freed s1) = {}"
        "set (tree_pages (Suc h) X (pview t) (po_get_root ops t)) \<subseteq> P \<union> (free s - free t)" "free t \<subseteq> free s"
      using pg N Nf st(2) n by blast+
    then show ?thesis
      unfolding tree_ok_def root_def [symmetric] pairs [symmetric] using n k st
      by (intro exI [of _ "Suc h"]) (simp add: N_def)
  qed
qed

text \<open>Insertion into a root that is a leaf with room succeeds when no system call fails.\<close>

lemma insert_leaf_root_total:
  assumes "tree_ok 0 s" "calm (Suc m) s" "pview s (po_get_root ops s) = Some d" "leaf_fits X d key val = Inr True"
  shows "\<exists>t q. (\<forall>frames. tree_insert (Suc frames) X ops key val s = (Inr (), t)) \<and> calm m t
    \<and> pview t (po_get_root ops t) = Some q \<and> leaf_wf X q \<and> leaf_pairs X q = upsert key val (leaf_pairs X d)"
proof -
  define root where "root = po_get_root ops s"
  have ok: "inv s" "leaf_wf X d" "root \<notin> free s" "root \<notin> freed s" and d: "pview s root = Some d"
    using assms(1,3) by (auto simp: tree_ok_def rooted_def root_def)
  obtain p s1 where p: "po_cow ops root s = (Inr p, s1)" using cow_total [OF ok(1) d ok(3,4) assms(2)] by blast
  note c = cow_ok [OF ok(1) d ok(3,4) p]
  obtain q where q: "leaf_insert X key val d = Inr q" "length q = length d" "leaf_wf X q" "leaf_pairs X q = upsert key val (leaf_pairs X d)"
    using leaf_insert_pairs [OF ok(2) assms(4)] by blast
  have "page_no (p\<lparr>page_data := q\<rparr>) \<in> out s1" "length (page_data (p\<lparr>page_data := q\<rparr>)) = n" "inv s1" "calm m s1"
    using c q(2) view_size [OF ok(1) d] assms(2) by auto
  then obtain t where t: "po_return ops (p\<lparr>page_data := q\<rparr>) s1 = (Inr (), t)" "inv t" "calm m t" "pview t (page_no p) = Some q"
    using return_ok [of s1 "p\<lparr>page_data := q\<rparr>"] by fastforce
  have pd: "page_data p = d" using c by blast
  define res where "res = \<lparr>ir_replacement_page_id = page_no p, ir_replacement_page_checksum = checksum_page X q, ir_split = None\<rparr>"
  have "insert_recursive (Suc frames) X ops key val root s = (Inr res, t)" for frames
    using p t(1) leaf_node_page(1) [OF ok(2)] pd assms(4) q(1)
    by (simp add: with_page_def insert_leaf_def in_place_def res_def)
  moreover obtain u where "po_set_root ops (page_no p) (checksum_page X q) t = (Inr (), u)"
      and u: "calm m u" "pview u = pview t" "po_get_root ops u = page_no p"
    using set_root_ok [OF t(2)] t(3) by blast
  ultimately have "tree_insert (Suc frames) X ops key val s = (Inr (), u)" for frames
    unfolding tree_insert_def root_def [symmetric] by (simp add: res_def del: insert_recursive.simps)
  with u t(4) q(3,4) show ?thesis by (intro exI [of _ u]) simp
qed

text \<open>A tree whose root page is a leaf is that leaf.\<close>

lemma tree_ok_leaf:
  assumes "tree_ok h s" "pview s (po_get_root ops s) = Some q" "leaf_wf X q" "\<forall>kv \<in> set (leaf_pairs X q). Q kv"
  shows "tree_ok 0 s"
proof -
  have "set (tree_pages h X (pview s) (po_get_root ops s)) \<inter> (free s \<union> freed s) = {}" using assms(1) by (simp only: tree_ok_def)
  then have "po_get_root ops s \<notin> free s \<union> freed s" using root_in_pages by blast
  with assms show ?thesis by (simp add: tree_ok_def rooted_def)
qed

text \<open>Overwriting the only pair of a root leaf with one that does not fit beside it ends in the assertion of the builder.\<close>

lemma insert_single_pair_panics:
  assumes "tree_ok 0 s" "calm (Suc (Suc m)) s" "pview s (po_get_root ops s) = Some d" "leaf_pairs X d = [(key, old)]"
    and "n < 24 + pair_space [(key, old), (key, val)]"
  shows "\<exists>t. \<forall>frames. tree_insert (Suc frames) X ops key val s = (Inl (Panic ''assertion failed: self.kv_pairs.len() >= 2''), t)"
proof -
  define root where "root = po_get_root ops s"
  have ok: "inv s" "leaf_wf X d" "root \<notin> free s" "root \<notin> freed s" and d: "pview s root = Some d"
    using assms(1,3) by (auto simp: tree_ok_def rooted_def root_def)
  obtain p s1 where p: "po_cow ops root s = (Inr p, s1)" using cow_total [OF ok(1) d ok(3,4) assms(2)] by blast
  note c = cow_ok [OF ok(1) d ok(3,4) p]
  have len: "length d = n" by (rule view_size [OF ok(1) d])
  have c1: "inv s1" "calm (Suc m) s1" "page_data p = d" "page_no p \<in> out s1" using c assms(2) by auto
  obtain q s2 where q: "po_allocate ops s1 = (Inr q, s2)" using allocate_total [OF c1(1,2)] by blast
  note al = allocate_ok [OF c1(1) q]
  obtain t1 where t1: "po_return ops q s2 = (Inr (), t1)" "inv t1" "out t1 = out s2 - {page_no q}"
    using return_ok [of s2 q] al by auto
  have "page_no p \<in> out t1" using al t1(3) c1(4) by auto
  then obtain t2 where t2: "po_return ops p t1 = (Inr (), t2)" using return_ok [OF t1(2), of p] c1(3) len by auto
  have "\<not> pair_space [(key, val)] \<le> leaf_free X d"
    using leaf_single_space [OF ok(2) assms(4)] assms(5) len by simp
  then have fits: "leaf_fits X d key val = Inr False" using leaf_fits_free [OF ok(2)] by simp
  have "leaf_builder_insert key val [(key, old)] = Inr [(key, val)]"
    by (simp add: leaf_builder_insert_upsert)
  then have split: "and_then (leaf_builder_from_page X d) (\<lambda>ps. and_then (leaf_builder_insert key val ps) (\<lambda>ps.
      leaf_build_split_pages X ps l r)) = Inl (Panic ''assertion failed: self.kv_pairs.len() >= 2'')" for l r
    by (simp add: leaf_builder_reads [OF ok(2)] assms(4) leaf_build_split_pages_def)
  have "insert_recursive (Suc frames) X ops key val root s = (Inl (Panic ''assertion failed: self.kv_pairs.len() >= 2''), t2)" for frames
    using p t1(1) t2 leaf_node_page(1) [OF ok(2)] c1(3) fits q split
    by (simp add: with_page_def insert_leaf_def split_node_def)
  then show ?thesis
    unfolding tree_insert_def root_def [symmetric] by (intro exI [of _ t2]) (simp del: insert_recursive.simps)
qed

end

end
