(* ===== verification/Tx_Pages.thy ===== *)
theory Tx_Pages
  imports Tree_Insert
begin

text \<open>
  The page layer and the write transaction meet the interfaces of the tree: \<open>read_page\<close> and the page
  manager are page readers, and the operations \<open>tx_ops\<close> of a write transaction are a copy-on-write store.
  A transaction sees its dirty pages and, below them, the pages of the page layer.
\<close>

section \<open>Readers of pages\<close>

lemma manager_read_pageD:
  assumes "manager_read_page K pid s = (r, t)"
  shows "\<exists>io. read_page K pid (pm_io s) = (r, io) \<and> t = s\<lparr>pm_io := io\<rparr>"
  using assms by (auto simp: manager_read_page_def on_io_def' split: prod.splits)

context moka_cache
begin

lemma io_reader: "page_reader (read_page K) (page_view view) io_ok calm_io"
proof
  fix s pid d r t
  assume s: "io_ok s" "page_view view s pid = Some d" "read_page K pid s = (r, t)"
  have "extends view s t" using op_keepsD [OF read_page_extends s(3)] .
  with read_page_value [OF s] s(1) show "io_ok t \<and> page_view view s \<subseteq>\<^sub>m page_view view t
      \<and> (r = Inr \<lparr>page_no = pid, page_data = d\<rparr> \<or> (\<exists>e. r = Inl e \<and> io_failure e))
      \<and> (calm_io s \<longrightarrow> r = Inr \<lparr>page_no = pid, page_data = d\<rparr> \<and> calm_io t)"
    by (simp add: extends_def)
qed

lemma manager_reader:
  "page_reader (manager_read_page K) (\<lambda>s. page_view view (pm_io s)) (\<lambda>s. io_ok (pm_io s)) (\<lambda>s. calm_io (pm_io s))"
proof
  fix s pid d r t
  assume s: "io_ok (pm_io s)" "page_view view (pm_io s) pid = Some d" "manager_read_page K pid s = (r, t)"
  obtain io where io: "read_page K pid (pm_io s) = (r, io)" "t = s\<lparr>pm_io := io\<rparr>"
    using manager_read_pageD [OF s(3)] by blast
  from page_reader.rd_view [OF io_reader s(1,2) io(1)] io(2)
  show "io_ok (pm_io t) \<and> page_view view (pm_io s) \<subseteq>\<^sub>m page_view view (pm_io t)
      \<and> (r = Inr \<lparr>page_no = pid, page_data = d\<rparr> \<or> (\<exists>e. r = Inl e \<and> io_failure e))
      \<and> (calm_io (pm_io s) \<longrightarrow> r = Inr \<lparr>page_no = pid, page_data = d\<rparr> \<and> calm_io (pm_io t))"
    by simp
qed

end

section \<open>The pages of a transaction\<close>

definition tx_dirty :: "'c tx_state \<Rightarrow> page_id \<Rightarrow> dirty_page_slot option" where
  "tx_dirty s = hm_get (wt_dirty_pages (ts_tx s))"

definition tx_view :: "('c \<Rightarrow> page_id \<Rightarrow> bytes option) \<Rightarrow> 'c tx_state \<Rightarrow> page_id \<Rightarrow> bytes option" where
  "tx_view cv s q =
     (case tx_dirty s q of
        None \<Rightarrow> page_view cv (pm_io (ts_pages s)) q
      | Some (Available p) \<Rightarrow> Some (page_data p)
      | Some CheckedOut \<Rightarrow> None)"

definition tx_out :: "'c tx_state \<Rightarrow> page_id set" where
  "tx_out s = {q. tx_dirty s q = Some CheckedOut}"

definition tx_free :: "'c tx_state \<Rightarrow> page_id set" where
  "tx_free s = avail (ts_pages s)"

definition tx_freed :: "'c tx_state \<Rightarrow> page_id set" where
  "tx_freed s = set (wt_freed_pages (ts_tx s))"

definition tx_root_sum :: "'c tx_state \<Rightarrow> u128" where
  "tx_root_sum s = wt_root_page_checksum (ts_tx s)"

definition slot_ok :: "nat \<Rightarrow> page_id \<Rightarrow> dirty_page_slot \<Rightarrow> bool" where
  "slot_ok n q slot \<longleftrightarrow> (case slot of Available p \<Rightarrow> page_no p = q \<and> length (page_data p) = n | CheckedOut \<Rightarrow> True)"

definition dirty_ok :: "nat \<Rightarrow> 'c tx_state \<Rightarrow> bool" where
  "dirty_ok n s \<longleftrightarrow> (\<forall>q slot. tx_dirty s q = Some slot \<longrightarrow> q \<notin> tx_free s \<and> q \<notin> tx_freed s \<and> slot_ok n q slot)"

definition tx_inv :: "nat \<Rightarrow> 'c tx_state \<Rightarrow> bool" where
  "tx_inv n s \<longleftrightarrow> pm_safe (ts_pages s) \<and> psize (pm_io (ts_pages s)) = n \<and> 24 \<le> n \<and> n < 2 ^ 63 \<and> dirty_ok n s
     \<and> distinct (map fst (wt_dirty_pages (ts_tx s))) \<and> distinct (wt_freed_pages (ts_tx s)) \<and> tx_free s \<inter> tx_freed s = {}"

definition tx_calm :: "nat \<Rightarrow> 'c tx_state \<Rightarrow> bool" where
  "tx_calm m s \<longleftrightarrow> pm_ok (ts_pages s) \<and> calm_pm m (ts_pages s)"

lemmas tx_defs = tx_dirty_def tx_view_def tx_out_def tx_free_def tx_freed_def tx_root_sum_def dirty_ok_def

lemma on_pages_def': "on_pages m s = (case m (ts_pages s) of (r, p) \<Rightarrow> (r, s\<lparr>ts_pages := p\<rparr>))"
  by (simp add: on_pages_def zoom_def)

lemma on_dirty_def': "on_dirty m s
   = (case m (wt_dirty_pages (ts_tx s)) of (r, d) \<Rightarrow> (r, s\<lparr>ts_tx := (ts_tx s)\<lparr>wt_dirty_pages := d\<rparr>\<rparr>))"
  by (simp add: on_dirty_def zoom_def)

lemma dirty_okD: "tx_inv n s \<Longrightarrow> tx_dirty s q = Some slot \<Longrightarrow> q \<notin> tx_free s \<and> q \<notin> tx_freed s \<and> slot_ok n q slot"
  by (simp add: tx_inv_def dirty_ok_def)

lemma free_not_dirty: "tx_inv n s \<Longrightarrow> q \<in> tx_free s \<Longrightarrow> tx_dirty s q = None"
  by (cases "tx_dirty s q") (auto dest: dirty_okD)

text \<open>Checking a page out and putting it back.\<close>

definition tx_slot :: "page_id \<Rightarrow> dirty_page_slot \<Rightarrow> 'c tx_state \<Rightarrow> 'c tx_state" where
  "tx_slot q slot s = s\<lparr>ts_tx := (ts_tx s)\<lparr>wt_dirty_pages := hm_insert q slot (wt_dirty_pages (ts_tx s))\<rparr>\<rparr>"

lemma tx_slot_simps [simp]:
  "ts_pages (tx_slot q slot s) = ts_pages s" "tx_dirty (tx_slot q slot s) = (tx_dirty s)(q \<mapsto> slot)"
  "tx_free (tx_slot q slot s) = tx_free s" "tx_freed (tx_slot q slot s) = tx_freed s"
  "tx_root_sum (tx_slot q slot s) = tx_root_sum s" "tx_calm m (tx_slot q slot s) = tx_calm m s"
  "wt_root_page (ts_tx (tx_slot q slot s)) = wt_root_page (ts_tx s)"
  "tx_out (tx_slot q slot s) = (if slot = CheckedOut then insert q (tx_out s) else tx_out s - {q})"
  by (auto simp: tx_slot_def tx_defs tx_calm_def fun_eq_iff)

lemma tx_slot_inv:
  "tx_inv n s \<Longrightarrow> q \<notin> tx_free s \<Longrightarrow> q \<notin> tx_freed s \<Longrightarrow> slot_ok n q slot \<Longrightarrow> tx_inv n (tx_slot q slot s)"
  by (auto simp: tx_inv_def dirty_ok_def) (auto simp: tx_slot_def)

lemma tx_slot_view:
  "tx_view cv (tx_slot q slot s) = (tx_view cv s)(q := (case slot of Available p \<Rightarrow> Some (page_data p) | CheckedOut \<Rightarrow> None))"
  by (auto simp: tx_view_def fun_eq_iff split: dirty_page_slot.splits option.splits)

lemma tracker_add_fresh:
  "tx_dirty s (page_no p) = None \<Longrightarrow> on_dirty (tracker_add p) s = (Inr p, tx_slot (page_no p) CheckedOut s)"
  by (simp add: on_dirty_def' tracker_add_def tx_slot_def tx_dirty_def)

lemma tx_same_tx:
  assumes "ts_tx t = ts_tx s" "extends cv (pm_io (ts_pages s)) (pm_io (ts_pages t))" "tx_free t \<subseteq> tx_free s"
  shows "tx_dirty t = tx_dirty s" "tx_freed t = tx_freed s" "tx_out t = tx_out s" "tx_root_sum t = tx_root_sum s"
    "tx_view cv s \<subseteq>\<^sub>m tx_view cv t" "tx_inv n s \<Longrightarrow> pm_safe (ts_pages t) \<Longrightarrow> tx_inv n t"
proof -
  show eq: "tx_dirty t = tx_dirty s" "tx_freed t = tx_freed s" "tx_out t = tx_out s" "tx_root_sum t = tx_root_sum s"
    using assms(1) by (simp_all add: tx_defs fun_eq_iff)
  have "page_view cv (pm_io (ts_pages s)) \<subseteq>\<^sub>m page_view cv (pm_io (ts_pages t))" using assms(2) by (simp add: extends_def)
  then have "tx_view cv t q = Some d" if "tx_view cv s q = Some d" for q d
    using that map_leD [of "page_view cv (pm_io (ts_pages s))" "page_view cv (pm_io (ts_pages t))" q d]
    by (auto simp: tx_view_def eq(1) split: option.splits dirty_page_slot.splits)
  then show "tx_view cv s \<subseteq>\<^sub>m tx_view cv t" by (auto simp: map_le_def)
  have "psize (pm_io (ts_pages t)) = psize (pm_io (ts_pages s))" using assms(2) by (simp add: extends_def psize_def)
  then show "tx_inv n s \<Longrightarrow> pm_safe (ts_pages t) \<Longrightarrow> tx_inv n t"
    using assms(1,3) eq by (auto simp: tx_inv_def dirty_ok_def)
qed

context moka_cache
begin

lemma tx_pages_allocate:
  assumes "tx_inv n s" "on_pages (allocate_page K) s = (r, t)"
  shows "ts_tx t = ts_tx s" "pm_safe (ts_pages t)"
    "r = Inr p \<Longrightarrow> extends view (pm_io (ts_pages s)) (pm_io (ts_pages t)) \<and> tx_free t \<subseteq> tx_free s
      \<and> page_data p = replicate n 0 \<and> page_no p \<in> tx_free s \<and> page_no p \<notin> tx_free t"
    "tx_calm (Suc m) s \<Longrightarrow> (\<exists>p. r = Inr p) \<and> tx_calm m t"
proof -
  obtain pm where a: "allocate_page K (ts_pages s) = (r, pm)" "t = s\<lparr>ts_pages := pm\<rparr>"
    using assms(2) by (auto simp: on_pages_def' split: prod.splits)
  have ok: "psize (pm_io (ts_pages s)) = n" "pm_safe (ts_pages s)" using assms(1) by (auto simp: tx_inv_def)
  note sp = allocate_page_spec [OF a(1) ok(2)]
  show "ts_tx t = ts_tx s" "pm_safe (ts_pages t)" using a(2) sp(3) by simp_all
  show "extends view (pm_io (ts_pages s)) (pm_io (ts_pages t)) \<and> tx_free t \<subseteq> tx_free s
      \<and> page_data p = replicate n 0 \<and> page_no p \<in> tx_free s \<and> page_no p \<notin> tx_free t" if "r = Inr p"
    using sp(1,4) sp(6) [OF that] ok a(2) by (simp add: tx_free_def)
  show "(\<exists>p. r = Inr p) \<and> tx_calm m t" if "tx_calm (Suc m) s"
  proof -
    have c: "pm_ok (ts_pages s)" "calm_pm (Suc m) (ts_pages s)" using that by (simp_all add: tx_calm_def)
    then obtain p where p: "r = Inr p" using sp(8) by blast
    with sp(7) [OF p c(1)] sp(8) [OF c] a(2) show ?thesis by (simp add: tx_calm_def)
  qed
qed

lemma tx_pages_read:
  assumes "tx_inv n s" "page_view view (pm_io (ts_pages s)) pid = Some d" "on_pages (manager_read_page K pid) s = (r, t)"
  shows "ts_tx t = ts_tx s" "extends view (pm_io (ts_pages s)) (pm_io (ts_pages t))" "tx_free t = tx_free s"
    "pm_safe (ts_pages t)" "r = Inr \<lparr>page_no = pid, page_data = d\<rparr> \<or> (\<exists>e. r = Inl e \<and> io_failure e)"
    "tx_calm m s \<Longrightarrow> r = Inr \<lparr>page_no = pid, page_data = d\<rparr> \<and> tx_calm m t"
proof -
  obtain pm where a: "manager_read_page K pid (ts_pages s) = (r, pm)" "t = s\<lparr>ts_pages := pm\<rparr>"
    using assms(3) by (auto simp: on_pages_def' split: prod.splits)
  obtain io where io: "read_page K pid (pm_io (ts_pages s)) = (r, io)" "pm = (ts_pages s)\<lparr>pm_io := io\<rparr>"
    using manager_read_pageD [OF a(1)] by blast
  have ok: "pm_safe (ts_pages s)" "io_ok (pm_io (ts_pages s))" using assms(1) by (auto simp: tx_inv_def pm_safe_def)
  note v = read_page_value [OF ok(2) assms(2) io(1)]
  show "ts_tx t = ts_tx s" "tx_free t = tx_free s" using a(2) io(2) by (simp_all add: tx_free_def avail_def pending_ids_def)
  show ex: "extends view (pm_io (ts_pages s)) (pm_io (ts_pages t))"
    using op_keepsD [OF read_page_extends io(1)] a(2) io(2) by simp
  show "pm_safe (ts_pages t)"
    using ok ex a(2) io(2) by (simp add: pm_safe_def pending_ids_def extends_def)
  show "r = Inr \<lparr>page_no = pid, page_data = d\<rparr> \<or> (\<exists>e. r = Inl e \<and> io_failure e)" by (rule v(1))
  show "r = Inr \<lparr>page_no = pid, page_data = d\<rparr> \<and> tx_calm m t" if "tx_calm m s"
    using v that ex a(2) io(2)
    by (simp add: tx_calm_def calm_pm_def psize_def extends_def pm_ok_def pm_safe_def pending_ids_def)
qed

lemma tx_allocate_ok:
  assumes s: "tx_inv n s" and al: "tx_allocate_page K s = (Inr p, t)"
  shows "tx_inv n t \<and> length (page_data p) = n \<and> page_no p \<notin> tx_out s \<and> tx_out t = insert (page_no p) (tx_out s)
      \<and> tx_free t \<subseteq> tx_free s \<and> page_no p \<in> tx_free s \<and> page_no p \<notin> tx_free t \<and> tx_freed t = tx_freed s
      \<and> wt_root_page (ts_tx t) = wt_root_page (ts_tx s)
      \<and> keeps_others (tx_view view) {page_no p} s t \<and> (\<forall>m. tx_calm (Suc m) s \<longrightarrow> tx_calm m t)"
proof -
  obtain q u where a: "on_pages (allocate_page K) s = (Inr q, u)" "on_dirty (tracker_add q) u = (Inr p, t)"
    using al by (auto simp: tx_allocate_page_def result_simps)
  note sp = tx_pages_allocate [OF s a(1)]
  have ex: "extends view (pm_io (ts_pages s)) (pm_io (ts_pages u))" "tx_free u \<subseteq> tx_free s"
      "page_data q = replicate n 0" "page_no q \<in> tx_free s" "page_no q \<notin> tx_free u"
    using sp(3) [OF refl] by blast+
  note same = tx_same_tx [OF sp(1) ex(1,2)]
  have inv: "tx_inv n u" by (rule same(6) [OF s sp(2)])
  have fr: "tx_dirty s (page_no q) = None" "page_no q \<notin> tx_freed s"
    using free_not_dirty [OF s ex(4)] ex(4) s by (auto simp: tx_inv_def)
  have t: "p = q" "t = tx_slot (page_no q) CheckedOut u"
    using a(2) tracker_add_fresh [of u q] same(1) fr(1) by auto
  have "tx_inv n t" unfolding t(2) using inv ex(5) fr(2) same(2) by (intro tx_slot_inv) (simp_all add: slot_ok_def)
  moreover have "keeps_others (tx_view view) {page_no q} s t"
    using map_leD [OF same(5)] by (auto simp: keeps_others_def t(2) tx_slot_view)
  moreover have "page_no q \<notin> tx_out s" using fr(1) by (simp add: tx_out_def)
  ultimately show ?thesis using ex same sp(1,4) by (simp add: t)
qed

lemma tx_cow_ok:
  assumes s: "tx_inv n s" "tx_view view s pid = Some d" "pid \<notin> tx_free s" "pid \<notin> tx_freed s" and cow: "cow_page K pid s = (Inr p, t)"
  shows "tx_inv n t \<and> page_data p = d \<and> page_no p \<notin> tx_out s \<and> tx_out t = insert (page_no p) (tx_out s) \<and> tx_free t \<subseteq> tx_free s
      \<and> page_no p \<notin> tx_free t \<and> wt_root_page (ts_tx t) = wt_root_page (ts_tx s)
      \<and> (page_no p = pid \<and> tx_freed t = tx_freed s \<or> page_no p \<in> tx_free s \<and> tx_freed t = insert pid (tx_freed s))
      \<and> keeps_others (tx_view view) {page_no p} s t \<and> (\<forall>m. tx_calm (Suc m) s \<longrightarrow> tx_calm m t)"
proof (cases "tx_dirty s pid")
  case (Some slot)
  with s(2) obtain q where q: "slot = Available q" "page_data q = d" by (auto simp: tx_view_def split: dirty_page_slot.splits)
  have no: "page_no q = pid" using dirty_okD [OF s(1) Some] q by (simp add: slot_ok_def)
  have t: "p = q" "t = tx_slot pid CheckedOut s"
    using cow Some q by (simp_all add: cow_page_def tracker_contains_def tx_dirty_def on_dirty_def' tracker_check_out_def tx_slot_def)
  have "tx_inv n t" unfolding t(2) using s by (intro tx_slot_inv) (simp_all add: slot_ok_def)
  moreover have "keeps_others (tx_view view) {pid} s t" by (simp add: keeps_others_def t(2) tx_slot_view)
  moreover have "tx_calm m t" if "tx_calm (Suc m) s" for m
    using that calm_pm_le [of "Suc m" "ts_pages s" m] by (simp add: t(2)) (simp add: tx_calm_def)
  moreover have "pid \<notin> tx_out s" using Some q by (simp add: tx_out_def)
  ultimately show ?thesis using s q(2) no by (simp add: t)
next
  case None
  have pv: "page_view view (pm_io (ts_pages s)) pid = Some d" using s(2) None by (simp add: tx_view_def)
  obtain old s1 q s2 q' where run: "on_pages (manager_read_page K pid) s = (Inr old, s1)"
      "on_pages (allocate_page K) s1 = (Inr q, s2)" "copy_page_from (page_data old) q = Inr q'"
      "on_dirty (tracker_add q') (s2\<lparr>ts_tx := (ts_tx s2)\<lparr>wt_freed_pages := wt_freed_pages (ts_tx s2) @ [pid]\<rparr>\<rparr>) = (Inr p, t)"
    using cow None by (auto simp: cow_page_def tracker_contains_def tx_dirty_def push_freed_def result_simps lift_r_def)
  note rd = tx_pages_read [OF s(1) pv run(1)]
  have old: "page_data old = d" using rd(5) by auto
  have fsub: "tx_free s1 \<subseteq> tx_free s" using rd(3) by simp
  note same1 = tx_same_tx [OF rd(1,2) fsub]
  have inv1: "tx_inv n s1" by (rule same1(6) [OF s(1) rd(4)])
  note al = tx_pages_allocate [OF inv1 run(2)]
  have ex: "extends view (pm_io (ts_pages s1)) (pm_io (ts_pages s2))" "tx_free s2 \<subseteq> tx_free s1"
      "page_data q = replicate n 0" "page_no q \<in> tx_free s1" "page_no q \<notin> tx_free s2"
    using al(3) [OF refl] by blast+
  note same2 = tx_same_tx [OF al(1) ex(1,2)]
  have inv2: "tx_inv n s2" by (rule same2(6) [OF inv1 al(2)])
  define w where "w = page_no q"
  have q': "page_no q' = w" "page_data q' = d" using run(3) old by (auto simp: copy_page_from_def w_def split: if_splits)
  define s3 where "s3 = s2\<lparr>ts_tx := (ts_tx s2)\<lparr>wt_freed_pages := wt_freed_pages (ts_tx s2) @ [pid]\<rparr>\<rparr>"
  have w: "w \<in> tx_free s" "w \<notin> tx_free s2" "tx_dirty s w = None" "w \<notin> tx_freed s" "w \<noteq> pid"
    using free_not_dirty [OF s(1), of w] ex(4,5) rd(3) s by (auto simp: tx_inv_def w_def)
  have s3: "tx_dirty s3 = tx_dirty s" "tx_freed s3 = insert pid (tx_freed s)" "tx_free s3 = tx_free s2" "tx_out s3 = tx_out s"
      "tx_view view s3 = tx_view view s2" "tx_calm m s3 = tx_calm m s2" "ts_pages s3 = ts_pages s2"
      "wt_root_page (ts_tx s3) = wt_root_page (ts_tx s)" for m
    using same1(1-3) same2(1-3) rd(1) al(1) by (auto simp: s3_def tx_defs tx_calm_def fun_eq_iff split: option.splits dirty_page_slot.splits)
  have "tx_inv n s3"
    using inv2 s(3,4) None w ex(2) rd(1,3) al(1) same1(1,2) same2(1,2)
    by (auto simp: tx_inv_def dirty_ok_def s3) (auto simp: s3_def tx_freed_def)
  moreover have t: "p = q'" "t = tx_slot w CheckedOut s3"
    using run(4) [folded s3_def] tracker_add_fresh [of s3 q'] s3(1) w(3) q'(1) by auto
  ultimately have "tx_inv n t" unfolding t(2) using w s3 by (intro tx_slot_inv) (simp_all add: slot_ok_def)
  moreover have "tx_view view s \<subseteq>\<^sub>m tx_view view s3" using map_le_trans [OF same1(5) same2(5)] by (simp add: s3(5))
  then have "keeps_others (tx_view view) {w} s t"
    using map_leD [of "tx_view view s" "tx_view view s3"] by (auto simp: keeps_others_def t(2) tx_slot_view)
  moreover have "tx_calm m t" if "tx_calm (Suc m) s" for m
    using al(4) rd(6) [OF that] by (simp add: t(2) s3(6))
  moreover have "w \<notin> tx_out s" using w(3) by (simp add: tx_out_def)
  moreover have "tx_free t \<subseteq> tx_free s" using ex(2) rd(3) by (simp add: t(2) s3(3))
  ultimately show ?thesis using w q' s3(8) by (simp add: t s3)
qed

lemma tx_allocate_total:
  assumes s: "tx_inv n s" "tx_calm (Suc m) s"
  shows "\<exists>p t. tx_allocate_page K s = (Inr p, t)"
proof -
  obtain r u where a: "on_pages (allocate_page K) s = (r, u)" by fastforce
  note sp = tx_pages_allocate [OF s(1) a]
  obtain q where q: "r = Inr q" using sp(4) [OF s(2)] by blast
  have "tx_dirty s (page_no q) = None" using free_not_dirty [OF s(1)] sp(3) [OF q] by blast
  then have "tx_dirty u (page_no q) = None" using sp(1) by (simp add: tx_dirty_def)
  with a q show ?thesis by (simp add: tx_allocate_page_def tracker_add_fresh)
qed

lemma tx_cow_total:
  assumes s: "tx_inv n s" "tx_view view s pid = Some d" "pid \<notin> tx_free s" "pid \<notin> tx_freed s" "tx_calm (Suc m) s"
  shows "\<exists>p t. cow_page K pid s = (Inr p, t)"
proof (cases "tx_dirty s pid")
  case (Some slot)
  with s(2) obtain q where "slot = Available q" by (auto simp: tx_view_def split: dirty_page_slot.splits)
  with Some show ?thesis by (simp add: cow_page_def tracker_contains_def tx_dirty_def on_dirty_def' tracker_check_out_def)
next
  case None
  have pv: "page_view view (pm_io (ts_pages s)) pid = Some d" using s(2) None by (simp add: tx_view_def)
  obtain r s1 where rd: "on_pages (manager_read_page K pid) s = (r, s1)" by fastforce
  note v = tx_pages_read [OF s(1) pv rd]
  have r: "r = Inr \<lparr>page_no = pid, page_data = d\<rparr>" "tx_calm (Suc m) s1" using v(6) [OF s(5)] by auto
  have fsub: "tx_free s1 \<subseteq> tx_free s" using v(3) by simp
  note same = tx_same_tx [OF v(1,2) fsub]
  have inv1: "tx_inv n s1" by (rule same(6) [OF s(1) v(4)])
  obtain r2 s2 where al: "on_pages (allocate_page K) s1 = (r2, s2)" by fastforce
  note sp = tx_pages_allocate [OF inv1 al]
  obtain q where q: "r2 = Inr q" using sp(4) [OF r(2)] by blast
  have "length d = n" using page_view_length [OF pv] s(1) by (simp add: tx_inv_def)
  then have copy: "copy_page_from d q = Inr (q\<lparr>page_data := d\<rparr>)" using sp(3) [OF q] by (simp add: copy_page_from_def)
  have "tx_dirty s1 (page_no q) = None" using free_not_dirty [OF inv1] sp(3) [OF q] by blast
  then have "tx_dirty s2 (page_no q) = None" using sp(1) by (simp add: tx_dirty_def)
  then have "on_dirty (tracker_add (q\<lparr>page_data := d\<rparr>)) (snd (push_freed pid s2)) = (Inr (q\<lparr>page_data := d\<rparr>),
      tx_slot (page_no q) CheckedOut (snd (push_freed pid s2)))"
    using tracker_add_fresh [of "snd (push_freed pid s2)" "q\<lparr>page_data := d\<rparr>"] by (simp add: push_freed_def tx_dirty_def)
  then show ?thesis
    using None rd r(1) al q copy by (simp add: cow_page_def tracker_contains_def tx_dirty_def push_freed_def)
qed

lemma tx_cow_store: "cow_store (tx_ops K) (tx_view view) tx_out tx_free tx_freed tx_root_sum n (tx_inv n) tx_calm"
proof
  fix s :: "'c tx_state"
  show "length d = n" if "tx_inv n s" "tx_view view s q = Some d" for q d
  proof (cases "tx_dirty s q")
    case None
    with that show ?thesis using page_view_length [of view "pm_io (ts_pages s)" q d] by (simp add: tx_view_def tx_inv_def)
  next
    case (Some slot)
    with that dirty_okD [OF that(1) Some] show ?thesis
      by (auto simp: tx_view_def slot_ok_def split: dirty_page_slot.splits)
  qed
  show "24 \<le> n \<and> n < 2 ^ 63" "tx_free s \<inter> tx_freed s = {}" if "tx_inv n s" using that by (simp_all add: tx_inv_def)
  show "tx_calm k s" if "tx_calm m s" "k \<le> m" for k m using that calm_pm_le [of m "ts_pages s" k] by (simp add: tx_calm_def)
  show "\<exists>t. po_return (tx_ops K) p s = (Inr (), t) \<and> tx_inv n t \<and> tx_out t = tx_out s - {page_no p} \<and> tx_free t = tx_free s
        \<and> tx_freed t = tx_freed s \<and> tx_view view t = (tx_view view s)(page_no p \<mapsto> page_data p)
        \<and> po_get_root (tx_ops K) t = po_get_root (tx_ops K) s \<and> tx_root_sum t = tx_root_sum s \<and> (\<forall>m. tx_calm m s \<longrightarrow> tx_calm m t)"
    if "tx_inv n s" "page_no p \<in> tx_out s" "length (page_data p) = n" for p
  proof -
    have co: "tx_dirty s (page_no p) = Some CheckedOut" using that(2) by (simp add: tx_out_def)
    then have "return_page p s = (Inr (), tx_slot (page_no p) (Available p) s)"
      by (simp add: return_page_def on_dirty_def' tracker_return_page_def tx_dirty_def tx_slot_def)
    moreover have "tx_inv n (tx_slot (page_no p) (Available p) s)"
      using dirty_okD [OF that(1) co] that by (intro tx_slot_inv) (simp_all add: slot_ok_def)
    ultimately show ?thesis by (simp add: tx_ops_def tx_slot_view)
  qed
  show "\<exists>t. po_set_root (tx_ops K) pid c s = (Inr (), t) \<and> tx_inv n t \<and> tx_out t = tx_out s \<and> tx_free t = tx_free s
        \<and> tx_freed t = tx_freed s \<and> tx_view view t = tx_view view s \<and> po_get_root (tx_ops K) t = pid \<and> tx_root_sum t = c
        \<and> (\<forall>m. tx_calm m s \<longrightarrow> tx_calm m t)" if "tx_inv n s" for pid c
  proof -
    define t where "t = s\<lparr>ts_tx := (ts_tx s)\<lparr>wt_root_page := pid, wt_root_page_checksum := c\<rparr>\<rparr>"
    have "tx_dirty t = tx_dirty s" "tx_free t = tx_free s" "tx_freed t = tx_freed s" "tx_out t = tx_out s" "ts_pages t = ts_pages s"
        "wt_dirty_pages (ts_tx t) = wt_dirty_pages (ts_tx s)" "wt_freed_pages (ts_tx t) = wt_freed_pages (ts_tx s)"
        "wt_root_page (ts_tx t) = pid" "tx_root_sum t = c"
      by (simp_all add: t_def tx_defs)
    moreover from this have "tx_inv n t" "tx_view view t = tx_view view s" "tx_calm m s \<Longrightarrow> tx_calm m t" for m
      using that by (simp_all add: tx_inv_def dirty_ok_def tx_calm_def tx_view_def fun_eq_iff split: option.split)
    ultimately show ?thesis by (simp add: tx_ops_def set_root_page_def t_def [symmetric])
  qed
qed (unfold tx_ops_def page_ops.simps, (rule tx_cow_ok tx_cow_total tx_allocate_ok tx_allocate_total; assumption)+)

end

section \<open>The instances\<close>

lemma tx_tree_writer:
  assumes "zerocopy_le X" "moka_cache K cv"
  shows "tree_writer X (tx_ops K) (tx_view cv) tx_out tx_free tx_freed tx_root_sum n (tx_inv n) tx_calm"
  using assms moka_cache.tx_cow_store by (simp add: tree_writer_def)

lemma io_tree_reader:
  assumes "zerocopy_le X" "moka_cache K cv"
  shows "tree_reader X (read_page K) (page_view cv) io_ok calm_io"
    "tree_reader X (manager_read_page K) (\<lambda>s. page_view cv (pm_io s)) (\<lambda>s. io_ok (pm_io s)) (\<lambda>s. calm_io (pm_io s))"
  using assms moka_cache.io_reader moka_cache.manager_reader by (simp_all add: tree_reader_def)

interpretation fifo_io: tree_reader le_crates "read_page fifo_cache" "page_view (\<lambda>c. map_of (snd c))" io_ok calm_io
  by (rule io_tree_reader(1) [OF le.zerocopy_le_axioms fifo.moka_cache_axioms])

interpretation fifo_manager: tree_reader le_crates "manager_read_page fifo_cache" "\<lambda>s. page_view (\<lambda>c. map_of (snd c)) (pm_io s)"
    "\<lambda>s. io_ok (pm_io s)" "\<lambda>s. calm_io (pm_io s)"
  by (rule io_tree_reader(2) [OF le.zerocopy_le_axioms fifo.moka_cache_axioms])

interpretation fifo_tx: tree_writer le_crates "tx_ops fifo_cache" "tx_view (\<lambda>c. map_of (snd c))" tx_out tx_free tx_freed
    tx_root_sum 4096 "tx_inv 4096" tx_calm "\<lambda>_. True"
  by (rule tx_tree_writer [OF le.zerocopy_le_axioms fifo.moka_cache_axioms])

end
