(* ===== verification/Tx_Frame.thy ===== *)
theory Tx_Frame
  imports Tx_Pages
begin

text \<open>
  What an insertion leaves alone, whatever its outcome: no page of the file changes before the commit, and the
  pages that become dirty are pages that no reader can see. The recursion of the tree keeps every reflexive
  and transitive relation that the page operations keep.
\<close>

section \<open>Relations kept by an insertion\<close>

definition body_keeps :: "('s \<Rightarrow> 's \<Rightarrow> bool) \<Rightarrow> (page \<Rightarrow> 's \<Rightarrow> 'a kv_result \<times> page \<times> 's) \<Rightarrow> bool" where
  "body_keeps R b \<longleftrightarrow> (\<forall>p s r p' t. b p s = (r, p', t) \<longrightarrow> R s t)"

lemma body_keepsI: "(\<And>p s r p' t. b p s = (r, p', t) \<Longrightarrow> R s t) \<Longrightarrow> body_keeps R b"
  by (simp add: body_keeps_def)

locale kept_relation =
  fixes R :: "'s \<Rightarrow> 's \<Rightarrow> bool" and ops :: "'s page_ops"
  assumes kept_refl: "R s s" and kept_trans: "R s t \<Longrightarrow> R t u \<Longrightarrow> R s u"
    and kept_cow: "op_keeps R (po_cow ops pid)" and kept_allocate: "op_keeps R (po_allocate ops)"
    and kept_return: "op_keeps R (po_return ops p)" and kept_set_root: "op_keeps R (po_set_root ops pid c)"
begin

lemma with_page_kept:
  assumes "op_keeps R acquire" "\<And>p. op_keeps R (giveback p)" "body_keeps R body"
  shows "op_keeps R (with_page acquire giveback body)"
proof (rule op_keepsI)
  fix s r t
  assume w: "with_page acquire giveback body s = (r, t)"
  obtain a s1 where a: "acquire s = (a, s1)" by fastforce
  have 1: "R s s1" using assms(1) a by (rule op_keepsD)
  show "R s t"
  proof (cases a)
    case (Inl e)
    with w a 1 show ?thesis by (simp add: with_page_def)
  next
    case (Inr p)
    obtain b p' s2 where b: "body p s1 = (b, p', s2)" by (metis prod_cases3)
    obtain g u where g: "giveback p' s2 = (g, u)" by fastforce
    have "R s1 s2" using assms(3) b by (simp add: body_keeps_def)
    moreover have "R s2 u" using assms(2) g by (rule op_keepsD)
    moreover have "t = u" using w a Inr b g by (auto simp: with_page_def split: sum.splits)
    ultimately show ?thesis using 1 kept_trans by blast
  qed
qed

lemma split_node_kept: "split_node X ops build page s = (r, p', t) \<Longrightarrow> R s t"
proof -
  assume sp: "split_node X ops build page s = (r, p', t)"
  define body where "body = (\<lambda>(right_page :: page) (s :: 's).
      case and_then (build (replicate (length (page_data page)) 0) (page_data right_page))
             (\<lambda>(separator_key, left_scratch, right_data). and_then (copy_page_from left_scratch page) (\<lambda>page.
                Inr (separator_key, page, right_page\<lparr>page_data := right_data\<rparr>))) of
        Inl e \<Rightarrow> (Inl e, right_page, s)
      | Inr (separator_key, page, right_page) \<Rightarrow>
          (Inr (\<lparr>ir_replacement_page_id = page_no page, ir_replacement_page_checksum = checksum_page X (page_data page),
             ir_split = Some \<lparr>ps_separator_key = separator_key, ps_right_page_id = page_no right_page,
               ps_right_page_checksum = checksum_page X (page_data right_page)\<rparr>\<rparr>, page), right_page, s))"
  have "body_keeps R body" using kept_refl by (auto simp: body_keeps_def body_def split: sum.splits prod.splits)
  then have k: "op_keeps R (with_page (po_allocate ops) (po_return ops) body)"
    by (rule with_page_kept [OF kept_allocate kept_return])
  obtain q u where q: "with_page (po_allocate ops) (po_return ops) body s = (q, u)" by fastforce
  have "t = u" using sp q by (auto simp: split_node_def body_def split: sum.splits prod.splits)
  with op_keepsD [OF k q] show ?thesis by simp
qed

lemma insert_leaf_kept: "insert_leaf X ops key val p s = (r, p', t) \<Longrightarrow> R s t"
  using kept_refl split_node_kept
  by (auto simp: insert_leaf_def in_place_def split: sum.splits bool.splits)

lemma insert_branch_kept:
  assumes "\<And>c. op_keeps R (insert_child c)" "insert_branch X ops insert_child key p s = (r, p', t)"
  shows "R s t"
proof (cases "child_page_for_key X (page_data p) key")
  case (Inl e)
  with assms(2) kept_refl show ?thesis by (simp add: insert_branch_def)
next
  case (Inr ic)
  obtain i c where ic: "ic = (i, c)" by fastforce
  obtain q s1 where q: "insert_child c s = (q, s1)" by fastforce
  have 1: "R s s1" using assms(1) q by (rule op_keepsD)
  have "R s1 t"
    using assms(2) Inr ic q kept_refl split_node_kept
    by (auto simp: insert_branch_def in_place_def split: sum.splits bool.splits option.splits)
  with 1 show ?thesis by (rule kept_trans)
qed

lemma insert_recursive_kept: "op_keeps R (insert_recursive frames X ops key val pid)"
proof (induction frames arbitrary: pid)
  case 0
  show ?case using kept_refl by (simp add: op_keeps_def)
next
  case (Suc frames)
  show ?case
    unfolding insert_recursive.simps
    by (rule with_page_kept [OF kept_cow kept_return], rule body_keepsI)
      (use kept_refl insert_leaf_kept insert_branch_kept [OF Suc] in \<open>auto split: sum.splits node_kind.splits\<close>)
qed

lemma tree_insert_kept: "op_keeps R (tree_insert frames X ops key val)"
proof (rule op_keepsI)
  fix s r t
  assume ti: "tree_insert frames X ops key val s = (r, t)"
  obtain q s1 where q: "insert_recursive frames X ops key val (po_get_root ops s) s = (q, s1)" by fastforce
  have 1: "R s s1" using insert_recursive_kept q by (rule op_keepsD)
  show "R s t"
  proof (cases q)
    case (Inl e)
    with ti q 1 show ?thesis by (simp add: tree_insert_def)
  next
    case (Inr res)
    show ?thesis
    proof (cases "ir_split res")
      case None
      then have "po_set_root ops (ir_replacement_page_id res) (ir_replacement_page_checksum res) s1 = (r, t)"
        using ti q Inr by (simp add: tree_insert_def)
      then show ?thesis using op_keepsD [OF kept_set_root] kept_trans [OF 1] by blast
    next
      case (Some sp)
      define body where "body = (\<lambda>(new_root_page :: page) (s :: 's).
             case branch_build_page_at_buf X
                    (branch_builder_new_root (ir_replacement_page_id res) (ir_replacement_page_checksum res)
                       (ps_separator_key sp) (ps_right_page_id sp) (ps_right_page_checksum sp))
                    (page_data new_root_page) of
               Inl e \<Rightarrow> (Inl e, new_root_page, s)
             | Inr data \<Rightarrow>
                 (case po_set_root ops (page_no new_root_page) (checksum_page X data) s of
                    (r, s) \<Rightarrow> (r, new_root_page\<lparr>page_data := data\<rparr>, s)))"
      have "body_keeps R body"
        using kept_refl op_keepsD [OF kept_set_root] by (auto simp: body_keeps_def body_def split: sum.splits prod.splits)
      then have k: "op_keeps R (with_page (po_allocate ops) (po_return ops) body)"
        by (rule with_page_kept [OF kept_allocate kept_return])
      have "with_page (po_allocate ops) (po_return ops) body s1 = (r, t)"
        using ti q Inr Some by (simp add: tree_insert_def body_def)
      then show ?thesis using op_keepsD [OF k] kept_trans [OF 1] by blast
    qed
  qed
qed

end

section \<open>Pages out of the sight of readers\<close>

text \<open>The pages that the allocator may hand out while the present readers are active.\<close>

definition reclaimable :: "'c page_manager \<Rightarrow> page_id set" where
  "reclaimable s = {pid. next_page_id (pm_alloc s) \<le> pid}
     \<union> {fp_page_id f | f. f \<in> set (pending_free_pages (pm_alloc s)) \<and> (\<forall>(tx, k) \<in> set (pm_readers s). fp_transaction_id f < tx)}"

lemma reclaimable_avail: "reclaimable s \<subseteq> avail s"
  by (auto simp: reclaimable_def avail_def pending_ids_def)

definition readers_safe :: "'c page_manager \<Rightarrow> bool" where
  "readers_safe s \<longleftrightarrow> pm_safe s \<and> tracker_ok (pm_readers s)"

definition pm_frame :: "('c \<Rightarrow> page_id \<Rightarrow> bytes option) \<Rightarrow> 'c page_manager \<Rightarrow> 'c page_manager \<Rightarrow> bool" where
  "pm_frame cv s t \<longleftrightarrow> readers_safe t \<and> extends cv (pm_io s) (pm_io t) \<and> pm_readers t = pm_readers s
     \<and> next_page_id (pm_alloc s) \<le> next_page_id (pm_alloc t)
     \<and> set (pending_free_pages (pm_alloc t)) \<subseteq> set (pending_free_pages (pm_alloc s))"

lemma pm_frame_refl: "readers_safe s \<Longrightarrow> pm_frame cv s s"
  by (simp add: pm_frame_def)

lemma pm_frame_trans: "pm_frame cv s t \<Longrightarrow> pm_frame cv t u \<Longrightarrow> pm_frame cv s u"
  unfolding pm_frame_def by (metis extends_trans order_trans)

lemma pm_frame_sets:
  assumes "pm_frame cv s t"
  shows "reclaimable t \<subseteq> reclaimable s" "avail t \<subseteq> avail s"
proof -
  note f = assms [unfolded pm_frame_def]
  have n: "next_page_id (pm_alloc s) \<le> pid" if "next_page_id (pm_alloc t) \<le> pid" for pid
    using f that by (blast intro: order_trans)
  have p: "f \<in> set (pending_free_pages (pm_alloc s))" if "f \<in> set (pending_free_pages (pm_alloc t))" for f
    using f that by blast
  have r: "pm_readers t = pm_readers s" using f by blast
  show "reclaimable t \<subseteq> reclaimable s" unfolding reclaimable_def r using n p by blast
  show "avail t \<subseteq> avail s" using n p by (auto simp: avail_def pending_ids_def)
qed

lemma allocate_page_id_frame:
  assumes "allocate_page_id s = (r, t)" "readers_safe s"
  shows "pm_frame cv s t" "r = Inr pid \<Longrightarrow> pid \<in> reclaimable s"
proof -
  have safe: "pm_safe s" "tracker_ok (pm_readers s)" using assms(2) by (simp_all add: readers_safe_def)
  note sp = allocate_page_id_spec [OF assms(1) safe(1)]
  have "set (pending_free_pages (pm_alloc t)) \<subseteq> set (pending_free_pages (pm_alloc s)) \<and> (r = Inr pid \<longrightarrow> pid \<in> reclaimable s)"
    using assms(1)
  proof (cases rule: allocate_page_id_cases)
    case (reuse freed rest)
    have "fp_transaction_id freed < tx" if "(tx, n) \<in> set (pm_readers s)" for tx n
    proof -
      from that obtain t0 n0 rs where rs: "pm_readers s = (t0, n0) # rs" by (cases "pm_readers s") auto
      then have "fp_transaction_id freed < t0" by (rule reuse(4))
      also have "t0 \<le> tx" using safe(2) rs that by (auto simp: tracker_ok_def)
      finally show ?thesis .
    qed
    then have "fp_page_id freed \<in> reclaimable s" unfolding reclaimable_def using reuse(1) by auto
    with reuse show ?thesis by auto
  next
    case (grow q g)
    then show ?thesis by (cases q) (auto simp: reclaimable_def)
  qed (auto simp: reclaimable_def)
  with sp(1-3,5) safe(2) show "pm_frame cv s t" "r = Inr pid \<Longrightarrow> pid \<in> reclaimable s"
    by (auto simp: pm_frame_def readers_safe_def)
qed

text \<open>The frame of a transaction: when the readers are safe, they stay safe, pages keep what they hold, and
  pages that become dirty were out of the sight of readers.\<close>

definition tx_frame :: "('c \<Rightarrow> page_id \<Rightarrow> bytes option) \<Rightarrow> 'c tx_state \<Rightarrow> 'c tx_state \<Rightarrow> bool" where
  "tx_frame cv s t \<longleftrightarrow> (readers_safe (ts_pages s) \<longrightarrow>
     pm_frame cv (ts_pages s) (ts_pages t) \<and> dom (tx_dirty t) \<subseteq> dom (tx_dirty s) \<union> reclaimable (ts_pages s)
     \<and> wt_transaction (ts_tx t) = wt_transaction (ts_tx s) \<and> wt_failed (ts_tx t) = wt_failed (ts_tx s))"

lemma tx_frame_refl: "tx_frame cv s s"
  by (simp add: tx_frame_def pm_frame_refl)

lemma tx_frame_trans:
  assumes "tx_frame cv s t" "tx_frame cv t u"
  shows "tx_frame cv s u"
  unfolding tx_frame_def
proof
  assume "readers_safe (ts_pages s)"
  with assms(1) have 1: "pm_frame cv (ts_pages s) (ts_pages t)" "dom (tx_dirty t) \<subseteq> dom (tx_dirty s) \<union> reclaimable (ts_pages s)"
      "wt_transaction (ts_tx t) = wt_transaction (ts_tx s)" "wt_failed (ts_tx t) = wt_failed (ts_tx s)"
    by (simp_all add: tx_frame_def)
  then have "readers_safe (ts_pages t)" by (simp add: pm_frame_def)
  with assms(2) have 2: "pm_frame cv (ts_pages t) (ts_pages u)" "dom (tx_dirty u) \<subseteq> dom (tx_dirty t) \<union> reclaimable (ts_pages t)"
      "wt_transaction (ts_tx u) = wt_transaction (ts_tx t)" "wt_failed (ts_tx u) = wt_failed (ts_tx t)"
    by (simp_all add: tx_frame_def)
  have "dom (tx_dirty u) \<subseteq> dom (tx_dirty s) \<union> reclaimable (ts_pages s)"
    using 1(2) 2(2) pm_frame_sets(1) [OF 1(1)] by blast
  then show "pm_frame cv (ts_pages s) (ts_pages u) \<and> dom (tx_dirty u) \<subseteq> dom (tx_dirty s) \<union> reclaimable (ts_pages s)
      \<and> wt_transaction (ts_tx u) = wt_transaction (ts_tx s) \<and> wt_failed (ts_tx u) = wt_failed (ts_tx s)"
    using pm_frame_trans [OF 1(1) 2(1)] 1(3,4) 2(3,4) by simp
qed

context moka_cache
begin

lemma manager_read_frame:
  assumes "manager_read_page K pid s = (r, t)" "readers_safe s"
  shows "pm_frame view s t"
proof -
  obtain io where io: "read_page K pid (pm_io s) = (r, io)" "t = s\<lparr>pm_io := io\<rparr>" using manager_read_pageD [OF assms(1)] by blast
  have "extends view (pm_io s) io" using op_keepsD [OF read_page_extends io(1)] .
  with assms(2) io(2) show ?thesis by (auto simp: pm_frame_def readers_safe_def pm_safe_def pending_ids_def extends_def)
qed

lemma allocate_page_frame:
  assumes "allocate_page K s = (r, t)" "readers_safe s"
  shows "pm_frame view s t" "r = Inr p \<Longrightarrow> page_no p \<in> reclaimable s"
proof -
  obtain q u where a: "allocate_page_id s = (q, u)" by fastforce
  note f = allocate_page_id_frame [OF a assms(2)]
  have rt: "(r, t) = (case q of Inl e \<Rightarrow> (Inl e, u)
      | Inr pid \<Rightarrow> (Inr (page_zeroed pid (unat (io_page_size (pm_io u)))), u\<lparr>pm_io := remove_page K pid (pm_io u)\<rparr>))"
    using assms(1) a by (auto simp: allocate_page_def bind_op_def split: sum.splits)
  have "pm_frame view u (u\<lparr>pm_io := remove_page K pid (pm_io u)\<rparr>)" for pid
    using f(1) [of view] remove_page_extends [of "pm_io u" pid]
    by (auto simp: pm_frame_def readers_safe_def pm_safe_def pending_ids_def extends_def)
  then show "pm_frame view s t" using rt f(1) by (cases q) (auto intro: pm_frame_trans)
  show "r = Inr p \<Longrightarrow> page_no p \<in> reclaimable s" using rt f(2) by (cases q) (auto simp: page_zeroed_def)
qed

lemma on_pages_frame:
  assumes "\<And>r t. readers_safe (ts_pages s) \<Longrightarrow> m (ts_pages s) = (r, t) \<Longrightarrow> pm_frame cv (ts_pages s) t" "on_pages m s = (r, t)"
  shows "tx_frame cv s t"
  using assms by (auto simp: on_pages_def' tx_frame_def tx_dirty_def split: prod.splits)

lemma tx_allocate_frame: "op_keeps (tx_frame view) (tx_allocate_page K)"
proof (rule op_keepsI)
  fix s r t
  assume al: "tx_allocate_page K s = (r, t)"
  obtain q u where a: "on_pages (allocate_page K) s = (q, u)" by fastforce
  have 1: "tx_frame view s u" by (rule on_pages_frame [OF _ a]) (rule allocate_page_frame)
  show "tx_frame view s t"
  proof (cases q)
    case (Inl e)
    with al a 1 show ?thesis by (simp add: tx_allocate_page_def)
  next
    case (Inr p)
    have t: "ts_pages t = ts_pages u" "dom (tx_dirty t) = insert (page_no p) (dom (tx_dirty u))"
        "wt_transaction (ts_tx t) = wt_transaction (ts_tx u)" "wt_failed (ts_tx t) = wt_failed (ts_tx u)"
      using al a Inr by (auto simp: tx_allocate_page_def on_dirty_def' tracker_add_def tx_dirty_def split: if_splits)
    have "page_no p \<in> reclaimable (ts_pages s)" if "readers_safe (ts_pages s)"
      using a Inr that allocate_page_frame(2) [of "ts_pages s" q "ts_pages u" p]
      by (auto simp: on_pages_def' split: prod.splits)
    with 1 show ?thesis by (auto simp: tx_frame_def t)
  qed
qed

lemma tx_cow_frame: "op_keeps (tx_frame view) (cow_page K pid)"
proof (rule op_keepsI)
  fix s r t
  assume cow: "cow_page K pid s = (r, t)"
  show "tx_frame view s t"
  proof (cases "tracker_contains pid (wt_dirty_pages (ts_tx s))")
    case True
    then obtain slot where slot: "hm_get (wt_dirty_pages (ts_tx s)) pid = Some slot" by (auto simp: tracker_contains_def)
    then have "t = tx_slot pid CheckedOut s"
      using cow True by (auto simp: cow_page_def on_dirty_def' tracker_check_out_def tx_slot_def)
    moreover have "wt_transaction (ts_tx (tx_slot pid CheckedOut s)) = wt_transaction (ts_tx s)"
        "wt_failed (ts_tx (tx_slot pid CheckedOut s)) = wt_failed (ts_tx s)" by (simp_all add: tx_slot_def)
    ultimately show ?thesis using slot by (auto simp: tx_frame_def tx_dirty_def [symmetric] intro: pm_frame_refl)
  next
    case False
    obtain q s1 where rd: "on_pages (manager_read_page K pid) s = (q, s1)" by fastforce
    have 1: "tx_frame view s s1" by (rule on_pages_frame [OF _ rd]) (rule manager_read_frame)
    show ?thesis
    proof (cases q)
      case (Inl e)
      with cow False rd 1 show ?thesis by (simp add: cow_page_def)
    next
      case (Inr old)
      obtain q2 s2 where al: "on_pages (allocate_page K) s1 = (q2, s2)" by fastforce
      have 2: "tx_frame view s1 s2" by (rule on_pages_frame [OF _ al]) (rule allocate_page_frame)
      show ?thesis
      proof (cases q2)
        case (Inl e)
        with cow False rd al Inr tx_frame_trans [OF 1 2] show ?thesis by (simp add: cow_page_def)
      next
        case q2: (Inr p)
        have new: "page_no p \<in> reclaimable (ts_pages s1)" if "readers_safe (ts_pages s1)"
          using al q2 that allocate_page_frame(2) [of "ts_pages s1" q2 "ts_pages s2" p]
          by (auto simp: on_pages_def' split: prod.splits)
        have "t = s2 \<or> ts_pages t = ts_pages s2 \<and> dom (tx_dirty t) = insert (page_no p) (dom (tx_dirty s2))
            \<and> wt_transaction (ts_tx t) = wt_transaction (ts_tx s2) \<and> wt_failed (ts_tx t) = wt_failed (ts_tx s2)"
          using cow False rd Inr al q2
          by (auto simp: cow_page_def copy_page_from_def push_freed_def on_dirty_def' tracker_add_def tx_dirty_def split: if_splits)
        then have "tx_frame view s1 t"
        proof
          assume t: "ts_pages t = ts_pages s2 \<and> dom (tx_dirty t) = insert (page_no p) (dom (tx_dirty s2))
            \<and> wt_transaction (ts_tx t) = wt_transaction (ts_tx s2) \<and> wt_failed (ts_tx t) = wt_failed (ts_tx s2)"
          show ?thesis using 2 new unfolding tx_frame_def using t by (metis Un_iff insert_subset)
        qed (use 2 in simp)
        with tx_frame_trans [OF 1] show ?thesis by blast
      qed
    qed
  qed
qed

lemma tx_return_frame: "op_keeps (tx_frame cv) (return_page p)"
  by (auto simp: op_keeps_def return_page_def on_dirty_def' tracker_return_page_def tx_frame_def tx_dirty_def pm_frame_refl
      split: option.splits dirty_page_slot.splits if_splits)

lemma tx_kept: "kept_relation (tx_frame view) (tx_ops K)"
proof
  show "op_keeps (tx_frame view) (po_set_root (tx_ops K) pid c)" for pid c
    by (auto simp: op_keeps_def tx_ops_def set_root_page_def tx_frame_def tx_dirty_def pm_frame_refl)
qed (use tx_frame_refl tx_frame_trans tx_cow_frame tx_allocate_frame tx_return_frame in \<open>auto simp: tx_ops_def\<close>)

end

interpretation fifo_frame: kept_relation "tx_frame (\<lambda>c. map_of (snd c))" "tx_ops fifo_cache"
  by (rule fifo.tx_kept)


end
