(* ===== verification/Snapshots.thy ===== *)
theory Snapshots
  imports Database Tx_Frame
begin

text \<open>
  The database as a state machine, and what it promises. A \<open>world\<close> is the shared state with the write
  transaction and the read transactions that are open; \<open>db_step\<close> runs one call of the public interface on it,
  with its result in the event. The specification \<open>spec_step\<close> knows maps only: the committed map, the map
  of the write transaction and the snapshot of each reader. The relation \<open>db_sim\<close> ties both together.

  The steps of different transactions interleave in any order. A panic during a write transaction drops the
  transaction; \<open>begin_read\<close> is one step, taking the snapshot together with the registration of the reader.
\<close>

section \<open>The state machine\<close>

record 'c world =
  w_db :: "'c database"
  w_writer :: "write_transaction option"
  w_readers :: "read_transaction list"

datatype db_event =
    BeginRead
  | ReadKey nat bytes "bytes option kv_result"
  | EndRead nat
  | BeginWrite
  | InsertPair bytes bytes "unit kv_result"
  | CommitTx "unit kv_result"
  | Rollback

definition panicked :: "'a kv_result \<Rightarrow> bool" where
  "panicked r \<longleftrightarrow> (case r of Inl (Panic _) \<Rightarrow> True | _ \<Rightarrow> False)"

definition remove_nth :: "nat \<Rightarrow> 'a list \<Rightarrow> 'a list" where
  "remove_nth i xs = take i xs @ drop (Suc i) xs"

inductive db_step :: "nat \<Rightarrow> kv_crates \<Rightarrow> 'c moka \<Rightarrow> 'c world \<Rightarrow> db_event \<Rightarrow> 'c world \<Rightarrow> bool" for N X K where
  begin_read: "begin_read (w_db w) = (Inr rt, db) \<Longrightarrow>
    db_step N X K w BeginRead (w\<lparr>w_db := db, w_readers := w_readers w @ [rt]\<rparr>)"
| read_key: "i < length (w_readers w) \<Longrightarrow> transaction_read N X K (w_readers w ! i) key (w_db w) = Some (r, db) \<Longrightarrow>
    db_step N X K w (ReadKey i key r) (w\<lparr>w_db := db\<rparr>)"
| end_read: "i < length (w_readers w) \<Longrightarrow> end_read (w_readers w ! i) (w_db w) = (Inr (), db) \<Longrightarrow>
    db_step N X K w (EndRead i) (w\<lparr>w_db := db, w_readers := remove_nth i (w_readers w)\<rparr>)"
| begin_write: "w_writer w = None \<Longrightarrow> begin_write (w_db w) = Inr wt \<Longrightarrow>
    db_step N X K w BeginWrite (w\<lparr>w_writer := Some wt\<rparr>)"
| insert_pair: "w_writer w = Some wt \<Longrightarrow> transaction_insert N X K key val (w_db w, wt) = (r, db, wt') \<Longrightarrow>
    db_step N X K w (InsertPair key val r) (w\<lparr>w_db := db, w_writer := if panicked r then None else Some wt'\<rparr>)"
| commit_tx: "w_writer w = Some wt \<Longrightarrow> commit X K wt (w_db w) = (r, db) \<Longrightarrow>
    db_step N X K w (CommitTx r) (w\<lparr>w_db := db, w_writer := None\<rparr>)"
| rollback: "w_writer w = Some wt \<Longrightarrow> db_step N X K w Rollback (w\<lparr>w_writer := None\<rparr>)"

inductive_cases db_stepE: "db_step N X K w e w'"

section \<open>The specification\<close>

type_synonym kv_map = "bytes \<rightharpoonup> bytes"

record spec =
  sp_committed :: kv_map
  sp_working :: "kv_map option"
  sp_snapshots :: "kv_map list"

inductive spec_step :: "spec \<Rightarrow> db_event \<Rightarrow> spec \<Rightarrow> bool" where
  spec_begin_read: "spec_step a BeginRead (a\<lparr>sp_snapshots := sp_snapshots a @ [sp_committed a]\<rparr>)"
| spec_read: "i < length (sp_snapshots a) \<Longrightarrow> r = Inr ((sp_snapshots a ! i) key) \<or> (\<exists>m. r = Inl (Fail (IoError m))) \<Longrightarrow>
    spec_step a (ReadKey i key r) a"
| spec_end_read: "i < length (sp_snapshots a) \<Longrightarrow>
    spec_step a (EndRead i) (a\<lparr>sp_snapshots := remove_nth i (sp_snapshots a)\<rparr>)"
| spec_begin_write: "spec_step a BeginWrite (a\<lparr>sp_working := Some (sp_committed a)\<rparr>)"
| spec_insert: "sp_working a = Some m \<Longrightarrow>
    spec_step a (InsertPair key val (Inr ())) (a\<lparr>sp_working := Some (m(key \<mapsto> val))\<rparr>)"
| spec_insert_failed: "spec_step a (InsertPair key val (Inl e)) (a\<lparr>sp_working := None\<rparr>)"
| spec_commit: "sp_working a = Some m \<Longrightarrow>
    spec_step a (CommitTx (Inr ())) (a\<lparr>sp_committed := m, sp_working := None\<rparr>)"
| spec_commit_failed: "spec_step a (CommitTx (Inl e)) (a\<lparr>sp_working := None\<rparr>)"
| spec_rollback: "spec_step a Rollback (a\<lparr>sp_working := None\<rparr>)"

section \<open>The relation between them\<close>

text \<open>The tree at \<open>root\<close> holds the map \<open>m\<close> on the pages \<open>P\<close>.\<close>

definition holds :: "kv_crates \<Rightarrow> (page_id \<Rightarrow> bytes option) \<Rightarrow> page_id \<Rightarrow> u128 \<Rightarrow> kv_map \<Rightarrow> page_id set \<Rightarrow> bool" where
  "holds X V root c m P \<longleftrightarrow> (\<exists>h. rooted h X (\<lambda>_. True) V root c \<and> map_of (tree_pairs h X V root) = m
     \<and> set (tree_pages h X V root) = P)"

definition counted :: "read_tracker \<Rightarrow> transaction_id list \<Rightarrow> bool" where
  "counted rs txs \<longleftrightarrow> (\<forall>tx. count_list txs tx = (case map_of rs tx of None \<Rightarrow> 0 | Some k \<Rightarrow> unat k))"

definition pages_inv :: "nat \<Rightarrow> 'c page_manager \<Rightarrow> bool" where
  "pages_inv n pm \<longleftrightarrow> readers_safe pm \<and> psize (pm_io pm) = n \<and> 24 \<le> n \<and> n < 2 ^ 63 \<and> 0 \<notin> avail pm"

text \<open>A reader: its pages are neither the header, nor dirty, nor fresh, nor freed before its snapshot.\<close>

definition reader_ok ::
    "('c \<Rightarrow> page_id \<Rightarrow> bytes option) \<Rightarrow> kv_crates \<Rightarrow> 'c page_manager \<Rightarrow> transaction_id \<Rightarrow> page_id set \<Rightarrow> read_transaction
     \<Rightarrow> kv_map \<Rightarrow> bool" where
  "reader_ok cv X pm T D rt m \<longleftrightarrow> rt_transaction rt \<le> T
     \<and> (\<exists>c P. holds X (page_view cv (pm_io pm)) (rt_root_page_id rt) c m P \<and> 0 \<notin> P \<and> P \<inter> D = {}
          \<and> (\<forall>q \<in> P. q < next_page_id (pm_alloc pm))
          \<and> (\<forall>f \<in> set (pending_free_pages (pm_alloc pm)). fp_page_id f \<in> P \<longrightarrow> rt_transaction rt < fp_transaction_id f))"

definition committed_ok ::
    "('c \<Rightarrow> page_id \<Rightarrow> bytes option) \<Rightarrow> kv_crates \<Rightarrow> 'c page_manager \<Rightarrow> commit_slot \<Rightarrow> page_id set \<Rightarrow> kv_map \<Rightarrow> bool" where
  "committed_ok cv X pm slot D m \<longleftrightarrow>
     (\<exists>P. holds X (page_view cv (pm_io pm)) (root_page_id slot) (root_page_checksum slot) m P
        \<and> P \<inter> ({0} \<union> D \<union> avail pm) = {} \<and> (\<forall>q \<in> P. q < slot_next_page_id slot))
     \<and> (\<forall>f \<in> set (pending_free_pages (pm_alloc pm)). fp_transaction_id f \<le> slot_transaction_id slot)"

definition writer_ok ::
    "('c \<Rightarrow> page_id \<Rightarrow> bytes option) \<Rightarrow> kv_crates \<Rightarrow> nat \<Rightarrow> 'c page_manager \<Rightarrow> commit_slot \<Rightarrow> write_transaction
     \<Rightarrow> kv_map option \<Rightarrow> bool" where
  "writer_ok cv X n pm slot wt working \<longleftrightarrow>
     slot_transaction_id slot \<noteq> - 1 \<and> wt_transaction wt = slot_transaction_id slot + 1
     \<and> hm_get (wt_dirty_pages wt) 0 = None
     \<and> (if wt_failed wt then working = None
        else let s = \<lparr>ts_pages = pm, ts_tx = wt\<rparr> in
          tx_inv n s \<and> tx_out s = {} \<and> 0 \<notin> tx_freed s
          \<and> (\<exists>m P. working = Some m \<and> holds X (tx_view cv s) (wt_root_page wt) (wt_root_page_checksum wt) m P
               \<and> P \<inter> ({0} \<union> tx_free s \<union> tx_freed s) = {}))"

definition dirty_keys :: "write_transaction option \<Rightarrow> page_id set" where
  "dirty_keys w = (case w of None \<Rightarrow> {} | Some wt \<Rightarrow> dom (hm_get (wt_dirty_pages wt)))"

definition db_sim :: "('c \<Rightarrow> page_id \<Rightarrow> bytes option) \<Rightarrow> kv_crates \<Rightarrow> nat \<Rightarrow> 'c world \<Rightarrow> spec \<Rightarrow> bool" where
  "db_sim cv X n w a \<longleftrightarrow>
     (\<exists>slot. header_ok (db_commit_header (w_db w)) \<and> active_slot (db_commit_header (w_db w)) = Inr slot
        \<and> db_snapshot (w_db w) = (root_page_id slot, slot_transaction_id slot)
        \<and> pages_inv n (db_pages (w_db w)) \<and> counted (pm_readers (db_pages (w_db w))) (map rt_transaction (w_readers w))
        \<and> committed_ok cv X (db_pages (w_db w)) slot (dirty_keys (w_writer w)) (sp_committed a)
        \<and> list_all2 (reader_ok cv X (db_pages (w_db w)) (slot_transaction_id slot) (dirty_keys (w_writer w)))
            (w_readers w) (sp_snapshots a)
        \<and> (case w_writer w of
             None \<Rightarrow> sp_working a = None
           | Some wt \<Rightarrow> writer_ok cv X n (db_pages (w_db w)) slot wt (sp_working a)))"

end
