(* ===== verification/Snapshots_Props.thy ===== *)
theory Snapshots_Props
  imports Snapshots
begin

text \<open>
  The database implements its specification: \<open>db_step\<close> refines \<open>spec_step\<close>. Every reader sees the map that was
  committed when it started, a write transaction sees its own insertions, a commit makes them the committed
  map at once, and a failure of the operating system in any call never spoils what is committed.
\<close>

section \<open>Trees that stay\<close>

lemma holds_keep:
  assumes "holds X V root c m P" "\<forall>q \<in> P. \<forall>x. V q = Some x \<longrightarrow> V' q = Some x"
  shows "holds X V' root c m P"
proof -
  obtain h where h: "rooted h X (\<lambda>_. True) V root c" "map_of (tree_pairs h X V root) = m" "set (tree_pages h X V root) = P"
    using assms(1) by (auto simp: holds_def)
  have sub: "subtree h X (\<lambda>_. True) V [] None root" using h(1) by (simp add: rooted_def)
  have same: "\<forall>q \<in> set (tree_pages h X V root). V' q = V q"
    using subtree_dom [OF sub] assms(2) h(3) by force
  note c = tree_cong [OF same]
  have "V' root = V root" using same by simp
  then have "rooted h X (\<lambda>_. True) V' root c" using h(1) c by (simp add: rooted_def checksummed_def)
  with h(2,3) c show ?thesis by (auto simp: holds_def)
qed

lemma holds_le: "V \<subseteq>\<^sub>m V' \<Longrightarrow> holds X V root c m P \<Longrightarrow> holds X V' root c m P"
  by (rule holds_keep) (auto dest: map_leD)

lemma holds_root: "holds X V root c m P \<Longrightarrow> root \<in> P"
  by (auto simp: holds_def)

lemma holds_dom: "holds X V root c m P \<Longrightarrow> q \<in> P \<Longrightarrow> \<exists>d. V q = Some d"
  using subtree_dom by (fastforce simp: holds_def rooted_def)

section \<open>Steps that change no page\<close>

lemma frame_view: "pm_frame cv pm pm' \<Longrightarrow> page_view cv (pm_io pm) \<subseteq>\<^sub>m page_view cv (pm_io pm')"
  by (simp add: pm_frame_def extends_def)

lemma frame_pages_inv: "pm_frame cv pm pm' \<Longrightarrow> pages_inv n pm \<Longrightarrow> pages_inv n pm'"
  using pm_frame_sets(2) [of cv pm pm'] by (auto simp: pages_inv_def pm_frame_def extends_def psize_def)

lemma frame_committed:
  assumes "pm_frame cv pm pm'" "committed_ok cv X pm slot D m" "D' \<subseteq> D \<union> reclaimable pm"
  shows "committed_ok cv X pm' slot D' m"
proof -
  obtain P where P: "holds X (page_view cv (pm_io pm)) (root_page_id slot) (root_page_checksum slot) m P"
      "P \<inter> ({0} \<union> D \<union> avail pm) = {}" "\<forall>q \<in> P. q < slot_next_page_id slot"
    using assms(2) by (auto simp: committed_ok_def)
  have "P \<inter> ({0} \<union> D' \<union> avail pm') = {}"
    using P(2) assms(3) pm_frame_sets(2) [OF assms(1)] reclaimable_avail by blast
  moreover have "\<forall>f \<in> set (pending_free_pages (pm_alloc pm')). fp_transaction_id f \<le> slot_transaction_id slot"
    using assms(1,2) by (auto simp: committed_ok_def pm_frame_def)
  ultimately show ?thesis using holds_le [OF frame_view [OF assms(1)] P(1)] P(3) by (auto simp: committed_ok_def)
qed

lemma counted_member:
  assumes "counted rs txs" "tx \<in> set txs"
  shows "\<exists>k. (tx, k) \<in> set rs"
proof -
  have "count_list txs tx \<noteq> 0" using assms(2) by (simp add: count_list_0_iff)
  then obtain k where "map_of rs tx = Some k" using assms(1) by (fastforce simp: counted_def split: option.splits)
  then show ?thesis by (blast dest: map_of_SomeD)
qed

lemma frame_reader:
  assumes "pm_frame cv pm pm'" "reader_ok cv X pm T D rt m" "D' \<subseteq> D \<union> reclaimable pm" "(rt_transaction rt, k) \<in> set (pm_readers pm)"
  shows "reader_ok cv X pm' T D' rt m"
proof -
  obtain c P where P: "holds X (page_view cv (pm_io pm)) (rt_root_page_id rt) c m P" "0 \<notin> P" "P \<inter> D = {}"
      "\<forall>q \<in> P. q < next_page_id (pm_alloc pm)"
      "\<forall>f \<in> set (pending_free_pages (pm_alloc pm)). fp_page_id f \<in> P \<longrightarrow> rt_transaction rt < fp_transaction_id f"
    using assms(2) by (auto simp: reader_ok_def)
  have "q \<notin> reclaimable pm" if "q \<in> P" for q
    using P(4,5) that assms(4) by (fastforce simp: reclaimable_def)
  then have D': "P \<inter> D' = {}" using P(3) assms(3) by blast
  have next_id: "\<forall>q \<in> P. q < next_page_id (pm_alloc pm')" using P(4) assms(1) by (auto simp: pm_frame_def)
  have pend: "\<forall>f \<in> set (pending_free_pages (pm_alloc pm')). fp_page_id f \<in> P \<longrightarrow> rt_transaction rt < fp_transaction_id f"
    using P(5) assms(1) by (auto simp: pm_frame_def)
  have "rt_transaction rt \<le> T" using assms(2) by (simp add: reader_ok_def)
  with holds_le [OF frame_view [OF assms(1)] P(1)] P(2) D' next_id pend show ?thesis unfolding reader_ok_def by blast
qed

lemma frame_writer:
  assumes "pm_frame cv pm pm'" "writer_ok cv X n pm slot wt working"
  shows "writer_ok cv X n pm' slot wt working"
proof (cases "wt_failed wt")
  case False
  define s t where "s = \<lparr>ts_pages = pm, ts_tx = wt\<rparr>" and "t = \<lparr>ts_pages = pm', ts_tx = wt\<rparr>"
  have w: "tx_inv n s" "tx_out s = {}" "0 \<notin> tx_freed s" using assms(2) False by (simp_all add: writer_ok_def Let_def s_def)
  obtain m P where m: "working = Some m" "holds X (tx_view cv s) (wt_root_page wt) (wt_root_page_checksum wt) m P"
      "P \<inter> ({0} \<union> tx_free s \<union> tx_freed s) = {}"
    using assms(2) False by (auto simp: writer_ok_def Let_def s_def)
  have f: "ts_tx t = ts_tx s" "extends cv (pm_io (ts_pages s)) (pm_io (ts_pages t))" "tx_free t \<subseteq> tx_free s" "pm_safe (ts_pages t)"
    using assms(1) pm_frame_sets(2) [OF assms(1)] by (simp_all add: s_def t_def pm_frame_def readers_safe_def tx_free_def)
  note same = tx_same_tx [OF f(1-3)]
  have "P \<inter> ({0} \<union> tx_free t \<union> tx_freed t) = {}" using m(3) f(3) same(2) by blast
  with holds_le [OF same(5) m(2)] m(1) w same(2,3) same(6) [OF w(1) f(4)] False assms(2) show ?thesis
    unfolding writer_ok_def Let_def t_def [symmetric] by auto
qed (use assms(2) in \<open>simp add: writer_ok_def\<close>)

text \<open>The readers and the committed map together.\<close>

definition shared_ok ::
    "('c \<Rightarrow> page_id \<Rightarrow> bytes option) \<Rightarrow> kv_crates \<Rightarrow> nat \<Rightarrow> 'c page_manager \<Rightarrow> commit_slot \<Rightarrow> page_id set
     \<Rightarrow> read_transaction list \<Rightarrow> kv_map list \<Rightarrow> kv_map \<Rightarrow> bool" where
  "shared_ok cv X n pm slot D rts ms m \<longleftrightarrow> pages_inv n pm \<and> counted (pm_readers pm) (map rt_transaction rts)
     \<and> committed_ok cv X pm slot D m \<and> list_all2 (reader_ok cv X pm (slot_transaction_id slot) D) rts ms"

lemma db_sim_shared:
  "db_sim cv X n w a \<longleftrightarrow>
     (\<exists>slot. header_ok (db_commit_header (w_db w)) \<and> active_slot (db_commit_header (w_db w)) = Inr slot
        \<and> db_snapshot (w_db w) = (root_page_id slot, slot_transaction_id slot)
        \<and> shared_ok cv X n (db_pages (w_db w)) slot (dirty_keys (w_writer w)) (w_readers w) (sp_snapshots a) (sp_committed a)
        \<and> (case w_writer w of None \<Rightarrow> sp_working a = None
           | Some wt \<Rightarrow> writer_ok cv X n (db_pages (w_db w)) slot wt (sp_working a)))"
  by (simp add: db_sim_def shared_ok_def)

lemma db_simD:
  assumes "db_sim cv X n w a" "pm = db_pages (w_db w)"
  shows "\<exists>slot. header_ok (db_commit_header (w_db w)) \<and> active_slot (db_commit_header (w_db w)) = Inr slot
    \<and> db_snapshot (w_db w) = (root_page_id slot, slot_transaction_id slot)
    \<and> shared_ok cv X n pm slot (dirty_keys (w_writer w)) (w_readers w) (sp_snapshots a) (sp_committed a)
    \<and> (case w_writer w of None \<Rightarrow> sp_working a = None | Some wt \<Rightarrow> writer_ok cv X n pm slot wt (sp_working a))"
  using assms(1) unfolding assms(2) db_sim_shared .

lemma frame_shared:
  assumes "pm_frame cv pm pm'" "shared_ok cv X n pm slot D rts ms m" "D' \<subseteq> D \<union> reclaimable pm"
  shows "shared_ok cv X n pm' slot D' rts ms m"
proof -
  note s = assms(2) [unfolded shared_ok_def]
  have "list_all2 (reader_ok cv X pm' (slot_transaction_id slot) D') rts ms"
    unfolding list_all2_conv_all_nth
  proof (intro conjI allI impI)
    show "length rts = length ms" using s by (simp add: list_all2_conv_all_nth)
    fix i assume i: "i < length rts"
    then obtain k where "(rt_transaction (rts ! i), k) \<in> set (pm_readers pm)" using counted_member s by fastforce
    moreover have "reader_ok cv X pm (slot_transaction_id slot) D (rts ! i) (ms ! i)" using s i by (simp add: list_all2_conv_all_nth)
    ultimately show "reader_ok cv X pm' (slot_transaction_id slot) D' (rts ! i) (ms ! i)"
      using frame_reader [OF assms(1) _ assms(3)] by blast
  qed
  moreover have "counted (pm_readers pm') (map rt_transaction rts)" using s assms(1) by (simp add: pm_frame_def)
  ultimately show ?thesis
    using s frame_pages_inv [OF assms(1)] frame_committed [OF assms(1) _ assms(3)] unfolding shared_ok_def by blast
qed

lemma shared_fewer_dirty:
  assumes "shared_ok cv X n pm slot D rts ms m" "D' \<subseteq> D"
  shows "shared_ok cv X n pm slot D' rts ms m"
proof (rule frame_shared [OF _ assms(1)])
  show "pm_frame cv pm pm" using assms(1) by (simp add: shared_ok_def pages_inv_def pm_frame_refl)
qed (use assms(2) in blast)

section \<open>Readers\<close>

lemma begin_read_counted:
  assumes "tracker_begin_read tx rs = Inr rs'" "tracker_ok rs" "counted rs txs"
  shows "tracker_ok rs'" "counted rs' (txs @ [tx])"
proof -
  obtain k where k: "rs' = upsert tx k rs" "unat k = Suc (case map_of rs tx of None \<Rightarrow> 0 | Some k \<Rightarrow> unat k)"
  proof (cases "map_of rs tx")
    case None
    with assms(1) that [of 1] show ?thesis by (simp add: tracker_begin_read_def)
  next
    case (Some j)
    then have "j \<noteq> - 1" "rs' = upsert tx (j + 1) rs" using assms(1) by (auto simp: tracker_begin_read_def split: if_splits)
    with that [of "j + 1"] Some word_add_1(1) [of j] show ?thesis by simp
  qed
  have "k \<noteq> 0" using k(2) by auto
  then show "tracker_ok rs'"
    using assms(2) set_upsert_subset [of tx k rs] sorted_upsert [of rs tx k] unfolding tracker_ok_def k(1) by fastforce
  show "counted rs' (txs @ [tx])"
    using assms(3) k by (auto simp: counted_def map_of_upsert)
qed

lemma count_remove_nth:
  "i < length xs \<Longrightarrow> count_list (remove_nth i xs) y = count_list xs y - (if xs ! i = y then 1 else 0)"
proof -
  assume i: "i < length xs"
  have "count_list xs y = count_list (take i xs @ xs ! i # drop (Suc i) xs) y" using id_take_nth_drop [OF i] by simp
  then show ?thesis by (simp add: remove_nth_def)
qed

lemma end_read_counted:
  assumes "read_guard_drop (txs ! i) rs = Inr rs'" "tracker_ok rs" "counted rs txs" "i < length txs"
  shows "tracker_ok rs'" "counted rs' (remove_nth i txs)"
proof -
  define tx where "tx = txs ! i"
  obtain k where k: "map_of rs tx = Some k" "k \<noteq> 0"
    using counted_member [OF assms(3), of tx] assms(2,4)
    by (force simp: tx_def tracker_ok_def strict_sorted_iff dest: map_of_is_SomeI [rotated])
  have km: "unat (k - 1) = unat k - 1" using k(2) by (simp add: unat_minus_one)
  have rs': "rs' = (if k = 1 then filter (\<lambda>(t, _). t \<noteq> tx) rs else upsert tx (k - 1) rs)"
    using assms(1) k by (auto simp: read_guard_drop_def tx_def split: if_splits)
  have m: "map_of rs' = (if k = 1 then (map_of rs)(tx := None) else (map_of rs)(tx \<mapsto> k - 1))"
    unfolding rs' by (simp add: map_of_remove map_of_upsert)
  show "tracker_ok rs'"
  proof (cases "k = 1")
    case True
    have "sorted_wrt (<) (map fst (filter (\<lambda>(t, _). t \<noteq> tx) rs))"
      using assms(2) sorted_wrt_filter [of "\<lambda>x y. fst x < fst y" rs] by (simp add: tracker_ok_def sorted_wrt_map)
    then show ?thesis using assms(2) True by (auto simp: tracker_ok_def rs')
  next
    case False
    then show ?thesis
      using assms(2) set_upsert_subset [of tx "k - 1" rs] sorted_upsert [of rs tx "k - 1"] unfolding tracker_ok_def rs' by fastforce
  qed
  show "counted rs' (remove_nth i txs)"
    unfolding counted_def
  proof
    fix y
    have "unat k = 1 \<longleftrightarrow> k = 1" by (metis unat_1 word_unat_eq_iff)
    with assms(3,4) k km m show "count_list (remove_nth i txs) y = (case map_of rs' y of None \<Rightarrow> 0 | Some k \<Rightarrow> unat k)"
      by (auto simp: counted_def count_remove_nth tx_def [symmetric])
  qed
qed

lemma set_readers_shared:
  assumes "shared_ok cv X n pm slot D rts ms m" "tracker_ok rs" "counted rs (map rt_transaction rts')"
    and "list_all2 (reader_ok cv X pm (slot_transaction_id slot) D) rts' ms'"
  shows "shared_ok cv X n (pm\<lparr>pm_readers := rs\<rparr>) slot D rts' ms' m"
proof -
  have "reader_ok cv X (pm\<lparr>pm_readers := rs\<rparr>) = reader_ok cv X pm" "committed_ok cv X (pm\<lparr>pm_readers := rs\<rparr>) = committed_ok cv X pm"
    by (simp_all add: fun_eq_iff reader_ok_def committed_ok_def avail_def pending_ids_def)
  moreover have "pages_inv n (pm\<lparr>pm_readers := rs\<rparr>)"
    using assms(1,2) by (simp add: shared_ok_def pages_inv_def readers_safe_def pm_safe_def pending_ids_def avail_def)
  ultimately show ?thesis using assms by (simp add: shared_ok_def)
qed

lemma set_readers_writer:
  "writer_ok cv X n (pm\<lparr>pm_readers := rs\<rparr>) slot wt working = writer_ok cv X n pm slot wt working"
proof -
  define s t where "s = \<lparr>ts_pages = pm\<lparr>pm_readers := rs\<rparr>, ts_tx = wt\<rparr>" and "t = \<lparr>ts_pages = pm, ts_tx = wt\<rparr>"
  have "tx_view cv s = tx_view cv t" "tx_free s = tx_free t" "tx_freed s = tx_freed t" "tx_out s = tx_out t"
    by (auto simp: fun_eq_iff tx_view_def tx_dirty_def tx_free_def tx_freed_def tx_out_def avail_def pending_ids_def s_def t_def
        split: option.splits)
  moreover have "tx_inv n s = tx_inv n t"
    by (simp add: tx_inv_def dirty_ok_def tx_dirty_def tx_free_def tx_freed_def avail_def pending_ids_def pm_safe_def s_def t_def)
  ultimately show ?thesis unfolding writer_ok_def s_def [symmetric] t_def [symmetric] by simp
qed

lemma begin_read_sim:
  assumes "db_sim cv X n w a" "begin_read (w_db w) = (Inr rt, db)"
  shows "db_sim cv X n (w\<lparr>w_db := db, w_readers := w_readers w @ [rt]\<rparr>) (a\<lparr>sp_snapshots := sp_snapshots a @ [sp_committed a]\<rparr>)"
proof -
  define pm where "pm = db_pages (w_db w)"
  obtain slot where s: "header_ok (db_commit_header (w_db w))" "active_slot (db_commit_header (w_db w)) = Inr slot"
      "db_snapshot (w_db w) = (root_page_id slot, slot_transaction_id slot)"
      "shared_ok cv X n pm slot (dirty_keys (w_writer w)) (w_readers w) (sp_snapshots a) (sp_committed a)"
      "case w_writer w of None \<Rightarrow> sp_working a = None | Some wt \<Rightarrow> writer_ok cv X n pm slot wt (sp_working a)"
    using db_simD [OF assms(1) pm_def] by blast
  obtain rs where rs: "tracker_begin_read (slot_transaction_id slot) (pm_readers pm) = Inr rs"
      "rt = \<lparr>rt_root_page_id = root_page_id slot, rt_transaction = slot_transaction_id slot\<rparr>"
      "db = (w_db w)\<lparr>db_pages := pm\<lparr>pm_readers := rs\<rparr>\<rparr>"
    using assms(2) s(3) by (auto simp: begin_read_def pm_def split: sum.splits)
  note sh = s(4) [unfolded shared_ok_def]
  have "tracker_ok (pm_readers pm)" using sh by (simp add: pages_inv_def readers_safe_def)
  note c = begin_read_counted [OF rs(1) this, of "map rt_transaction (w_readers w)"]
  obtain P where P: "holds X (page_view cv (pm_io pm)) (root_page_id slot) (root_page_checksum slot) (sp_committed a) P"
      "P \<inter> ({0} \<union> dirty_keys (w_writer w) \<union> avail pm) = {}"
    using sh by (auto simp: committed_ok_def)
  have "q < next_page_id (pm_alloc pm)" if "q \<in> P" for q using that P(2) by (auto simp: avail_def not_le)
  moreover have "\<forall>f \<in> set (pending_free_pages (pm_alloc pm)). fp_page_id f \<notin> P" using P(2) by (auto simp: avail_def pending_ids_def)
  ultimately have "reader_ok cv X pm (slot_transaction_id slot) (dirty_keys (w_writer w)) rt (sp_committed a)"
    unfolding reader_ok_def rs(2) using P by (auto intro!: exI)
  then have "list_all2 (reader_ok cv X pm (slot_transaction_id slot) (dirty_keys (w_writer w))) (w_readers w @ [rt]) (sp_snapshots a @ [sp_committed a])"
    using sh by (simp add: list_all2_appendI)
  moreover have "counted rs (map rt_transaction (w_readers w @ [rt]))" using c sh rs(2) by simp
  ultimately have "shared_ok cv X n (pm\<lparr>pm_readers := rs\<rparr>) slot (dirty_keys (w_writer w)) (w_readers w @ [rt])
      (sp_snapshots a @ [sp_committed a]) (sp_committed a)"
    using set_readers_shared [OF s(4)] c(1) sh by blast
  with s show ?thesis by (auto simp: db_sim_shared rs(3) set_readers_writer split: option.splits)
qed

lemma end_read_sim:
  assumes "db_sim cv X n w a" "i < length (w_readers w)" "end_read (w_readers w ! i) (w_db w) = (Inr (), db)"
  shows "i < length (sp_snapshots a)"
    "db_sim cv X n (w\<lparr>w_db := db, w_readers := remove_nth i (w_readers w)\<rparr>) (a\<lparr>sp_snapshots := remove_nth i (sp_snapshots a)\<rparr>)"
proof -
  define pm where "pm = db_pages (w_db w)"
  obtain slot where s: "header_ok (db_commit_header (w_db w))" "active_slot (db_commit_header (w_db w)) = Inr slot"
      "db_snapshot (w_db w) = (root_page_id slot, slot_transaction_id slot)"
      "shared_ok cv X n pm slot (dirty_keys (w_writer w)) (w_readers w) (sp_snapshots a) (sp_committed a)"
      "case w_writer w of None \<Rightarrow> sp_working a = None | Some wt \<Rightarrow> writer_ok cv X n pm slot wt (sp_working a)"
    using db_simD [OF assms(1) pm_def] by blast
  obtain rs where rs: "read_guard_drop (map rt_transaction (w_readers w) ! i) (pm_readers pm) = Inr rs"
      "db = (w_db w)\<lparr>db_pages := pm\<lparr>pm_readers := rs\<rparr>\<rparr>"
    using assms(2,3) by (auto simp: end_read_def pm_def split: sum.splits)
  note sh = s(4) [unfolded shared_ok_def]
  have ok: "tracker_ok (pm_readers pm)" "counted (pm_readers pm) (map rt_transaction (w_readers w))"
    using sh by (simp_all add: pages_inv_def readers_safe_def)
  have "i < length (map rt_transaction (w_readers w))" using assms(2) by simp
  note c = end_read_counted [OF rs(1) ok this]
  show "i < length (sp_snapshots a)" using sh assms(2) by (auto dest: list_all2_lengthD)
  have "list_all2 (reader_ok cv X pm (slot_transaction_id slot) (dirty_keys (w_writer w)))
      (remove_nth i (w_readers w)) (remove_nth i (sp_snapshots a))"
    using sh unfolding remove_nth_def by (intro list_all2_appendI) (auto intro: list_all2_takeI list_all2_dropI)
  moreover have "counted rs (map rt_transaction (remove_nth i (w_readers w)))"
    using c(2) by (simp add: remove_nth_def take_map drop_map)
  ultimately have "shared_ok cv X n (pm\<lparr>pm_readers := rs\<rparr>) slot (dirty_keys (w_writer w)) (remove_nth i (w_readers w))
      (remove_nth i (sp_snapshots a)) (sp_committed a)"
    using set_readers_shared [OF s(4) c(1)] by blast
  with s show "db_sim cv X n (w\<lparr>w_db := db, w_readers := remove_nth i (w_readers w)\<rparr>) (a\<lparr>sp_snapshots := remove_nth i (sp_snapshots a)\<rparr>)"
    by (auto simp: db_sim_shared rs(2) set_readers_writer split: option.splits)
qed

section \<open>Reading\<close>

lemma get_loop_kept:
  assumes "\<And>pid. op_keeps R (rd pid)" "reflp R" "transp R" "get_loop fuel X rd pid key s = Some (r, t)"
  shows "R s t"
  using assms(4)
proof (induction fuel arbitrary: pid s)
  case (Suc fuel)
  obtain q s1 where q: "rd pid s = (q, s1)" by fastforce
  have 1: "R s s1" using assms(1) q by (rule op_keepsD)
  have "t = s1 \<or> (\<exists>c. get_loop fuel X rd c key s1 = Some (r, t))"
    using Suc.prems q by (auto split: sum.splits node_page.splits)
  with Suc.IH [of _ s1] 1 assms(3) show ?case by (auto dest: transpD)
qed simp

lemma get_loop_more: "get_loop fuel X rd pid key s = Some y \<Longrightarrow> get_loop (fuel + k) X rd pid key s = Some y"
  by (induction fuel arbitrary: pid s) (auto split: sum.splits node_page.splits prod.splits)

lemma manager_read_kept:
  assumes "moka_cache K cv"
  shows "op_keeps (\<lambda>s t. readers_safe s \<longrightarrow> pm_frame cv s t) (manager_read_page K pid)"
  using moka_cache.manager_read_frame [OF assms] by (auto simp: op_keeps_def)

lemma io_failureD: "io_failure e \<Longrightarrow> \<exists>m. e = Fail (IoError m)"
  by (simp add: io_failure_def split: fault.splits kv_error.splits)

lemma transaction_read_value:
  assumes "zerocopy_le X" "moka_cache K cv" "io_ok (pm_io (db_pages s))"
    and "holds X (page_view cv (pm_io (db_pages s))) (rt_root_page_id rt) c m P"
    and "transaction_read fuel X K rt key s = Some (r, t)"
  shows "r = Inr (m key) \<or> (\<exists>e. r = Inl (Fail (IoError e)))"
proof -
  obtain h where h: "subtree h X (\<lambda>_. True) (page_view cv (pm_io (db_pages s))) [] None (rt_root_page_id rt)"
      "map_of (tree_pairs h X (page_view cv (pm_io (db_pages s))) (rt_root_page_id rt)) = m"
    using assms(4) by (auto simp: holds_def rooted_def)
  obtain pm where pm: "get_loop fuel X (manager_read_page K) (rt_root_page_id rt) key (db_pages s) = Some (r, pm)"
    using assms(5) by (auto simp: transaction_read_def)
  have more: "get_loop (fuel + Suc h) X (manager_read_page K) (rt_root_page_id rt) key (db_pages s) = Some (r, pm)"
    by (rule get_loop_more [OF pm])
  have "h < fuel + Suc h" by simp
  from tree_reader.get_loop_correct [OF io_tree_reader(2) [OF assms(1,2)] assms(3) h(1) within_all this, of key]
  have "r = Inr (m key) \<or> (\<exists>e. r = Inl e \<and> io_failure e)"
    unfolding more h(2) by (elim exE conjE) (simp only: option.inject prod.inject)
  then show ?thesis using io_failureD by blast
qed

lemma transaction_read_frame:
  assumes "moka_cache K cv" "readers_safe (db_pages s)" "transaction_read fuel X K rt key s = Some (r, t)"
  shows "\<exists>pm. t = s\<lparr>db_pages := pm\<rparr> \<and> pm_frame cv (db_pages s) pm"
proof -
  obtain pm where pm: "get_loop fuel X (manager_read_page K) (rt_root_page_id rt) key (db_pages s) = Some (r, pm)" "t = s\<lparr>db_pages := pm\<rparr>"
    using assms(3) by (auto simp: transaction_read_def)
  have "reflp (\<lambda>s t. readers_safe s \<longrightarrow> pm_frame cv s t)" by (simp add: reflp_def pm_frame_refl)
  moreover have "transp (\<lambda>s t. readers_safe s \<longrightarrow> pm_frame cv s t)"
    unfolding transp_def by (metis pm_frame_def pm_frame_trans)
  ultimately show ?thesis
    using get_loop_kept [OF manager_read_kept [OF assms(1)] _ _ pm(1)] assms(2) pm(2) by blast
qed

lemma read_sim:
  assumes "zerocopy_le X" "moka_cache K cv" "db_sim cv X n w a" "i < length (w_readers w)"
    and "transaction_read N X K (w_readers w ! i) key (w_db w) = Some (r, db)"
  shows "db_sim cv X n (w\<lparr>w_db := db\<rparr>) a \<and> i < length (sp_snapshots a)
    \<and> (r = Inr ((sp_snapshots a ! i) key) \<or> (\<exists>m. r = Inl (Fail (IoError m))))"
proof -
  define pm where "pm = db_pages (w_db w)"
  obtain slot where s: "header_ok (db_commit_header (w_db w))" "active_slot (db_commit_header (w_db w)) = Inr slot"
      "db_snapshot (w_db w) = (root_page_id slot, slot_transaction_id slot)"
      "shared_ok cv X n pm slot (dirty_keys (w_writer w)) (w_readers w) (sp_snapshots a) (sp_committed a)"
      "case w_writer w of None \<Rightarrow> sp_working a = None | Some wt \<Rightarrow> writer_ok cv X n pm slot wt (sp_working a)"
    using db_simD [OF assms(3) pm_def] by blast
  note sh = s(4) [unfolded shared_ok_def]
  have i: "i < length (sp_snapshots a)" using sh assms(4) by (auto dest: list_all2_lengthD)
  have ro: "reader_ok cv X pm (slot_transaction_id slot) (dirty_keys (w_writer w)) (w_readers w ! i) (sp_snapshots a ! i)"
    using sh assms(4) by (simp add: list_all2_conv_all_nth)
  have safe: "readers_safe pm" using sh by (simp add: pages_inv_def)
  then have "io_ok (pm_io pm)" by (simp add: readers_safe_def pm_safe_def)
  with ro have val: "r = Inr ((sp_snapshots a ! i) key) \<or> (\<exists>m. r = Inl (Fail (IoError m)))"
    using transaction_read_value [OF assms(1,2) _ _ assms(5)] unfolding pm_def reader_ok_def by blast
  obtain pm' where pm': "db = (w_db w)\<lparr>db_pages := pm'\<rparr>" and fr: "pm_frame cv pm pm'"
    using transaction_read_frame [OF assms(2) _ assms(5)] safe unfolding pm_def by blast
  have "shared_ok cv X n pm' slot (dirty_keys (w_writer w)) (w_readers w) (sp_snapshots a) (sp_committed a)"
    by (rule frame_shared [OF fr s(4)]) blast
  then have "db_sim cv X n (w\<lparr>w_db := db\<rparr>) a"
    using s frame_writer [OF fr] by (auto simp: db_sim_shared pm' split: option.splits)
  with i val show ?thesis by blast
qed


section \<open>Writing\<close>

lemma poison_simps [simp]:
  "db_pages (poison r s) = db_pages s" "db_commit_header (poison r s) = db_commit_header s" "db_snapshot (poison r s) = db_snapshot s"
  by (simp_all add: poison_def split: sum.splits fault.splits)

lemma begin_write_sim:
  assumes "db_sim cv X n w a" "w_writer w = None" "begin_write (w_db w) = Inr wt"
  shows "db_sim cv X n (w\<lparr>w_writer := Some wt\<rparr>) (a\<lparr>sp_working := Some (sp_committed a)\<rparr>)"
proof -
  define pm where "pm = db_pages (w_db w)"
  obtain slot where s: "header_ok (db_commit_header (w_db w))" "active_slot (db_commit_header (w_db w)) = Inr slot"
      "db_snapshot (w_db w) = (root_page_id slot, slot_transaction_id slot)"
      "shared_ok cv X n pm slot (dirty_keys (w_writer w)) (w_readers w) (sp_snapshots a) (sp_committed a)"
    using db_simD [OF assms(1) pm_def] by blast
  have wt: "slot_transaction_id slot \<noteq> - 1" "wt = \<lparr>wt_transaction = slot_transaction_id slot + 1, wt_root_page = root_page_id slot,
      wt_root_page_checksum = root_page_checksum slot, wt_dirty_pages = [], wt_freed_pages = [], wt_failed = False\<rparr>"
    using assms(3) s(2) by (auto simp: begin_write_def write_transaction_new_def split: if_splits)
  define t where "t = \<lparr>ts_pages = pm, ts_tx = wt\<rparr>"
  have t: "tx_dirty t = (\<lambda>_. None)" "tx_freed t = {}" "tx_out t = {}" "tx_free t = avail pm" "tx_view cv t = page_view cv (pm_io pm)"
    by (simp_all add: t_def tx_defs wt(2) fun_eq_iff)
  note sh = s(4) [unfolded shared_ok_def]
  have "tx_inv n t" using sh t by (simp add: tx_inv_def dirty_ok_def pages_inv_def readers_safe_def t_def wt(2))
  moreover obtain P where "holds X (page_view cv (pm_io pm)) (root_page_id slot) (root_page_checksum slot) (sp_committed a) P"
      "P \<inter> ({0} \<union> avail pm) = {}"
    using sh by (auto simp: committed_ok_def)
  ultimately have "writer_ok cv X n pm slot wt (Some (sp_committed a))"
    using t wt(1) unfolding writer_ok_def Let_def t_def [symmetric] by (auto simp: wt(2))
  moreover have "dirty_keys (Some wt) = dirty_keys (w_writer w)" using assms(2) by (simp add: dirty_keys_def wt(2) dom_def)
  ultimately show ?thesis using s by (auto simp: db_sim_shared pm_def)
qed

lemma insert_frame:
  assumes "moka_cache K cv" "tree_insert N X (tx_ops K) key val s = (r, t)" "readers_safe (ts_pages s)"
  shows "pm_frame cv (ts_pages s) (ts_pages t)" "dom (tx_dirty t) \<subseteq> dom (tx_dirty s) \<union> reclaimable (ts_pages s)"
    "wt_transaction (ts_tx t) = wt_transaction (ts_tx s)" "wt_failed (ts_tx t) = wt_failed (ts_tx s)"
proof -
  have "tx_frame cv s t"
    using op_keepsD [OF kept_relation.tree_insert_kept [OF moka_cache.tx_kept [OF assms(1)]] assms(2)] .
  with assms(3) show "pm_frame cv (ts_pages s) (ts_pages t)" "dom (tx_dirty t) \<subseteq> dom (tx_dirty s) \<union> reclaimable (ts_pages s)"
    "wt_transaction (ts_tx t) = wt_transaction (ts_tx s)" "wt_failed (ts_tx t) = wt_failed (ts_tx s)"
    by (simp_all add: tx_frame_def)
qed

lemma insert_holds:
  assumes "zerocopy_le X" "moka_cache K cv" "tree_insert N X (tx_ops K) key val s = (Inr (), t)"
    and "tx_inv n s" "holds X (tx_view cv s) (wt_root_page (ts_tx s)) (wt_root_page_checksum (ts_tx s)) m P"
    and "P \<inter> (tx_free s \<union> tx_freed s) = {}"
  shows "\<exists>P'. holds X (tx_view cv t) (wt_root_page (ts_tx t)) (wt_root_page_checksum (ts_tx t)) (m(key \<mapsto> val)) P'
    \<and> P' \<inter> (tx_free t \<union> tx_freed t) = {} \<and> P' \<subseteq> P \<union> tx_free s \<and> tx_inv n t \<and> tx_out t = tx_out s \<and> tx_freed t \<subseteq> tx_freed s \<union> P"
proof -
  note wr = tx_tree_writer [OF assms(1,2), of n]
  obtain h where h: "rooted h X (\<lambda>_. True) (tx_view cv s) (wt_root_page (ts_tx s)) (tx_root_sum s)"
      "map_of (tree_pairs h X (tx_view cv s) (wt_root_page (ts_tx s))) = m" "set (tree_pages h X (tx_view cv s) (wt_root_page (ts_tx s))) = P"
    using assms(5) by (auto simp: holds_def tx_root_sum_def)
  have root: "po_get_root (tx_ops K) u = wt_root_page (ts_tx u)" for u by (simp add: tx_ops_def)
  have "tree_writer.tree_ok X (tx_ops K) (tx_view cv) tx_free tx_freed tx_root_sum (tx_inv n) (\<lambda>_. True) h s"
    using h(1,3) assms(4,6) by (simp add: tree_writer.tree_ok_def [OF wr] root)
  from tree_writer.tree_insert_correct [OF wr this TrueI assms(3), unfolded root h(3)]
  obtain h' where h': "tree_writer.tree_ok X (tx_ops K) (tx_view cv) tx_free tx_freed tx_root_sum (tx_inv n) (\<lambda>_. True) h' t"
      "tree_pairs h' X (tx_view cv t) (wt_root_page (ts_tx t)) = upsert key val (tree_pairs h X (tx_view cv s) (wt_root_page (ts_tx s)))"
      "set (tree_pages h' X (tx_view cv t) (wt_root_page (ts_tx t))) \<subseteq> P \<union> (tx_free s - tx_free t)"
      "tx_out t = tx_out s" "tx_freed t \<subseteq> tx_freed s \<union> P"
    by blast
  note ok = h'(1) [unfolded tree_writer.tree_ok_def [OF wr] root]
  have "map_of (tree_pairs h' X (tx_view cv t) (wt_root_page (ts_tx t))) = m(key \<mapsto> val)"
    by (simp add: h'(2) map_of_upsert h(2))
  then have "holds X (tx_view cv t) (wt_root_page (ts_tx t)) (wt_root_page_checksum (ts_tx t)) (m(key \<mapsto> val))
      (set (tree_pages h' X (tx_view cv t) (wt_root_page (ts_tx t))))"
    unfolding holds_def using ok by (auto simp: tx_root_sum_def)
  with ok h'(3-5) show ?thesis by blast
qed

lemma insert_sim:
  assumes "zerocopy_le X" "moka_cache K cv" "db_sim cv X n w a" "w_writer w = Some wt"
    and "transaction_insert N X K key val (w_db w, wt) = (r, db, wt')"
  shows "\<exists>a'. spec_step a (InsertPair key val r) a'
    \<and> db_sim cv X n (w\<lparr>w_db := db, w_writer := if panicked r then None else Some wt'\<rparr>) a'"
proof -
  define pm where "pm = db_pages (w_db w)"
  obtain slot where s: "header_ok (db_commit_header (w_db w))" "active_slot (db_commit_header (w_db w)) = Inr slot"
      "db_snapshot (w_db w) = (root_page_id slot, slot_transaction_id slot)"
      "shared_ok cv X n pm slot (dirty_keys (w_writer w)) (w_readers w) (sp_snapshots a) (sp_committed a)"
      "writer_ok cv X n pm slot wt (sp_working a)"
    using db_simD [OF assms(3) pm_def] assms(4) by auto
  note sh = s(4) [unfolded shared_ok_def]
  have safe: "readers_safe pm" "0 \<notin> avail pm" using sh by (simp_all add: pages_inv_def)
  define u where "u = \<lparr>ts_pages = pm, ts_tx = wt\<rparr>"
  show ?thesis
  proof (cases "wt_failed wt")
    case True
    then have eq: "r = Inl (Fail TransactionFailed)" "db = w_db w" "wt' = wt"
      using assms(5) by (auto simp: transaction_insert_def tx_insert_def poison_def)
    have "sp_working a = None" using s(5) True by (simp add: writer_ok_def)
    then have "a\<lparr>sp_working := None\<rparr> = a" by simp
    moreover have "w\<lparr>w_db := db, w_writer := Some wt'\<rparr> = w" using eq(2,3) assms(4) by simp
    ultimately show ?thesis
      using spec_insert_failed [of a key val] assms(3) by (auto simp: eq(1) panicked_def)
  next
    case False
    obtain q t where t: "tree_insert N X (tx_ops K) key val u = (q, t)" by fastforce
    have u: "ts_pages u = pm" "ts_tx u = wt" by (simp_all add: u_def)
    note fr = insert_frame [OF assms(2) t, unfolded u, OF safe(1)]
    have keys: "dom (hm_get (wt_dirty_pages (ts_tx t))) \<subseteq> dirty_keys (w_writer w) \<union> reclaimable pm"
      using fr(2) by (simp add: dirty_keys_def assms(4) tx_dirty_def u)
    have z: "hm_get (wt_dirty_pages wt) 0 = None" using s(5) by (simp add: writer_ok_def)
    have zero: "hm_get (wt_dirty_pages (ts_tx t)) 0 = None"
    proof (rule ccontr)
      assume "hm_get (wt_dirty_pages (ts_tx t)) 0 \<noteq> None"
      then have "0 \<in> dom (hm_get (wt_dirty_pages (ts_tx t)))" by blast
      with keys z safe(2) reclaimable_avail [of pm] show False by (auto simp: dirty_keys_def assms(4))
    qed
    have db: "db_pages db = ts_pages t" "db_commit_header db = db_commit_header (w_db w)" "db_snapshot db = db_snapshot (w_db w)" "r = q"
      using assms(5) t False by (auto simp: transaction_insert_def tx_insert_def u_def pm_def split: sum.splits fault.splits prod.splits)
    have shared: "shared_ok cv X n (ts_pages t) slot D (w_readers w) (sp_snapshots a) (sp_committed a)"
      if "D \<subseteq> dom (hm_get (wt_dirty_pages (ts_tx t)))" for D
      by (rule frame_shared [OF fr(1) s(4) subset_trans [OF that keys]])
    consider (good) "q = Inr ()" | (err) e where "q = Inl (Fail e)" | (pan) p where "q = Inl (Panic p)"
      by (cases q) (auto, metis fault.exhaust)
    then show ?thesis
    proof cases
      case good
      have wt': "wt' = ts_tx t" using assms(5) t False good by (simp add: transaction_insert_def tx_insert_def u_def pm_def)
      obtain m P where m: "sp_working a = Some m" "holds X (tx_view cv u) (wt_root_page wt) (wt_root_page_checksum wt) m P"
          "P \<inter> ({0} \<union> tx_free u \<union> tx_freed u) = {}" "tx_inv n u" "tx_out u = {}" "0 \<notin> tx_freed u"
        using s(5) False by (auto simp: writer_ok_def Let_def u_def)
      have "P \<inter> (tx_free u \<union> tx_freed u) = {}" using m(3) by blast
      from insert_holds [OF assms(1,2) t [unfolded good] m(4) m(2) [folded u(2)] this]
      obtain P' where P': "holds X (tx_view cv t) (wt_root_page (ts_tx t)) (wt_root_page_checksum (ts_tx t)) (m(key \<mapsto> val)) P'"
          "P' \<inter> (tx_free t \<union> tx_freed t) = {}" "P' \<subseteq> P \<union> tx_free u" "tx_inv n t" "tx_out t = tx_out u" "tx_freed t \<subseteq> tx_freed u \<union> P"
        by blast
      have "0 \<notin> tx_free u" using safe(2) by (simp add: tx_free_def u)
      then have "P' \<inter> ({0} \<union> tx_free t \<union> tx_freed t) = {}" "0 \<notin> tx_freed t" using m(3,6) P'(2,3,6) by blast+
      moreover have eq: "\<lparr>ts_pages = ts_pages t, ts_tx = ts_tx t\<rparr> = t" by simp
      moreover have "slot_transaction_id slot \<noteq> - 1" "wt_transaction wt = slot_transaction_id slot + 1"
        using s(5) by (simp_all add: writer_ok_def)
      ultimately have "writer_ok cv X n (ts_pages t) slot (ts_tx t) (Some (m(key \<mapsto> val)))"
        unfolding writer_ok_def Let_def eq using P'(1,4,5) m(5) fr(3,4) False zero by auto
      then have "db_sim cv X n (w\<lparr>w_db := db, w_writer := Some wt'\<rparr>) (a\<lparr>sp_working := Some (m(key \<mapsto> val))\<rparr>)"
        using s(1-3) db wt' shared [of "dom (hm_get (wt_dirty_pages (ts_tx t)))"] by (auto simp: db_sim_shared dirty_keys_def)
      with spec_insert [OF m(1), of key val] db(4) good show ?thesis by (auto simp: panicked_def)
    next
      case (err e)
      have wt': "wt' = (ts_tx t)\<lparr>wt_failed := True\<rparr>"
        using assms(5) t False err by (simp add: transaction_insert_def tx_insert_def u_def pm_def)
      have "writer_ok cv X n (ts_pages t) slot wt' None"
        using fr(3) s(5) zero by (simp add: writer_ok_def wt')
      then have "db_sim cv X n (w\<lparr>w_db := db, w_writer := Some wt'\<rparr>) (a\<lparr>sp_working := None\<rparr>)"
        using s(1-3) db wt' shared [of "dom (hm_get (wt_dirty_pages (ts_tx t)))"] by (auto simp: db_sim_shared dirty_keys_def)
      with spec_insert_failed [of a key val "Fail e"] db(4) err show ?thesis by (auto simp: panicked_def)
    next
      case (pan x)
      have "db_sim cv X n (w\<lparr>w_db := db, w_writer := None\<rparr>) (a\<lparr>sp_working := None\<rparr>)"
        using s(1-3) db shared [of "{}"] by (auto simp: db_sim_shared dirty_keys_def)
      with spec_insert_failed [of a key val "Panic x"] db(4) pan show ?thesis by (auto simp: panicked_def)
    qed
  qed
qed


section \<open>Commit\<close>

lemma db_write_page:
  assumes "on_db_pages (manager_write_page K p) db = (r, db')"
  shows "\<exists>io. write_page K p (pm_io (db_pages db)) = (r, io) \<and> db' = db\<lparr>db_pages := (db_pages db)\<lparr>pm_io := io\<rparr>\<rparr>"
  using assms by (auto simp: on_db_pages_def zoom_def manager_write_page_def on_io_def' split: prod.splits)

lemma db_sync:
  assumes "on_db_pages manager_sync_data db = (r, db')"
  shows "\<exists>f. db' = db\<lparr>db_pages := (db_pages db)\<lparr>pm_io := (pm_io (db_pages db))\<lparr>io_file := f\<rparr>\<rparr>\<rparr>
    \<and> contents f = contents (io_file (pm_io (db_pages db)))"
  using assms by (auto simp: on_db_pages_def zoom_def manager_sync_data_def on_io_def' sync_data_def on_file_def' file_sync_data_def
      split: prod.splits dest: sys_call_spec(1))

text \<open>What a sequence of page writes does to the pages outside a set.\<close>

definition writes_only :: "('c \<Rightarrow> page_id \<Rightarrow> bytes option) \<Rightarrow> page_id set \<Rightarrow> 'c page_io \<Rightarrow> 'c page_io \<Rightarrow> bool" where
  "writes_only cv D s t \<longleftrightarrow> (io_ok s \<longrightarrow> io_ok t) \<and> io_page_size t = io_page_size s
     \<and> (\<forall>q. q \<notin> D \<longrightarrow> stored t q = stored s q)
     \<and> (\<forall>q d. q \<notin> D \<longrightarrow> page_view cv s q = Some d \<longrightarrow> page_view cv t q = Some d)"

lemma writes_only_refl: "writes_only cv D s s"
  by (simp add: writes_only_def)

lemma writes_only_trans: "writes_only cv D s t \<Longrightarrow> writes_only cv D' t u \<Longrightarrow> writes_only cv (D \<union> D') s u"
  by (simp add: writes_only_def)

lemma same_contents:
  assumes "contents f = contents (io_file s)"
  shows "page_view cv (s\<lparr>io_file := f\<rparr>) = page_view cv s" "io_ok (s\<lparr>io_file := f\<rparr>) = io_ok s" "writes_only cv D s (s\<lparr>io_file := f\<rparr>)"
    "stored (s\<lparr>io_file := f\<rparr>) = stored s"
proof -
  show st: "stored (s\<lparr>io_file := f\<rparr>) = stored s" using assms by (simp add: fun_eq_iff stored_def psize_def)
  then show "page_view cv (s\<lparr>io_file := f\<rparr>) = page_view cv s" "io_ok (s\<lparr>io_file := f\<rparr>) = io_ok s"
    using assms by (simp_all add: fun_eq_iff page_view_def io_ok_def)
  with st show "writes_only cv D s (s\<lparr>io_file := f\<rparr>)" by (simp add: writes_only_def)
qed

context moka_cache
begin

lemma write_page_only:
  assumes "io_ok s" "write_page K p s = (r, t)"
  shows "writes_only view {page_no p} s t" "io_ok t"
  using write_page_spec [OF assms] by (simp_all add: writes_only_def)

lemma write_dirty_pages_spec:
  assumes "write_dirty_pages K ds db = (r, db')" "io_ok (pm_io (db_pages db))" "distinct (map fst ds)"
    and "\<forall>(q, slot) \<in> set ds. slot_ok n q slot"
  shows "\<exists>io. db' = db\<lparr>db_pages := (db_pages db)\<lparr>pm_io := io\<rparr>\<rparr> \<and> io_ok io
    \<and> writes_only view (fst ` set ds) (pm_io (db_pages db)) io
    \<and> (r = Inr () \<longrightarrow> (\<forall>q p. (q, Available p) \<in> set ds \<longrightarrow> page_view view io q = Some (page_data p)))"
  using assms
proof (induction ds arbitrary: db)
  case Nil
  then show ?case by (auto simp: write_dirty_pages_def writes_only_refl intro!: exI [of _ "pm_io (db_pages db)"])
next
  case (Cons d ds)
  obtain q slot where d: "d = (q, slot)" by fastforce
  show ?case
  proof (cases slot)
    case CheckedOut
    with Cons.prems(1) d have "r = Inl (Panic ''cannot commit while a dirty page is checked out'')" "db' = db"
      by (auto simp: write_dirty_pages_def slot_page_def)
    with Cons.prems(2) show ?thesis by (intro exI [of _ "pm_io (db_pages db)"]) (simp add: writes_only_refl)
  next
    case (Available p)
    have no: "page_no p = q" using Cons.prems(4) d Available by (simp add: slot_ok_def)
    obtain r1 db1 where w: "on_db_pages (manager_write_page K p) db = (r1, db1)" by fastforce
    obtain io where io: "write_page K p (pm_io (db_pages db)) = (r1, io)" "db1 = db\<lparr>db_pages := (db_pages db)\<lparr>pm_io := io\<rparr>\<rparr>"
      using db_write_page [OF w] by blast
    note wo = write_page_only [OF Cons.prems(2) io(1), unfolded no]
    show ?thesis
    proof (cases r1)
      case (Inl e)
      have "r = Inl e" "db' = db1" using Cons.prems(1) d Available w Inl by (simp_all add: write_dirty_pages_def slot_page_def)
      with io(2) wo d show ?thesis by (intro exI [of _ io]) (auto simp: writes_only_def)
    next
      case (Inr x)
      have rest: "write_dirty_pages K ds db1 = (r, db')"
        using Cons.prems(1) d Available w Inr by (simp add: write_dirty_pages_def slot_page_def)
      have "\<exists>io'. db' = db1\<lparr>db_pages := (db_pages db1)\<lparr>pm_io := io'\<rparr>\<rparr> \<and> io_ok io'
        \<and> writes_only view (fst ` set ds) (pm_io (db_pages db1)) io'
        \<and> (r = Inr () \<longrightarrow> (\<forall>q p. (q, Available p) \<in> set ds \<longrightarrow> page_view view io' q = Some (page_data p)))"
        using Cons.prems(3,4) wo(2) io(2) by (intro Cons.IH [OF rest]) auto
      then obtain io' where io': "db' = db\<lparr>db_pages := (db_pages db)\<lparr>pm_io := io'\<rparr>\<rparr>" "io_ok io'"
          "writes_only view (fst ` set ds) io io'"
          "r = Inr () \<longrightarrow> (\<forall>q p. (q, Available p) \<in> set ds \<longrightarrow> page_view view io' q = Some (page_data p))"
        by (auto simp: io(2))
      have "page_view view io q = Some (page_data p)" using write_page_spec(6) [OF Cons.prems(2) io(1)] Inr no by simp
      moreover have "q \<notin> fst ` set ds" using Cons.prems(3) d by simp
      ultimately have at: "page_view view io' q = Some (page_data p)" using io'(3) by (simp add: writes_only_def)
      have "page_view view io' q' = Some (page_data p')" if "r = Inr ()" "(q', Available p') \<in> set (d # ds)" for q' p'
        using that at io'(4) d Available by auto
      moreover have "writes_only view (fst ` set (d # ds)) (pm_io (db_pages db)) io'"
        using writes_only_trans [OF wo(1) io'(3)] d by simp
      ultimately show ?thesis using io'(1,2) by (intro exI [of _ io']) blast
    qed
  qed
qed

lemma publish_spec:
  assumes "publish X K root c tx db = (r, db')" "io_ok (pm_io (db_pages db))" "header_ok (db_commit_header db)"
  shows "\<exists>io. db_pages db' = (db_pages db)\<lparr>pm_io := io\<rparr> \<and> io_ok io \<and> writes_only view {0} (pm_io (db_pages db)) io
    \<and> (r = Inr () \<longrightarrow> db_snapshot db' = (root, tx) \<and> header_ok (db_commit_header db')
        \<and> active_slot (db_commit_header db') = Inr (commit_slot_new root c tx (next_page_id (pm_alloc (db_pages db))))
        \<and> header_page_size (db_commit_header db') = header_page_size (db_commit_header db)
        \<and> (\<exists>page. encode_page X (db_commit_header db') = Inr page \<and> page_view view io 0 = Some page))
    \<and> (r \<noteq> Inr () \<longrightarrow> db_snapshot db' = db_snapshot db \<and> db_commit_header db' = db_commit_header db)"
proof -
  define nx where "nx = next_page_id (pm_alloc (db_pages db))"
  obtain h where h: "with_commit root c tx nx (db_commit_header db) = Inr h" "header_ok h"
      "active_slot h = Inr (commit_slot_new root c tx nx)" "header_page_size h = header_page_size (db_commit_header db)"
    using with_commit_slots [OF assms(3)] by blast
  show ?thesis
  proof (cases "encode_page X h")
    case (Inl e)
    then have "r = Inl e" "db' = db" using assms(1) h(1) by (simp_all add: publish_def nx_def)
    with assms(2) show ?thesis by (intro exI [of _ "pm_io (db_pages db)"]) (simp add: writes_only_refl)
  next
    case (Inr page)
    obtain r1 db1 where w: "on_db_pages (manager_write_page K \<lparr>page_no = HEADER_PAGE_ID, page_data = page\<rparr>) db = (r1, db1)" by fastforce
    obtain io where io: "write_page K \<lparr>page_no = HEADER_PAGE_ID, page_data = page\<rparr> (pm_io (db_pages db)) = (r1, io)"
        "db1 = db\<lparr>db_pages := (db_pages db)\<lparr>pm_io := io\<rparr>\<rparr>"
      using db_write_page [OF w] by blast
    have z: "page_no \<lparr>page_no = HEADER_PAGE_ID, page_data = page\<rparr> = 0" by (simp add: HEADER_PAGE_ID_def)
    note wo = write_page_only [OF assms(2) io(1), unfolded z]
    show ?thesis
    proof (cases r1)
      case (Inl e)
      then have "r = Inl e" "db' = db1" using assms(1) h(1) Inr w by (simp_all add: publish_def nx_def)
      with io(2) wo show ?thesis by (intro exI [of _ io]) simp
    next
      case r1: (Inr x)
      have pv: "page_view view io 0 = Some page" using write_page_spec(6) [OF assms(2) io(1)] r1 z by simp
      obtain r2 db2 where sy: "on_db_pages manager_sync_data db1 = (r2, db2)" by fastforce
      obtain f where f: "db2 = db\<lparr>db_pages := (db_pages db)\<lparr>pm_io := io\<lparr>io_file := f\<rparr>\<rparr>\<rparr>" "contents f = contents (io_file io)"
        using db_sync [OF sy] io(2) by auto
      have wf: "writes_only view {0} (pm_io (db_pages db)) (io\<lparr>io_file := f\<rparr>)" "io_ok (io\<lparr>io_file := f\<rparr>)"
          "page_view view (io\<lparr>io_file := f\<rparr>) 0 = Some page"
        using writes_only_trans [OF wo(1) same_contents(3) [OF f(2), of view "{}"]] wo(2) same_contents(1,2) [OF f(2)] pv by simp_all
      show ?thesis
      proof (cases r2)
        case (Inl e)
        then have "r = Inl e" "db' = db2" using assms(1) h(1) Inr w r1 sy by (simp_all add: publish_def nx_def)
        with f(1) wf show ?thesis by (intro exI [of _ "io\<lparr>io_file := f\<rparr>"]) simp
      next
        case (Inr y)
        have "r = Inr ()" "db' = db2\<lparr>db_commit_header := h, db_snapshot := (root, tx)\<rparr>"
          using assms(1) h(1,3) \<open>encode_page X h = Inr page\<close> w r1 sy Inr by (simp_all add: publish_def nx_def commit_slot_new_def)
        with f(1) wf h \<open>encode_page X h = Inr page\<close> show ?thesis by (intro exI [of _ "io\<lparr>io_file := f\<rparr>"]) (simp add: nx_def)
      qed
    qed
  qed
qed

end

lemma fold_free_page:
  "fold (\<lambda>pid. free_page pid tx) freed pm = pm\<lparr>pm_alloc := (pm_alloc pm)\<lparr>pending_free_pages :=
     pending_free_pages (pm_alloc pm) @ map (\<lambda>pid. \<lparr>fp_page_id = pid, fp_transaction_id = tx\<rparr>) freed\<rparr>\<rparr>"
  by (induction freed arbitrary: pm) (simp_all add: free_page_def)


lemma writes_shared:
  assumes "shared_ok cv X n pm slot D rts ms m" "writes_only cv (D \<union> {0}) (pm_io pm) io"
  shows "shared_ok cv X n (pm\<lparr>pm_io := io\<rparr>) slot {} rts ms m"
proof -
  note s = assms(1) [unfolded shared_ok_def] and w = assms(2) [unfolded writes_only_def]
  define pm' where "pm' = pm\<lparr>pm_io := io\<rparr>"
  have same: "pm_alloc pm' = pm_alloc pm" "pm_readers pm' = pm_readers pm" "pm_io pm' = io" "avail pm' = avail pm"
    by (simp_all add: pm'_def avail_def pending_ids_def)
  have keep: "holds X (page_view cv io) r c k P" if "holds X (page_view cv (pm_io pm)) r c k P" "0 \<notin> P" "P \<inter> D = {}" for r c k P
    by (rule holds_keep [OF that(1)]) (use w that(2,3) in blast)
  have "reader_ok cv X pm' T {} rt k" if "reader_ok cv X pm T D rt k" for T rt k
    using that keep unfolding reader_ok_def same by blast
  then have "list_all2 (reader_ok cv X pm' (slot_transaction_id slot) {}) rts ms" using s list_all2_mono by blast
  moreover have "committed_ok cv X pm' slot {} m"
    using s keep unfolding committed_ok_def same by blast
  moreover have "pages_inv n pm'"
    using s w same by (auto simp: pages_inv_def readers_safe_def pm_safe_def pending_ids_def psize_def)
  ultimately show ?thesis using s unfolding shared_ok_def pm'_def [symmetric] same by blast
qed

lemma free_shared:
  fixes T :: transaction_id
  assumes "shared_ok cv X n pm slot {} rts ms m" "T = slot_transaction_id slot" "T \<noteq> - 1"
    and "pm' = fold (\<lambda>pid. free_page pid (T + 1)) freed pm" "distinct freed" "0 \<notin> set freed" "set freed \<inter> avail pm = {}"
    and "holds X (page_view cv (pm_io pm)) root c m' P" "P \<inter> ({0} \<union> avail pm \<union> set freed) = {}"
    and "nx = next_page_id (pm_alloc pm)"
  shows "shared_ok cv X n pm' (commit_slot_new root c (T + 1) nx) {} rts ms m'"
proof -
  note s = assms(1) [unfolded shared_ok_def]
  have pm': "pm_io pm' = pm_io pm" "pm_readers pm' = pm_readers pm" "next_page_id (pm_alloc pm') = next_page_id (pm_alloc pm)"
      "pending_free_pages (pm_alloc pm') = pending_free_pages (pm_alloc pm) @ map (\<lambda>pid. \<lparr>fp_page_id = pid, fp_transaction_id = T + 1\<rparr>) freed"
    by (simp_all add: assms(4) fold_free_page)
  have ids: "pending_ids pm' = pending_ids pm @ freed" by (simp add: pending_ids_def pm'(4) comp_def)
  have av: "avail pm' = avail pm \<union> set freed" by (auto simp: avail_def ids pm'(3))
  have "T < T + 1" using word_add_1(1) [OF assms(3)] by (simp add: word_less_nat_alt)
  then have lt: "x < T + 1" if "x \<le> T" for x using that by (rule order_le_less_trans [rotated])
  have nx: "pid < next_page_id (pm_alloc pm)" if "pid \<in> set freed" for pid
    using assms(7) that by (auto simp: avail_def not_le)
  have "pages_inv n pm'"
    using s assms(5-7) nx by (auto simp: pages_inv_def readers_safe_def pm_safe_def pm' ids av avail_def)
  moreover have "reader_ok cv X pm' (T + 1) {} rt k" if ro: "reader_ok cv X pm T {} rt k" for rt k
  proof -
    have "rt_transaction rt < T + 1" using lt ro by (simp add: reader_ok_def)
    with ro show ?thesis unfolding reader_ok_def pm' set_append set_map by (fastforce simp: less_imp_le)
  qed
  then have "list_all2 (reader_ok cv X pm' (T + 1) {}) rts ms" using s list_all2_mono unfolding assms(2) by blast
  moreover have "committed_ok cv X pm' (commit_slot_new root c (T + 1) nx) {} m'"
  proof -
    have "\<forall>f \<in> set (pending_free_pages (pm_alloc pm)). fp_transaction_id f \<le> T" using s assms(2) by (simp add: committed_ok_def)
    then have "\<forall>f \<in> set (pending_free_pages (pm_alloc pm')). fp_transaction_id f \<le> T + 1"
      using lt by (auto simp: pm'(4) intro: less_imp_le)
    moreover have "\<forall>q \<in> P. q < nx" using assms(9,10) by (auto simp: avail_def not_le)
    ultimately show ?thesis using assms(8,9) by (auto simp: committed_ok_def commit_slot_new_def pm'(1) av)
  qed
  ultimately show ?thesis using s by (simp add: shared_ok_def commit_slot_new_def pm'(2))
qed

lemma commit_sim:
  assumes "zerocopy_le X" "moka_cache K cv" "db_sim cv X n w a" "w_writer w = Some wt" "commit X K wt (w_db w) = (r, db)"
  shows "\<exists>a'. spec_step a (CommitTx r) a' \<and> db_sim cv X n (w\<lparr>w_db := db, w_writer := None\<rparr>) a'"
proof -
  define pm where "pm = db_pages (w_db w)"
  obtain slot where s: "header_ok (db_commit_header (w_db w))" "active_slot (db_commit_header (w_db w)) = Inr slot"
      "db_snapshot (w_db w) = (root_page_id slot, slot_transaction_id slot)"
      "shared_ok cv X n pm slot (dirty_keys (w_writer w)) (w_readers w) (sp_snapshots a) (sp_committed a)"
      "writer_ok cv X n pm slot wt (sp_working a)"
    using db_simD [OF assms(3) pm_def] assms(4) by auto
  define D where "D = dirty_keys (w_writer w)"
  have failed: ?thesis if "r = Inl e" "db_commit_header db = db_commit_header (w_db w)" "db_snapshot db = db_snapshot (w_db w)"
      "shared_ok cv X n (db_pages db) slot {} (w_readers w) (sp_snapshots a) (sp_committed a)" for e
  proof -
    have "db_sim cv X n (w\<lparr>w_db := db, w_writer := None\<rparr>) (a\<lparr>sp_working := None\<rparr>)"
      using s(1-3) that by (auto simp: db_sim_shared dirty_keys_def)
    with spec_commit_failed [of a e] that(1) show ?thesis by blast
  qed
  show ?thesis
  proof (cases "wt_failed wt")
    case True
    then have "r = Inl (Fail TransactionFailed)" "db = w_db w" using assms(5) by (simp_all add: commit_def)
    with failed shared_fewer_dirty [OF s(4), of "{}"] show ?thesis by (simp add: pm_def)
  next
    case False
    define u where "u = \<lparr>ts_pages = pm, ts_tx = wt\<rparr>"
    obtain m P where m: "sp_working a = Some m" "holds X (tx_view cv u) (wt_root_page wt) (wt_root_page_checksum wt) m P"
        "P \<inter> ({0} \<union> tx_free u \<union> tx_freed u) = {}" "tx_inv n u" "tx_out u = {}" "0 \<notin> tx_freed u"
      using s(5) False by (auto simp: writer_ok_def Let_def u_def)
    define T where "T = slot_transaction_id slot"
    have wt: "T \<noteq> - 1" "wt_transaction wt = T + 1" using s(5) by (simp_all add: writer_ok_def T_def)
    obtain r1 db1 where w1: "write_dirty_pages K (wt_dirty_pages wt) (w_db w) = (r1, db1)" by fastforce
    have io: "io_ok (pm_io (db_pages (w_db w)))"
      using s(4) by (simp add: shared_ok_def pages_inv_def readers_safe_def pm_safe_def pm_def)
    have slots: "\<forall>(q, slot) \<in> set (wt_dirty_pages wt). slot_ok n q slot" and dist: "distinct (map fst (wt_dirty_pages wt))"
      using m(4) by (auto simp: tx_inv_def dirty_ok_def tx_dirty_def hm_get_def u_def)
    obtain io1 where io1: "db1 = (w_db w)\<lparr>db_pages := pm\<lparr>pm_io := io1\<rparr>\<rparr>" "io_ok io1"
        "writes_only cv (fst ` set (wt_dirty_pages wt)) (pm_io pm) io1"
        "r1 = Inr () \<longrightarrow> (\<forall>q p. (q, Available p) \<in> set (wt_dirty_pages wt) \<longrightarrow> page_view cv io1 q = Some (page_data p))"
      using moka_cache.write_dirty_pages_spec [OF assms(2) w1 io dist slots] unfolding pm_def by blast
    have keys: "fst ` set (wt_dirty_pages wt) = D"
      by (simp add: D_def dirty_keys_def assms(4) hm_get_def [abs_def] dom_map_of_conv_image_fst)
    note wo1 = io1(3) [unfolded keys]
    have wo10: "writes_only cv (D \<union> {0}) (pm_io pm) io1" using wo1 by (auto simp: writes_only_def)
    show ?thesis
    proof (cases r1)
      case (Inl e)
      then have "r = Inl e" "db = poison r db1" using assms(5) False w1 by (auto simp: commit_def)
      then show ?thesis
        using failed writes_shared [OF s(4) wo10 [unfolded D_def]] io1(1) by simp
    next
      case (Inr x)
      obtain r2 db2 where w2: "publish X K (wt_root_page wt) (wt_root_page_checksum wt) (wt_transaction wt) db1 = (r2, db2)" by fastforce
      have "header_ok (db_commit_header db1)" "io_ok (pm_io (db_pages db1))" using io1(1,2) s(1) by simp_all
      from moka_cache.publish_spec [OF assms(2) w2 this(2,1)] obtain io2 where io2: "db_pages db2 = pm\<lparr>pm_io := io2\<rparr>" "io_ok io2"
          "writes_only cv {0} io1 io2"
          "r2 = Inr () \<longrightarrow> db_snapshot db2 = (wt_root_page wt, T + 1) \<and> header_ok (db_commit_header db2)
            \<and> active_slot (db_commit_header db2) = Inr (commit_slot_new (wt_root_page wt) (wt_root_page_checksum wt) (T + 1) (next_page_id (pm_alloc pm)))"
          "r2 \<noteq> Inr () \<longrightarrow> db_snapshot db2 = db_snapshot (w_db w) \<and> db_commit_header db2 = db_commit_header (w_db w)"
        by (auto simp: io1(1) wt(2))
      have wo2: "writes_only cv (D \<union> {0}) (pm_io pm) io2" by (rule writes_only_trans [OF wo1 io2(3)])
      note sh2 = writes_shared [OF s(4) wo2 [unfolded D_def]]
      show ?thesis
      proof (cases r2)
        case (Inl e)
        then have "r = Inl e" "db = poison r db2" using assms(5) False w1 \<open>r1 = Inr x\<close> w2 by (auto simp: commit_def)
        then show ?thesis using failed sh2 io2(1,5) Inl by simp
      next
        case (Inr y)
        define pm' where "pm' = fold (\<lambda>pid. free_page pid (T + 1)) (wt_freed_pages wt) (pm\<lparr>pm_io := io2\<rparr>)"
        have res: "r = Inr ()" "db_pages db = pm'" "db_snapshot db = db_snapshot db2" "db_commit_header db = db_commit_header db2"
          using assms(5) False w1 \<open>r1 = Inr x\<close> w2 Inr io2(1) by (auto simp: commit_def free_pages_def pm'_def wt(2) poison_def)
        have view: "page_view cv io2 q = Some d" if "tx_view cv u q = Some d" "q \<noteq> 0" for q d
        proof (cases "tx_dirty u q")
          case None
          then have "q \<notin> D" by (auto simp: D_def dirty_keys_def assms(4) tx_dirty_def u_def)
          with wo2 that None show ?thesis by (simp add: writes_only_def tx_view_def u_def)
        next
          case (Some sl)
          with that(1) obtain p where p: "sl = Available p" "page_data p = d" by (auto simp: tx_view_def split: dirty_page_slot.splits)
          then have "(q, Available p) \<in> set (wt_dirty_pages wt)" using Some by (auto simp: tx_dirty_def u_def hm_get_def dest: map_of_SomeD)
          then have "page_view cv io1 q = Some d" using io1(4) \<open>r1 = Inr x\<close> p(2) by auto
          with io2(3) that(2) show ?thesis by (simp add: writes_only_def)
        qed
        have P: "P \<inter> ({0} \<union> avail pm \<union> set (wt_freed_pages wt)) = {}" using m(3) by (simp add: tx_free_def tx_freed_def u_def)
        have hold: "holds X (page_view cv (pm_io (pm\<lparr>pm_io := io2\<rparr>))) (wt_root_page wt) (wt_root_page_checksum wt) m P"
          by (rule holds_keep [OF m(2)]) (use view P in auto)
        have av: "avail (pm\<lparr>pm_io := io2\<rparr>) = avail pm" by (simp add: avail_def pending_ids_def)
        have fr: "distinct (wt_freed_pages wt)" "0 \<notin> set (wt_freed_pages wt)" "set (wt_freed_pages wt) \<inter> avail (pm\<lparr>pm_io := io2\<rparr>) = {}"
          using m(4,6) by (auto simp: tx_inv_def tx_freed_def tx_free_def u_def av)
        have "shared_ok cv X n pm' (commit_slot_new (wt_root_page wt) (wt_root_page_checksum wt) (T + 1) (next_page_id (pm_alloc pm))) {}
            (w_readers w) (sp_snapshots a) m"
          by (rule free_shared [OF sh2 T_def wt(1) pm'_def fr hold]) (use P av in simp_all)
        then have "db_sim cv X n (w\<lparr>w_db := db, w_writer := None\<rparr>) (a\<lparr>sp_committed := m, sp_working := None\<rparr>)"
          using io2(4) Inr res by (auto simp: db_sim_shared dirty_keys_def commit_slot_new_def)
        with spec_commit [OF m(1)] res(1) show ?thesis by blast
      qed
    qed
  qed
qed

lemma rollback_sim:
  assumes "db_sim cv X n w a"
  shows "db_sim cv X n (w\<lparr>w_writer := None\<rparr>) (a\<lparr>sp_working := None\<rparr>)"
proof -
  obtain slot where s: "header_ok (db_commit_header (w_db w))" "active_slot (db_commit_header (w_db w)) = Inr slot"
      "db_snapshot (w_db w) = (root_page_id slot, slot_transaction_id slot)"
      "shared_ok cv X n (db_pages (w_db w)) slot (dirty_keys (w_writer w)) (w_readers w) (sp_snapshots a) (sp_committed a)"
    using db_simD [OF assms refl] by blast
  with shared_fewer_dirty [OF s(4), of "{}"] show ?thesis by (auto simp: db_sim_shared dirty_keys_def)
qed


section \<open>Refinement\<close>

lemma db_step_sim:
  assumes "zerocopy_le X" "moka_cache K cv" "db_sim cv X n w a" "db_step N X K w e w'"
  shows "\<exists>a'. spec_step a e a' \<and> db_sim cv X n w' a'"
  using assms(4)
proof (cases rule: db_step.cases)
  case (begin_read rt db)
  then show ?thesis using begin_read_sim [OF assms(3)] spec_begin_read by blast
next
  case (read_key i key r db)
  then show ?thesis using read_sim [OF assms(1-3)] spec_read by blast
next
  case (end_read i db)
  then show ?thesis using end_read_sim [OF assms(3)] spec_end_read by blast
next
  case (begin_write wt)
  then show ?thesis using begin_write_sim [OF assms(3)] spec_begin_write by blast
next
  case (insert_pair wt key val r db wt')
  then show ?thesis using insert_sim [OF assms(1-3)] by blast
next
  case (commit_tx wt r db)
  then show ?thesis using commit_sim [OF assms(1-3)] by blast
next
  case (rollback wt)
  then show ?thesis using rollback_sim [OF assms(3)] spec_rollback by blast
qed


end
