(* ===== verification/Recovery.thy ===== *)
theory Recovery
  imports Snapshots_Props
begin

text \<open>
  Creating and opening a database. A new database holds the empty map; a database file whose header page and
  committed tree are stored opens with the committed map, from a cold cache. Every call that succeeds keeps
  the file in this state, and so does a commit that is interrupted while it writes the dirty pages.
\<close>

section \<open>Fresh handles\<close>

lemma from_parts_shape:
  assumes "from_parts io header = Inr db" "active_slot header = Inr slot"
  shows "\<exists>f c. contents f = contents (io_file io) \<and> db = \<lparr>db_pages = \<lparr>pm_io = io\<lparr>io_file := f\<rparr>, pm_readers = [],
      pm_alloc = \<lparr>pending_free_pages = [], next_page_id = slot_next_page_id slot, reserved_page_count = c\<rparr>\<rparr>,
    db_commit_header = header, db_snapshot = (root_page_id slot, slot_transaction_id slot), db_writer_poisoned = False\<rparr>"
proof -
  obtain q f where fl: "file_len (io_file io) = (q, f)" by fastforce
  with assms file_len_spec(1) [OF fl] show ?thesis
    by (auto simp: from_parts_def page_manager_new_def page_allocator_new_def commit_state_new_def result_simps split: sum.splits if_splits)
qed

lemma fresh_sim:
  assumes "from_parts io header = Inr db" "header_ok header" "active_slot header = Inr slot" "io_ok io" "psize io = n" "24 \<le> n" "n < 2 ^ 63"
    and "holds X (page_view cv io) (root_page_id slot) (root_page_checksum slot) m P" "0 \<notin> P" "\<forall>q \<in> P. q < slot_next_page_id slot"
  shows "db_sim cv X n \<lparr>w_db = db, w_writer = None, w_readers = []\<rparr> \<lparr>sp_committed = m, sp_working = None, sp_snapshots = []\<rparr>"
proof -
  obtain f c where db: "contents f = contents (io_file io)" "db = \<lparr>db_pages = \<lparr>pm_io = io\<lparr>io_file := f\<rparr>, pm_readers = [],
      pm_alloc = \<lparr>pending_free_pages = [], next_page_id = slot_next_page_id slot, reserved_page_count = c\<rparr>\<rparr>,
    db_commit_header = header, db_snapshot = (root_page_id slot, slot_transaction_id slot), db_writer_poisoned = False\<rparr>"
    using from_parts_shape [OF assms(1,3)] by blast
  note sc = same_contents [OF db(1)]
  define pm where "pm = db_pages db"
  have pm: "pm_io pm = io\<lparr>io_file := f\<rparr>" "pm_readers pm = []" "pending_free_pages (pm_alloc pm) = []"
      "next_page_id (pm_alloc pm) = slot_next_page_id slot" by (simp_all add: pm_def db(2))
  have av: "avail pm = {pid. slot_next_page_id slot \<le> pid}" by (simp add: avail_def pending_ids_def pm)
  have "root_page_id slot \<in> P" using holds_root [OF assms(8)] .
  then have "root_page_id slot < slot_next_page_id slot" using assms(10) by blast
  then have z: "0 \<notin> avail pm" unfolding av by (auto simp: not_le)
  have "pages_inv n pm"
    using z assms(4-7) sc(2) by (simp add: pages_inv_def readers_safe_def pm_safe_def tracker_ok_def pending_ids_def pm psize_def)
  moreover have "P \<inter> ({0} \<union> {} \<union> avail pm) = {}" using assms(9,10) by (auto simp: av not_le [symmetric])
  ultimately have "shared_ok cv X n pm slot {} [] [] m"
    using assms(8,10) by (auto simp: shared_ok_def counted_def committed_ok_def pm sc(1))
  with assms(2,3) show ?thesis by (auto simp: db_sim_shared dirty_keys_def db(2) pm_def)
qed

section \<open>A new database\<close>

context zerocopy_le
begin

lemma empty_leaf:
  assumes "get_empty_leaf_page X k = Inr page" "24 \<le> k" "k < 2 ^ 63"
  shows "leaf_wf X page" "leaf_pairs X page = []" "length page = k"
  using assms leaf_build_pairs [of "[]" "replicate k 0"]
  by (auto simp: get_empty_leaf_page_def leaf_build_page_at_buf_def pair_space_def)

end

text \<open>The header page is stored and describes the state in memory.\<close>

definition durable :: "kv_crates \<Rightarrow> 'c database \<Rightarrow> bool" where
  "durable X db \<longleftrightarrow> (\<exists>page. encode_page X (db_commit_header db) = Inr page \<and> stored (pm_io (db_pages db)) 0 = Some page)
     \<and> header_page_size (db_commit_header db) = io_page_size (pm_io (db_pages db)) \<and> 4096 \<le> psize (pm_io (db_pages db))"

definition fresh_world :: "'c database \<Rightarrow> 'c world" where
  "fresh_world db = \<lparr>w_db = db, w_writer = None, w_readers = []\<rparr>"

definition fresh_spec :: "kv_map \<Rightarrow> spec" where
  "fresh_spec m = \<lparr>sp_committed = m, sp_working = None, sp_snapshots = []\<rparr>"

lemma new_file_spec:
  assumes "zerocopy_le X" "moka_cache K cv" "new_file X K s = (Inr header, io)" "contents (io_file s) = []" "4096 \<le> psize s"
  shows "header_ok header \<and> io_ok io \<and> io_page_size io = io_page_size s \<and> header_page_size header = io_page_size s \<and> psize s < 2 ^ 63
    \<and> (\<exists>slot. active_slot header = Inr slot \<and> slot_next_page_id slot = 2
        \<and> holds X (page_view cv io) (root_page_id slot) (root_page_checksum slot) Map.empty {1})
    \<and> (\<exists>page. encode_page X header = Inr page \<and> page_view cv io 0 = Some page)"
proof -
  obtain e where e: "get_empty_leaf_page X (psize s) = Inr e"
    using assms(3) by (cases "get_empty_leaf_page X (psize s)") (auto simp: new_file_def psize_def)
  define c where "c = checksum_page X e"
  define slot where "slot = commit_slot_new INITIAL_ROOT_PAGE_ID c 0 (INITIAL_ROOT_PAGE_ID + 1)"
  have act: "active_slot (header_initial (io_page_size s) c) = Inr slot"
    by (simp add: active_slot_def header_initial_def slot_at_def active_slot_index_def FIRST_COMMIT_SLOT_def Let_def slot_def)
  have two: "slot_next_page_id slot = 2" "root_page_id slot = 1" "root_page_checksum slot = c"
    by (simp_all add: slot_def commit_slot_new_def INITIAL_ROOT_PAGE_ID_def)
  obtain cnt s1 hp s2 s3 where run: "on_file (preallocate_pages 2 (io_page_size s)) s = (Inr cnt, s1)"
      "encode_page X (header_initial (io_page_size s) c) = Inr hp"
      "write_page K \<lparr>page_no = HEADER_PAGE_ID, page_data = hp\<rparr> s1 = (Inr (), s2)"
      "write_page K \<lparr>page_no = INITIAL_ROOT_PAGE_ID, page_data = e\<rparr> s2 = (Inr (), s3)"
      "header = header_initial (io_page_size s) c" "io = s3"
    using assms(3) e act by (auto simp: new_file_def psize_def c_def [symmetric] Let_def two result_simps lift_r_def)
  obtain g where g: "preallocate_pages 2 (io_page_size s) (io_file s) = (Inr cnt, g)" "s1 = s\<lparr>io_file := g\<rparr>"
    using run(1) by (auto simp: on_file_def' split: prod.splits)
  have "length (contents (io_file s)) < 2 ^ 64" by (simp add: assms(4))
  note pre = preallocate_pages_spec [OF g(1) this]
  have sz: "psize s < 2 ^ 63" using pre(2) pre(3) [OF refl] by (simp add: assms(4) psize_def)
  have ok1: "io_ok s1" "psize s1 = psize s" "io_page_size s1 = io_page_size s" using pre(2) g(2) by (simp_all add: io_ok_def psize_def)
  note w1 = moka_cache.write_page_spec [OF assms(2) ok1(1) run(3)]
  note w2 = moka_cache.write_page_spec [OF assms(2) w1(2) run(4)]
  have "page_view cv s2 0 = Some hp" using w1(6) by (simp add: HEADER_PAGE_ID_def)
  then have v0: "page_view cv s3 0 = Some hp" using w2(5) [of 0 hp] by (simp add: INITIAL_ROOT_PAGE_ID_def)
  have v1: "page_view cv s3 1 = Some e" using w2(6) by (simp add: INITIAL_ROOT_PAGE_ID_def)
  have leaf: "leaf_wf X e" "leaf_pairs X e = []"
    using zerocopy_le.empty_leaf [OF assms(1) e] assms(5) sz by auto
  then have "rooted 0 X (\<lambda>_. True) (page_view cv s3) 1 c" by (simp add: rooted_def v1 checksummed_def c_def)
  then have "holds X (page_view cv s3) 1 c Map.empty {1}" unfolding holds_def by (intro exI [of _ 0]) (simp add: v1 leaf(2))
  then show ?thesis
    using act two run(2,5,6) v0 w1(1) w2(1,2) ok1 sz header_initial_ok [of "io_page_size s" c]
    by (auto simp: header_initial_def Let_def)
qed

lemma open_new_sim:
  assumes "zerocopy_le X" "moka_cache K cv" "open_new X K script page_size capacity = Inr db"
  shows "db_sim cv X (unat page_size) (fresh_world db) (fresh_spec Map.empty)" "durable X db"
proof -
  obtain f where f: "open_new_file script = Inr f" using assms(3) by (auto simp: open_new_def result_simps)
  have cf: "contents f = []"
    using f by (auto simp: open_new_file_def result_simps split: prod.splits dest: sys_call_spec(1))
  define s where "s = page_io_new K f page_size capacity"
  have s: "contents (io_file s) = []" "io_page_size s = page_size" "psize s = unat page_size"
    by (simp_all add: s_def page_io_new_def cf psize_def)
  have "4096 \<le> page_size"
    using assms(3) by (auto simp: open_new_def validate_page_size_def MIN_PAGE_SIZE_def result_simps split: if_splits)
  then have sz: "4096 \<le> unat page_size" by (simp add: word_le_nat_alt)
  obtain header io where n: "new_file X K s = (Inr header, io)" "from_parts io header = Inr db"
    using assms(3) f by (auto simp: open_new_def result_simps s_def split: sum.splits prod.splits)
  have "4096 \<le> psize s" using sz s(3) by simp
  from new_file_spec [OF assms(1,2) n(1) s(1) this] obtain slot page where nf: "header_ok header" "io_ok io" "io_page_size io = page_size"
      "header_page_size header = page_size" "unat page_size < 2 ^ 63" "active_slot header = Inr slot" "slot_next_page_id slot = 2"
      "holds X (page_view cv io) (root_page_id slot) (root_page_checksum slot) Map.empty {1}"
      "encode_page X header = Inr page" "page_view cv io 0 = Some page"
    unfolding s(2,3) by blast
  show "db_sim cv X (unat page_size) (fresh_world db) (fresh_spec Map.empty)"
    unfolding fresh_world_def fresh_spec_def
    by (rule fresh_sim [OF n(2) nf(1,6,2) _ _ nf(5,8)]) (use nf(3,7) sz in \<open>simp_all add: psize_def\<close>)
  obtain g c where db: "contents g = contents (io_file io)" "db = \<lparr>db_pages = \<lparr>pm_io = io\<lparr>io_file := g\<rparr>, pm_readers = [],
      pm_alloc = \<lparr>pending_free_pages = [], next_page_id = slot_next_page_id slot, reserved_page_count = c\<rparr>\<rparr>,
    db_commit_header = header, db_snapshot = (root_page_id slot, slot_transaction_id slot), db_writer_poisoned = False\<rparr>"
    using from_parts_shape [OF n(2) nf(6)] by blast
  have "stored (io\<lparr>io_file := g\<rparr>) 0 = Some page"
    using page_view_stored [OF nf(10)] same_contents(4) [OF db(1)] by simp
  with nf(3,4,9) sz show "durable X db" by (simp add: durable_def db(2) psize_def)
qed

section \<open>Opening a stored database\<close>

lemma for_op_kept:
  assumes "\<And>x. op_keeps R (f x)" "reflp R" "transp R"
  shows "op_keeps R (for_op f xs)"
proof (induction xs)
  case Nil
  show ?case unfolding for_op.simps by (rule op_keeps_basic(1) [OF assms(2)])
next
  case (Cons x xs)
  then show ?case using op_keeps_bind [OF assms(3,1)] by simp
qed

lemma verify_pages_kept:
  assumes "\<And>pid. op_keeps R (rd pid)" "reflp R" "transp R"
  shows "op_keeps R (verify_pages frames X rd pid c)"
proof (induction frames arbitrary: pid c)
  case 0
  show ?case unfolding verify_pages.simps by (rule op_keeps_basic(2) [OF assms(2)])
next
  case (Suc frames)
  note basic = op_keeps_basic [OF assms(2)]
  have loop: "op_keeps R (for_op (\<lambda>m. bind_op (lift_r (branch_entry_key page m)) (\<lambda>_.
      verify_pages frames X rd (bm_child_page_id m) (bm_child_page_checksum m))) ms)" for page ms
    by (rule for_op_kept [OF op_keeps_bind [OF assms(3) basic(3) Suc] assms(2,3)])
  have node: "op_keeps R (case node of LeafNode _ \<Rightarrow> ret () | BranchNode bp \<Rightarrow> for_op (\<lambda>m. bind_op (lift_r (branch_entry_key (bp_page bp) m)) (\<lambda>_.
      verify_pages frames X rd (bm_child_page_id m) (bm_child_page_checksum m))) (bp_entries bp))" for node
    by (cases node) (use basic(1) loop in simp_all)
  show ?case
    unfolding verify_pages.simps
    by (rule op_keeps_bind [OF assms(3,1)], split if_split, intro conjI impI, rule basic(2), rule op_keeps_bind [OF assms(3) basic(3) node])
qed

lemma reopen:
  assumes "zerocopy_le X" "moka_cache K cv" "db_sim cv X n w a" "durable X (w_db w)"
  shows "\<exists>F. \<forall>frames > F. \<exists>db. open_existing frames X K (contents (io_file (pm_io (db_pages (w_db w))))) [] capacity = Inr db
    \<and> db_sim cv X n (fresh_world db) (fresh_spec (sp_committed a)) \<and> durable X db"
proof -
  define io bs where "io = pm_io (db_pages (w_db w))" and "bs = contents (io_file io)"
  define header where "header = db_commit_header (w_db w)"
  obtain slot where s: "header_ok header" "active_slot header = Inr slot"
      "shared_ok cv X n (db_pages (w_db w)) slot (dirty_keys (w_writer w)) (w_readers w) (sp_snapshots a) (sp_committed a)"
    using db_simD [OF assms(3) refl] unfolding header_def by blast
  note sh = s(3) [unfolded shared_ok_def]
  obtain P where P: "holds X (page_view cv io) (root_page_id slot) (root_page_checksum slot) (sp_committed a) P" "0 \<notin> P"
      "\<forall>q \<in> P. q < slot_next_page_id slot"
    using sh by (auto simp: committed_ok_def io_def)
  have io: "io_ok io" "psize io = n" "24 \<le> n" "n < 2 ^ 63"
    using sh by (auto simp: pages_inv_def readers_safe_def pm_safe_def io_def)
  obtain page where page: "encode_page X header = Inr page" "stored io 0 = Some page" "header_page_size header = io_page_size io" "4096 \<le> n"
    using assms(4) io(2) by (auto simp: durable_def header_def io_def)
  have pg: "n \<le> length bs" "page = range_of 0 n bs" using page(2) io(2) by (auto simp: stored_def bs_def split: if_splits)
  have ps: "unat (io_page_size io) = n" using io(2) by (simp add: psize_def)
  have "header_size \<le> unat (header_page_size header)" using page(3,4) ps by (simp add: header_size_def)
  from encode_page_parse [OF assms(1) s(1) this] page(1) have "header_parse X (take header_size page) = Inr header" by auto
  moreover have "take header_size page = range_of 0 header_size bs" using pg page(4) by (simp add: range_of_def header_size_def)
  ultimately have parse: "header_parse X (range_of 0 header_size bs) = Inr header" by simp
  define f where "f = \<lparr>contents = bs, io_script = []\<rparr>"
  have calm: "calm_file f" "contents f = bs" by (simp_all add: f_def calm_file_def)
  have fl: "file_len f = (Inr (length bs), f)" using file_len_spec(3) [OF _ calm(1)] calm(2) by (metis surj_pair)
  have long: "header_size \<le> length bs" using pg(1) page(4) by (simp add: header_size_def)
  obtain x g where g: "read_at 0 header_size f = (x, g)" by fastforce
  have rd: "read_at (unat HEADER_PAGE_ID) header_size f = (Inr (range_of 0 header_size bs), f)"
  proof -
    have "x = Inr (range_of 0 header_size bs) \<and> g = f"
      by (rule read_at_spec(3) [OF g le0 calm(1), unfolded calm(2)]) (use long in simp)
    with g show ?thesis by (simp only: HEADER_PAGE_ID_def unat_0)
  qed
  have "\<not> io_page_size io < MIN_PAGE_SIZE" using page(4) ps by (simp add: MIN_PAGE_SIZE_def word_less_nat_alt)
  then have hd: "read_header X f = (Inr header, f)"
    using fl rd parse long page(3) unfolding read_header_def validate_page_size_def bind_op_def
    by (simp only: not_le [symmetric] lift_r_def ret_def prod.case sum.case if_True if_False simp_thms)
  have op: "open_existing_file bs [] = Inr f" by (simp add: open_existing_file_def sys_call_def next_outcome_def f_def)
  define io0 where "io0 = page_io_new K f (io_page_size io) capacity"
  have io0: "io_page_size io0 = io_page_size io" "io_file io0 = f" "cv (io_cache io0) = (\<lambda>_. None)" "io_ok io0" "calm_io io0"
    using io(1) calm moka_cache.new_view [OF assms(2)]
    by (simp_all add: io0_def page_io_new_def page_cache_new_def io_ok_def calm_io_def bs_def)
  have st: "stored io0 = stored io" using io0(1,2) calm(2) by (simp add: fun_eq_iff stored_def psize_def bs_def)
  have "page_view cv io \<subseteq>\<^sub>m page_view cv io0"
    using page_view_stored [of cv io] by (auto simp: map_le_def page_view_def [of cv io0] io0(3) st)
  from holds_le [OF this P(1)] have hold: "holds X (page_view cv io0) (root_page_id slot) (root_page_checksum slot) (sp_committed a) P" .
  then obtain h where h: "subtree h X (\<lambda>_. True) (page_view cv io0) [] None (root_page_id slot)"
      "checksummed X (page_view cv io0) (root_page_id slot) (root_page_checksum slot)"
    by (auto simp: holds_def rooted_def)
  have ready: "\<exists>db. open_existing frames X K bs [] capacity = Inr db
    \<and> db_sim cv X n (fresh_world db) (fresh_spec (sp_committed a)) \<and> durable X db" if "h < frames" for frames
  proof -
    from tree_reader.verify_pages_passes [OF io_tree_reader(1) [OF assms(1,2)] io0(4) h that] io0(5)
    obtain io1 where v: "verify_pages frames X (read_page K) (root_page_id slot) (root_page_checksum slot) io0 = (Inr (), io1)"
        "io_ok io1" "page_view cv io0 \<subseteq>\<^sub>m page_view cv io1" "calm_io io1"
      by blast
    have "extends cv io0 io1"
      by (rule op_keepsD [OF verify_pages_kept [OF moka_cache.read_page_extends [OF assms(2)]] v(1)])
        (auto simp: reflp_def transp_def intro: extends_trans)
    then have e: "io_page_size io1 = io_page_size io" "stored io0 \<subseteq>\<^sub>m stored io1" using io0(1) by (simp_all add: extends_def)
    have "on_file file_len io0 = (Inr (length bs), io0)" using fl io0(2) by (simp add: on_file_def')
    then have rec: "recover_header frames X K header io0 = (Inr header, io1)"
      using s(2) v(1) pg(1) ps page(3) by (simp add: recover_header_def not_less)
    have "file_len (io_file io1) = (Inr (length (contents (io_file io1))), io_file io1)"
      using file_len_spec(3) v(4) unfolding calm_io_def by (metis surj_pair)
    moreover have "io_page_size io1 \<noteq> 0" using e(1) ps page(4) by auto
    ultimately obtain db where db: "from_parts io1 header = Inr db"
      using s(2) by (simp add: from_parts_def page_manager_new_def page_allocator_new_def commit_state_new_def)
    have "open_existing frames X K bs [] capacity = Inr db"
      using op hd rec db page(3) by (simp add: open_existing_def io0_def)
    moreover have sim: "db_sim cv X n (fresh_world db) (fresh_spec (sp_committed a))"
      unfolding fresh_world_def fresh_spec_def
      by (rule fresh_sim [OF db s(1,2) v(2) _ io(3,4) holds_le [OF v(3) hold] P(2,3)]) (use e(1) ps in \<open>simp add: psize_def\<close>)
    moreover have "durable X db"
    proof -
      obtain g c where g: "contents g = contents (io_file io1)" "db = \<lparr>db_pages = \<lparr>pm_io = io1\<lparr>io_file := g\<rparr>, pm_readers = [],
          pm_alloc = \<lparr>pending_free_pages = [], next_page_id = slot_next_page_id slot, reserved_page_count = c\<rparr>\<rparr>,
        db_commit_header = header, db_snapshot = (root_page_id slot, slot_transaction_id slot), db_writer_poisoned = False\<rparr>"
        using from_parts_shape [OF db s(2)] by blast
      have "stored io1 0 = Some page" using map_leD [OF e(2)] st page(2) by simp
      then have "stored (io1\<lparr>io_file := g\<rparr>) 0 = Some page" using same_contents(4) [OF g(1)] by simp
      with page e(1) ps show ?thesis by (simp add: durable_def g(2) psize_def)
    qed
    ultimately show ?thesis by blast
  qed
  then show ?thesis unfolding bs_def io_def by blast
qed

section \<open>Steps keep the file recoverable\<close>

lemma durable_frame:
  assumes "durable X db" "pm_frame cv (db_pages db) (db_pages db')" "db_commit_header db' = db_commit_header db"
  shows "durable X db'"
proof -
  have e: "io_page_size (pm_io (db_pages db')) = io_page_size (pm_io (db_pages db))"
      "stored (pm_io (db_pages db)) \<subseteq>\<^sub>m stored (pm_io (db_pages db'))"
    using assms(2) by (simp_all add: pm_frame_def extends_def)
  with assms(1,3) map_leD [OF e(2), of 0] show ?thesis by (auto simp: durable_def psize_def)
qed

lemma transaction_insert_frame:
  assumes "moka_cache K cv" "readers_safe (db_pages db)" "transaction_insert N X K key val (db, wt) = (r, db', wt')"
  shows "pm_frame cv (db_pages db) (db_pages db')" "db_commit_header db' = db_commit_header db"
proof -
  obtain q t where t: "tx_insert N X K key val \<lparr>ts_pages = db_pages db, ts_tx = wt\<rparr> = (q, t)" by fastforce
  have db': "db_pages db' = ts_pages t" "db_commit_header db' = db_commit_header db"
    using assms(3) t by (auto simp: transaction_insert_def)
  show "db_commit_header db' = db_commit_header db" by (rule db'(2))
  show "pm_frame cv (db_pages db) (db_pages db')"
  proof (cases "wt_failed wt")
    case True
    with t assms(2) show ?thesis by (auto simp: db'(1) tx_insert_def intro: pm_frame_refl)
  next
    case False
    obtain q' u where u: "tree_insert N X (tx_ops K) key val \<lparr>ts_pages = db_pages db, ts_tx = wt\<rparr> = (q', u)" by fastforce
    then have "ts_pages t = ts_pages u" using t False by (auto simp: tx_insert_def split: sum.splits fault.splits)
    with insert_frame(1) [OF assms(1) u] assms(2) show ?thesis by (simp add: db'(1))
  qed
qed

lemma commit_durable:
  assumes "moka_cache K cv" "commit X K wt db = (Inr (), db')" "durable X db" "header_ok (db_commit_header db)"
    and "io_ok (pm_io (db_pages db))" "distinct (map fst (wt_dirty_pages wt))" "\<forall>(q, slot) \<in> set (wt_dirty_pages wt). slot_ok n q slot"
  shows "durable X db'"
proof -
  have nf: "\<not> wt_failed wt" using assms(2) by (auto simp: commit_def)
  obtain r1 db1 where w1: "write_dirty_pages K (wt_dirty_pages wt) db = (r1, db1)" by fastforce
  have r1: "r1 = Inr ()" using assms(2) nf w1 by (cases r1) (auto simp: commit_def)
  obtain io1 where io1: "db1 = db\<lparr>db_pages := (db_pages db)\<lparr>pm_io := io1\<rparr>\<rparr>" "io_ok io1"
      "writes_only cv (fst ` set (wt_dirty_pages wt)) (pm_io (db_pages db)) io1"
    using moka_cache.write_dirty_pages_spec [OF assms(1) w1 assms(5-7)] by blast
  obtain r2 db2 where w2: "publish X K (wt_root_page wt) (wt_root_page_checksum wt) (wt_transaction wt) db1 = (r2, db2)" by fastforce
  have r2: "r2 = Inr ()" using assms(2) nf w1 r1 w2 by (cases r2) (auto simp: commit_def)
  have "io_ok (pm_io (db_pages db1))" "header_ok (db_commit_header db1)" using io1 assms(4) by simp_all
  from moka_cache.publish_spec [OF assms(1) w2 this] r2 obtain io2 page where p: "db_pages db2 = (db_pages db1)\<lparr>pm_io := io2\<rparr>"
      "writes_only cv {0} io1 io2" "header_page_size (db_commit_header db2) = header_page_size (db_commit_header db)"
      "encode_page X (db_commit_header db2) = Inr page" "page_view cv io2 0 = Some page"
    by (auto simp: io1(1))
  have db': "pm_io (db_pages db') = io2" "db_commit_header db' = db_commit_header db2"
    using assms(2) nf w1 r1 w2 r2 p(1) by (auto simp: commit_def free_pages_def fold_free_page poison_def)
  have "io_page_size io2 = io_page_size (pm_io (db_pages db))" using io1(3) p(2) by (simp add: writes_only_def)
  with assms(3) p(3,4) page_view_stored [OF p(5)] db' show ?thesis by (auto simp: durable_def psize_def)
qed

lemma durable_step:
  assumes "moka_cache K cv" "db_sim cv X n w a" "durable X (w_db w)" "db_step N X K w e w'" "\<forall>err. e \<noteq> CommitTx (Inl err)"
  shows "durable X (w_db w')"
proof -
  obtain slot where s: "header_ok (db_commit_header (w_db w))"
      "shared_ok cv X n (db_pages (w_db w)) slot (dirty_keys (w_writer w)) (w_readers w) (sp_snapshots a) (sp_committed a)"
      "case w_writer w of None \<Rightarrow> sp_working a = None | Some wt \<Rightarrow> writer_ok cv X n (db_pages (w_db w)) slot wt (sp_working a)"
    using db_simD [OF assms(2) refl] by blast
  have safe: "readers_safe (db_pages (w_db w))" "io_ok (pm_io (db_pages (w_db w)))"
    using s(2) by (auto simp: shared_ok_def pages_inv_def readers_safe_def pm_safe_def)
  show ?thesis
    using assms(4)
  proof (cases rule: db_step.cases)
    case (begin_read rt db)
    then show ?thesis using assms(3) by (auto simp: durable_def begin_read_def split: sum.splits prod.splits)
  next
    case (read_key i key r db)
    then show ?thesis using transaction_read_frame [OF assms(1) safe(1)] durable_frame [OF assms(3)] by fastforce
  next
    case (end_read i db)
    then show ?thesis using assms(3) by (auto simp: durable_def end_read_def split: sum.splits)
  next
    case (insert_pair wt key val r db wt')
    note fr = transaction_insert_frame [OF assms(1) safe(1) insert_pair(4)]
    show ?thesis using durable_frame [OF assms(3) fr] insert_pair(2) by simp
  next
    case (commit_tx wt r db)
    have r: "r = Inr ()" using assms(5) commit_tx(1) by (cases r) auto
    have "\<not> wt_failed wt" using commit_tx(4) r by (auto simp: commit_def)
    then have "tx_inv n \<lparr>ts_pages = db_pages (w_db w), ts_tx = wt\<rparr>" using s(3) commit_tx(3) by (simp add: writer_ok_def Let_def)
    then have "\<forall>(q, slot) \<in> set (wt_dirty_pages wt). slot_ok n q slot" "distinct (map fst (wt_dirty_pages wt))"
      by (auto simp: tx_inv_def dirty_ok_def tx_dirty_def hm_get_def)
    with commit_durable [OF assms(1) commit_tx(4) [unfolded r] assms(3) s(1) safe(2)] commit_tx(2) show ?thesis by simp
  qed (use assms(3) in simp_all)
qed

section \<open>Runs\<close>

inductive db_run :: "nat \<Rightarrow> kv_crates \<Rightarrow> 'c moka \<Rightarrow> 'c world \<Rightarrow> db_event list \<Rightarrow> 'c world \<Rightarrow> bool" for N X K where
  db_run_Nil: "db_run N X K w [] w"
| db_run_Cons: "db_step N X K w e w1 \<Longrightarrow> db_run N X K w1 es w2 \<Longrightarrow> db_run N X K w (e # es) w2"

inductive spec_run :: "spec \<Rightarrow> db_event list \<Rightarrow> spec \<Rightarrow> bool" where
  spec_run_Nil: "spec_run a [] a"
| spec_run_Cons: "spec_step a e a1 \<Longrightarrow> spec_run a1 es a2 \<Longrightarrow> spec_run a (e # es) a2"

lemma db_run_sim:
  assumes "zerocopy_le X" "moka_cache K cv" "db_run N X K w es w'" "db_sim cv X n w a"
  shows "\<exists>a'. spec_run a es a' \<and> db_sim cv X n w' a'
    \<and> (durable X (w_db w) \<longrightarrow> (\<forall>err. CommitTx (Inl err) \<notin> set es) \<longrightarrow> durable X (w_db w'))"
  using assms(3,4)
proof (induction arbitrary: a rule: db_run.induct)
  case (db_run_Nil w)
  then show ?case using spec_run_Nil by blast
next
  case (db_run_Cons w e w1 es w2)
  obtain a1 where a1: "spec_step a e a1" "db_sim cv X n w1 a1"
    using db_step_sim [OF assms(1,2) db_run_Cons.prems db_run_Cons.hyps(1)] by blast
  obtain a2 where a2: "spec_run a1 es a2" "db_sim cv X n w2 a2"
      "durable X (w_db w1) \<longrightarrow> (\<forall>err. CommitTx (Inl err) \<notin> set es) \<longrightarrow> durable X (w_db w2)"
    using db_run_Cons.IH [OF a1(2)] by blast
  have "durable X (w_db w1)" if "durable X (w_db w)" "\<forall>err. CommitTx (Inl err) \<notin> set (e # es)"
    using durable_step [OF assms(2) db_run_Cons.prems that(1) db_run_Cons.hyps(1)] that(2) by auto
  with a2 spec_run_Cons [OF a1(1) a2(1)] show ?case by auto
qed


end
