(* ===== verification/Database_Props.thy ===== *)
theory Database_Props
  imports Recovery
begin

text \<open>
  The properties of the database as a whole: refinement of the specification, recovery after a crash, reads
  that return, insertions that spoil nothing, and bounds of the allocator. The instances use the
  little-endian codec and the bounded cache of the theory \<open>Page_Store\<close>.
\<close>

section \<open>Creating a database succeeds\<close>

text \<open>The state is as good as it gets: no system call fails and the pages lie in the file.\<close>

definition all_calm :: "'c page_manager \<Rightarrow> bool" where
  "all_calm pm \<longleftrightarrow> pm_ok pm \<and> calm_io (pm_io pm)"

lemma open_new_total:
  assumes "zerocopy_le X" "moka_cache K cv" "4096 \<le> unat page_size" "unat page_size < 2 ^ 62"
  shows "\<exists>db slot e. open_new X K [] page_size capacity = Inr db \<and> all_calm (db_pages db)
    \<and> next_page_id (pm_alloc (db_pages db)) = 2 \<and> length (contents (io_file (pm_io (db_pages db)))) = 2 * unat page_size
    \<and> active_slot (db_commit_header db) = Inr slot \<and> slot_transaction_id slot = 0 \<and> \<not> db_writer_poisoned db
    \<and> root_page_id slot = 1 \<and> root_page_checksum slot = checksum_page X e
    \<and> page_view cv (pm_io (db_pages db)) 1 = Some e \<and> leaf_wf X e \<and> leaf_pairs X e = [] \<and> leaf_free X e + 24 = unat page_size"
proof -
  define f where "f = \<lparr>contents = [], io_script = []\<rparr>"
  define s where "s = page_io_new K f page_size capacity"
  define n where "n = unat page_size"
  have s: "io_file s = f" "io_page_size s = page_size" "psize s = n" by (simp_all add: s_def page_io_new_def psize_def n_def)
  have f: "calm_file f" "contents f = []" by (simp_all add: f_def calm_file_def)
  obtain e where e: "get_empty_leaf_page X n = Inr e" "length e = n" "leaf_wf X e" "leaf_pairs X e = []" "leaf_free X e + 24 = n"
    using zerocopy_le.leaf_build_pairs [OF assms(1), of "[]" "replicate n 0"] assms(3,4)
    by (auto simp: get_empty_leaf_page_def leaf_build_page_at_buf_def pair_space_def n_def)
  define header where "header = header_initial page_size (checksum_page X e)"
  define slot where "slot = commit_slot_new INITIAL_ROOT_PAGE_ID (checksum_page X e) 0 (INITIAL_ROOT_PAGE_ID + 1)"
  have act: "active_slot header = Inr slot" "slot_next_page_id slot = 2" "slot_transaction_id slot = 0"
      "root_page_id slot = 1" "root_page_checksum slot = checksum_page X e"
    by (simp_all add: header_def active_slot_def header_initial_def slot_at_def active_slot_index_def FIRST_COMMIT_SLOT_def Let_def
        slot_def commit_slot_new_def INITIAL_ROOT_PAGE_ID_def)
  have "header_ok header" "header_page_size header = page_size"
    by (simp_all add: header_def header_initial_ok) (simp add: header_initial_def Let_def)
  with encode_page_parse [OF assms(1), of header] obtain hp where hp: "encode_page X header = Inr hp" "length hp = n"
    using assms(3) by (auto simp: header_size_def n_def)
  obtain q g where g: "preallocate_pages 2 page_size f = (q, g)" by fastforce
  note pre = preallocate_pages_spec [OF g, unfolded f(2)]
  have nz: "page_size \<noteq> 0" using assms(3) by auto
  have two: "unat (2 :: u64) = 2" by simp
  obtain c where c: "q = Inr c" "calm_file g" using pre(4) f(1) nz assms(4) two by auto
  have len: "length (contents g) = n * 2" "length (contents g) < 2 ^ 64" using pre(2,3) c(1) by (auto simp: n_def)
  define s1 where "s1 = s\<lparr>io_file := g\<rparr>"
  have s1: "io_ok s1" "calm_io s1" "psize s1 = n" "length (contents (io_file s1)) = n * 2"
    using len c(2) s(3) by (simp_all add: s1_def io_ok_def calm_io_def psize_def)
  obtain r2 s2 where w1: "write_page K \<lparr>page_no = HEADER_PAGE_ID, page_data = hp\<rparr> s1 = (r2, s2)" by fastforce
  note v1 = moka_cache.write_page_spec [OF assms(2) s1(1) w1]
  have r2: "r2 = Inr ()" "calm_io s2" using v1(7) s1 hp(2) by (simp_all add: HEADER_PAGE_ID_def)
  have s2: "psize s2 = n" "length (contents (io_file s2)) = n * 2"
    using v1(1,8) s1(3,4) by (simp_all add: psize_def HEADER_PAGE_ID_def)
  obtain r3 s3 where w2: "write_page K \<lparr>page_no = INITIAL_ROOT_PAGE_ID, page_data = e\<rparr> s2 = (r3, s3)" by fastforce
  note v2 = moka_cache.write_page_spec [OF assms(2) v1(2) w2]
  have r3: "r3 = Inr ()" "calm_io s3" using v2(7) r2(2) s2 e(2) by (simp_all add: INITIAL_ROOT_PAGE_ID_def)
  have nf: "new_file X K s = (Inr header, s3)"
    using e(1) act hp(1) g c(1) w1 w2 r2(1) r3(1) s by (auto simp: new_file_def n_def header_def [symmetric] Let_def on_file_def' s1_def)
  have ps: "io_page_size s3 = page_size" using v1(1) v2(1) s(2) by (simp add: s1_def)
  have fl: "file_len (io_file s3) = (Inr (length (contents (io_file s3))), io_file s3)"
    using file_len_spec(3) r3(2) unfolding calm_io_def by (metis surj_pair)
  have len3: "length (contents (io_file s3)) = n * 2" using v2(8) s2 by (simp add: INITIAL_ROOT_PAGE_ID_def)
  obtain db where db: "from_parts s3 header = Inr db" "pm_io (db_pages db) = s3"
      "pm_alloc (db_pages db) = \<lparr>pending_free_pages = [], next_page_id = 2, reserved_page_count = of_nat (n * 2 div n)\<rparr>"
      "db_commit_header db = header" "\<not> db_writer_poisoned db"
    using act fl nz ps len3 by (auto simp: from_parts_def page_manager_new_def page_allocator_new_def commit_state_new_def n_def)
  have "n * 2 div n = 2" using assms(3) by (simp add: n_def)
  then have ok: "pm_ok (db_pages db)"
    using v2(2) db(2,3) ps assms(3) len3 by (simp add: pm_ok_def pm_safe_def pending_ids_def psize_def n_def)
  have "open_new_file [] = Inr f" by (simp add: open_new_file_def sys_call_def next_outcome_def f_def)
  moreover have "\<not> page_size < MIN_PAGE_SIZE" using assms(3) by (simp add: MIN_PAGE_SIZE_def word_less_nat_alt)
  ultimately have "open_new X K [] page_size capacity = Inr db"
    using nf db(1) by (simp add: open_new_def validate_page_size_def s_def)
  moreover have "page_view cv s3 1 = Some e" using v2(6) r3(1) by (simp add: INITIAL_ROOT_PAGE_ID_def)
  ultimately show ?thesis using db(2-5) r3(2) ok len3 act e(3-5) by (auto simp: n_def all_calm_def)
qed

section \<open>Reading succeeds\<close>

lemma read_returns_snapshot:
  assumes "zerocopy_le X" "moka_cache K cv" "db_sim cv X n w a" "i < length (w_readers w)" "calm_io (pm_io (db_pages (w_db w)))"
  shows "\<exists>F. \<forall>fuel > F. \<exists>db. transaction_read fuel X K (w_readers w ! i) key (w_db w) = Some (Inr ((sp_snapshots a ! i) key), db)"
proof -
  define pm rt where "pm = db_pages (w_db w)" and "rt = w_readers w ! i"
  obtain slot where sh: "shared_ok cv X n pm slot (dirty_keys (w_writer w)) (w_readers w) (sp_snapshots a) (sp_committed a)"
    using db_simD [OF assms(3) pm_def] by blast
  then have io: "io_ok (pm_io pm)" by (simp add: shared_ok_def pages_inv_def readers_safe_def pm_safe_def)
  have "reader_ok cv X pm (slot_transaction_id slot) (dirty_keys (w_writer w)) rt (sp_snapshots a ! i)"
    using sh assms(4) by (simp add: shared_ok_def list_all2_conv_all_nth rt_def)
  then obtain h where h: "subtree h X (\<lambda>_. True) (page_view cv (pm_io pm)) [] None (rt_root_page_id rt)"
      "map_of (tree_pairs h X (page_view cv (pm_io pm)) (rt_root_page_id rt)) = sp_snapshots a ! i"
    by (auto simp: reader_ok_def holds_def rooted_def)
  have "\<exists>db. transaction_read fuel X K rt key (w_db w) = Some (Inr ((sp_snapshots a ! i) key), db)" if "h < fuel" for fuel
  proof -
    from tree_reader.get_loop_correct [OF io_tree_reader(2) [OF assms(1,2)] io h(1) within_all that, of key] assms(5)
    obtain t where "get_loop fuel X (manager_read_page K) (rt_root_page_id rt) key pm = Some (Inr ((sp_snapshots a ! i) key), t)"
      unfolding h(2) pm_def [symmetric] by blast
    then show ?thesis by (simp add: transaction_read_def pm_def)
  qed
  then show ?thesis unfolding rt_def by blast
qed

section \<open>Commit succeeds\<close>

context moka_cache
begin

lemma write_page_calm:
  assumes "all_calm pm" "page_no p < next_page_id (pm_alloc pm)" "length (page_data p) = psize (pm_io pm)"
  shows "\<exists>io. write_page K p (pm_io pm) = (Inr (), io) \<and> all_calm (pm\<lparr>pm_io := io\<rparr>) \<and> io_page_size io = io_page_size (pm_io pm)"
proof -
  obtain r io where w: "write_page K p (pm_io pm) = (r, io)" by fastforce
  have ok: "pm_ok pm" "io_ok (pm_io pm)" "calm_io (pm_io pm)" using assms(1) by (simp_all add: all_calm_def pm_ok_def pm_safe_def)
  note sp = write_page_spec [OF ok(2) w] and inf = pm_ok_in_file [OF ok(1) assms(2)]
  have "r = Inr ()" "calm_io io" using sp(7) [OF ok(3) assms(3) inf] by auto
  moreover have "pm_ok (pm\<lparr>pm_io := io\<rparr>)"
    using ok(1) sp(1,2) sp(8) [OF inf] by (simp add: pm_ok_def pm_safe_def pending_ids_def psize_def)
  ultimately show ?thesis using w sp(1) by (simp add: all_calm_def)
qed

lemma write_dirty_calm:
  assumes "all_calm (db_pages db)"
    and "\<forall>slot \<in> snd ` set ds. \<exists>p. slot = Available p \<and> page_no p < next_page_id (pm_alloc (db_pages db))
      \<and> length (page_data p) = psize (pm_io (db_pages db))"
  shows "\<exists>io. write_dirty_pages K ds db = (Inr (), db\<lparr>db_pages := (db_pages db)\<lparr>pm_io := io\<rparr>\<rparr>)
    \<and> all_calm ((db_pages db)\<lparr>pm_io := io\<rparr>) \<and> io_page_size io = io_page_size (pm_io (db_pages db))"
  using assms
proof (induction ds arbitrary: db)
  case Nil
  then show ?case by (intro exI [of _ "pm_io (db_pages db)"]) (simp add: write_dirty_pages_def)
next
  case (Cons d ds)
  obtain q p where d: "d = (q, Available p)" "page_no p < next_page_id (pm_alloc (db_pages db))"
      "length (page_data p) = psize (pm_io (db_pages db))"
    using Cons.prems(2) by (cases d) auto
  obtain io where io: "write_page K p (pm_io (db_pages db)) = (Inr (), io)" "all_calm ((db_pages db)\<lparr>pm_io := io\<rparr>)"
      "io_page_size io = io_page_size (pm_io (db_pages db))"
    using write_page_calm [OF Cons.prems(1) d(2,3)] by blast
  define db1 where "db1 = db\<lparr>db_pages := (db_pages db)\<lparr>pm_io := io\<rparr>\<rparr>"
  have step: "write_dirty_pages K (d # ds) db = write_dirty_pages K ds db1"
    using d(1) io(1) by (simp add: write_dirty_pages_def slot_page_def on_db_pages_def zoom_def manager_write_page_def on_io_def' db1_def)
  have "\<exists>io'. write_dirty_pages K ds db1 = (Inr (), db1\<lparr>db_pages := (db_pages db1)\<lparr>pm_io := io'\<rparr>\<rparr>)
    \<and> all_calm ((db_pages db1)\<lparr>pm_io := io'\<rparr>) \<and> io_page_size io' = io_page_size (pm_io (db_pages db1))"
    by (rule Cons.IH) (use Cons.prems(2) io in \<open>auto simp: db1_def psize_def\<close>)
  with step io(3) show ?case by (auto simp: db1_def)
qed

end

lemma commit_total:
  assumes "zerocopy_le X" "moka_cache K cv" "db_sim cv X n w a" "w_writer w = Some wt" "\<not> wt_failed wt"
    and "durable X (w_db w)" "all_calm (db_pages (w_db w))"
  shows "\<exists>db. commit X K wt (w_db w) = (Inr (), db) \<and> all_calm (db_pages db)"
proof -
  define pm where "pm = db_pages (w_db w)"
  obtain slot where s: "header_ok (db_commit_header (w_db w))"
      "shared_ok cv X n pm slot (dirty_keys (w_writer w)) (w_readers w) (sp_snapshots a) (sp_committed a)"
      "writer_ok cv X n pm slot wt (sp_working a)"
    using db_simD [OF assms(3) pm_def] assms(4) by auto
  define u where "u = \<lparr>ts_pages = pm, ts_tx = wt\<rparr>"
  have u: "tx_inv n u" "tx_out u = {}" "0 \<notin> tx_freed u" using s(3) assms(5) by (auto simp: writer_ok_def Let_def u_def)
  have n: "psize (pm_io pm) = n" "0 \<notin> avail pm" using s(2) by (simp_all add: shared_ok_def pages_inv_def)
  have slots: "\<exists>p. sl = Available p \<and> page_no p < next_page_id (pm_alloc pm) \<and> length (page_data p) = psize (pm_io pm)"
    if "sl \<in> snd ` set (wt_dirty_pages wt)" for sl
  proof -
    from that obtain q where "(q, sl) \<in> set (wt_dirty_pages wt)" by auto
    then have q: "tx_dirty u q = Some sl" using u(1) by (simp add: tx_inv_def tx_dirty_def hm_get_def u_def)
    then obtain p where p: "sl = Available p" using u(2) by (cases sl) (auto simp: tx_out_def)
    with dirty_okD [OF u(1) q] n(1) show ?thesis by (auto simp: slot_ok_def tx_free_def u_def avail_def not_le)
  qed
  obtain io1 where io1: "write_dirty_pages K (wt_dirty_pages wt) (w_db w) = (Inr (), (w_db w)\<lparr>db_pages := pm\<lparr>pm_io := io1\<rparr>\<rparr>)"
      "all_calm (pm\<lparr>pm_io := io1\<rparr>)" "io_page_size io1 = io_page_size (pm_io pm)"
    using moka_cache.write_dirty_calm [OF assms(2,7), of "wt_dirty_pages wt"] slots unfolding pm_def by blast
  define db1 where "db1 = (w_db w)\<lparr>db_pages := pm\<lparr>pm_io := io1\<rparr>\<rparr>"
  obtain h where h: "with_commit (wt_root_page wt) (wt_root_page_checksum wt) (wt_transaction wt) (next_page_id (pm_alloc pm))
      (db_commit_header (w_db w)) = Inr h" "header_ok h"
      "active_slot h = Inr (commit_slot_new (wt_root_page wt) (wt_root_page_checksum wt) (wt_transaction wt) (next_page_id (pm_alloc pm)))"
      "header_page_size h = header_page_size (db_commit_header (w_db w))"
    using with_commit_slots [OF s(1)] by blast
  have ps: "header_page_size h = io_page_size io1" "4096 \<le> n"
    using assms(6) h(4) io1(3) n(1) by (simp_all add: durable_def pm_def)
  have pn: "unat (io_page_size io1) = n" using n(1) io1(3) by (simp add: psize_def)
  then obtain hp where hp: "encode_page X h = Inr hp" "length hp = n"
    using encode_page_parse [OF assms(1) h(2)] ps by (auto simp: header_size_def)
  have z: "(0 :: page_id) < next_page_id (pm_alloc pm)" using n(2) by (auto simp: avail_def word_gt_0)
  obtain io2 where io2: "write_page K \<lparr>page_no = HEADER_PAGE_ID, page_data = hp\<rparr> io1 = (Inr (), io2)" "all_calm (pm\<lparr>pm_io := io2\<rparr>)"
    using moka_cache.write_page_calm [OF assms(2) io1(2), of "\<lparr>page_no = HEADER_PAGE_ID, page_data = hp\<rparr>"] z hp(2) pn
    by (auto simp: HEADER_PAGE_ID_def psize_def)
  have sy: "sys_call (io_file io2) = (Inr (), io_file io2)"
    using sys_call_spec(3) io2(2) unfolding all_calm_def calm_io_def by (metis page_manager.select_convs(1) page_manager.surjective page_manager.update_convs(1) surj_pair)
  define db2 where "db2 = db1\<lparr>db_pages := pm\<lparr>pm_io := io2\<rparr>, db_commit_header := h, db_snapshot := (wt_root_page wt, wt_transaction wt)\<rparr>"
  have "publish X K (wt_root_page wt) (wt_root_page_checksum wt) (wt_transaction wt) db1 = (Inr (), db2)"
    using h(1,3) hp(1) io2(1) sy
    by (simp add: publish_def db1_def db2_def on_db_pages_def zoom_def manager_write_page_def manager_sync_data_def on_io_def'
        sync_data_def on_file_def' file_sync_data_def commit_slot_new_def)
  then have c: "commit X K wt (w_db w) = (Inr (), free_pages (wt_freed_pages wt) (wt_transaction wt) db2)"
    using io1(1) assms(5) by (simp add: commit_def db1_def poison_def)
  have fr: "distinct (wt_freed_pages wt)" "set (wt_freed_pages wt) \<inter> avail pm = {}"
    using u(1) by (auto simp: tx_inv_def tx_freed_def tx_free_def u_def)
  have "all_calm (db_pages (free_pages (wt_freed_pages wt) (wt_transaction wt) db2))"
    using io2(2) fr by (auto simp: all_calm_def free_pages_def fold_free_page db2_def pm_ok_def pm_safe_def pending_ids_def comp_def avail_def not_le)
  with c show ?thesis by blast
qed

section \<open>A first transaction\<close>

text \<open>On a new database whose system calls succeed, a pair that fits into a page is inserted and committed,
  and a reader that starts afterwards finds it.\<close>

lemma first_insert:
  assumes "zerocopy_le X" "moka_cache K cv" "4096 \<le> unat page_size" "unat page_size < 2 ^ 50"
    and "24 + pair_space [(key, val)] \<le> unat page_size"
  shows "\<exists>db wt t. open_new X K [] page_size capacity = Inr db \<and> begin_write db = Inr wt \<and> \<not> wt_failed wt \<and> readers_safe (db_pages db)
    \<and> tx_inv (unat page_size) \<lparr>ts_pages = db_pages db, ts_tx = wt\<rparr>
    \<and> rooted 0 X (\<lambda>_. True) (tx_view cv \<lparr>ts_pages = db_pages db, ts_tx = wt\<rparr>) (wt_root_page wt) (wt_root_page_checksum wt)
    \<and> wt_root_page wt \<notin> tx_free \<lparr>ts_pages = db_pages db, ts_tx = wt\<rparr> \<union> tx_freed \<lparr>ts_pages = db_pages db, ts_tx = wt\<rparr>
    \<and> (\<forall>frames. tree_insert (Suc frames) X (tx_ops K) key val \<lparr>ts_pages = db_pages db, ts_tx = wt\<rparr> = (Inr (), t)) \<and> tx_calm 2 t
    \<and> (\<exists>q. tx_view cv t (wt_root_page (ts_tx t)) = Some q \<and> leaf_wf X q \<and> leaf_pairs X q = [(key, val)])"
proof -
  have "unat page_size < 2 ^ 62" using assms(4) by simp
  from open_new_total [OF assms(1-3) this, of capacity] obtain db slot e where db:
      "open_new X K [] page_size capacity = Inr db" "all_calm (db_pages db)"
      "next_page_id (pm_alloc (db_pages db)) = 2" "length (contents (io_file (pm_io (db_pages db)))) = 2 * unat page_size"
      "active_slot (db_commit_header db) = Inr slot" "slot_transaction_id slot = 0" "\<not> db_writer_poisoned db"
      "root_page_id slot = 1" "root_page_checksum slot = checksum_page X e"
      "page_view cv (pm_io (db_pages db)) 1 = Some e" "leaf_wf X e" "leaf_pairs X e = []" "leaf_free X e + 24 = unat page_size"
    by blast
  note sim = open_new_sim(1) [OF assms(1,2) db(1)]
  define n where "n = unat page_size"
  obtain wt where wt: "begin_write db = Inr wt" "wt_root_page wt = 1" "wt_root_page_checksum wt = checksum_page X e" "\<not> wt_failed wt"
      "wt_dirty_pages wt = []" "wt_freed_pages wt = []"
    using db(5-9) by (simp add: begin_write_def write_transaction_new_def)
  define u where "u = \<lparr>ts_pages = db_pages db, ts_tx = wt\<rparr>"
  obtain slot' where "writer_ok cv X n (db_pages db) slot' wt (Some Map.empty)" and safe: "readers_safe (db_pages db)"
    using db_simD [OF begin_write_sim [OF sim, of wt] refl] wt(1)
    by (auto simp: fresh_world_def fresh_spec_def n_def shared_ok_def pages_inv_def)
  then have inv: "tx_inv n u" "1 \<notin> tx_free u"
    using wt(2-4) holds_root by (fastforce simp: writer_ok_def Let_def u_def)+
  have ps: "psize (pm_io (db_pages db)) = n" using inv(1) by (simp add: tx_inv_def u_def)
  have tv: "tx_view cv u 1 = Some e" using db(10) wt(5) by (simp add: tx_view_def tx_dirty_def u_def)
  have root_of: "po_get_root (tx_ops K) v = wt_root_page (ts_tx v)" for v by (simp add: tx_ops_def)
  then have root: "po_get_root (tx_ops K) u = 1" by (simp add: u_def wt(2))
  have sums: "tx_root_sum u = checksum_page X e" "tx_freed u = {}" by (simp_all add: tx_root_sum_def tx_freed_def u_def wt(3,6))
  have rooted: "rooted 0 X (\<lambda>_. True) (tx_view cv u) 1 (checksum_page X e)"
    using tv db(11,12) by (simp add: rooted_def checksummed_def)
  note wr = tx_tree_writer [OF assms(1,2), of n]
  have ok: "tree_writer.tree_ok X (tx_ops K) (tx_view cv) tx_free tx_freed tx_root_sum (tx_inv n) (\<lambda>_. True) 0 u"
    using inv rooted tv sums by (simp add: tree_writer.tree_ok_def [OF wr] root)
  have "tx_calm (Suc 2) u" using db(2-4) ps assms(4) by (simp add: tx_calm_def u_def all_calm_def calm_pm_def n_def)
  moreover have "leaf_fits X e key val = Inr True"
    using zerocopy_le.leaf_fits_free [OF assms(1) db(11), of key val] db(13) assms(5) by simp
  ultimately obtain t where t: "\<forall>frames. tree_insert (Suc frames) X (tx_ops K) key val u = (Inr (), t)" "tx_calm 2 t"
      "\<exists>q. tx_view cv t (wt_root_page (ts_tx t)) = Some q \<and> leaf_wf X q \<and> leaf_pairs X q = [(key, val)]"
    using tree_writer.insert_leaf_root_total [OF wr ok, of 2 e key val] tv root root_of db(12) by auto
  have "1 \<notin> tx_free u \<union> tx_freed u" using inv(2) sums(2) by simp
  with db(1) wt safe inv(1) rooted t show ?thesis unfolding u_def n_def
    by (intro exI [of _ db] exI [of _ wt] exI [of _ t]) (simp only: simp_thms)
qed

lemma first_insert_run:
  assumes "zerocopy_le X" "moka_cache K cv" "4096 \<le> unat page_size" "unat page_size < 2 ^ 50"
    and "24 + pair_space [(key, val)] \<le> unat page_size"
  shows "\<exists>db w wt. open_new X K [] page_size capacity = Inr db
    \<and> (\<forall>frames. db_run (Suc frames) X K (fresh_world db) [BeginWrite, InsertPair key val (Inr ())] w)
    \<and> all_calm (db_pages (w_db w)) \<and> w_writer w = Some wt \<and> \<not> wt_failed wt \<and> w_readers w = []"
proof -
  obtain db wt t where f: "open_new X K [] page_size capacity = Inr db" "begin_write db = Inr wt" "\<not> wt_failed wt" "readers_safe (db_pages db)"
      "\<And>frames. tree_insert (Suc frames) X (tx_ops K) key val \<lparr>ts_pages = db_pages db, ts_tx = wt\<rparr> = (Inr (), t)" "tx_calm 2 t"
    using first_insert [OF assms, of capacity] by blast
  define w1 where "w1 = (fresh_world db)\<lparr>w_writer := Some wt\<rparr>"
  define w2 where "w2 = w1\<lparr>w_db := db\<lparr>db_pages := ts_pages t\<rparr>, w_writer := Some (ts_tx t)\<rparr>"
  have s1: "db_step (Suc frames) X K (fresh_world db) BeginWrite w1" for frames
    unfolding w1_def by (rule db_step.begin_write) (simp_all add: fresh_world_def f(2))
  have "transaction_insert (Suc frames) X K key val (w_db w1, wt) = (Inr (), db\<lparr>db_pages := ts_pages t\<rparr>, ts_tx t)" for frames
    using f(3,5) by (simp add: transaction_insert_def tx_insert_def w1_def fresh_world_def poison_def)
  from db_step.insert_pair [OF _ this]
  have s2: "db_step (Suc frames) X K w1 (InsertPair key val (Inr ())) w2" for frames by (simp add: panicked_def w2_def w1_def)
  have w2: "w_writer w2 = Some (ts_tx t)" "\<not> wt_failed (ts_tx t)" "w_readers w2 = []"
    using insert_frame(4) [OF assms(2) f(5)] f(3,4) by (auto simp: w2_def w1_def fresh_world_def)
  have "all_calm (db_pages (w_db w2))" using f(6) by (simp add: w2_def tx_calm_def calm_pm_def all_calm_def)
  with f(1) w2 db_run_Cons [OF s1 db_run_Cons [OF s2 db_run_Nil]] show ?thesis by blast
qed

lemma db_run_append:
  assumes "db_run N X K w es w1" "db_run N X K w1 fs w2"
  shows "db_run N X K w (es @ fs) w2"
  using assms by induction (auto intro: db_run.intros)

lemma new_run_sim:
  assumes "zerocopy_le X" "moka_cache K cv" "open_new X K script page_size capacity = Inr db" "db_run N X K (fresh_world db) es w"
  shows "\<exists>a. spec_run (fresh_spec Map.empty) es a \<and> db_sim cv X (unat page_size) w a
    \<and> ((\<forall>err. CommitTx (Inl err) \<notin> set es) \<longrightarrow> durable X (w_db w))"
proof -
  note new = open_new_sim [OF assms(1-3)]
  from db_run_sim [OF assms(1,2,4) new(1)] new(2) show ?thesis by (simp add: fresh_world_def)
qed

text \<open>The runs of the specification, event by event.\<close>

inductive_simps spec_run_simps: "spec_run a [] b" "spec_run a (e # es) b"

inductive_simps spec_step_simps:
  "spec_step a BeginRead b" "spec_step a (ReadKey i key r) b" "spec_step a (EndRead i) b" "spec_step a BeginWrite b"
  "spec_step a (InsertPair key val (Inr u)) b" "spec_step a (CommitTx (Inr u)) b" "spec_step a Rollback b"

lemma first_put_run:
  assumes "zerocopy_le X" "moka_cache K cv" "4096 \<le> unat page_size" "unat page_size < 2 ^ 50"
    and "24 + pair_space [(key, val)] \<le> unat page_size"
  shows "\<exists>db w. open_new X K [] page_size capacity = Inr db
    \<and> (\<forall>frames. db_run (Suc frames) X K (fresh_world db) [BeginWrite, InsertPair key val (Inr ()), CommitTx (Inr ()), BeginRead] w)
    \<and> calm_io (pm_io (db_pages (w_db w))) \<and> length (w_readers w) = 1"
proof -
  obtain db w wt where r: "open_new X K [] page_size capacity = Inr db" "all_calm (db_pages (w_db w))" "w_writer w = Some wt"
      "\<not> wt_failed wt" "w_readers w = []"
      "\<And>frames. db_run (Suc frames) X K (fresh_world db) [BeginWrite, InsertPair key val (Inr ())] w"
    using first_insert_run [OF assms, of capacity] by blast
  obtain a where a: "db_sim cv X (unat page_size) w a" "durable X (w_db w)"
    using new_run_sim [OF assms(1,2) r(1) r(6) [of 0]] by auto
  obtain db3 where db3: "commit X K wt (w_db w) = (Inr (), db3)" "all_calm (db_pages db3)"
    using commit_total [OF assms(1,2) a(1) r(3,4) a(2) r(2)] by blast
  define w3 where "w3 = w\<lparr>w_db := db3, w_writer := None\<rparr>"
  have s3: "db_step N X K w (CommitTx (Inr ())) w3" for N unfolding w3_def by (rule db_step.commit_tx [OF r(3) db3(1)])
  obtain a3 where "db_sim cv X (unat page_size) w3 a3" using db_step_sim [OF assms(1,2) a(1) s3] by blast
  then have "counted (pm_readers (db_pages db3)) []" by (auto simp: db_sim_def w3_def r(5))
  then have none: "map_of (pm_readers (db_pages db3)) tx \<in> {None, Some 0}" for tx
    by (cases "map_of (pm_readers (db_pages db3)) tx") (auto simp: counted_def unat_eq_zero split: option.splits dest: spec [of _ tx])
  obtain root tx where snap: "db_snapshot db3 = (root, tx)" by fastforce
  obtain rt db4 where b: "begin_read db3 = (Inr rt, db4)" "pm_io (db_pages db4) = pm_io (db_pages db3)"
    using none [of tx] snap by (auto simp: begin_read_def tracker_begin_read_def)
  have s4: "db_step N X K w3 BeginRead (w3\<lparr>w_db := db4, w_readers := w_readers w3 @ [rt]\<rparr>)" for N
    by (rule db_step.begin_read) (simp add: w3_def b(1))
  have "db_run (Suc frames) X K (fresh_world db) ([BeginWrite, InsertPair key val (Inr ())] @ [CommitTx (Inr ()), BeginRead])
      (w3\<lparr>w_db := db4, w_readers := w_readers w3 @ [rt]\<rparr>)" for frames
    by (rule db_run_append [OF r(6) db_run_Cons [OF s3 db_run_Cons [OF s4 db_run_Nil]]])
  with r(1) b(2) db3(2) show ?thesis
    by (intro exI [of _ db] exI [of _ "w3\<lparr>w_db := db4, w_readers := w_readers w3 @ [rt]\<rparr>"]) (simp add: all_calm_def w3_def r(5))
qed

section \<open>Refinement\<close>

text \<open>A run that puts one pair into a new database with pages of 4096 bytes.\<close>

lemma sample_insert:
  "\<exists>db w wt. open_new le_crates fifo_cache [] 4096 8 = Inr db
    \<and> (\<forall>N > 0. db_run N le_crates fifo_cache (fresh_world db) [BeginWrite, InsertPair [7] [9] (Inr ())] w)
    \<and> all_calm (db_pages (w_db w)) \<and> w_writer w = Some wt \<and> \<not> wt_failed wt"
proof -
  have "4096 \<le> unat (4096 :: u64)" "unat (4096 :: u64) < 2 ^ 50" "24 + pair_space [([7], [9])] \<le> unat (4096 :: u64)"
    by (simp_all add: leaf_meta_size_def)
  from first_insert_run [OF le.zerocopy_le_axioms fifo.moka_cache_axioms this, of 8]
  obtain db w wt where "open_new le_crates fifo_cache [] 4096 8 = Inr db" "all_calm (db_pages (w_db w))" "w_writer w = Some wt"
      "\<not> wt_failed wt" "\<And>N. db_run (Suc N) le_crates fifo_cache (fresh_world db) [BeginWrite, InsertPair [7] [9] (Inr ())] w"
    by blast
  then show ?thesis by (metis gr0_implies_Suc)
qed

lemma sample_put:
  "\<exists>db w. open_new le_crates fifo_cache [] 4096 8 = Inr db
    \<and> (\<forall>N > 0. db_run N le_crates fifo_cache (fresh_world db) [BeginWrite, InsertPair [7] [9] (Inr ()), CommitTx (Inr ()), BeginRead] w)
    \<and> calm_io (pm_io (db_pages (w_db w))) \<and> length (w_readers w) = 1"
proof -
  have "4096 \<le> unat (4096 :: u64)" "unat (4096 :: u64) < 2 ^ 50" "24 + pair_space [([7], [9])] \<le> unat (4096 :: u64)"
    by (simp_all add: leaf_meta_size_def)
  from first_put_run [OF le.zerocopy_le_axioms fifo.moka_cache_axioms this, of 8]
  obtain db w where "open_new le_crates fifo_cache [] 4096 8 = Inr db" "calm_io (pm_io (db_pages (w_db w)))" "length (w_readers w) = 1"
      "\<And>N. db_run (Suc N) le_crates fifo_cache (fresh_world db) [BeginWrite, InsertPair [7] [9] (Inr ()), CommitTx (Inr ()), BeginRead] w"
    by blast
  then show ?thesis by (metis gr0_implies_Suc)
qed

lemma put_run_spec:
  "spec_run (fresh_spec Map.empty) [BeginWrite, InsertPair key val (Inr ()), CommitTx (Inr ()), BeginRead] a \<longleftrightarrow>
     a = \<lparr>sp_committed = [key \<mapsto> val], sp_working = None, sp_snapshots = [[key \<mapsto> val]]\<rparr>"
  by (auto simp: spec_run_simps spec_step_simps fresh_spec_def)

text \<open>C3: the database refines its specification. Whatever calls run on a new database, in whatever order the
  transactions interleave and whichever system calls fail, the results are those of a store that keeps a
  committed map, one working map and a snapshot per reader: readers see their snapshot, a commit publishes
  all insertions of its transaction at once, and a transaction that failed or was dropped leaves nothing.\<close>

theorem database_refines_spec:
  assumes "zerocopy_le X" "moka_cache K cv" "open_new X K script page_size capacity = Inr db" "db_run N X K (fresh_world db) es w"
  shows "\<exists>a. spec_run (fresh_spec Map.empty) es a \<and> db_sim cv X (unat page_size) w a"
  using new_run_sim [OF assms] by blast

theorem database_refines_spec_witness:
  "\<exists>db w. open_new le_crates fifo_cache [] 4096 8 = Inr db
    \<and> db_run 5 le_crates fifo_cache (fresh_world db) [BeginWrite, InsertPair [7] [9] (Inr ()), CommitTx (Inr ()), BeginRead] w
    \<and> db_sim (\<lambda>c. map_of (snd c)) le_crates 4096 w
        \<lparr>sp_committed = [[7] \<mapsto> [9]], sp_working = None, sp_snapshots = [[[7] \<mapsto> [9]]]\<rparr>"
proof -
  obtain db w where r: "open_new le_crates fifo_cache [] 4096 8 = Inr db"
      "db_run 5 le_crates fifo_cache (fresh_world db) [BeginWrite, InsertPair [7] [9] (Inr ()), CommitTx (Inr ()), BeginRead] w"
    using sample_put zero_less_numeral by blast
  from database_refines_spec [OF le.zerocopy_le_axioms fifo.moka_cache_axioms this] r show ?thesis
    unfolding put_run_spec by auto
qed

text \<open>C4: a database file can be opened again at every moment. After any run without a failed commit, opening
  the file with a cold cache finds the header and the tree of the last commit and yields a database that holds
  exactly the committed map; uncommitted insertions are gone and the recursion of the verification ends.\<close>

theorem crash_recovery:
  assumes "zerocopy_le X" "moka_cache K cv" "open_new X K script page_size capacity = Inr db" "db_run N X K (fresh_world db) es w"
    and "\<forall>err. CommitTx (Inl err) \<notin> set es"
  shows "\<exists>a F. spec_run (fresh_spec Map.empty) es a \<and> (\<forall>frames > F. \<exists>db'.
    open_existing frames X K (contents (io_file (pm_io (db_pages (w_db w))))) [] capacity' = Inr db'
    \<and> db_sim cv X (unat page_size) (fresh_world db') (fresh_spec (sp_committed a)))"
proof -
  obtain a where a: "spec_run (fresh_spec Map.empty) es a" "db_sim cv X (unat page_size) w a" "durable X (w_db w)"
    using new_run_sim [OF assms(1-4)] assms(5) by blast
  with reopen [OF assms(1,2) a(2,3), of capacity'] show ?thesis by blast
qed

theorem crash_recovery_witness:
  "\<exists>db w db'. open_new le_crates fifo_cache [] 4096 8 = Inr db
    \<and> db_run 5 le_crates fifo_cache (fresh_world db) [BeginWrite, InsertPair [7] [9] (Inr ()), CommitTx (Inr ()), BeginRead] w
    \<and> (\<exists>frames. open_existing frames le_crates fifo_cache (contents (io_file (pm_io (db_pages (w_db w))))) [] 8 = Inr db')
    \<and> db_sim (\<lambda>c. map_of (snd c)) le_crates 4096 (fresh_world db') (fresh_spec [[7] \<mapsto> [9]])"
proof -
  obtain db w where r: "open_new le_crates fifo_cache [] 4096 8 = Inr db"
      "db_run 5 le_crates fifo_cache (fresh_world db) [BeginWrite, InsertPair [7] [9] (Inr ()), CommitTx (Inr ()), BeginRead] w"
    using sample_put zero_less_numeral by blast
  from crash_recovery [OF le.zerocopy_le_axioms fifo.moka_cache_axioms this, of 8]
  obtain a F db' where "spec_run (fresh_spec Map.empty) [BeginWrite, InsertPair [7] [9] (Inr ()), CommitTx (Inr ()), BeginRead] a"
      "open_existing (Suc F) le_crates fifo_cache (contents (io_file (pm_io (db_pages (w_db w))))) [] 8 = Inr db'"
      "db_sim (\<lambda>c. map_of (snd c)) le_crates 4096 (fresh_world db') (fresh_spec (sp_committed a))"
    by auto
  with r show ?thesis unfolding put_run_spec by auto
qed

text \<open>C12: a commit may be interrupted at any point while it writes its dirty pages, also in the middle of a page,
  by an error or by a crash: the file still opens with the committed map, since the pages of the committed tree
  and the header page are never written in place.\<close>

theorem interrupted_page_writes_recover:
  assumes "zerocopy_le X" "moka_cache K cv" "open_new X K script page_size capacity = Inr db" "db_run N X K (fresh_world db) es w"
    and "\<forall>err. CommitTx (Inl err) \<notin> set es" "w_writer w = Some wt" "\<not> wt_failed wt"
    and "write_dirty_pages K (wt_dirty_pages wt) (w_db w) = (r, db1)"
  shows "\<exists>a F. spec_run (fresh_spec Map.empty) es a \<and> (\<forall>frames > F. \<exists>db'.
    open_existing frames X K (contents (io_file (pm_io (db_pages db1)))) [] capacity' = Inr db'
    \<and> db_sim cv X (unat page_size) (fresh_world db') (fresh_spec (sp_committed a)))"
proof -
  obtain a where a: "spec_run (fresh_spec Map.empty) es a" "db_sim cv X (unat page_size) w a" "durable X (w_db w)"
    using new_run_sim [OF assms(1-4)] assms(5) by blast
  obtain slot where s: "header_ok (db_commit_header (w_db w))" "active_slot (db_commit_header (w_db w)) = Inr slot"
      "db_snapshot (w_db w) = (root_page_id slot, slot_transaction_id slot)"
      "shared_ok cv X (unat page_size) (db_pages (w_db w)) slot (dirty_keys (w_writer w)) (w_readers w) (sp_snapshots a) (sp_committed a)"
      "writer_ok cv X (unat page_size) (db_pages (w_db w)) slot wt (sp_working a)"
    using db_simD [OF a(2) refl] assms(6) by auto
  have d: "distinct (map fst (wt_dirty_pages wt))" "\<forall>(q, sl) \<in> set (wt_dirty_pages wt). slot_ok (unat page_size) q sl"
      "hm_get (wt_dirty_pages wt) 0 = None" "io_ok (pm_io (db_pages (w_db w)))"
    using s(4,5) assms(7)
    by (auto simp: writer_ok_def Let_def tx_inv_def dirty_ok_def tx_dirty_def hm_get_def shared_ok_def pages_inv_def readers_safe_def pm_safe_def)
  have keys: "dirty_keys (w_writer w) = fst ` set (wt_dirty_pages wt)"
    by (simp add: dirty_keys_def assms(6) hm_get_def [abs_def] dom_map_of_conv_image_fst)
  then have z: "0 \<notin> fst ` set (wt_dirty_pages wt)" using d(3) by (simp add: hm_get_def map_of_eq_None_iff)
  obtain io where io: "db1 = (w_db w)\<lparr>db_pages := (db_pages (w_db w))\<lparr>pm_io := io\<rparr>\<rparr>"
      "writes_only cv (fst ` set (wt_dirty_pages wt)) (pm_io (db_pages (w_db w))) io"
    using moka_cache.write_dirty_pages_spec [OF assms(2,8) d(4,1,2)] by blast
  have "writes_only cv (dirty_keys (w_writer w) \<union> {0}) (pm_io (db_pages (w_db w))) io" using io(2) keys by (simp add: writes_only_def)
  from writes_shared [OF s(4) this] s(1-3)
  have "db_sim cv X (unat page_size) (w\<lparr>w_db := db1, w_writer := None\<rparr>) (a\<lparr>sp_working := None\<rparr>)"
    by (auto simp: db_sim_shared io(1) dirty_keys_def)
  moreover have "durable X db1" using a(3) io z by (simp add: durable_def writes_only_def psize_def)
  ultimately show ?thesis using a(1) reopen [OF assms(1,2), of "unat page_size" "w\<lparr>w_db := db1, w_writer := None\<rparr>"] by fastforce
qed

theorem interrupted_page_writes_recover_witness:
  "\<exists>db w wt r db1 db'. open_new le_crates fifo_cache [] 4096 8 = Inr db
    \<and> db_run 5 le_crates fifo_cache (fresh_world db) [BeginWrite, InsertPair [7] [9] (Inr ())] w \<and> w_writer w = Some wt
    \<and> write_dirty_pages fifo_cache (wt_dirty_pages wt) (w_db w) = (r, db1)
    \<and> (\<exists>frames. open_existing frames le_crates fifo_cache (contents (io_file (pm_io (db_pages db1)))) [] 8 = Inr db')
    \<and> db_sim (\<lambda>c. map_of (snd c)) le_crates 4096 (fresh_world db') (fresh_spec Map.empty)"
proof -
  obtain db w wt where r: "open_new le_crates fifo_cache [] 4096 8 = Inr db"
      "db_run 5 le_crates fifo_cache (fresh_world db) [BeginWrite, InsertPair [7] [9] (Inr ())] w" "w_writer w = Some wt" "\<not> wt_failed wt"
    using sample_insert zero_less_numeral by blast
  obtain x db1 where x: "write_dirty_pages fifo_cache (wt_dirty_pages wt) (w_db w) = (x, db1)" by fastforce
  from interrupted_page_writes_recover [OF le.zerocopy_le_axioms fifo.moka_cache_axioms r(1,2) _ r(3,4) x, of 8]
  obtain a F db' where o: "spec_run (fresh_spec Map.empty) [BeginWrite, InsertPair [7] [9] (Inr ())] a"
      "open_existing (Suc F) le_crates fifo_cache (contents (io_file (pm_io (db_pages db1)))) [] 8 = Inr db'"
      "db_sim (\<lambda>c. map_of (snd c)) le_crates 4096 (fresh_world db') (fresh_spec (sp_committed a))"
    by auto
  from o(1) have a: "sp_committed a = Map.empty" by (auto simp: spec_run_simps spec_step_simps fresh_spec_def)
  show ?thesis
    by (rule exI [of _ db], rule exI [of _ w], rule exI [of _ wt], rule exI [of _ x], rule exI [of _ db1], rule exI [of _ db'])
      (intro conjI r(1-3) x exI [of _ "Suc F"] o(2) o(3) [unfolded a])
qed

section \<open>Progress\<close>

text \<open>C15: every read ends. When no system call fails, a lookup of a reader returns, given enough steps, exactly
  what its snapshot says for the key, whatever was committed since the reader started.\<close>

theorem read_returns:
  assumes "zerocopy_le X" "moka_cache K cv" "open_new X K script page_size capacity = Inr db" "db_run N X K (fresh_world db) es w"
    and "i < length (w_readers w)" "calm_io (pm_io (db_pages (w_db w)))"
  shows "\<exists>a F. spec_run (fresh_spec Map.empty) es a \<and> i < length (sp_snapshots a) \<and> (\<forall>fuel > F. \<exists>db'.
    transaction_read fuel X K (w_readers w ! i) key (w_db w) = Some (Inr ((sp_snapshots a ! i) key), db'))"
proof -
  obtain a where a: "spec_run (fresh_spec Map.empty) es a" "db_sim cv X (unat page_size) w a"
    using new_run_sim [OF assms(1-4)] by blast
  moreover have "i < length (sp_snapshots a)" using a(2) assms(5) by (auto simp: db_sim_def dest: list_all2_lengthD)
  ultimately show ?thesis using read_returns_snapshot [OF assms(1,2) a(2) assms(5,6), of key] by blast
qed

theorem read_returns_witness:
  "\<exists>db w fuel db'. open_new le_crates fifo_cache [] 4096 8 = Inr db
    \<and> db_run 5 le_crates fifo_cache (fresh_world db) [BeginWrite, InsertPair [7] [9] (Inr ()), CommitTx (Inr ()), BeginRead] w
    \<and> transaction_read fuel le_crates fifo_cache (w_readers w ! 0) [7] (w_db w) = Some (Inr (Some [9]), db')"
proof -
  obtain db w where r: "open_new le_crates fifo_cache [] 4096 8 = Inr db"
      "db_run 5 le_crates fifo_cache (fresh_world db) [BeginWrite, InsertPair [7] [9] (Inr ()), CommitTx (Inr ()), BeginRead] w"
      "calm_io (pm_io (db_pages (w_db w)))" "length (w_readers w) = 1"
    using sample_put zero_less_numeral by blast
  have "0 < length (w_readers w)" using r(4) by simp
  from read_returns [OF le.zerocopy_le_axioms fifo.moka_cache_axioms r(1,2) this r(3), of "[7]"]
  obtain a F db' where "spec_run (fresh_spec Map.empty) [BeginWrite, InsertPair [7] [9] (Inr ()), CommitTx (Inr ()), BeginRead] a"
      "transaction_read (Suc F) le_crates fifo_cache (w_readers w ! 0) [7] (w_db w) = Some (Inr ((sp_snapshots a ! 0) [7]), db')"
    by (meson lessI)
  with r(1,2) show ?thesis unfolding put_run_spec by auto
qed

text \<open>C17: a commit succeeds. When the transaction has not failed, no system call fails and the pages lie in the
  file, \<open>commit\<close> writes all dirty pages and the header and returns without error or panic.\<close>

theorem commit_succeeds:
  assumes "zerocopy_le X" "moka_cache K cv" "open_new X K script page_size capacity = Inr db" "db_run N X K (fresh_world db) es w"
    and "\<forall>err. CommitTx (Inl err) \<notin> set es" "w_writer w = Some wt" "\<not> wt_failed wt" "all_calm (db_pages (w_db w))"
  shows "\<exists>db'. commit X K wt (w_db w) = (Inr (), db') \<and> all_calm (db_pages db')"
proof -
  obtain a where "db_sim cv X (unat page_size) w a" "durable X (w_db w)"
    using new_run_sim [OF assms(1-4)] assms(5) by blast
  from commit_total [OF assms(1,2) this(1) assms(6,7) this(2) assms(8)] show ?thesis .
qed

theorem commit_succeeds_witness:
  "\<exists>db w wt db'. open_new le_crates fifo_cache [] 4096 8 = Inr db
    \<and> db_run 5 le_crates fifo_cache (fresh_world db) [BeginWrite, InsertPair [7] [9] (Inr ())] w \<and> w_writer w = Some wt
    \<and> commit le_crates fifo_cache wt (w_db w) = (Inr (), db')"
proof -
  obtain db w wt where r: "open_new le_crates fifo_cache [] 4096 8 = Inr db"
      "db_run 5 le_crates fifo_cache (fresh_world db) [BeginWrite, InsertPair [7] [9] (Inr ())] w" "w_writer w = Some wt" "\<not> wt_failed wt"
      "all_calm (db_pages (w_db w))"
    using sample_insert zero_less_numeral by blast
  from commit_succeeds [OF le.zerocopy_le_axioms fifo.moka_cache_axioms r(1,2) _ r(3-5)] r show ?thesis by auto
qed

text \<open>C16: what is put is found. On a new database whose system calls succeed, a pair that fits into a page is
  inserted and committed without error, and a reader that starts afterwards finds the value under the key and
  nothing under any other key.\<close>

theorem put_then_get:
  assumes "zerocopy_le X" "moka_cache K cv" "4096 \<le> unat page_size" "unat page_size < 2 ^ 50"
    and "24 + pair_space [(key, val)] \<le> unat page_size"
  shows "\<exists>db N w. open_new X K [] page_size capacity = Inr db
    \<and> db_run N X K (fresh_world db) [BeginWrite, InsertPair key val (Inr ()), CommitTx (Inr ()), BeginRead,
        ReadKey 0 key' (Inr (if key' = key then Some val else None))] w"
proof -
  obtain db w where r: "open_new X K [] page_size capacity = Inr db" "calm_io (pm_io (db_pages (w_db w)))" "length (w_readers w) = 1"
      "\<And>N. db_run (Suc N) X K (fresh_world db) [BeginWrite, InsertPair key val (Inr ()), CommitTx (Inr ()), BeginRead] w"
    using first_put_run [OF assms, of capacity] by blast
  obtain a where a: "spec_run (fresh_spec Map.empty) [BeginWrite, InsertPair key val (Inr ()), CommitTx (Inr ()), BeginRead] a"
      "db_sim cv X (unat page_size) w a"
    using new_run_sim [OF assms(1,2) r(1,4)] by blast
  have i: "0 < length (w_readers w)" using r(3) by simp
  obtain F db' where "transaction_read (Suc F) X K (w_readers w ! 0) key' (w_db w) = Some (Inr ((sp_snapshots a ! 0) key'), db')"
    using read_returns_snapshot [OF assms(1,2) a(2) i r(2), of key'] by blast
  then have s: "db_step (Suc F) X K w (ReadKey 0 key' (Inr (if key' = key then Some val else None))) (w\<lparr>w_db := db'\<rparr>)"
    using a(1) db_step.read_key [OF i] unfolding put_run_spec by auto
  have "db_run (Suc F) X K (fresh_world db) ([BeginWrite, InsertPair key val (Inr ()), CommitTx (Inr ()), BeginRead]
      @ [ReadKey 0 key' (Inr (if key' = key then Some val else None))]) (w\<lparr>w_db := db'\<rparr>)"
    by (rule db_run_append [OF r(4) db_run_Cons [OF s db_run_Nil]])
  with r(1) show ?thesis unfolding append.simps by blast
qed

theorem put_then_get_witness:
  "\<exists>db N w. open_new le_crates fifo_cache [] 4096 8 = Inr db
    \<and> db_run N le_crates fifo_cache (fresh_world db) [BeginWrite, InsertPair [7] [9] (Inr ()), CommitTx (Inr ()), BeginRead,
        ReadKey 0 [7] (Inr (Some [9]))] w"
proof -
  have "4096 \<le> unat (4096 :: u64)" "unat (4096 :: u64) < 2 ^ 50" "24 + pair_space [([7], [9])] \<le> unat (4096 :: u64)"
    by (simp_all add: leaf_meta_size_def)
  from put_then_get [OF le.zerocopy_le_axioms fifo.moka_cache_axioms this, of 8 "[7]"] show ?thesis by simp
qed

end
