(* ===== verification/Database_Safety.thy ===== *)
theory Database_Safety
  imports Database_Props
begin

text \<open>
  What protects the data when something goes wrong: recovery falls back to the previous commit, an insertion that
  fails spoils nothing and blocks its transaction, an insertion that succeeds keeps the tree well-formed, a new value
  may panic where it replaces a large one, and the pages that the allocator hands out lie in the file.
\<close>

section \<open>Falling back to the previous commit\<close>

abbreviation calm_kept :: "file_handler \<Rightarrow> file_handler \<Rightarrow> bool" where
  "calm_kept f g \<equiv> (calm_file f \<longrightarrow> calm_file g)"

lemma calm_kept_order: "reflp calm_kept" "transp calm_kept"
  by (simp_all add: reflp_def transp_def)

lemma calm_calls:
  "op_keeps calm_kept file_len" "op_keeps calm_kept (assert_offset off)" "op_keeps calm_kept (seek_read off n)"
proof -
  show fl: "op_keeps calm_kept file_len" by (rule op_keepsI) (use file_len_spec(3) in blast)
  have "op_keeps calm_kept (if off \<le> len then ret () else fail e)" for len e
    by (simp add: op_keeps_basic [OF calm_kept_order(1)])
  with fl show "op_keeps calm_kept (assert_offset off)"
    unfolding assert_offset_def by (intro op_keeps_bind [OF calm_kept_order(2)])
  show "op_keeps calm_kept (seek_read off n)" by (rule op_keepsI) (use seek_read_spec(3) in blast)
qed

lemma read_loop_calm_kept: "read_loop off n f = (r, g) \<Longrightarrow> calm_file f \<Longrightarrow> calm_file g"
proof (induction off n f arbitrary: r g rule: read_loop.induct)
  case (1 off n f)
  obtain q h where s: "seek_read off n f = (q, h)" by fastforce
  have c: "calm_file h" using op_keepsD [OF calm_calls(3) s] "1.prems"(2) by blast
  show ?case
  proof (cases "n = 0")
    case True
    with "1.prems" show ?thesis by (simp add: read_loop.simps)
  next
    case n: False
    show ?thesis
    proof (cases q)
      case (Inl e)
      with "1.prems" s c n show ?thesis by (simp add: read_loop.simps [of off n f])
    next
      case (Inr data)
      note eq = "1.prems"(1) [unfolded read_loop.simps [of off n f]]
      show ?thesis
      proof (cases "data = []")
        case True
        with eq s Inr c n show ?thesis by simp
      next
        case False
        obtain q' g' where l: "read_loop (off + length data) (n - length data) h = (q', g')" by fastforce
        have "g = g'" using eq s Inr n False l by (cases q') auto
        with "1.IH" [OF n s [unfolded Inr] False l c] show ?thesis by blast
      qed
    qed
  qed
qed

lemma read_page_calm_kept: "op_keeps (\<lambda>s t. calm_io s \<longrightarrow> calm_io t) (read_page K pid)"
proof (rule op_keepsI, rule impI)
  fix s r t
  assume rd: "read_page K pid s = (r, t)" and calm: "calm_io s"
  have at: "op_keeps calm_kept (read_at off n)" for off n
    unfolding read_at_def
    by (rule op_keeps_bind [OF calm_kept_order(2) calm_calls(2)], rule op_keepsI, rule impI, erule read_loop_calm_kept)
  have "calm_file g" if "read_at off n (io_file s) = (q, g)" for off n q g
    using op_keepsD [OF at that] calm by (simp add: calm_io_def)
  with rd calm show "calm_io t"
    by (auto simp: read_page_def on_file_def' bind_op_def calm_io_def split: prod.splits option.splits sum.splits)
qed

lemma verify_calm:
  assumes "verify_pages frames X (read_page K) pid c s = (r, t)" "calm_io s"
  shows "calm_io t"
  using op_keepsD [OF verify_pages_kept [OF read_page_calm_kept] assms(1)] assms(2) by (auto simp: reflp_def transp_def)

text \<open>C18: recovery falls back. Let the tree of the inactive slot, the previous commit, be stored intact. When the
  verification of the tree of the active slot ends with a \<open>DatabaseError\<close>, which is what a wrong checksum or a malformed
  page gives, \<open>recover_header\<close> returns the header with the slots switched, its active slot is the previous commit, and
  that tree still reads as before. Every other error of the verification, such as the \<open>IoError\<close> of a page beyond the end of
  the file or the error of a page that cannot be decoded, is the result of \<open>recover_header\<close>: there it does not fall back.\<close>

theorem recovery_falls_back:
  assumes "zerocopy_le X" "moka_cache K cv" "header_ok header" "active_slot header = Inr slot" "inactive_slot header = Inr old"
    and "io_ok s" "calm_io s" "unat (header_page_size header) \<le> length (contents (io_file s))"
    and "holds X (page_view cv s) (root_page_id old) (root_page_checksum old) m P"
  shows "\<exists>F. \<forall>frames > F. \<forall>f t. verify_pages frames X (read_page K) (root_page_id slot) (root_page_checksum slot) s = (Inl f, t) \<longrightarrow>
    (case f of
       Fail (DatabaseError e) \<Rightarrow> \<exists>u. recover_header frames X K header s = (Inr (switch_to_inactive_slot header), u)
         \<and> active_slot (switch_to_inactive_slot header) = Inr old
         \<and> holds X (page_view cv u) (root_page_id old) (root_page_checksum old) m P
     | _ \<Rightarrow> recover_header frames X K header s = (Inl f, t))"
proof -
  obtain h where h: "subtree h X (\<lambda>_. True) (page_view cv s) [] None (root_page_id old)"
    using assms(9) by (auto simp: holds_def rooted_def)
  have len: "on_file file_len s = (Inr (length (contents (io_file s))), s)"
    using file_len_spec(3) assms(7) by (simp add: on_file_def' calm_io_def split: prod.splits)
  have fall_back: "\<exists>u. recover_header frames X K header s = (Inr (switch_to_inactive_slot header), u)
      \<and> holds X (page_view cv u) (root_page_id old) (root_page_checksum old) m P"
    if fr: "h < frames" and v: "verify_pages frames X (read_page K) (root_page_id slot) (root_page_checksum slot) s
      = (Inl (Fail (DatabaseError e)), t)" for frames e t
  proof -
    have "extends cv s t"
      by (rule op_keepsD [OF verify_pages_kept [OF moka_cache.read_page_extends [OF assms(2)]] v])
        (auto simp: reflp_def transp_def intro: extends_trans)
    then have t: "page_view cv s \<subseteq>\<^sub>m page_view cv t" "io_ok t" using assms(6) by (simp_all add: extends_def)
    from holds_le [OF t(1) assms(9)] obtain k where ok: "holds X (page_view cv t) (root_page_id old) (root_page_checksum old) m P"
        "subtree k X (\<lambda>_. True) (page_view cv t) [] None (root_page_id old)"
        "checksummed X (page_view cv t) (root_page_id old) (root_page_checksum old)"
      by (auto simp: holds_def rooted_def)
    have sub: "subtree h X (\<lambda>_. True) (page_view cv t) [] None (root_page_id old)" using h t(1) tree_extend by blast
    from tree_reader.verify_pages_passes [OF io_tree_reader(1) [OF assms(1,2)] t(2) sub ok(3) fr] verify_calm [OF v assms(7)]
    obtain u where u: "verify_pages frames X (read_page K) (root_page_id old) (root_page_checksum old) t = (Inr (), u)"
        "page_view cv t \<subseteq>\<^sub>m page_view cv u"
      by blast
    have "recover_header frames X K header s = (Inr (switch_to_inactive_slot header), u)"
      using len assms(4,5,8) v u(1) by (simp add: recover_header_def not_less)
    with holds_le [OF u(2) ok(1)] show ?thesis by blast
  qed
  have "recover_header frames X K header s = (Inl f, t)"
    if "verify_pages frames X (read_page K) (root_page_id slot) (root_page_checksum slot) s = (Inl f, t)" "\<And>e. f \<noteq> Fail (DatabaseError e)"
    for frames f t
    using len assms(4,8) that by (auto simp: recover_header_def not_less split: fault.splits kv_error.splits)
  moreover have "active_slot (switch_to_inactive_slot header) = Inr old" using switch_slots(1) [OF assms(3)] assms(5) by simp
  ultimately show ?thesis using fall_back by (intro exI [of _ h]) (auto split: fault.split kv_error.split)
qed

lemma leaf_holds:
  assumes "V pid = Some e" "leaf_wf X e" "leaf_pairs X e = []"
  shows "holds X V pid (checksum_page X e) Map.empty {pid}"
  unfolding holds_def using assms by (intro exI [of _ 0]) (simp add: rooted_def checksummed_def)

theorem recovery_falls_back_witness:
  "\<exists>db h slot old. open_new le_crates fifo_cache [] 4096 8 = Inr db \<and> active_slot h = Inr slot \<and> inactive_slot h = Inr old
    \<and> slot \<noteq> old \<and> (\<exists>frames u. recover_header frames le_crates fifo_cache h (pm_io (db_pages db)) = (Inr (switch_to_inactive_slot h), u))"
proof -
  have "4096 \<le> unat (4096 :: u64)" "unat (4096 :: u64) < 2 ^ 62" by simp_all
  from open_new_total [OF le.zerocopy_le_axioms fifo.moka_cache_axioms this, of 8] obtain db slot e where db:
      "open_new le_crates fifo_cache [] 4096 8 = Inr db" "all_calm (db_pages db)"
      "length (contents (io_file (pm_io (db_pages db)))) = 2 * unat (4096 :: u64)"
      "active_slot (db_commit_header db) = Inr slot" "root_page_id slot = 1" "root_page_checksum slot = checksum_page le_crates e"
      "page_view (\<lambda>c. map_of (snd c)) (pm_io (db_pages db)) 1 = Some e" "leaf_wf le_crates e" "leaf_pairs le_crates e = []"
    by blast
  note sim = open_new_sim [OF le.zerocopy_le_axioms fifo.moka_cache_axioms db(1)]
  define io where "io = pm_io (db_pages db)"
  have ok: "header_ok (db_commit_header db)" "header_page_size (db_commit_header db) = io_page_size io" "psize io = 4096"
    using db_simD [OF sim(1) refl] sim(2) by (auto simp: fresh_world_def durable_def io_def shared_ok_def pages_inv_def)
  have c: "io_ok io" "calm_io io" using db(2) by (simp_all add: io_def all_calm_def pm_ok_def pm_safe_def)
  obtain h where h: "with_commit 1 (checksum_page le_crates e + 1) 1 2 (db_commit_header db) = Inr h" "header_ok h"
      "active_slot h = Inr (commit_slot_new 1 (checksum_page le_crates e + 1) 1 2)" "inactive_slot h = Inr slot"
      "header_page_size h = io_page_size io"
    using with_commit_slots [OF ok(1), of 1 "checksum_page le_crates e + 1" 1 2] db(4) ok(2) by auto
  have len: "unat (header_page_size h) \<le> length (contents (io_file io))" using h(5) ok(3) db(3) by (simp add: io_def psize_def)
  have "holds le_crates (page_view (\<lambda>c. map_of (snd c)) io) (root_page_id slot) (root_page_checksum slot) Map.empty {1}"
    using leaf_holds [of "page_view (\<lambda>c. map_of (snd c)) io" 1 e le_crates] db(7-9) by (simp add: db(5,6) io_def)
  from recovery_falls_back [OF le.zerocopy_le_axioms fifo.moka_cache_axioms h(2-4) c len this]
  obtain F where F: "\<And>frames e' t. F < frames \<Longrightarrow> verify_pages frames le_crates (read_page fifo_cache) 1 (checksum_page le_crates e + 1) io
      = (Inl (Fail (DatabaseError e')), t) \<Longrightarrow> \<exists>u. recover_header frames le_crates fifo_cache h io = (Inr (switch_to_inactive_slot h), u)"
    unfolding commit_slot_new_def commit_slot.simps by fastforce
  obtain q t where rd: "read_page fifo_cache 1 io = (q, t)" by fastforce
  have "q = Inr \<lparr>page_no = 1, page_data = e\<rparr>"
    using moka_cache.read_page_value(2) [OF fifo.moka_cache_axioms c(1) db(7) [folded io_def] rd c(2)] by blast
  then have "verify_pages (Suc F) le_crates (read_page fifo_cache) 1 (checksum_page le_crates e + 1) io
      = (Inl (Fail (DatabaseError ''Checksum mismatch for page'')), t)"
    using rd by simp
  from F [OF lessI this] h(3,4) db(1,6) show ?thesis
    by (intro exI [of _ db] exI [of _ h]) (auto simp: io_def commit_slot_new_def)
qed

section \<open>Insertions\<close>

text \<open>C14: insertion keeps the tree well-formed. Below the root of the transaction lies a tree in which all leaves
  have the same depth, every page is well-formed, every key lies between its separators, every child has the
  recorded checksum and no page occurs twice; a successful insertion yields such a tree again, at most one level
  higher, with the pair inserted or replaced in the sorted list of its pairs. Its pages are old ones or freshly
  allocated, and the state of the transaction stays consistent.\<close>

theorem insert_keeps_tree:
  assumes "zerocopy_le X" "moka_cache K cv" "tx_inv n s"
    and "rooted h X (\<lambda>_. True) (tx_view cv s) (wt_root_page (ts_tx s)) (wt_root_page_checksum (ts_tx s))"
    and "set (tree_pages h X (tx_view cv s) (wt_root_page (ts_tx s))) \<inter> (tx_free s \<union> tx_freed s) = {}"
    and "tree_insert frames X (tx_ops K) key val s = (Inr (), t)"
  shows "\<exists>h'. (h' = h \<or> h' = Suc h) \<and> tx_inv n t
    \<and> rooted h' X (\<lambda>_. True) (tx_view cv t) (wt_root_page (ts_tx t)) (wt_root_page_checksum (ts_tx t))
    \<and> tree_pairs h' X (tx_view cv t) (wt_root_page (ts_tx t)) = upsert key val (tree_pairs h X (tx_view cv s) (wt_root_page (ts_tx s)))
    \<and> set (tree_pages h' X (tx_view cv t) (wt_root_page (ts_tx t)))
        \<subseteq> set (tree_pages h X (tx_view cv s) (wt_root_page (ts_tx s))) \<union> (tx_free s - tx_free t)
    \<and> set (tree_pages h' X (tx_view cv t) (wt_root_page (ts_tx t))) \<inter> (tx_free t \<union> tx_freed t) = {}"
proof -
  note wr = tx_tree_writer [OF assms(1,2), of n]
  have root: "po_get_root (tx_ops K) u = wt_root_page (ts_tx u)" for u by (simp add: tx_ops_def)
  have "tree_writer.tree_ok X (tx_ops K) (tx_view cv) tx_free tx_freed tx_root_sum (tx_inv n) (\<lambda>_. True) h s"
    using assms(3-5) by (simp add: tree_writer.tree_ok_def [OF wr] root tx_root_sum_def)
  from tree_writer.tree_insert_correct [OF wr this TrueI assms(6)] show ?thesis
    unfolding tree_writer.tree_ok_def [OF wr] root tx_root_sum_def by blast
qed

theorem insert_keeps_tree_witness:
  "\<exists>db wt t h. open_new le_crates fifo_cache [] 4096 8 = Inr db \<and> begin_write db = Inr wt
    \<and> tree_insert 1 le_crates (tx_ops fifo_cache) [7] [9] \<lparr>ts_pages = db_pages db, ts_tx = wt\<rparr> = (Inr (), t)
    \<and> rooted h le_crates (\<lambda>_. True) (tx_view (\<lambda>c. map_of (snd c)) t) (wt_root_page (ts_tx t)) (wt_root_page_checksum (ts_tx t))"
proof -
  have "4096 \<le> unat (4096 :: u64)" "unat (4096 :: u64) < 2 ^ 50" "24 + pair_space [([7], [9])] \<le> unat (4096 :: u64)"
    by (simp_all add: leaf_meta_size_def)
  from first_insert [OF le.zerocopy_le_axioms fifo.moka_cache_axioms this, of 8] obtain db wt t where
    f: "open_new le_crates fifo_cache [] 4096 8 = Inr db" "begin_write db = Inr wt"
      "\<And>frames. tree_insert (Suc frames) le_crates (tx_ops fifo_cache) [7] [9] \<lparr>ts_pages = db_pages db, ts_tx = wt\<rparr> = (Inr (), t)"
    and u: "tx_inv (unat (4096 :: u64)) \<lparr>ts_pages = db_pages db, ts_tx = wt\<rparr>"
      "rooted 0 le_crates (\<lambda>_. True) (tx_view (\<lambda>c. map_of (snd c)) \<lparr>ts_pages = db_pages db, ts_tx = wt\<rparr>) (wt_root_page wt) (wt_root_page_checksum wt)"
      "wt_root_page wt \<notin> tx_free \<lparr>ts_pages = db_pages db, ts_tx = wt\<rparr> \<union> tx_freed \<lparr>ts_pages = db_pages db, ts_tx = wt\<rparr>"
    by blast
  define s where "s = \<lparr>ts_pages = db_pages db, ts_tx = wt\<rparr>"
  have s: "ts_tx s = wt" by (simp add: s_def)
  have d: "set (tree_pages 0 le_crates (tx_view (\<lambda>c. map_of (snd c)) s) (wt_root_page (ts_tx s))) \<inter> (tx_free s \<union> tx_freed s) = {}"
    using u(3) by (simp add: s_def)
  have run: "tree_insert 1 le_crates (tx_ops fifo_cache) [7] [9] s = (Inr (), t)" using f(3) [of 0] by (simp add: s_def)
  note u = u [folded s_def, folded s]
  from insert_keeps_tree [OF le.zerocopy_le_axioms fifo.moka_cache_axioms u(1,2) d run] f(1,2) run show ?thesis
    unfolding s_def by blast
qed

text \<open>C19: an insertion that fails does no harm. Whatever the outcome of \<open>insert\<close>, every page of the file reads as
  before, the committed header, the snapshot and the readers are unchanged, and the pages that become dirty were free
  for reuse. After an error the transaction is marked as failed: all further calls return
  \<open>TransactionFailed\<close> and change nothing. After a panic no write transaction can begin any more.\<close>

theorem failed_insert_contained:
  assumes "moka_cache K cv" "readers_safe (db_pages db)" "transaction_insert frames X K key val (db, wt) = (r, db', wt')"
  shows "page_view cv (pm_io (db_pages db)) \<subseteq>\<^sub>m page_view cv (pm_io (db_pages db'))
    \<and> db_commit_header db' = db_commit_header db \<and> db_snapshot db' = db_snapshot db
    \<and> pm_readers (db_pages db') = pm_readers (db_pages db)
    \<and> dom (hm_get (wt_dirty_pages wt')) \<subseteq> dom (hm_get (wt_dirty_pages wt)) \<union> reclaimable (db_pages db)
    \<and> (\<forall>e. r = Inl (Fail e) \<longrightarrow> commit X K wt' db' = (Inl (Fail TransactionFailed), db')
        \<and> transaction_insert frames' X K key' val' (db', wt') = (Inl (Fail TransactionFailed), db', wt'))
    \<and> (\<forall>p. r = Inl (Panic p) \<longrightarrow> begin_write db' = Inl (Panic ''writer lock poisoned''))"
proof -
  note fr = transaction_insert_frame [OF assms]
  have view: "page_view cv (pm_io (db_pages db)) \<subseteq>\<^sub>m page_view cv (pm_io (db_pages db'))" "pm_readers (db_pages db') = pm_readers (db_pages db)"
    using fr(1) by (simp_all add: pm_frame_def extends_def)
  define s where "s = \<lparr>ts_pages = db_pages db, ts_tx = wt\<rparr>"
  obtain q t where t: "tx_insert frames X K key val s = (q, t)" by fastforce
  have eq: "r = q" "db' = poison q (db\<lparr>db_pages := ts_pages t\<rparr>)" "wt' = ts_tx t"
    using assms(3) t by (auto simp: transaction_insert_def s_def)
  have dirty: "dom (tx_dirty t) \<subseteq> dom (tx_dirty s) \<union> reclaimable (db_pages db)" and failed: "\<And>e. q = Inl (Fail e) \<Longrightarrow> wt_failed (ts_tx t)"
  proof -
    obtain q' u where u: "tree_insert frames X (tx_ops K) key val s = (q', u)" by fastforce
    have "dom (tx_dirty u) \<subseteq> dom (tx_dirty s) \<union> reclaimable (db_pages db)"
      using insert_frame(2) [OF assms(1) u] assms(2) by (simp add: s_def)
    moreover have "tx_dirty t = tx_dirty s \<or> tx_dirty t = tx_dirty u"
      using t u by (auto simp: tx_insert_def tx_dirty_def fun_eq_iff split: if_splits sum.splits fault.splits)
    ultimately show "dom (tx_dirty t) \<subseteq> dom (tx_dirty s) \<union> reclaimable (db_pages db)" by (elim disjE) simp_all
    show "\<And>e. q = Inl (Fail e) \<Longrightarrow> wt_failed (ts_tx t)"
      using t u by (auto simp: tx_insert_def split: if_splits sum.splits fault.splits)
  qed
  have dom: "dom (hm_get (wt_dirty_pages wt')) \<subseteq> dom (hm_get (wt_dirty_pages wt)) \<union> reclaimable (db_pages db)"
    using dirty by (simp add: tx_dirty_def [abs_def] eq(3) s_def)
  have "commit X K wt' db' = (Inl (Fail TransactionFailed), db')
      \<and> transaction_insert frames' X K key' val' (db', wt') = (Inl (Fail TransactionFailed), db', wt')" if "r = Inl (Fail e)" for e
    using failed [of e] that by (simp add: eq(1,3) commit_def transaction_insert_def tx_insert_def poison_def)
  moreover have "begin_write db' = Inl (Panic ''writer lock poisoned'')" if "r = Inl (Panic p)" for p
    using that by (simp add: eq(1,2) poison_def begin_write_def)
  moreover have "db_snapshot db' = db_snapshot db" by (simp add: eq(2))
  ultimately show ?thesis using view fr(2) dom by blast
qed

text \<open>A transaction whose root page lies behind the end of the file.\<close>

definition test_database :: "(nat \<times> (page_id \<times> bytes) list) database" where
  "test_database = \<lparr>db_pages = test_manager, db_commit_header = header_initial 4 5, db_snapshot = (1, 0), db_writer_poisoned = False\<rparr>"

definition test_transaction :: write_transaction where
  "test_transaction = \<lparr>wt_transaction = 1, wt_root_page = 3, wt_root_page_checksum = 5, wt_dirty_pages = [], wt_freed_pages = [],
     wt_failed = False\<rparr>"

theorem failed_insert_contained_witness:
  "\<exists>db wt. transaction_insert 1 le_crates fifo_cache [7] [9] (test_database, test_transaction)
      = (Inl (Fail (IoError ''unexpected end of file'')), db, wt)
    \<and> commit le_crates fifo_cache wt db = (Inl (Fail TransactionFailed), db)"
proof -
  have safe: "readers_safe (db_pages test_database)"
    by (simp add: readers_safe_def test_database_def pm_safe_def test_manager_def pending_ids_def io_ok_def page_io_new_def test_file_def tracker_ok_def)
  have "fst (transaction_insert 1 le_crates fifo_cache [7] [9] (test_database, test_transaction))
      = Inl (Fail (IoError ''unexpected end of file''))"
    by (simp add: transaction_insert_def tx_insert_def tree_insert_def with_page_def tx_ops_def cow_page_def tracker_contains_def
        on_pages_def' manager_read_page_def on_io_def' read_page_def page_cache_get_def fifo_cache_def on_file_def' read_at_def
        assert_offset_def file_len_def sys_call_def next_outcome_def read_loop.simps [of 12] seek_read_def range_of_def checked_mul_def
        transferred_def test_database_def test_transaction_def test_manager_def page_io_new_def page_cache_new_def test_file_def bind_op_def)
  then obtain db wt where r: "transaction_insert 1 le_crates fifo_cache [7] [9] (test_database, test_transaction)
      = (Inl (Fail (IoError ''unexpected end of file'')), db, wt)"
    by (metis prod.collapse)
  from failed_insert_contained [OF fifo.moka_cache_axioms safe r] r show ?thesis by blast
qed

section \<open>A value that is overwritten\<close>

text \<open>A leaf decides whether to split by the free space that the new pair needs, without counting the space of the pair it
  replaces, and a split divides at least two pairs.\<close>

text \<open>C38: overwriting can panic. When the root of the tree is a leaf with a single pair, and the pair with the new value does
  not fit beside the old one, inserting the new value of the same key ends in the panic of the builder's assertion, although
  the new pair alone fits on a page: the page that holds just this pair can be built.\<close>

theorem overwrite_single_pair_panics:
  assumes "zerocopy_le X" "moka_cache K cv" "tx_inv n s" "tx_calm 2 s"
    and "rooted 0 X (\<lambda>_. True) (tx_view cv s) (wt_root_page (ts_tx s)) (wt_root_page_checksum (ts_tx s))"
    and "wt_root_page (ts_tx s) \<notin> tx_free s \<union> tx_freed s"
    and "tx_view cv s (wt_root_page (ts_tx s)) = Some d" "leaf_pairs X d = [(key, old)]"
    and "n < 24 + pair_space [(key, old), (key, val)]" "24 + pair_space [(key, val)] \<le> n"
  shows "(\<exists>t. \<forall>frames. tree_insert (Suc frames) X (tx_ops K) key val s
      = (Inl (Panic ''assertion failed: self.kv_pairs.len() >= 2''), t))
    \<and> (\<exists>q. leaf_build_entries_at_buf X [(key, val)] d = Inr q \<and> leaf_wf X q \<and> leaf_pairs X q = [(key, val)])"
proof -
  note wr = tx_tree_writer [OF assms(1,2), of n]
  have root: "po_get_root (tx_ops K) u = wt_root_page (ts_tx u)" for u by (simp add: tx_ops_def)
  have ok: "tree_writer.tree_ok X (tx_ops K) (tx_view cv) tx_free tx_freed tx_root_sum (tx_inv n) (\<lambda>_. True) 0 s"
    using assms(3,5,6) by (simp add: tree_writer.tree_ok_def [OF wr] root tx_root_sum_def)
  have "length d = n" using cow_store.view_size [OF moka_cache.tx_cow_store [OF assms(2)] assms(3,7)] .
  moreover have "length d < 2 ^ 63" using assms(5,7) by (auto simp: rooted_def leaf_wf_def Let_def)
  ultimately have "\<exists>q. leaf_build_entries_at_buf X [(key, val)] d = Inr q \<and> leaf_wf X q \<and> leaf_pairs X q = [(key, val)]"
    using zerocopy_le.leaf_build_pairs [OF assms(1), of "[(key, val)]" d] assms(10) by auto
  moreover have "tx_calm (Suc (Suc 0)) s" using assms(4) by (simp only: numeral_2_eq_2)
  note tree_writer.insert_single_pair_panics [OF wr ok this assms(7) [folded root] assms(8,9)]
  ultimately show ?thesis by blast
qed

theorem overwrite_single_pair_panics_witness:
  "\<exists>db wt t u. open_new le_crates fifo_cache [] 4096 8 = Inr db \<and> begin_write db = Inr wt
    \<and> tree_insert 1 le_crates (tx_ops fifo_cache) [7] (replicate 2100 0) \<lparr>ts_pages = db_pages db, ts_tx = wt\<rparr> = (Inr (), t)
    \<and> tree_insert 1 le_crates (tx_ops fifo_cache) [7] (replicate 2100 1) t
        = (Inl (Panic ''assertion failed: self.kv_pairs.len() >= 2''), u)"
proof -
  have "4096 \<le> unat (4096 :: u64)" "unat (4096 :: u64) < 2 ^ 50" "24 + pair_space [([7], replicate 2100 0)] \<le> unat (4096 :: u64)"
    by (simp_all add: leaf_meta_size_def)
  from first_insert [OF le.zerocopy_le_axioms fifo.moka_cache_axioms this, of 8] obtain db wt t q where
    f: "open_new le_crates fifo_cache [] 4096 8 = Inr db" "begin_write db = Inr wt"
      "tree_insert (Suc 0) le_crates (tx_ops fifo_cache) [7] (replicate 2100 0) \<lparr>ts_pages = db_pages db, ts_tx = wt\<rparr> = (Inr (), t)"
    and u: "tx_inv (unat (4096 :: u64)) \<lparr>ts_pages = db_pages db, ts_tx = wt\<rparr>"
      "rooted 0 le_crates (\<lambda>_. True) (tx_view (\<lambda>c. map_of (snd c)) \<lparr>ts_pages = db_pages db, ts_tx = wt\<rparr>) (wt_root_page wt) (wt_root_page_checksum wt)"
      "wt_root_page wt \<notin> tx_free \<lparr>ts_pages = db_pages db, ts_tx = wt\<rparr> \<union> tx_freed \<lparr>ts_pages = db_pages db, ts_tx = wt\<rparr>"
    and t: "tx_calm 2 t" "tx_view (\<lambda>c. map_of (snd c)) t (wt_root_page (ts_tx t)) = Some q" "leaf_wf le_crates q"
      "leaf_pairs le_crates q = [([7], replicate 2100 0)]"
    by blast
  have "unat (4096 :: u64) = 4096" by simp
  note u = u [unfolded this]
  note wr = tx_tree_writer [OF le.zerocopy_le_axioms fifo.moka_cache_axioms, of 4096]
  have root: "po_get_root (tx_ops fifo_cache) u = wt_root_page (ts_tx u)" for u by (simp add: tx_ops_def)
  note tree_ok = tree_writer.tree_ok_def [OF wr] root tx_root_sum_def
  have "tree_writer.tree_ok le_crates (tx_ops fifo_cache) (tx_view (\<lambda>c. map_of (snd c))) tx_free tx_freed tx_root_sum (tx_inv 4096) (\<lambda>_. True) 0
      \<lparr>ts_pages = db_pages db, ts_tx = wt\<rparr>"
    using u by (simp add: tree_ok)
  from tree_writer.tree_insert_correct [OF wr this TrueI f(3)] obtain h where
    "tree_writer.tree_ok le_crates (tx_ops fifo_cache) (tx_view (\<lambda>c. map_of (snd c))) tx_free tx_freed tx_root_sum (tx_inv 4096) (\<lambda>_. True) h t"
    by blast
  from tree_writer.tree_ok_leaf [OF wr this] t(2,3)
  have ok: "tx_inv 4096 t" "rooted 0 le_crates (\<lambda>_. True) (tx_view (\<lambda>c. map_of (snd c)) t) (wt_root_page (ts_tx t)) (wt_root_page_checksum (ts_tx t))"
      "wt_root_page (ts_tx t) \<notin> tx_free t \<union> tx_freed t"
    by (simp_all add: tree_ok)
  have "4096 < 24 + pair_space [([7 :: u8], replicate 2100 (0 :: u8)), ([7], replicate 2100 1)]"
      "24 + pair_space [([7 :: u8], replicate 2100 (1 :: u8))] \<le> 4096"
    by (simp_all add: leaf_meta_size_def)
  from overwrite_single_pair_panics [OF le.zerocopy_le_axioms fifo.moka_cache_axioms ok(1) t(1) ok(2,3) t(2,4) this]
  obtain v where "\<And>frames. tree_insert (Suc frames) le_crates (tx_ops fifo_cache) [7] (replicate 2100 1) t
      = (Inl (Panic ''assertion failed: self.kv_pairs.len() >= 2''), v)"
    by blast
  with f show ?thesis unfolding One_nat_def by blast
qed

section \<open>Allocation\<close>

text \<open>C30: the pages that \<open>allocate_page\<close> hands out lie in the file: the file has been extended before a page number beyond its
  end is used, the byte offset of the page does not overflow, and the page is as long as all others.\<close>

theorem allocated_page_in_file:
  assumes "moka_cache K cv" "pm_ok s" "allocate_page K s = (Inr p, t)"
  shows "pm_ok t \<and> page_no p < next_page_id (pm_alloc t) \<and> next_page_id (pm_alloc t) \<le> reserved_page_count (pm_alloc t)
    \<and> unat (page_no p) * psize (pm_io t) + psize (pm_io t) \<le> length (contents (io_file (pm_io t)))
    \<and> length (contents (io_file (pm_io t))) < 2 ^ 64 \<and> length (page_data p) = psize (pm_io t)"
proof -
  have safe: "pm_safe s" using assms(2) by (simp add: pm_ok_def)
  note a = moka_cache.allocate_page_spec [OF assms(1,3) safe]
  have t: "pm_ok t" "page_no p < next_page_id (pm_alloc t)" using a(7) assms(2) by blast+
  have "psize (pm_io t) = psize (pm_io s)" using a(1) by (simp add: extends_def psize_def)
  with a(6) have "length (page_data p) = psize (pm_io t)" by simp
  with t pm_ok_in_file [OF t] show ?thesis by (simp add: pm_ok_def pm_safe_def io_ok_def)
qed

theorem allocated_page_in_file_witness:
  "\<exists>p t. allocate_page fifo_cache test_manager = (Inr p, t)
    \<and> unat (page_no p) * psize (pm_io t) + psize (pm_io t) \<le> length (contents (io_file (pm_io t)))"
proof -
  have ok: "pm_ok test_manager"
    by (simp add: pm_ok_def pm_safe_def test_manager_def pending_ids_def io_ok_def page_io_new_def test_file_def psize_def)
  have "calm_pm (Suc 0) test_manager"
    by (simp add: calm_pm_def calm_io_def calm_file_def test_manager_def page_io_new_def test_file_def psize_def)
  moreover have "pm_safe test_manager" using ok by (simp add: pm_ok_def)
  ultimately obtain p t where p: "allocate_page fifo_cache test_manager = (Inr p, t)"
    using moka_cache.allocate_page_spec(8) [OF fifo.moka_cache_axioms _ _ ok] by (metis surj_pair)
  from allocated_page_in_file [OF fifo.moka_cache_axioms ok p] p show ?thesis by blast
qed

end
