(* ===== verification/Raft_Types.thy ===== *)
theory Raft_Types
  imports Prelude
begin

text \<open>
  The data of the consensus library \<open>raft-rs\<close>: errors (\<open>error.rs\<close>), node identifiers
  (\<open>types.rs\<close>), log entries and messages (\<open>message.rs\<close>), roles (\<open>role.rs\<close>), the persistent
  state (\<open>storage.rs\<close>), the configuration (\<open>config.rs\<close>) and the client commands with their
  replies (\<open>raft_handle.rs\<close>).

  Terms and node identifiers are 64-bit words, log indices (\<open>usize\<close>) are natural numbers.
  A oneshot reply channel is named by a natural number.
\<close>

section \<open>Errors, log and messages\<close>

datatype raft_error =
    Error string
  | SerializationError string
  | NotLeader u64
  | NoLeader
  | CommandChannelClosed
  | CommandResponseDropped
  | StorageError string
  | TransportError string

type_synonym 'a raft_result = "raft_error fault + 'a"

type_synonym node_id = u64

datatype 'c log_command = NoOp | Command 'c

record 'c log_entry =
  entry_term :: u64
  entry_command :: "'c log_command"

record 'c append_request_msg =
  areq_term :: u64
  areq_leader_id :: node_id
  areq_prev_log_index :: nat
  areq_prev_log_term :: u64
  areq_entries :: "'c log_entry list"
  areq_leader_commit :: nat

record append_response_msg =
  aresp_term :: u64
  aresp_match_index :: nat
  aresp_success :: bool

record vote_request_msg =
  vreq_term :: u64
  vreq_candidate_id :: node_id
  vreq_last_log_index :: nat
  vreq_last_log_term :: u64

record vote_response_msg =
  vresp_term :: u64
  vresp_vote_granted :: bool

datatype 'c raft_message =
    AppendRequest "'c append_request_msg"
  | AppendResponse append_response_msg
  | VoteRequest vote_request_msg
  | VoteResponse vote_response_msg

record 'c raft_envelope =
  env_from :: node_id
  env_message :: "'c raft_message"

section \<open>Role, persistent state, configuration\<close>

datatype role =
    Follower "node_id option"
  | Candidate nat
  | Leader "(node_id, nat) hash_map" "(node_id, nat) hash_map"

definition is_leader :: "role \<Rightarrow> bool" where
  "is_leader r = (case r of Leader _ _ \<Rightarrow> True | _ \<Rightarrow> False)"

definition is_candidate :: "role \<Rightarrow> bool" where
  "is_candidate r = (case r of Candidate _ \<Rightarrow> True | _ \<Rightarrow> False)"

definition is_follower :: "role \<Rightarrow> bool" where
  "is_follower r = (case r of Follower _ \<Rightarrow> True | _ \<Rightarrow> False)"

record 'c persistent_state =
  ps_current_term :: u64
  ps_voted_for :: "node_id option"
  ps_log :: "'c log_entry list"

record raft_config =
  election_timeout_min_ms :: u64
  election_timeout_max_ms :: u64
  heartbeat_interval_ms :: u64
  transport_timeout_ms :: u64

definition default_config :: raft_config where
  "default_config = \<lparr>election_timeout_min_ms = 150, election_timeout_max_ms = 300,
     heartbeat_interval_ms = 75, transport_timeout_ms = 350\<rparr>"

definition new_config :: "u64 \<Rightarrow> u64 \<Rightarrow> u64 \<Rightarrow> u64 \<Rightarrow> raft_config raft_result" where
  "new_config emin emax hb tt =
     (if emin < emax
      then Inr \<lparr>election_timeout_min_ms = emin, election_timeout_max_ms = emax,
                heartbeat_interval_ms = hb, transport_timeout_ms = tt\<rparr>
      else Inl (Panic ''Election timeout min must be less than max''))"

section \<open>Client commands and replies\<close>

datatype raft_role =
    StatusFollower
  | StatusCandidate nat
  | StatusLeader "(node_id, nat) hash_map" "(node_id, nat) hash_map"

record raft_status =
  st_id :: node_id
  st_current_term :: u64
  st_voted_for :: "node_id option"
  st_role :: raft_role
  st_leader_id :: "node_id option"
  st_commit_index :: nat
  st_last_applied :: nat
  st_log_len :: nat
  st_peer_ids :: "node_id list"

datatype 'c client_command_msg =
    Apply 'c nat
  | IsLeader nat
  | GetLog nat
  | GetLogEntry nat nat
  | GetStatus nat

text \<open>What arrives on a reply channel; \<open>ReplyDropped\<close> is a sender dropped without sending.\<close>

datatype ('c, 'o) client_reply =
    ApplyReply "raft_error + 'o"
  | IsLeaderReply "raft_error + unit"
  | GetLogReply "raft_error + 'c log_entry list"
  | GetLogEntryReply "raft_error + 'c log_entry option"
  | GetStatusReply "raft_error + raft_status"
  | ReplyDropped

section \<open>Roles\<close>

lemma role_tests [simp]:
  "is_leader (Leader n m)" "\<not> is_leader (Follower l)" "\<not> is_leader (Candidate v)"
  "is_candidate (Candidate v)" "\<not> is_candidate (Follower l)" "\<not> is_candidate (Leader n m)"
  "is_follower (Follower l)" "\<not> is_follower (Candidate v)" "\<not> is_follower (Leader n m)"
  by (simp_all add: is_leader_def is_candidate_def is_follower_def)

end
