(* ===== verification/Raft_Node.thy ===== *)
theory Raft_Node
  imports Raft_Types
begin

text \<open>
  The Raft node of \<open>raft-rs/src/raft.rs\<close>: its state as a record, every handler of
  \<open>impl RaftNode\<close> as a function from the state to the next state or a panic, and the event
  dispatch of \<open>launch\<close>.

  Code outside the repository is the parameter \<open>raft_env\<close>: the user's state machine and storage
  (the traits \<open>RaftStateMachine\<close>, whose \<open>apply\<close> gives the new state and an output or the message of a panic, and
  \<open>RaftStorage\<close>), the \<open>postcard\<close> serialiser, the clock and the
  random source. The channel from the node to the worker task of a peer is a queue of at most 128
  messages (\<open>mpsc::channel(128)\<close>); \<open>transport_work\<close> maps each peer to its queue. The values sent
  on client reply channels are collected in \<open>replies\<close>. Log output is not modelled.
\<close>

section \<open>State\<close>

record ('c, 'o, 's, 'st, 'b) raft_env =
  sm_apply :: "'s \<Rightarrow> 'c \<Rightarrow> string + 's \<times> 'o"
  to_stdvec :: "'c persistent_state \<Rightarrow> string + 'b"
  from_bytes :: "'b \<Rightarrow> string + 'c persistent_state"
  save_state :: "'st \<Rightarrow> 'b \<Rightarrow> (raft_error + unit) \<times> 'st"
  load_state :: "'st \<Rightarrow> raft_error + 'b option"
  now_ms :: nat
  random_range :: "u64 \<Rightarrow> u64 \<Rightarrow> u64"

record ('c, 'o, 's, 'st) raft_node =
  current_term :: u64
  voted_for :: "node_id option"
  node_log :: "'c log_entry list"
  node_id :: node_id
  peer_ids :: "node_id list"
  role :: role
  commit_index :: nat
  last_applied :: nat
  config :: raft_config
  state_machine :: 's
  storage :: 'st
  election_deadline :: nat
  pending_applies :: "(nat, nat) hash_map"
  transport_work :: "(node_id, 'c raft_message list) hash_map"
  replies :: "(nat \<times> ('c, 'o) client_reply) list"

section \<open>Timer, persistence and sending\<close>

definition has_majority :: "nat \<Rightarrow> nat \<Rightarrow> bool" where
  "has_majority cnt tot \<longleftrightarrow> cnt > tot div 2"

text \<open>\<open>rand::random_range\<close> panics on an empty range.\<close>

definition random_election_timeout ::
    "('c, 'o, 's, 'st, 'b) raft_env \<Rightarrow> raft_config \<Rightarrow> u64 raft_result" where
  "random_election_timeout E cfg =
     (if election_timeout_min_ms cfg < election_timeout_max_ms cfg
      then Inr (random_range E (election_timeout_min_ms cfg) (election_timeout_max_ms cfg))
      else Inl (Panic ''cannot sample empty range''))"

definition reset_election_timer ::
    "('c, 'o, 's, 'st, 'b) raft_env \<Rightarrow> ('c, 'o, 's, 'st) raft_node
     \<Rightarrow> ('c, 'o, 's, 'st) raft_node raft_result" where
  "reset_election_timer E s =
     and_then (random_election_timeout E (config s))
       (\<lambda>d. Inr (s\<lparr>election_deadline := now_ms E + unat d\<rparr>))"

definition persist_state ::
    "('c, 'o, 's, 'st, 'b) raft_env \<Rightarrow> ('c, 'o, 's, 'st) raft_node \<Rightarrow> ('c, 'o, 's, 'st) raft_node" where
  "persist_state E s =
     (case to_stdvec E \<lparr>ps_current_term = current_term s, ps_voted_for = voted_for s,
                        ps_log = node_log s\<rparr> of
        Inl _ \<Rightarrow> s
      | Inr bytes \<Rightarrow>
          (case save_state E (storage s) bytes of (_, st) \<Rightarrow> s\<lparr>storage := st\<rparr>))"

definition restore_state ::
    "('c, 'o, 's, 'st, 'b) raft_env \<Rightarrow> ('c, 'o, 's, 'st) raft_node
     \<Rightarrow> ('c, 'o, 's, 'st) raft_node raft_result" where
  "restore_state E s =
     (case load_state E (storage s) of
        Inl e \<Rightarrow> Inl (Fail e)
      | Inr None \<Rightarrow> Inr s
      | Inr (Some bytes) \<Rightarrow>
          (case from_bytes E bytes of
             Inl e \<Rightarrow> Inl (Fail (SerializationError e))
           | Inr p \<Rightarrow> Inr (s\<lparr>current_term := ps_current_term p, voted_for := ps_voted_for p,
                             node_log := ps_log p\<rparr>)))"

definition channel_capacity :: nat where
  "channel_capacity = 128"

definition send_message ::
    "node_id \<Rightarrow> 'c raft_message \<Rightarrow> ('c, 'o, 's, 'st) raft_node \<Rightarrow> ('c, 'o, 's, 'st) raft_node" where
  "send_message to_id m s =
     (case hm_get (transport_work s) to_id of
        None \<Rightarrow> s
      | Some q \<Rightarrow>
          if length q < channel_capacity
          then s\<lparr>transport_work := hm_insert to_id (q @ [m]) (transport_work s)\<rparr>
          else s)"

definition broadcast_message ::
    "'c raft_message \<Rightarrow> ('c, 'o, 's, 'st) raft_node \<Rightarrow> ('c, 'o, 's, 'st) raft_node" where
  "broadcast_message m s = fold (\<lambda>p. send_message p m) (peer_ids s) s"

section \<open>Replication and commitment\<close>

text \<open>\<open>on_heartbeat\<close>: one append request per peer, from the peer's \<open>next_index\<close>.\<close>

definition heartbeat_to ::
    "node_id \<Rightarrow> ('c, 'o, 's, 'st) raft_node \<Rightarrow> ('c, 'o, 's, 'st) raft_node raft_result" where
  "heartbeat_to peer s =
     (case role s of
        Leader next_index _ \<Rightarrow>
          (case hm_get next_index peer of
             None \<Rightarrow> Inl (Panic ''called Option::unwrap() on a None value'')
           | Some node_next_index \<Rightarrow>
               if node_next_index = 0 then Inl (Panic ''attempt to subtract with overflow'')
               else
                 and_then (index_at (node_log s) (node_next_index - 1)) (\<lambda>prev.
                 if length (node_log s) < node_next_index
                 then Inl (Panic ''range start index out of range for slice'')
                 else Inr (send_message peer
                        (AppendRequest
                          \<lparr>areq_term = current_term s, areq_leader_id = node_id s,
                           areq_prev_log_index = node_next_index - 1,
                           areq_prev_log_term = entry_term prev,
                           areq_entries = drop node_next_index (node_log s),
                           areq_leader_commit = commit_index s\<rparr>) s)))
      | _ \<Rightarrow> Inl (Panic ''handling heartbeat while not a leader''))"

fun heartbeat_loop ::
    "node_id list \<Rightarrow> ('c, 'o, 's, 'st) raft_node \<Rightarrow> ('c, 'o, 's, 'st) raft_node raft_result" where
  "heartbeat_loop [] s = Inr s"
| "heartbeat_loop (p # ps) s = and_then (heartbeat_to p s) (heartbeat_loop ps)"

definition on_heartbeat ::
    "('c, 'o, 's, 'st) raft_node \<Rightarrow> ('c, 'o, 's, 'st) raft_node raft_result" where
  "on_heartbeat s = heartbeat_loop (peer_ids s) s"

text \<open>\<open>advance_commit\<close>: the first index, from the end of the log down to \<open>commit_index + 1\<close>, whose
  entry has the current term and is stored on a majority.\<close>

definition replicated_count :: "(node_id, nat) hash_map \<Rightarrow> nat \<Rightarrow> nat" where
  "replicated_count match_index index = length (filter (\<lambda>(_, m). m \<ge> index) match_index) + 1"

definition committable :: "('c, 'o, 's, 'st) raft_node \<Rightarrow> (node_id, nat) hash_map \<Rightarrow> nat \<Rightarrow> bool" where
  "committable s match_index index \<longleftrightarrow>
     entry_term (node_log s ! index) = current_term s
     \<and> has_majority (replicated_count match_index index) (length (peer_ids s) + 1)"

definition advance_commit :: "('c, 'o, 's, 'st) raft_node \<Rightarrow> ('c, 'o, 's, 'st) raft_node" where
  "advance_commit s =
     (case role s of
        Leader _ match_index \<Rightarrow>
          (case find (committable s match_index) (rev [commit_index s + 1 ..< length (node_log s)]) of
             None \<Rightarrow> s
           | Some index \<Rightarrow> s\<lparr>commit_index := index\<rparr>)
      | _ \<Rightarrow> s)"

text \<open>\<open>apply_committed\<close>: feed the state machine up to \<open>commit_index\<close> and answer the client that
  waits on an applied index. A panic of the state machine is a panic of the handler.\<close>

definition apply_entry ::
    "('c, 'o, 's, 'st, 'b) raft_env \<Rightarrow> nat \<Rightarrow> 'c log_entry \<Rightarrow> ('c, 'o, 's, 'st) raft_node
     \<Rightarrow> ('c, 'o, 's, 'st) raft_node raft_result" where
  "apply_entry E index entry s =
     (case entry_command entry of
        NoOp \<Rightarrow> Inr s
      | Command cmd \<Rightarrow>
          (case sm_apply E (state_machine s) cmd of
             Inl p \<Rightarrow> Inl (Panic p)
           | Inr (sm, output) \<Rightarrow>
               Inr (case hm_get (pending_applies s) index of
                      None \<Rightarrow> s\<lparr>state_machine := sm\<rparr>
                    | Some reply \<Rightarrow> s\<lparr>state_machine := sm,
                                     pending_applies := hm_remove index (pending_applies s),
                                     replies := replies s @ [(reply, ApplyReply (Inr output))]\<rparr>)))"

lemma and_then_cong [fundef_cong]:
  "r = r' \<Longrightarrow> (\<And>a. r' = Inr a \<Longrightarrow> k a = k' a) \<Longrightarrow> and_then r k = and_then r' k'"
  by (cases r') auto

function apply_committed ::
    "('c, 'o, 's, 'st, 'b) raft_env \<Rightarrow> ('c, 'o, 's, 'st) raft_node
     \<Rightarrow> ('c, 'o, 's, 'st) raft_node raft_result" where
  "apply_committed E s =
     (if last_applied s < commit_index s
      then and_then (index_at (node_log s) (last_applied s + 1)) (\<lambda>entry.
           and_then (apply_entry E (last_applied s + 1) entry (s\<lparr>last_applied := last_applied s + 1\<rparr>))
             (apply_committed E))
      else Inr s)"
  by pat_completeness auto
termination
  by (relation "measure (\<lambda>(E, s). commit_index s - last_applied s)")
    (auto simp: apply_entry_def split: log_command.splits option.splits prod.splits sum.splits)

declare apply_committed.simps [simp del]

section \<open>Role changes\<close>

definition become_follower ::
    "('c, 'o, 's, 'st, 'b) raft_env \<Rightarrow> u64 \<Rightarrow> ('c, 'o, 's, 'st) raft_node
     \<Rightarrow> ('c, 'o, 's, 'st) raft_node raft_result" where
  "become_follower E term s =
     (let s1 = (if term > current_term s then s\<lparr>current_term := term, voted_for := None\<rparr> else s);
          s2 = s1\<lparr>role := Follower None\<rparr>
      in reset_election_timer E (persist_state E s2))"

definition become_leader ::
    "('c, 'o, 's, 'st, 'b) raft_env \<Rightarrow> ('c, 'o, 's, 'st) raft_node
     \<Rightarrow> ('c, 'o, 's, 'st) raft_node raft_result" where
  "become_leader E s =
     (let s1 = s\<lparr>node_log := node_log s @ [\<lparr>entry_term = current_term s, entry_command = NoOp\<rparr>]\<rparr>;
          next = length (node_log s1);
          next_index = hm_collect (map (\<lambda>p. (p, next)) (peer_ids s1));
          match_index = hm_collect (map (\<lambda>p. (p, 0)) (peer_ids s1));
          s2 = s1\<lparr>role := Leader next_index match_index\<rparr>
      in and_then (apply_committed E (advance_commit (persist_state E s2))) on_heartbeat)"

definition become_candidate ::
    "('c, 'o, 's, 'st, 'b) raft_env \<Rightarrow> ('c, 'o, 's, 'st) raft_node
     \<Rightarrow> ('c, 'o, 's, 'st) raft_node raft_result" where
  "become_candidate E s =
     (if current_term s = - 1 then Inl (Panic ''attempt to add with overflow'')
      else
        and_then (reset_election_timer E
          (s\<lparr>current_term := current_term s + 1, voted_for := Some (node_id s),
             role := Candidate 1\<rparr>)) (\<lambda>s1.
        if has_majority 1 (length (peer_ids s1) + 1) then become_leader E s1
        else if node_log s1 = [] then Inl (Panic ''attempt to subtract with overflow'')
        else
          let request = VoteRequest
                \<lparr>vreq_term = current_term s1, vreq_candidate_id = node_id s1,
                 vreq_last_log_index = length (node_log s1) - 1,
                 vreq_last_log_term = entry_term (last (node_log s1))\<rparr>
          in Inr (broadcast_message request (persist_state E s1))))"

section \<open>Message handlers\<close>

definition append_response ::
    "('c, 'o, 's, 'st, 'b) raft_env \<Rightarrow> node_id \<Rightarrow> append_response_msg \<Rightarrow> ('c, 'o, 's, 'st) raft_node
     \<Rightarrow> ('c, 'o, 's, 'st) raft_node raft_result" where
  "append_response E from_id msg s =
     (if aresp_term msg < current_term s then Inr s
      else if aresp_term msg > current_term s then become_follower E (aresp_term msg) s
      else
        (case role s of
           Leader next_index match_index \<Rightarrow>
             let r = (if aresp_success msg
                      then Leader (hm_insert from_id (aresp_match_index msg + 1) next_index)
                                  (hm_insert from_id (aresp_match_index msg) match_index)
                      else Leader (hm_insert from_id (max (aresp_match_index msg - 1) 1) next_index)
                                  match_index)
             in apply_committed E (advance_commit (s\<lparr>role := r\<rparr>))
         | _ \<Rightarrow> Inr s))"

text \<open>The loop of \<open>append_request\<close> over the received entries; \<open>index\<close> is
  \<open>prev_log_index + 1 + i\<close>.\<close>

fun append_entries :: "nat \<Rightarrow> 'c log_entry list \<Rightarrow> 'c log_entry list \<Rightarrow> 'c log_entry list" where
  "append_entries index [] lg = lg"
| "append_entries index (entry # entries) lg =
     append_entries (Suc index) entries
       (if index < length lg
        then if entry_term (lg ! index) \<noteq> entry_term entry then take index lg @ [entry] else lg
        else lg @ [entry])"

text \<open>The part of \<open>append_request\<close> after the term checks: consistency check, log update, commit
  and reply.\<close>

definition append_request_log ::
    "('c, 'o, 's, 'st, 'b) raft_env \<Rightarrow> node_id \<Rightarrow> 'c append_request_msg \<Rightarrow> ('c, 'o, 's, 'st) raft_node
     \<Rightarrow> ('c, 'o, 's, 'st) raft_node raft_result" where
  "append_request_log E from_id msg s =
     (let match_index = areq_prev_log_index msg in
      if match_index \<ge> length (node_log s) then
        (if node_log s = [] then Inl (Panic ''attempt to subtract with overflow'')
         else Inr (send_message from_id
                (AppendResponse \<lparr>aresp_term = current_term s,
                   aresp_match_index = length (node_log s) - 1, aresp_success = False\<rparr>) s))
      else if entry_term (node_log s ! match_index) \<noteq> areq_prev_log_term msg then
        Inr (send_message from_id
          (AppendResponse \<lparr>aresp_term = current_term s, aresp_match_index = match_index,
             aresp_success = False\<rparr>) s)
      else
        let last_match_index = areq_prev_log_index msg + length (areq_entries msg);
            s1 = s\<lparr>node_log := append_entries (areq_prev_log_index msg + 1) (areq_entries msg)
                                (node_log s)\<rparr>;
            s2 = (if areq_leader_commit msg > commit_index s1
                  then s1\<lparr>commit_index := min (areq_leader_commit msg) (length (node_log s1) - 1)\<rparr>
                  else s1)
        in and_then (apply_committed E (persist_state E s2)) (\<lambda>s3.
           Inr (send_message from_id
             (AppendResponse \<lparr>aresp_term = current_term s3, aresp_match_index = last_match_index,
                aresp_success = True\<rparr>) s3)))"

definition append_request ::
    "('c, 'o, 's, 'st, 'b) raft_env \<Rightarrow> node_id \<Rightarrow> 'c append_request_msg \<Rightarrow> ('c, 'o, 's, 'st) raft_node
     \<Rightarrow> ('c, 'o, 's, 'st) raft_node raft_result" where
  "append_request E from_id msg s =
     (if areq_term msg < current_term s then
        Inr (send_message from_id
          (AppendResponse \<lparr>aresp_term = current_term s, aresp_match_index = 0,
             aresp_success = False\<rparr>) s)
      else
        and_then (if areq_term msg > current_term s then become_follower E (areq_term msg) s
                  else Inr s) (\<lambda>s1.
        if is_leader (role s1) \<and> areq_term msg = current_term s1
        then Inl (Panic ''two leaders detected in the same term'')
        else
          and_then (if is_candidate (role s1) \<and> areq_term msg = current_term s1
                    then become_follower E (areq_term msg) s1 else Inr s1) (\<lambda>s2.
          let s3 = (case role s2 of
                      Follower None \<Rightarrow> s2\<lparr>role := Follower (Some (areq_leader_id msg))\<rparr>
                    | _ \<Rightarrow> s2)
          in and_then (reset_election_timer E s3) (append_request_log E from_id msg))))"

definition log_up_to_date :: "vote_request_msg \<Rightarrow> 'c log_entry list \<Rightarrow> bool" where
  "log_up_to_date msg lg \<longleftrightarrow>
     vreq_last_log_term msg > entry_term (last lg)
     \<or> (vreq_last_log_term msg = entry_term (last lg) \<and> vreq_last_log_index msg \<ge> length lg - 1)"

definition vote_request ::
    "('c, 'o, 's, 'st, 'b) raft_env \<Rightarrow> node_id \<Rightarrow> vote_request_msg \<Rightarrow> ('c, 'o, 's, 'st) raft_node
     \<Rightarrow> ('c, 'o, 's, 'st) raft_node raft_result" where
  "vote_request E from_id msg s =
     (if vreq_term msg < current_term s then
        Inr (send_message from_id
          (VoteResponse \<lparr>vresp_term = current_term s, vresp_vote_granted = False\<rparr>) s)
      else
        and_then (if vreq_term msg > current_term s then become_follower E (vreq_term msg) s
                  else Inr s) (\<lambda>s1.
        let can_vote = (voted_for s1 = None \<or> voted_for s1 = Some (vreq_candidate_id msg)) in
        if node_log s1 = [] then Inl (Panic ''attempt to subtract with overflow'')
        else if can_vote \<and> log_up_to_date msg (node_log s1) then
          and_then (reset_election_timer E (s1\<lparr>voted_for := Some (vreq_candidate_id msg)\<rparr>)) (\<lambda>s2.
          Inr (send_message from_id
            (VoteResponse \<lparr>vresp_term = current_term s2, vresp_vote_granted = True\<rparr>)
            (persist_state E s2)))
        else
          Inr (send_message from_id
            (VoteResponse \<lparr>vresp_term = current_term s1, vresp_vote_granted = False\<rparr>) s1)))"

definition vote_response ::
    "('c, 'o, 's, 'st, 'b) raft_env \<Rightarrow> vote_response_msg \<Rightarrow> ('c, 'o, 's, 'st) raft_node
     \<Rightarrow> ('c, 'o, 's, 'st) raft_node raft_result" where
  "vote_response E msg s =
     (if vresp_term msg < current_term s then Inr s
      else if vresp_term msg > current_term s then become_follower E (vresp_term msg) s
      else
        (case role s of
           Candidate votes_received \<Rightarrow>
             if vresp_vote_granted msg then
               let s1 = s\<lparr>role := Candidate (votes_received + 1)\<rparr> in
               if has_majority (votes_received + 1) (length (peer_ids s1) + 1)
               then become_leader E s1 else Inr s1
             else Inr s
         | _ \<Rightarrow> Inr s))"

definition handle_message ::
    "('c, 'o, 's, 'st, 'b) raft_env \<Rightarrow> 'c raft_envelope \<Rightarrow> ('c, 'o, 's, 'st) raft_node
     \<Rightarrow> ('c, 'o, 's, 'st) raft_node raft_result" where
  "handle_message E envelope s =
     (case env_message envelope of
        AppendResponse msg \<Rightarrow> append_response E (env_from envelope) msg s
      | AppendRequest msg \<Rightarrow> append_request E (env_from envelope) msg s
      | VoteRequest msg \<Rightarrow> vote_request E (env_from envelope) msg s
      | VoteResponse msg \<Rightarrow> vote_response E msg s)"

section \<open>Client commands\<close>

definition require_leader :: "role \<Rightarrow> raft_error + unit" where
  "require_leader r =
     (case r of
        Leader _ _ \<Rightarrow> Inr ()
      | Follower (Some leader) \<Rightarrow> Inl (NotLeader leader)
      | Follower None \<Rightarrow> Inl NoLeader
      | Candidate _ \<Rightarrow> Inl NoLeader)"

definition status :: "('c, 'o, 's, 'st) raft_node \<Rightarrow> raft_status" where
  "status s =
     (case (case role s of
              Follower current_leader_id \<Rightarrow> (StatusFollower, current_leader_id)
            | Candidate votes_received \<Rightarrow> (StatusCandidate votes_received, None)
            | Leader next_index match_index \<Rightarrow>
                (StatusLeader next_index match_index, Some (node_id s))) of
        (r, leader_id) \<Rightarrow>
          \<lparr>st_id = node_id s, st_current_term = current_term s, st_voted_for = voted_for s,
           st_role = r, st_leader_id = leader_id, st_commit_index = commit_index s,
           st_last_applied = last_applied s, st_log_len = length (node_log s),
           st_peer_ids = peer_ids s\<rparr>)"

definition send_reply ::
    "nat \<Rightarrow> ('c, 'o) client_reply \<Rightarrow> ('c, 'o, 's, 'st) raft_node \<Rightarrow> ('c, 'o, 's, 'st) raft_node" where
  "send_reply reply v s = s\<lparr>replies := replies s @ [(reply, v)]\<rparr>"

text \<open>\<open>pending_applies.insert(index, reply)\<close>: a sender that was stored under the index is dropped.\<close>

definition insert_pending ::
    "nat \<Rightarrow> nat \<Rightarrow> ('c, 'o, 's, 'st) raft_node \<Rightarrow> ('c, 'o, 's, 'st) raft_node" where
  "insert_pending index reply s =
     (let s1 = (case hm_get (pending_applies s) index of
                  None \<Rightarrow> s
                | Some old \<Rightarrow> send_reply old ReplyDropped s)
      in s1\<lparr>pending_applies := hm_insert index reply (pending_applies s1)\<rparr>)"

definition client_command ::
    "('c, 'o, 's, 'st, 'b) raft_env \<Rightarrow> 'c client_command_msg \<Rightarrow> ('c, 'o, 's, 'st) raft_node
     \<Rightarrow> ('c, 'o, 's, 'st) raft_node raft_result" where
  "client_command E command s =
     (case command of
        Apply cmd reply \<Rightarrow>
          (case require_leader (role s) of
             Inr _ \<Rightarrow>
               let index = length (node_log s);
                   s1 = s\<lparr>node_log := node_log s @
                            [\<lparr>entry_term = current_term s, entry_command = Command cmd\<rparr>]\<rparr>;
                   s2 = persist_state E (insert_pending index reply s1)
               in and_then (apply_committed E (advance_commit s2)) on_heartbeat
           | Inl err \<Rightarrow> Inr (send_reply reply (ApplyReply (Inl err)) s))
      | IsLeader reply \<Rightarrow> Inr (send_reply reply (IsLeaderReply (require_leader (role s))) s)
      | GetLog reply \<Rightarrow> Inr (send_reply reply (GetLogReply (Inr (node_log s))) s)
      | GetLogEntry index reply \<Rightarrow>
          Inr (send_reply reply
            (GetLogEntryReply (Inr (if index < length (node_log s) then Some (node_log s ! index)
                                    else None))) s)
      | GetStatus reply \<Rightarrow> Inr (send_reply reply (GetStatusReply (Inr (status s))) s))"

section \<open>Construction and the event loop\<close>

definition init_transport_workers ::
    "('c, 'o, 's, 'st) raft_node \<Rightarrow> ('c, 'o, 's, 'st) raft_node" where
  "init_transport_workers s =
     s\<lparr>transport_work := fold (\<lambda>p. hm_insert p []) (peer_ids s) (transport_work s)\<rparr>"

definition new_node ::
    "('c, 'o, 's, 'st, 'b) raft_env \<Rightarrow> node_id \<Rightarrow> node_id list \<Rightarrow> 's \<Rightarrow> 'st \<Rightarrow> raft_config
     \<Rightarrow> ('c, 'o, 's, 'st) raft_node raft_result" where
  "new_node E i peers sm st cfg =
     (let s = \<lparr>current_term = 0, voted_for = None,
               node_log = [\<lparr>entry_term = 0, entry_command = NoOp\<rparr>],
               node_id = i, peer_ids = filter (\<lambda>p. p \<noteq> i) peers,
               role = Follower None, commit_index = 0, last_applied = 0, config = cfg,
               state_machine = sm, storage = st, election_deadline = now_ms E,
               pending_applies = [], transport_work = [], replies = []\<rparr>
      in case restore_state E s of
           Inl _ \<Rightarrow> Inl (Panic ''called Result::unwrap() on an Err value'')
         | Inr s1 \<Rightarrow> Inr (init_transport_workers s1))"

text \<open>The branches of the \<open>select!\<close> of \<open>launch\<close>, with the guards on the two timers.\<close>

datatype 'c raft_event =
    ElectionTimeout
  | HeartbeatTick
  | MessageReceived "'c raft_envelope"
  | CommandReceived "'c client_command_msg"

definition event_enabled :: "'c raft_event \<Rightarrow> ('c, 'o, 's, 'st) raft_node \<Rightarrow> bool" where
  "event_enabled ev s =
     (case ev of
        ElectionTimeout \<Rightarrow> \<not> is_leader (role s)
      | HeartbeatTick \<Rightarrow> is_leader (role s)
      | _ \<Rightarrow> True)"

definition on_event ::
    "('c, 'o, 's, 'st, 'b) raft_env \<Rightarrow> 'c raft_event \<Rightarrow> ('c, 'o, 's, 'st) raft_node
     \<Rightarrow> ('c, 'o, 's, 'st) raft_node raft_result" where
  "on_event E ev s =
     (case ev of
        ElectionTimeout \<Rightarrow> become_candidate E s
      | HeartbeatTick \<Rightarrow> on_heartbeat s
      | MessageReceived envelope \<Rightarrow> handle_message E envelope s
      | CommandReceived command \<Rightarrow> client_command E command s)"

text \<open>The loop of \<open>launch\<close> over a sequence of events.\<close>

fun run_events ::
    "('c, 'o, 's, 'st, 'b) raft_env \<Rightarrow> 'c raft_event list \<Rightarrow> ('c, 'o, 's, 'st) raft_node
     \<Rightarrow> ('c, 'o, 's, 'st) raft_node raft_result" where
  "run_events E [] s = Inr s"
| "run_events E (ev # evs) s =
     (if event_enabled ev s then and_then (on_event E ev s) (run_events E evs)
      else run_events E evs s)"

text \<open>The worker task of a peer takes the oldest message of its queue and hands it to the
  transport.\<close>

definition worker_take ::
    "node_id \<Rightarrow> ('c, 'o, 's, 'st) raft_node
     \<Rightarrow> ('c raft_message \<times> ('c, 'o, 's, 'st) raft_node) option" where
  "worker_take peer s =
     (case hm_get (transport_work s) peer of
        Some (m # q) \<Rightarrow> Some (m, s\<lparr>transport_work := hm_insert peer q (transport_work s)\<rparr>)
      | _ \<Rightarrow> None)"

section \<open>What the helpers leave unchanged\<close>

text \<open>
  Each helper changes few fields. The lemmas give the result as an update of the argument, so that
  a handler is analysed by rewriting with them; the collection \<open>frame\<close> gathers them.
\<close>

named_theorems frame \<open>results of the node helpers as updates of their argument\<close>

lemma send_message_frame: "\<exists>w. send_message p m s = s\<lparr>transport_work := w\<rparr>"
  by (auto simp: send_message_def split: option.split intro: exI [of _ "transport_work s"])

lemma send_message_sel [simp]:
  "current_term (send_message p m s) = current_term s"
  "voted_for (send_message p m s) = voted_for s"
  "node_log (send_message p m s) = node_log s"
  "node_id (send_message p m s) = node_id s"
  "peer_ids (send_message p m s) = peer_ids s"
  "role (send_message p m s) = role s"
  "commit_index (send_message p m s) = commit_index s"
  "last_applied (send_message p m s) = last_applied s"
  "config (send_message p m s) = config s"
  "state_machine (send_message p m s) = state_machine s"
  "storage (send_message p m s) = storage s"
  "election_deadline (send_message p m s) = election_deadline s"
  "pending_applies (send_message p m s) = pending_applies s"
  "replies (send_message p m s) = replies s"
  by (simp_all add: send_message_def split: option.split)

lemma fold_send_frame: "\<exists>w. fold (\<lambda>p. send_message p m) ps s = s\<lparr>transport_work := w\<rparr>"
proof (induction ps arbitrary: s)
  case Nil
  show ?case by (rule exI [of _ "transport_work s"]) simp
next
  case (Cons p ps)
  obtain w where "send_message p m s = s\<lparr>transport_work := w\<rparr>"
    using send_message_frame by blast
  with Cons [of "s\<lparr>transport_work := w\<rparr>"] show ?case by auto
qed

lemma broadcast_message_frame: "\<exists>w. broadcast_message m s = s\<lparr>transport_work := w\<rparr>"
  by (simp add: broadcast_message_def fold_send_frame)

lemma persist_state_frame: "\<exists>st. persist_state E s = s\<lparr>storage := st\<rparr>"
  by (auto simp: persist_state_def split: sum.split prod.split intro: exI [of _ "storage s"])

lemma persist_state_sel [simp]:
  "current_term (persist_state E s) = current_term s"
  "voted_for (persist_state E s) = voted_for s"
  "node_log (persist_state E s) = node_log s"
  "node_id (persist_state E s) = node_id s"
  "peer_ids (persist_state E s) = peer_ids s"
  "role (persist_state E s) = role s"
  "commit_index (persist_state E s) = commit_index s"
  "last_applied (persist_state E s) = last_applied s"
  "config (persist_state E s) = config s"
  "state_machine (persist_state E s) = state_machine s"
  "election_deadline (persist_state E s) = election_deadline s"
  "pending_applies (persist_state E s) = pending_applies s"
  "transport_work (persist_state E s) = transport_work s"
  "replies (persist_state E s) = replies s"
  by (simp_all add: persist_state_def split: sum.split prod.split)

lemma reset_election_timer_frame [frame]:
  "reset_election_timer E s = Inr t \<Longrightarrow> \<exists>d. t = s\<lparr>election_deadline := d\<rparr>"
  by (auto simp: reset_election_timer_def result_simps)

lemma heartbeat_to_frame: "heartbeat_to p s = Inr t \<Longrightarrow> \<exists>w. t = s\<lparr>transport_work := w\<rparr>"
  by (auto simp: heartbeat_to_def result_simps intro: send_message_frame
      split: role.splits option.splits if_splits)

lemma heartbeat_loop_frame: "heartbeat_loop ps s = Inr t \<Longrightarrow> \<exists>w. t = s\<lparr>transport_work := w\<rparr>"
proof (induction ps arbitrary: s)
  case Nil
  then show ?case by (auto intro: exI [of _ "transport_work s"])
next
  case (Cons p ps)
  then obtain u where "heartbeat_to p s = Inr u" "heartbeat_loop ps u = Inr t"
    by (auto simp: result_simps)
  from heartbeat_to_frame [OF this(1)] Cons.IH [OF this(2)] show ?case by auto
qed

lemma on_heartbeat_frame [frame]: "on_heartbeat s = Inr t \<Longrightarrow> \<exists>w. t = s\<lparr>transport_work := w\<rparr>"
  by (simp add: on_heartbeat_def heartbeat_loop_frame)

lemma advance_commit_frame: "\<exists>i. advance_commit s = s\<lparr>commit_index := i\<rparr>"
  by (auto simp: advance_commit_def split: role.split option.split
      intro: exI [of _ "commit_index s"])

lemma advance_commit_sel [simp]:
  "current_term (advance_commit s) = current_term s"
  "voted_for (advance_commit s) = voted_for s"
  "node_log (advance_commit s) = node_log s"
  "node_id (advance_commit s) = node_id s"
  "peer_ids (advance_commit s) = peer_ids s"
  "role (advance_commit s) = role s"
  "last_applied (advance_commit s) = last_applied s"
  "config (advance_commit s) = config s"
  "state_machine (advance_commit s) = state_machine s"
  "storage (advance_commit s) = storage s"
  "election_deadline (advance_commit s) = election_deadline s"
  "pending_applies (advance_commit s) = pending_applies s"
  "transport_work (advance_commit s) = transport_work s"
  "replies (advance_commit s) = replies s"
  by (simp_all add: advance_commit_def split: role.split option.split)

lemma send_reply_sel [simp]:
  "current_term (send_reply r v s) = current_term s"
  "voted_for (send_reply r v s) = voted_for s"
  "node_log (send_reply r v s) = node_log s"
  "node_id (send_reply r v s) = node_id s"
  "peer_ids (send_reply r v s) = peer_ids s"
  "role (send_reply r v s) = role s"
  "commit_index (send_reply r v s) = commit_index s"
  "last_applied (send_reply r v s) = last_applied s"
  "config (send_reply r v s) = config s"
  "state_machine (send_reply r v s) = state_machine s"
  "storage (send_reply r v s) = storage s"
  "pending_applies (send_reply r v s) = pending_applies s"
  "transport_work (send_reply r v s) = transport_work s"
  by (simp_all add: send_reply_def)

lemma insert_pending_sel [simp]:
  "current_term (insert_pending i r s) = current_term s"
  "voted_for (insert_pending i r s) = voted_for s"
  "node_log (insert_pending i r s) = node_log s"
  "node_id (insert_pending i r s) = node_id s"
  "peer_ids (insert_pending i r s) = peer_ids s"
  "role (insert_pending i r s) = role s"
  "commit_index (insert_pending i r s) = commit_index s"
  "last_applied (insert_pending i r s) = last_applied s"
  "config (insert_pending i r s) = config s"
  "state_machine (insert_pending i r s) = state_machine s"
  "storage (insert_pending i r s) = storage s"
  "transport_work (insert_pending i r s) = transport_work s"
  by (simp_all add: insert_pending_def Let_def split: option.split)

lemma apply_entry_frame:
  "apply_entry E i e s = Inr t \<Longrightarrow> \<exists>sm pend r. t = s\<lparr>state_machine := sm, pending_applies := pend, replies := r\<rparr>"
proof -
  assume a: "apply_entry E i e s = Inr t"
  have "t = s\<lparr>state_machine := state_machine t, pending_applies := pending_applies t, replies := replies t\<rparr>"
    using a by (auto simp: apply_entry_def split: log_command.splits sum.splits option.split)
  then show ?thesis by (intro exI)
qed

lemma apply_committed_frame [frame]:
  "apply_committed E s = Inr t \<Longrightarrow>
     \<exists>la sm pend r. t = s\<lparr>last_applied := la, state_machine := sm, pending_applies := pend, replies := r\<rparr>"
proof (induction E s rule: apply_committed.induct)
  case (1 E s)
  show ?case
  proof (cases "last_applied s < commit_index s")
    case True
    let ?s = "s\<lparr>last_applied := last_applied s + 1\<rparr>"
    from True "1.prems" obtain e u where
        e: "(index_at (node_log s) (last_applied s + 1) :: 'a log_entry raft_result) = Inr e"
        and u: "apply_entry E (last_applied s + 1) e ?s = Inr u" and rec: "apply_committed E u = Inr t"
      by (auto simp: apply_committed.simps [of E s] result_simps)
    obtain sm pend r where "u = ?s\<lparr>state_machine := sm, pending_applies := pend, replies := r\<rparr>"
      using apply_entry_frame [OF u] by blast
    moreover obtain la sm' pend' r' where
        "t = u\<lparr>last_applied := la, state_machine := sm', pending_applies := pend', replies := r'\<rparr>"
      using "1.IH" [OF True e u rec] by blast
    ultimately have "t = s\<lparr>last_applied := la, state_machine := sm', pending_applies := pend', replies := r'\<rparr>" by simp
    then show ?thesis by blast
  next
    case False
    with "1.prems" have "t = s" by (simp add: apply_committed.simps [of E s])
    then show ?thesis
      by (auto intro!: exI [of _ "last_applied s"] exI [of _ "state_machine s"]
          exI [of _ "pending_applies s"] exI [of _ "replies s"])
  qed
qed

section \<open>Case analysis of the handlers\<close>

text \<open>
  One rule per handler: the ways in which it can return, each with the state it returns written
  as updates of the argument. The properties below and the cluster proofs split with these rules.
\<close>

definition step_down :: "u64 \<Rightarrow> ('c, 'o, 's, 'st) raft_node \<Rightarrow> ('c, 'o, 's, 'st) raft_node" where
  "step_down trm s =
     (if trm > current_term s then s\<lparr>current_term := trm, voted_for := None\<rparr> else s)
       \<lparr>role := Follower None\<rparr>"

lemma step_down_sel [simp]:
  "current_term (step_down trm s) = max trm (current_term s)"
  "voted_for (step_down trm s) = (if trm > current_term s then None else voted_for s)"
  "node_log (step_down trm s) = node_log s"
  "node_id (step_down trm s) = node_id s"
  "peer_ids (step_down trm s) = peer_ids s"
  "role (step_down trm s) = Follower None"
  "commit_index (step_down trm s) = commit_index s"
  "last_applied (step_down trm s) = last_applied s"
  "config (step_down trm s) = config s"
  "state_machine (step_down trm s) = state_machine s"
  "storage (step_down trm s) = storage s"
  "election_deadline (step_down trm s) = election_deadline s"
  "pending_applies (step_down trm s) = pending_applies s"
  "transport_work (step_down trm s) = transport_work s"
  "replies (step_down trm s) = replies s"
  by (auto simp: step_down_def max_def)

lemma become_follower_cases:
  assumes "become_follower E trm s = Inr t"
  obtains d where "t = (persist_state E (step_down trm s))\<lparr>election_deadline := d\<rparr>"
  using assms by (auto simp: become_follower_def Let_def step_down_def dest!: reset_election_timer_frame)

abbreviation candidate_state ::
    "('c, 'o, 's, 'st) raft_node \<Rightarrow> nat \<Rightarrow> ('c, 'o, 's, 'st) raft_node" where
  "candidate_state s d \<equiv> s\<lparr>current_term := current_term s + 1, voted_for := Some (node_id s),
     role := Candidate 1, election_deadline := d\<rparr>"

abbreviation vote_request_of :: "('c, 'o, 's, 'st) raft_node \<Rightarrow> 'c raft_message" where
  "vote_request_of s \<equiv> VoteRequest \<lparr>vreq_term = current_term s + 1,
     vreq_candidate_id = node_id s, vreq_last_log_index = length (node_log s) - 1,
     vreq_last_log_term = entry_term (last (node_log s))\<rparr>"

lemma become_candidate_cases:
  assumes "become_candidate E s = Inr t"
  obtains (single) d where "current_term s \<noteq> - 1" "has_majority 1 (length (peer_ids s) + 1)"
      "become_leader E (candidate_state s d) = Inr t"
    | (ask) d where "current_term s \<noteq> - 1" "\<not> has_majority 1 (length (peer_ids s) + 1)"
      "node_log s \<noteq> []"
      "t = broadcast_message (vote_request_of s) (persist_state E (candidate_state s d))"
proof -
  let ?s = "s\<lparr>current_term := current_term s + 1, voted_for := Some (node_id s), role := Candidate 1\<rparr>"
  have ne: "current_term s \<noteq> - 1"
    using assms by (auto simp: become_candidate_def)
  then obtain s1 where s1: "reset_election_timer E ?s = Inr s1"
    using assms by (auto simp: become_candidate_def result_simps)
  then obtain d where d: "s1 = candidate_state s d"
    by (auto dest!: reset_election_timer_frame)
  show ?thesis
  proof (cases "has_majority 1 (length (peer_ids s) + 1)")
    case True
    then show ?thesis
      using assms ne s1 d by (intro single [of d]) (simp_all add: become_candidate_def)
  next
    case False
    then show ?thesis
      using assms ne s1 d by (intro ask [of d]) (auto simp: become_candidate_def Let_def split: if_splits)
  qed
qed

text \<open>The state in which a new leader starts, before it persists, commits and sends.\<close>

definition leader_state :: "('c, 'o, 's, 'st) raft_node \<Rightarrow> ('c, 'o, 's, 'st) raft_node" where
  "leader_state s =
     s\<lparr>node_log := node_log s @ [\<lparr>entry_term = current_term s, entry_command = NoOp\<rparr>],
       role := Leader (hm_collect (map (\<lambda>p. (p, length (node_log s) + 1)) (peer_ids s)))
                      (hm_collect (map (\<lambda>p. (p, 0)) (peer_ids s)))\<rparr>"

text \<open>Commit what is replicated, apply it, then replicate: the common tail of
  \<open>become_leader\<close> and of a client's \<open>Apply\<close>.\<close>

lemma become_leader_cases:
  assumes "become_leader E s = Inr t"
  obtains u where "apply_committed E (advance_commit (persist_state E (leader_state s))) = Inr u"
    "on_heartbeat u = Inr t"
  using assms by (auto simp: become_leader_def leader_state_def Let_def result_simps)

lemma append_response_cases:
  assumes "append_response E from_id msg s = Inr t"
  obtains (stale) "aresp_term msg < current_term s" "t = s"
    | (newer) d where "aresp_term msg > current_term s"
        "t = (persist_state E (step_down (aresp_term msg) s))\<lparr>election_deadline := d\<rparr>"
    | (ignored) "aresp_term msg = current_term s" "\<not> is_leader (role s)" "t = s"
    | (success) ni mi where "aresp_term msg = current_term s" "role s = Leader ni mi" "aresp_success msg"
        "apply_committed E (advance_commit (s\<lparr>role :=
           Leader (hm_insert from_id (aresp_match_index msg + 1) ni)
                  (hm_insert from_id (aresp_match_index msg) mi)\<rparr>)) = Inr t"
    | (failure) ni mi where "aresp_term msg = current_term s" "role s = Leader ni mi" "\<not> aresp_success msg"
        "apply_committed E (advance_commit (s\<lparr>role :=
           Leader (hm_insert from_id (max (aresp_match_index msg - 1) 1) ni) mi\<rparr>)) = Inr t"
  using assms
  by (auto simp: append_response_def Let_def split: if_splits role.splits elim!: become_follower_cases)

text \<open>After the term checks of an append request the node follows the sender's leader.\<close>

inductive follows ::
    "('c, 'o, 's, 'st, 'b) raft_env \<Rightarrow> 'c append_request_msg \<Rightarrow> ('c, 'o, 's, 'st) raft_node
     \<Rightarrow> ('c, 'o, 's, 'st) raft_node \<Rightarrow> bool" where
  follow_new: "areq_term msg > current_term s \<or> (areq_term msg = current_term s \<and> is_candidate (role s)) \<Longrightarrow>
    follows E msg s ((persist_state E (step_down (areq_term msg) s))
      \<lparr>role := Follower (Some (areq_leader_id msg)), election_deadline := d\<rparr>)"
| follow_first: "areq_term msg = current_term s \<Longrightarrow> role s = Follower None \<Longrightarrow>
    follows E msg s (s\<lparr>role := Follower (Some (areq_leader_id msg)), election_deadline := d\<rparr>)"
| follow_known: "areq_term msg = current_term s \<Longrightarrow> role s = Follower (Some l) \<Longrightarrow>
    follows E msg s (s\<lparr>election_deadline := d\<rparr>)"

lemma append_request_cases:
  assumes "append_request E from_id msg s = Inr t"
  obtains (stale) "areq_term msg < current_term s"
        "t = send_message from_id (AppendResponse \<lparr>aresp_term = current_term s,
               aresp_match_index = 0, aresp_success = False\<rparr>) s"
    | (current) u where "\<not> areq_term msg < current_term s" "follows E msg s u"
        "append_request_log E from_id msg u = Inr t"
proof (cases "areq_term msg < current_term s")
  case True
  with assms stale show ?thesis by (simp add: append_request_def)
next
  case False
  have "\<exists>u. follows E msg s u \<and> append_request_log E from_id msg u = Inr t"
  proof (cases "areq_term msg > current_term s")
    case True
    with assms False obtain d d' where
      "append_request_log E from_id msg ((persist_state E (step_down (areq_term msg) s))
        \<lparr>role := Follower (Some (areq_leader_id msg)), election_deadline := d'\<rparr>) = Inr t"
      by (auto simp: append_request_def result_simps Let_def
          elim!: become_follower_cases dest!: reset_election_timer_frame)
    with True show ?thesis by (blast intro: follow_new)
  next
    case same: False
    with False have eq: "areq_term msg = current_term s" by simp
    show ?thesis
    proof (cases "role s")
      case (Follower l)
      with assms eq show ?thesis
        by (cases l) (auto simp: append_request_def result_simps Let_def
            dest!: reset_election_timer_frame intro: follow_first follow_known)
    next
      case (Candidate v)
      with assms eq obtain d where
        "append_request_log E from_id msg ((persist_state E (step_down (areq_term msg) s))
          \<lparr>role := Follower (Some (areq_leader_id msg)), election_deadline := d\<rparr>) = Inr t"
        by (auto simp: append_request_def result_simps Let_def
            elim!: become_follower_cases dest!: reset_election_timer_frame)
      moreover have "follows E msg s ((persist_state E (step_down (areq_term msg) s))
          \<lparr>role := Follower (Some (areq_leader_id msg)), election_deadline := d\<rparr>)"
        using Candidate eq by (intro follow_new) simp
      ultimately show ?thesis by blast
    next
      case (Leader ni mi)
      with assms eq show ?thesis by (simp add: append_request_def)
    qed
  qed
  with False current show ?thesis by blast
qed

text \<open>The accepting branch of an append request, before the state machine is fed.\<close>

definition accept_entries ::
    "'c append_request_msg \<Rightarrow> ('c, 'o, 's, 'st) raft_node \<Rightarrow> ('c, 'o, 's, 'st) raft_node" where
  "accept_entries msg s =
     (let s1 = s\<lparr>node_log := append_entries (areq_prev_log_index msg + 1) (areq_entries msg)
                              (node_log s)\<rparr>
      in if areq_leader_commit msg > commit_index s1
         then s1\<lparr>commit_index := min (areq_leader_commit msg) (length (node_log s1) - 1)\<rparr>
         else s1)"

lemma accept_entries_sel [simp]:
  "current_term (accept_entries msg s) = current_term s"
  "voted_for (accept_entries msg s) = voted_for s"
  "node_log (accept_entries msg s) =
     append_entries (areq_prev_log_index msg + 1) (areq_entries msg) (node_log s)"
  "node_id (accept_entries msg s) = node_id s"
  "peer_ids (accept_entries msg s) = peer_ids s"
  "role (accept_entries msg s) = role s"
  "last_applied (accept_entries msg s) = last_applied s"
  "config (accept_entries msg s) = config s"
  "state_machine (accept_entries msg s) = state_machine s"
  "storage (accept_entries msg s) = storage s"
  "election_deadline (accept_entries msg s) = election_deadline s"
  "pending_applies (accept_entries msg s) = pending_applies s"
  "transport_work (accept_entries msg s) = transport_work s"
  "replies (accept_entries msg s) = replies s"
  by (simp_all add: accept_entries_def Let_def)

lemma append_request_log_cases:
  assumes "append_request_log E from_id msg s = Inr t"
  obtains (gap) "areq_prev_log_index msg \<ge> length (node_log s)" "node_log s \<noteq> []"
        "t = send_message from_id (AppendResponse \<lparr>aresp_term = current_term s,
               aresp_match_index = length (node_log s) - 1, aresp_success = False\<rparr>) s"
    | (mismatch) "areq_prev_log_index msg < length (node_log s)"
        "entry_term (node_log s ! areq_prev_log_index msg) \<noteq> areq_prev_log_term msg"
        "t = send_message from_id (AppendResponse \<lparr>aresp_term = current_term s,
               aresp_match_index = areq_prev_log_index msg, aresp_success = False\<rparr>) s"
    | (accepted) u where "areq_prev_log_index msg < length (node_log s)"
        "entry_term (node_log s ! areq_prev_log_index msg) = areq_prev_log_term msg"
        "apply_committed E (persist_state E (accept_entries msg s)) = Inr u"
        "t = send_message from_id (AppendResponse \<lparr>aresp_term = current_term u,
               aresp_match_index = areq_prev_log_index msg + length (areq_entries msg),
               aresp_success = True\<rparr>) u"
  using assms
  by (auto simp: append_request_log_def accept_entries_def Let_def result_simps split: if_splits)

text \<open>What a vote request finds after its term check.\<close>

inductive vote_checked ::
    "('c, 'o, 's, 'st, 'b) raft_env \<Rightarrow> vote_request_msg \<Rightarrow> ('c, 'o, 's, 'st) raft_node
     \<Rightarrow> ('c, 'o, 's, 'st) raft_node \<Rightarrow> bool" where
  vote_newer: "vreq_term msg > current_term s \<Longrightarrow>
    vote_checked E msg s ((persist_state E (step_down (vreq_term msg) s))\<lparr>election_deadline := d\<rparr>)"
| vote_same: "vreq_term msg = current_term s \<Longrightarrow> vote_checked E msg s s"

definition grants :: "vote_request_msg \<Rightarrow> ('c, 'o, 's, 'st) raft_node \<Rightarrow> bool" where
  "grants msg s \<longleftrightarrow>
     (voted_for s = None \<or> voted_for s = Some (vreq_candidate_id msg)) \<and> log_up_to_date msg (node_log s)"

lemma vote_request_cases:
  assumes "vote_request E from_id msg s = Inr t"
  obtains (stale) "vreq_term msg < current_term s"
        "t = send_message from_id (VoteResponse \<lparr>vresp_term = current_term s,
               vresp_vote_granted = False\<rparr>) s"
    | (granted) u d where "\<not> vreq_term msg < current_term s" "vote_checked E msg s u"
        "node_log u \<noteq> []" "grants msg u"
        "t = send_message from_id (VoteResponse \<lparr>vresp_term = current_term u,
               vresp_vote_granted = True\<rparr>)
             (persist_state E (u\<lparr>voted_for := Some (vreq_candidate_id msg), election_deadline := d\<rparr>))"
    | (rejected) u where "\<not> vreq_term msg < current_term s" "vote_checked E msg s u"
        "node_log u \<noteq> []" "\<not> grants msg u"
        "t = send_message from_id (VoteResponse \<lparr>vresp_term = current_term u,
               vresp_vote_granted = False\<rparr>) u"
proof (cases "vreq_term msg < current_term s")
  case True
  with assms stale show ?thesis by (simp add: vote_request_def)
next
  case False
  with assms obtain u where
      u: "(if vreq_term msg > current_term s then become_follower E (vreq_term msg) s else Inr s) = Inr u"
    by (auto simp: vote_request_def result_simps)
  have chk: "vote_checked E msg s u"
    using u False by (auto split: if_splits elim!: become_follower_cases intro: vote_newer vote_same)
  have ne: "node_log u \<noteq> []"
    using assms False u by (auto simp: vote_request_def result_simps Let_def)
  show ?thesis
  proof (cases "grants msg u")
    case True
    with assms False u ne obtain v where
        v: "reset_election_timer E (u\<lparr>voted_for := Some (vreq_candidate_id msg)\<rparr>) = Inr v"
        "t = send_message from_id (VoteResponse \<lparr>vresp_term = current_term v,
               vresp_vote_granted = True\<rparr>) (persist_state E v)"
      by (auto simp: vote_request_def result_simps Let_def grants_def)
    obtain d where "v = u\<lparr>voted_for := Some (vreq_candidate_id msg), election_deadline := d\<rparr>"
      using v(1) by (auto dest: reset_election_timer_frame)
    with v(2) granted [OF False chk ne True] show ?thesis by simp
  next
    case no: False
    then have "t = send_message from_id (VoteResponse \<lparr>vresp_term = current_term u,
        vresp_vote_granted = False\<rparr>) u"
      using assms False u ne by (auto simp: vote_request_def Let_def grants_def)
    then show ?thesis using rejected [OF False chk ne no] by simp
  qed
qed

lemma vote_response_cases:
  assumes "vote_response E msg s = Inr t"
  obtains (stale) "vresp_term msg < current_term s" "t = s"
    | (newer) d where "vresp_term msg > current_term s"
        "t = (persist_state E (step_down (vresp_term msg) s))\<lparr>election_deadline := d\<rparr>"
    | (ignored) "vresp_term msg = current_term s" "\<not> is_candidate (role s) \<or> \<not> vresp_vote_granted msg"
        "t = s"
    | (counted) v where "vresp_term msg = current_term s" "role s = Candidate v"
        "vresp_vote_granted msg" "\<not> has_majority (v + 1) (length (peer_ids s) + 1)"
        "t = s\<lparr>role := Candidate (v + 1)\<rparr>"
    | (elected) v where "vresp_term msg = current_term s" "role s = Candidate v"
        "vresp_vote_granted msg" "has_majority (v + 1) (length (peer_ids s) + 1)"
        "become_leader E (s\<lparr>role := Candidate (v + 1)\<rparr>) = Inr t"
  using assms
  by (auto simp: vote_response_def Let_def split: if_splits role.splits elim!: become_follower_cases)

text \<open>A command of a client: appended by a leader, or answered at once.\<close>

abbreviation appended ::
    "'c \<Rightarrow> nat \<Rightarrow> ('c, 'o, 's, 'st) raft_node \<Rightarrow> ('c, 'o, 's, 'st) raft_node" where
  "appended cmd reply s \<equiv> insert_pending (length (node_log s)) reply
     (s\<lparr>node_log := node_log s @ [\<lparr>entry_term = current_term s, entry_command = Command cmd\<rparr>]\<rparr>)"

lemma client_command_cases:
  assumes "client_command E command s = Inr t"
  obtains (append) cmd reply u where "command = Apply cmd reply" "is_leader (role s)"
        "apply_committed E (advance_commit (persist_state E (appended cmd reply s))) = Inr u"
        "on_heartbeat u = Inr t"
    | (answered) reply v where "t = send_reply reply v s"
        "\<And>cmd reply. command = Apply cmd reply \<Longrightarrow> \<not> is_leader (role s)"
proof (cases "\<exists>cmd reply. command = Apply cmd reply \<and> is_leader (role s)")
  case True
  then obtain cmd reply where c: "command = Apply cmd reply" "is_leader (role s)" by blast
  then have "require_leader (role s) = Inr ()"
    by (simp add: require_leader_def is_leader_def split: role.splits)
  with assms c append show ?thesis
    by (auto simp: client_command_def result_simps Let_def)
next
  case False
  then have "\<exists>reply v. t = send_reply reply v s"
    using assms by (cases command; cases "role s")
      (auto simp: client_command_def require_leader_def split: option.splits)
  with False answered show ?thesis by blast
qed

end
