(* ===== verification/Memory_Storage.thy ===== *)
theory Memory_Storage
  imports Raft_Node
begin

text \<open>
  The contract of the trait \<open>RaftStorage\<close> (\<open>raft-rs/src/storage.rs\<close>) as a locale, and the storage
  that the example program passes to its nodes, \<open>MemoryStorage\<close> of \<open>example/src/main.rs\<close>, which
  meets it. At the end, a concrete environment on that storage in which the witnesses of the
  node properties are evaluated: its state machine is the counter of the test module of
  \<open>raft.rs\<close>, its serialiser is the identity.
\<close>

section \<open>The storage contract\<close>

locale stable_storage =
  fixes save :: "'st \<Rightarrow> 'b \<Rightarrow> (raft_error + unit) \<times> 'st"
    and load :: "'st \<Rightarrow> raft_error + 'b option"
  assumes save_then_load: "load (snd (save st b)) = Inr (Some b)"
begin

lemma last_save_wins: "load (snd (save (snd (save st b)) b')) = Inr (Some b')"
  by (rule save_then_load)

end

section \<open>The storage of the example\<close>

record 'b memory_storage =
  mem_state :: "'b option"

definition memory_default :: "'b memory_storage" where
  "memory_default = \<lparr>mem_state = None\<rparr>"

definition memory_save_state :: "'b memory_storage \<Rightarrow> 'b \<Rightarrow> (raft_error + unit) \<times> 'b memory_storage" where
  "memory_save_state st bytes = (Inr (), st\<lparr>mem_state := Some bytes\<rparr>)"

definition memory_restore_state :: "'b memory_storage \<Rightarrow> raft_error + 'b option" where
  "memory_restore_state st = Inr (mem_state st)"

interpretation memory: stable_storage memory_save_state memory_restore_state
  by unfold_locales (simp add: memory_save_state_def memory_restore_state_def)

section \<open>A concrete environment\<close>

datatype test_command = Inc int | Dec int | Set int

fun test_apply :: "int \<Rightarrow> test_command \<Rightarrow> int \<times> int" where
  "test_apply v (Inc n) = (v + n, v + n)"
| "test_apply v (Dec n) = (v - n, v - n)"
| "test_apply v (Set n) = (n, n)"

definition test_env ::
    "(test_command, int, int, test_command persistent_state memory_storage,
      test_command persistent_state) raft_env" where
  "test_env = \<lparr>sm_apply = (\<lambda>v c. Inr (test_apply v c)), to_stdvec = Inr, from_bytes = Inr,
     save_state = memory_save_state, load_state = memory_restore_state,
     now_ms = 0, random_range = (\<lambda>a b. a)\<rparr>"

definition test_node ::
    "node_id \<Rightarrow> node_id list \<Rightarrow>
     (test_command, int, int, test_command persistent_state memory_storage) raft_node raft_result" where
  "test_node i peers = new_node test_env i peers 0 memory_default default_config"

lemma test_env_storage: "stable_storage (save_state test_env) (load_state test_env)"
  using memory.stable_storage_axioms by (simp add: test_env_def)

end
