(* ===== verification/Raft_Node_Props.thy ===== *)
theory Raft_Node_Props
  imports Memory_Storage
begin

text \<open>
  Properties of one Raft node, whatever messages, commands and timeouts it receives:
  durability of the persistent state, monotone terms, at most one vote per term, an append-only
  log while leading, and the functional behaviour of the handlers on their branches.
\<close>

section \<open>Durability\<close>

text \<open>What the code relies on: the storage returns the bytes saved last (\<open>stable_storage\<close>), and the
  serialiser can be inverted.\<close>

definition postcard_roundtrip :: "('c, 'o, 's, 'st, 'b) raft_env \<Rightarrow> bool" where
  "postcard_roundtrip E \<longleftrightarrow> (\<forall>p. \<exists>b. to_stdvec E p = Inr b \<and> from_bytes E b = Inr p)"

lemma test_env_postcard: "postcard_roundtrip test_env"
  by (simp add: postcard_roundtrip_def test_env_def)

definition persistent_part :: "('c, 'o, 's, 'st) raft_node \<Rightarrow> 'c persistent_state" where
  "persistent_part s = \<lparr>ps_current_term = current_term s, ps_voted_for = voted_for s,
     ps_log = node_log s\<rparr>"

text \<open>A node is durable when a restart from its storage would find exactly its persistent
  fields; a store that was never written stands for the initial fields.\<close>

definition durable :: "('c, 'o, 's, 'st, 'b) raft_env \<Rightarrow> ('c, 'o, 's, 'st) raft_node \<Rightarrow> bool" where
  "durable E s \<longleftrightarrow>
     (case load_state E (storage s) of
        Inl _ \<Rightarrow> False
      | Inr None \<Rightarrow> persistent_part s = \<lparr>ps_current_term = 0, ps_voted_for = None,
                      ps_log = [\<lparr>entry_term = 0, entry_command = NoOp\<rparr>]\<rparr>
      | Inr (Some b) \<Rightarrow> from_bytes E b = Inr (persistent_part s))"

context stable_storage
begin

lemma persist_durable:
  assumes "save_state E = save" "load_state E = load" "postcard_roundtrip E"
  shows "durable E (persist_state E s)"
proof -
  obtain b where b: "to_stdvec E (persistent_part s) = Inr b" "from_bytes E b = Inr (persistent_part s)"
    using assms(3) by (auto simp: postcard_roundtrip_def)
  have "storage (persist_state E s) = snd (save (storage s) b)"
    using b(1) assms(1) by (simp add: persist_state_def persistent_part_def split: prod.split)
  moreover have "persistent_part (persist_state E s) = persistent_part s"
    by (simp add: persistent_part_def)
  ultimately show ?thesis
    using b(2) assms(2) save_then_load by (simp add: durable_def)
qed

end

text \<open>Durability only depends on the storage and the persistent fields.\<close>

definition core :: "('c, 'o, 's, 'st) raft_node \<Rightarrow> 'st \<times> u64 \<times> node_id option \<times> 'c log_entry list" where
  "core s = (storage s, current_term s, voted_for s, node_log s)"

lemma durable_core:
  assumes "core s = core t"
  shows "durable E s = durable E t"
proof -
  have "storage s = storage t" "persistent_part s = persistent_part t"
    using assms by (simp_all add: core_def persistent_part_def)
  then show ?thesis by (simp add: durable_def split: sum.split option.split)
qed

text \<open>Every handler leaves the core unchanged or leaves what \<open>persist_state\<close> just wrote.\<close>

definition saved :: "('c, 'o, 's, 'st, 'b) raft_env \<Rightarrow> ('c, 'o, 's, 'st) raft_node
    \<Rightarrow> ('c, 'o, 's, 'st) raft_node \<Rightarrow> bool" where
  "saved E s t \<longleftrightarrow> core t = core s \<or> (\<exists>u. core t = core (persist_state E u))"

lemma saved_refl [simp]: "saved E s s"
  by (simp add: saved_def)

lemma saved_trans: "saved E s t \<Longrightarrow> saved E t u \<Longrightarrow> saved E s u"
  by (auto simp: saved_def)

lemma saved_core_eq: "core t = core s \<Longrightarrow> saved E s t"
  by (simp add: saved_def)

lemma saved_core_cong: "saved E s u \<Longrightarrow> core t = core u \<Longrightarrow> saved E s t"
  by (simp add: saved_def)

lemma saved_persist: "core t = core (persist_state E u) \<Longrightarrow> saved E s t"
  by (auto simp: saved_def)

lemma core_simps [simp]:
  "core (send_message p m s) = core s" "core (advance_commit s) = core s"
  "core (send_reply c v s) = core s" "core (s\<lparr>election_deadline := d\<rparr>) = core s"
  "core (s\<lparr>role := r\<rparr>) = core s"
  by (simp_all add: core_def)

lemma broadcast_message_core [simp]: "core (broadcast_message m s) = core s"
  using broadcast_message_frame [of m s] by (auto simp: core_def)

lemma apply_committed_core: "apply_committed E s = Inr t \<Longrightarrow> core t = core s"
  by (auto simp: core_def dest!: apply_committed_frame)

lemma on_heartbeat_core: "on_heartbeat s = Inr t \<Longrightarrow> core t = core s"
  by (auto simp: core_def dest!: on_heartbeat_frame)

lemma become_leader_saved: "become_leader E s = Inr t \<Longrightarrow> saved E s' t"
  by (erule become_leader_cases)
    (auto intro: saved_persist dest!: apply_committed_core on_heartbeat_core)

lemma become_candidate_saved: "become_candidate E s = Inr t \<Longrightarrow> saved E s t"
  by (erule become_candidate_cases) (auto intro: become_leader_saved saved_persist)

lemma append_response_saved: "append_response E from_id msg s = Inr t \<Longrightarrow> saved E s t"
  by (erule append_response_cases)
    (auto intro: saved_persist saved_core_eq dest!: apply_committed_core)

lemma follows_saved: "follows E msg s u \<Longrightarrow> saved E s u"
  by (erule follows.cases) (auto intro: saved_persist saved_core_eq)

lemma append_request_log_saved: "append_request_log E from_id msg s = Inr t \<Longrightarrow> saved E s t"
  by (erule append_request_log_cases)
    (auto intro: saved_core_eq saved_persist dest!: apply_committed_core)

lemma append_request_saved: "append_request E from_id msg s = Inr t \<Longrightarrow> saved E s t"
  by (erule append_request_cases)
    (auto intro: saved_core_eq saved_trans dest!: follows_saved append_request_log_saved)

lemma vote_checked_saved: "vote_checked E msg s u \<Longrightarrow> saved E s u"
  by (erule vote_checked.cases) (auto intro: saved_persist)

lemma vote_request_saved: "vote_request E from_id msg s = Inr t \<Longrightarrow> saved E s t"
  by (erule vote_request_cases)
    (auto intro: saved_core_eq saved_persist saved_core_cong dest!: vote_checked_saved)

lemma vote_response_saved: "vote_response E msg s = Inr t \<Longrightarrow> saved E s t"
  by (erule vote_response_cases) (auto intro: become_leader_saved saved_core_eq saved_persist)

lemma client_command_saved: "client_command E cmd s = Inr t \<Longrightarrow> saved E s t"
  by (erule client_command_cases)
    (auto intro: saved_core_eq saved_persist dest!: apply_committed_core on_heartbeat_core)

lemma on_event_saved: "on_event E ev s = Inr t \<Longrightarrow> saved E s t"
  by (auto simp: on_event_def handle_message_def on_heartbeat_core saved_core_eq
      become_candidate_saved append_response_saved append_request_saved vote_request_saved
      vote_response_saved client_command_saved
      split: raft_event.splits raft_message.splits)

text \<open>C11: after every event that a node survives, a restart from its storage would find exactly the
  node's current term, vote and log: no handler lets a change of the persistent state escape
  \<open>persist_state\<close>. The hypotheses are the contract of the storage and of the serialiser.\<close>

theorem on_event_durable:
  assumes "stable_storage (save_state E) (load_state E)" "postcard_roundtrip E"
    and "durable E s" "on_event E ev s = Inr t"
  shows "durable E t"
proof -
  have saved: "saved E s t" using assms(4) by (rule on_event_saved)
  have "durable E (persist_state E u)" for u
    using stable_storage.persist_durable [OF assms(1) refl refl assms(2)] .
  with saved assms(3) show ?thesis
    by (auto simp: saved_def dest: durable_core [of _ _ E])
qed

theorem on_event_durable_witness:
  "\<exists>s t. test_node 1 [1, 2, 3] = Inr s \<and> on_event test_env ElectionTimeout s = Inr t \<and> durable test_env t"
proof -
  have "ok_and (\<lambda>s. durable test_env s \<and> ok_and (\<lambda>t. True) (on_event test_env ElectionTimeout s))
      (test_node 1 [1, 2, 3])"
    by code_simp
  then obtain s t where "test_node 1 [1, 2, 3] = Inr s" "durable test_env s"
      "on_event test_env ElectionTimeout s = Inr t"
    by (auto simp: ok_and_iff)
  then show ?thesis
    using on_event_durable [of test_env s ElectionTimeout t] test_env_storage test_env_postcard by blast
qed

text \<open>Restarting a durable node with \<open>RaftNode::new\<close> on its storage succeeds and gives a
  follower with the same term, vote and log, nothing committed or applied yet.\<close>

lemma restart_restores:
  assumes "durable E s"
  shows "\<exists>t. new_node E i peers sm (storage s) cfg = Inr t
    \<and> current_term t = current_term s \<and> voted_for t = voted_for s \<and> node_log t = node_log s
    \<and> role t = Follower None \<and> commit_index t = 0 \<and> last_applied t = 0 \<and> storage t = storage s"
  using assms
  by (auto simp: durable_def persistent_part_def new_node_def restore_state_def
      init_transport_workers_def Let_def split: sum.splits option.splits)

section \<open>Terms and votes\<close>

text \<open>The relation between the persistent fields before and after a handler that all of them
  respect: the term never decreases, and within a term a vote, once cast, stays.\<close>

definition advances :: "('c, 'o, 's, 'st) raft_node \<Rightarrow> ('c, 'o, 's, 'st) raft_node \<Rightarrow> bool" where
  "advances s t \<longleftrightarrow> current_term s \<le> current_term t
     \<and> (current_term t = current_term s \<longrightarrow> voted_for s \<noteq> None \<longrightarrow> voted_for t = voted_for s)"

lemma advances_trans: "advances s t \<Longrightarrow> advances t u \<Longrightarrow> advances s u"
  by (auto simp: advances_def)

lemma advances_core: "core t = core s \<Longrightarrow> advances s t"
  by (simp add: advances_def core_def)

lemma advances_core_cong: "advances s u \<Longrightarrow> core t = core u \<Longrightarrow> advances s t"
  by (simp add: advances_def core_def)

lemma advances_step_down: "core t = core (persist_state E (step_down trm s)) \<Longrightarrow> advances s t"
  by (auto simp: advances_def core_def max_def split: if_splits)

lemma become_leader_advances: "become_leader E s = Inr t \<Longrightarrow> advances s t"
  by (erule become_leader_cases)
    (auto simp: advances_def leader_state_def dest!: apply_committed_frame on_heartbeat_frame)

lemma candidate_advances:
  assumes "current_term s \<noteq> - 1" "current_term t = current_term s + 1"
  shows "advances s t"
proof -
  have "current_term s < current_term s + 1"
    using assms(1) by (rule word_less_succ)
  with assms(2) show ?thesis by (auto simp: advances_def)
qed

lemma become_candidate_advances: "become_candidate E s = Inr t \<Longrightarrow> advances s t"
proof (erule become_candidate_cases)
  fix d
  assume "current_term s \<noteq> - 1" "become_leader E (candidate_state s d) = Inr t"
  moreover from this have "current_term t = current_term s + 1"
    by (elim become_leader_cases)
      (auto simp: leader_state_def dest!: apply_committed_frame on_heartbeat_frame)
  ultimately show ?thesis by (intro candidate_advances)
next
  fix d
  assume "current_term s \<noteq> - 1"
    and "t = broadcast_message (vote_request_of s) (persist_state E (candidate_state s d))"
  moreover from this have "core t = core (persist_state E (candidate_state s d))"
    by simp
  ultimately show ?thesis by (intro candidate_advances) (simp_all add: core_def)
qed

lemma append_response_advances: "append_response E from_id msg s = Inr t \<Longrightarrow> advances s t"
  by (erule append_response_cases)
    (auto intro: advances_core advances_step_down dest!: apply_committed_core)

lemma follows_advances: "follows E msg s u \<Longrightarrow> advances s u"
  by (erule follows.cases) (auto intro: advances_core advances_step_down)

lemma append_request_log_advances: "append_request_log E from_id msg s = Inr t \<Longrightarrow> advances s t"
  by (erule append_request_log_cases)
    (auto simp: advances_def dest!: apply_committed_frame)

lemma append_request_advances: "append_request E from_id msg s = Inr t \<Longrightarrow> advances s t"
  by (erule append_request_cases)
    (auto intro: advances_core advances_trans dest!: follows_advances append_request_log_advances)

lemma vote_checked_advances: "vote_checked E msg s u \<Longrightarrow> advances s u"
  by (erule vote_checked.cases) (auto intro: advances_core advances_step_down)

lemma vote_request_advances: "vote_request E from_id msg s = Inr t \<Longrightarrow> advances s t"
proof (erule vote_request_cases)
  fix u d
  assume u: "vote_checked E msg s u" "grants msg u"
    "t = send_message from_id (VoteResponse \<lparr>vresp_term = current_term u, vresp_vote_granted = True\<rparr>)
       (persist_state E (u\<lparr>voted_for := Some (vreq_candidate_id msg), election_deadline := d\<rparr>))"
  from u(2,3) have "advances u t" by (auto simp: advances_def grants_def)
  with u(1) show ?thesis by (blast intro: advances_trans vote_checked_advances)
qed (auto intro: advances_core advances_core_cong dest!: vote_checked_advances)

lemma vote_response_advances: "vote_response E msg s = Inr t \<Longrightarrow> advances s t"
  by (erule vote_response_cases)
    (auto intro: advances_core advances_step_down dest!: become_leader_advances simp: advances_def)

lemma client_command_advances: "client_command E cmd s = Inr t \<Longrightarrow> advances s t"
  by (erule client_command_cases)
    (auto simp: advances_def dest!: apply_committed_frame on_heartbeat_frame)

lemma on_event_advances: "on_event E ev s = Inr t \<Longrightarrow> advances s t"
  by (auto simp: on_event_def handle_message_def on_heartbeat_core advances_core
      become_candidate_advances append_response_advances append_request_advances
      vote_request_advances vote_response_advances client_command_advances
      split: raft_event.splits raft_message.splits)

text \<open>No event lowers a node's term, and while the term stays the same a vote that was cast
  is never changed or withdrawn, so a node votes for at most one candidate per term.\<close>

lemma term_monotone_vote_once:
  assumes "on_event E ev s = Inr t"
  shows "current_term s \<le> current_term t
    \<and> (current_term t = current_term s \<longrightarrow> voted_for s = Some c \<longrightarrow> voted_for t = Some c)"
  using on_event_advances [OF assms] by (auto simp: advances_def)

section \<open>The log\<close>

text \<open>How many of the received entries are already in the log, judged by their terms.\<close>

definition matching :: "'c log_entry list \<Rightarrow> nat \<Rightarrow> 'c log_entry list \<Rightarrow> nat" where
  "matching lg index entries =
     length (takeWhile (\<lambda>(a, b). entry_term a = entry_term b) (zip (drop index lg) entries))"

lemma matching_Cons:
  "index < length lg \<Longrightarrow> matching lg index (e # es) =
     (if entry_term (lg ! index) = entry_term e then Suc (matching lg (Suc index) es) else 0)"
  by (simp add: matching_def Cons_nth_drop_Suc [symmetric])

lemma matching_end: "length lg \<le> index \<Longrightarrow> matching lg index es = 0"
  by (simp add: matching_def)

lemma matching_Nil [simp]: "matching lg index [] = 0"
  by (simp add: matching_def)

lemma matching_le: "matching lg index es \<le> length es" "matching lg index es \<le> length lg - index"
  using length_takeWhile_le [of "\<lambda>(a, b). entry_term a = entry_term b" "zip (drop index lg) es"]
  by (auto simp: matching_def)

lemma append_entries_closed:
  assumes "index \<le> length lg"
  shows "append_entries index entries lg =
    (if matching lg index entries = length entries then lg
     else take (index + matching lg index entries) lg @ drop (matching lg index entries) entries)"
  using assms
proof (induction index entries lg rule: append_entries.induct)
  case (2 index e es lg)
  show ?case
  proof (cases "index < length lg \<and> entry_term (lg ! index) = entry_term e")
    case True
    with "2.IH" show ?thesis by (simp add: matching_Cons)
  next
    case False
    have zero: "matching lg index (e # es) = 0"
      using False "2.prems" by (cases "index < length lg") (auto simp: matching_Cons matching_end)
    have lg: "(if index < length lg then if entry_term (lg ! index) \<noteq> entry_term e
        then take index lg @ [e] else lg else lg @ [e]) = take index lg @ [e]"
      using False "2.prems" by auto
    have "append_entries (Suc index) es (take index lg @ [e]) = take index lg @ e # es"
      using "2.IH" "2.prems" unfolding lg by (cases "es = []") (simp_all add: matching_end)
    then show ?thesis
      using lg zero by (simp only: append_entries.simps) simp
  qed
qed simp

text \<open>C32: the loop of \<open>append_request\<close> computes what the protocol asks for. If all received entries
  are already present the log is unchanged (in particular nothing behind them is deleted);
  otherwise the log is cut at the first conflict and continued with the rest of the entries.\<close>

theorem append_entries_reference:
  assumes "index \<le> length lg"
  shows "append_entries index entries lg =
    (if matching lg index entries = length entries then lg
     else take (index + matching lg index entries) lg @ drop (matching lg index entries) entries)"
  using assms by (rule append_entries_closed)

theorem append_entries_reference_witness:
  "append_entries 1 [\<lparr>entry_term = 3, entry_command = Command (7::nat)\<rparr>]
     [\<lparr>entry_term = 0, entry_command = NoOp\<rparr>, \<lparr>entry_term = 2, entry_command = NoOp\<rparr>,
      \<lparr>entry_term = 2, entry_command = NoOp\<rparr>] =
   [\<lparr>entry_term = 0, entry_command = NoOp\<rparr>, \<lparr>entry_term = 3, entry_command = Command 7\<rparr>]"
  by (subst append_entries_reference) (simp_all add: matching_def)

lemma append_entries_prefix: "index \<le> length lg \<Longrightarrow> take index (append_entries index es lg) = take index lg"
  by (simp add: append_entries_closed)

lemma append_entries_length: "index \<le> length lg \<Longrightarrow> index + length es \<le> length (append_entries index es lg)"
  using matching_le [of lg index es] by (auto simp: append_entries_closed)

lemma matching_nth:
  assumes "k < matching lg index es"
  shows "entry_term (lg ! (index + k)) = entry_term (es ! k)"
proof -
  let ?P = "\<lambda>(a, b). entry_term a = entry_term b"
  have k: "k < length (takeWhile ?P (zip (drop index lg) es))" using assms by (simp add: matching_def)
  then have "?P (zip (drop index lg) es ! k)"
    using nth_mem [OF k] takeWhile_nth [OF k] by (auto dest: set_takeWhileD)
  moreover have "k < length lg - index" "k < length es" using matching_le [of lg index es] assms by simp_all
  ultimately show ?thesis by simp
qed

text \<open>An entry of another term at \<open>j\<close> is replaced.\<close>

lemma append_entries_index:
  assumes "index \<le> j" "j < index + length es" "j < length lg" "entry_term (lg ! j) \<noteq> entry_term (es ! (j - index))"
  shows "append_entries index es lg ! j = es ! (j - index)"
proof -
  define k where "k = matching lg index es"
  have k: "k \<le> j - index" using matching_nth [of "j - index" lg index es] assms(1,4) unfolding k_def by (cases "j - index < matching lg index es") auto
  have "append_entries index es lg = take (index + k) lg @ drop k es"
    using append_entries_closed [of index lg es] assms(1-3) k by (simp add: k_def)
  moreover have "min (length lg) (index + k) = index + k" using assms(1,3) k by simp
  ultimately show ?thesis using assms(1,2) k by (simp add: nth_append)
qed

lemma advance_apply_log:
  "apply_committed E (advance_commit u) = Inr t \<Longrightarrow> node_log t = node_log u \<and> role t = role u"
  by (auto dest!: apply_committed_frame)

text \<open>A node that leads a term only ever appends to its log while it stays in that term; it
  never removes or overwrites an entry.\<close>

lemma leader_append_only:
  assumes "on_event E ev s = Inr t" "is_leader (role s)" "event_enabled ev s"
    and "current_term t = current_term s"
  shows "is_leader (role t) \<and> (\<exists>es. node_log t = node_log s @ es)"
proof (cases ev)
  case ElectionTimeout
  with assms show ?thesis by (simp add: event_enabled_def)
next
  case HeartbeatTick
  with assms show ?thesis by (auto simp: on_event_def dest!: on_heartbeat_frame)
next
  case (CommandReceived c)
  with assms have "client_command E c s = Inr t" by (simp add: on_event_def)
  then show ?thesis
    by (rule client_command_cases)
      (use assms(2) in \<open>auto dest!: advance_apply_log on_heartbeat_frame\<close>)
next
  case (MessageReceived envelope)
  obtain ni mi where r: "role s = Leader ni mi"
    using assms(2) by (auto simp: is_leader_def split: role.splits)
  show ?thesis
  proof (cases "env_message envelope")
    case (AppendRequest m)
    with assms MessageReceived have "append_request E (env_from envelope) m s = Inr t"
      by (simp add: on_event_def handle_message_def)
    then show ?thesis
      by (rule append_request_cases)
       (use assms r in \<open>auto elim!: follows.cases append_request_log_cases dest!: apply_committed_frame\<close>)
  next
    case (AppendResponse m)
    with assms MessageReceived have "append_response E (env_from envelope) m s = Inr t"
      by (simp add: on_event_def handle_message_def)
    then show ?thesis
      by (rule append_response_cases) (use assms in \<open>auto dest!: advance_apply_log\<close>)
  next
    case (VoteRequest m)
    with assms MessageReceived have "vote_request E (env_from envelope) m s = Inr t"
      by (simp add: on_event_def handle_message_def)
    then show ?thesis
      by (rule vote_request_cases) (use assms in \<open>auto elim!: vote_checked.cases\<close>)
  next
    case (VoteResponse m)
    with assms MessageReceived have "vote_response E m s = Inr t"
      by (simp add: on_event_def handle_message_def)
    then show ?thesis
      by (rule vote_response_cases) (use assms r in auto)
  qed
qed

abbreviation vote_from :: "node_id \<Rightarrow> u64 \<Rightarrow> 'c raft_event" where
  "vote_from p trm \<equiv> MessageReceived \<lparr>env_from = p,
     env_message = VoteResponse \<lparr>vresp_term = trm, vresp_vote_granted = True\<rparr>\<rparr>"

abbreviation ack_from :: "node_id \<Rightarrow> u64 \<Rightarrow> nat \<Rightarrow> 'c raft_event" where
  "ack_from p trm i \<equiv> MessageReceived \<lparr>env_from = p,
     env_message = AppendResponse \<lparr>aresp_term = trm, aresp_match_index = i, aresp_success = True\<rparr>\<rparr>"

text \<open>A leader of three nodes in term 1.\<close>

definition test_leader ::
    "(test_command, int, int, test_command persistent_state memory_storage) raft_node raft_result" where
  "test_leader = and_then (test_node 1 [1, 2, 3]) (run_events test_env [ElectionTimeout, vote_from 2 1])"

section \<open>Commitment and application\<close>

lemma find_rev_upt:
  "find P (rev [a ..< b]) = (if \<exists>i. a \<le> i \<and> i < b \<and> P i
     then Some (Max {i. a \<le> i \<and> i < b \<and> P i}) else None)"
proof (induction b)
  case (Suc b)
  show ?case
  proof (cases "a \<le> b")
    case True
    then have "rev [a ..< Suc b] = b # rev [a ..< b]" by simp
    moreover have "Max {i. a \<le> i \<and> i < Suc b \<and> P i} = b" if "P b"
      using that True by (intro Max_eqI) auto
    moreover have "{i. a \<le> i \<and> i < Suc b \<and> P i} = {i. a \<le> i \<and> i < b \<and> P i}" if "\<not> P b"
      using that by (auto simp: less_Suc_eq)
    ultimately show ?thesis
      using Suc True by (auto simp: less_Suc_eq split: if_splits)
  next
    case False
    then show ?thesis by auto
  qed
qed simp

lemma advance_commit_max:
  "commit_index (advance_commit s) =
    (case role s of
       Leader ni mi \<Rightarrow>
         Max (insert (commit_index s)
           {i. commit_index s < i \<and> i < length (node_log s) \<and> committable s mi i})
     | _ \<Rightarrow> commit_index s)"
proof (cases "role s")
  case (Leader ni mi)
  let ?S = "{i. commit_index s < i \<and> i < length (node_log s) \<and> committable s mi i}"
  have fin: "finite ?S" by simp
  have S: "{i. commit_index s + 1 \<le> i \<and> i < length (node_log s) \<and> committable s mi i} = ?S"
    by auto
  show ?thesis
  proof (cases "?S = {}")
    case True
    then have "find (committable s mi) (rev [commit_index s + 1 ..< length (node_log s)]) = None"
      by (auto simp: find_rev_upt)
    then have "commit_index (advance_commit s) = commit_index s"
      using Leader by (simp add: advance_commit_def)
    moreover have "Max (insert (commit_index s) ?S) = commit_index s"
      unfolding True by simp
    ultimately show ?thesis using Leader by simp
  next
    case False
    then have "Max (insert (commit_index s) ?S) = Max ?S"
      using fin by (subst Max_insert) (auto simp: max_def Max_ge_iff)
    with False Leader show ?thesis
      by (auto simp: advance_commit_def find_rev_upt S [simplified])
  qed
qed (simp_all add: advance_commit_def)

text \<open>The nodes that are known to store index \<open>i\<close>: the leader, and the peers whose match index reaches \<open>i\<close>.\<close>

lemma replicated_count_card:
  assumes "distinct (map fst mi)" "set (map fst mi) = set (peer_ids s)" "node_id s \<notin> set (peer_ids s)"
  shows "replicated_count mi i =
    card {p \<in> insert (node_id s) (set (peer_ids s)). p = node_id s \<or> (\<exists>m. hm_get mi p = Some m \<and> i \<le> m)}"
proof -
  let ?F = "filter (\<lambda>(_, m). i \<le> m) mi"
  have "distinct (map fst ?F)" using assms(1) by (rule distinct_map_filter)
  then have "length ?F = card (fst ` set ?F)" by (metis distinct_card length_map set_map)
  moreover have "fst ` set ?F = {p \<in> set (peer_ids s). \<exists>m. hm_get mi p = Some m \<and> i \<le> m}"
    using assms(1,2) by (force simp: hm_get_def)
  moreover have "{p \<in> insert (node_id s) (set (peer_ids s)). p = node_id s \<or> (\<exists>m. hm_get mi p = Some m \<and> i \<le> m)}
      = insert (node_id s) {p \<in> set (peer_ids s). \<exists>m. hm_get mi p = Some m \<and> i \<le> m}" by auto
  ultimately show ?thesis using assms(3) by (simp add: replicated_count_def)
qed

text \<open>C33: \<open>advance_commit\<close> on a leader moves the commit index to the highest index of the log whose
  entry is of the current term and which more than half of the cluster stores, the leader itself and the peers whose match index
  reaches it, and leaves it alone when there is none above it; no other role commits.\<close>

theorem advance_commit_highest:
  assumes "distinct (node_id s # peer_ids s)" "distinct (map fst mi)" "set (map fst mi) = set (peer_ids s)"
  shows "(\<not> is_leader (role s) \<longrightarrow> advance_commit s = s)
    \<and> (role s = Leader ni mi \<longrightarrow> (let members = insert (node_id s) (set (peer_ids s)) in
        commit_index (advance_commit s) = Max (insert (commit_index s)
          {i. commit_index s < i \<and> i < length (node_log s) \<and> entry_term (node_log s ! i) = current_term s
            \<and> card members < 2 * card {p \<in> members. p = node_id s \<or> (\<exists>m. hm_get mi p = Some m \<and> i \<le> m)}})))"
proof -
  have "card (insert (node_id s) (set (peer_ids s))) = length (peer_ids s) + 1"
    using assms(1) by (simp add: distinct_card)
  then have "committable s mi i \<longleftrightarrow> entry_term (node_log s ! i) = current_term s
      \<and> card (insert (node_id s) (set (peer_ids s))) < 2 * card {p \<in> insert (node_id s) (set (peer_ids s)).
          p = node_id s \<or> (\<exists>m. hm_get mi p = Some m \<and> i \<le> m)}" for i
    using replicated_count_card [OF assms(2,3)] assms(1) by (auto simp: committable_def has_majority_def)
  then have "role s = Leader ni mi \<longrightarrow> (let members = insert (node_id s) (set (peer_ids s)) in
      commit_index (advance_commit s) = Max (insert (commit_index s)
        {i. commit_index s < i \<and> i < length (node_log s) \<and> entry_term (node_log s ! i) = current_term s
          \<and> card members < 2 * card {p \<in> members. p = node_id s \<or> (\<exists>m. hm_get mi p = Some m \<and> i \<le> m)}}))"
    by (simp add: advance_commit_max Let_def)
  moreover have "\<not> is_leader (role s) \<longrightarrow> advance_commit s = s"
    by (auto simp: advance_commit_def is_leader_def split: role.splits)
  ultimately show ?thesis by blast
qed

theorem advance_commit_highest_witness:
  "\<exists>s. test_leader = Inr s \<and> commit_index s = 0 \<and> commit_index (advance_commit (s\<lparr>role := Leader [] [(2, 1), (3, 0)]\<rparr>)) = 1"
proof -
  have "ok_and (\<lambda>s. commit_index s = 0 \<and> node_id s = 1 \<and> peer_ids s = [2, 3] \<and> current_term s = 1 \<and> node_log s =
      [\<lparr>entry_term = 0, entry_command = NoOp\<rparr>, \<lparr>entry_term = 1, entry_command = NoOp\<rparr>]) test_leader"
    by code_simp
  then obtain s where s: "test_leader = Inr s" "commit_index s = 0" "node_id s = 1" "peer_ids s = [2, 3]" "current_term s = 1"
      "node_log s = [\<lparr>entry_term = 0, entry_command = NoOp\<rparr>, \<lparr>entry_term = 1, entry_command = NoOp\<rparr>]"
    by (auto simp: ok_and_iff)
  define l where "l = s\<lparr>role := Leader [] [(2, 1), (3, 0)]\<rparr>"
  have mem: "{p \<in> {1, 2, 3}. p = 1 \<or> (\<exists>m. hm_get [(2, 1), (3, 0 :: nat)] p = Some m \<and> 1 \<le> m)} = {1, 2 :: node_id}"
    by (auto simp: hm_get_def)
  have "i = 1" if "0 < i" "i < length (node_log l)" for i using that s(6) by (simp add: l_def)
  then have S: "{i. commit_index l < i \<and> i < length (node_log l) \<and> entry_term (node_log l ! i) = current_term l
      \<and> card {1, 2, 3 :: node_id} < 2 * card {p \<in> {1, 2, 3 :: node_id}. p = 1 \<or> (\<exists>m. hm_get [(2, 1), (3, 0)] p = Some m \<and> i \<le> m)}} = {1}"
    using mem s by (auto simp: l_def)
  have "commit_index (advance_commit l) = Max (insert (commit_index l) {1})"
    using advance_commit_highest [of l "[(2, 1), (3, 0)]" "[]"] s S by (simp add: l_def insert_commute)
  then show ?thesis using s(1,2) by (auto simp: l_def)
qed

lemma find_in_set: "find P xs = Some x \<Longrightarrow> x \<in> set xs \<and> P x"
  by (auto simp: find_Some_iff)

lemma advance_commit_mono: "commit_index s \<le> commit_index (advance_commit s)"
  unfolding advance_commit_def by (auto split: role.split option.split dest!: find_in_set)

lemma advance_commit_bound:
  "commit_index s < length (node_log s) \<Longrightarrow> commit_index (advance_commit s) < length (node_log s)"
  unfolding advance_commit_def by (auto split: role.split option.split dest!: find_in_set)

text \<open>The reference for \<open>apply_committed\<close>: fold the state machine over the entries, in order, until it panics.\<close>

fun feed :: "('c, 'o, 's, 'st, 'b) raft_env \<Rightarrow> 'c log_entry list \<Rightarrow> 's \<Rightarrow> string + 's" where
  "feed E [] sm = Inr sm"
| "feed E (e # es) sm =
     (case entry_command e of
        NoOp \<Rightarrow> feed E es sm
      | Command c \<Rightarrow> and_then (sm_apply E sm c) (\<lambda>(sm', output). feed E es sm'))"

abbreviation log_between :: "'c log_entry list \<Rightarrow> nat \<Rightarrow> nat \<Rightarrow> 'c log_entry list" where
  "log_between lg a b \<equiv> take (b - a) (drop (a + 1) lg)"

text \<open>The output of the entry at index \<open>i\<close>, the machine being fed the entries from \<open>a + 1\<close> on.\<close>

definition output_at :: "('c, 'o, 's, 'st, 'b) raft_env \<Rightarrow> 'c log_entry list \<Rightarrow> nat \<Rightarrow> 's \<Rightarrow> nat \<Rightarrow> 'c \<Rightarrow> string + 'o" where
  "output_at E lg a sm i c = and_then (feed E (log_between lg a (i - 1)) sm) (\<lambda>sm'. map_sum id snd (sm_apply E sm' c))"

lemma apply_entry_cases:
  assumes "apply_entry E i e s = Inr t"
  obtains (noop) "entry_command e = NoOp" "t = s"
    | (command) c sm out where "entry_command e = Command c" "sm_apply E (state_machine s) c = Inr (sm, out)"
        "state_machine t = sm" "last_applied t = last_applied s" "commit_index t = commit_index s" "node_log t = node_log s"
        "set (replies s) \<subseteq> set (replies t)" "\<And>r. hm_get (pending_applies s) i = Some r \<Longrightarrow> (r, ApplyReply (Inr out)) \<in> set (replies t)"
        "\<And>j. j \<noteq> i \<Longrightarrow> hm_get (pending_applies t) j = hm_get (pending_applies s) j"
proof (cases "entry_command e")
  case NoOp
  with assms noop show thesis by (simp add: apply_entry_def)
next
  case (Command c)
  then obtain sm out where o: "sm_apply E (state_machine s) c = Inr (sm, out)"
    using assms by (auto simp: apply_entry_def split: sum.splits)
  show thesis
    by (rule command [OF Command o]) (use assms Command o in \<open>auto simp: apply_entry_def split: option.splits\<close>)
qed

lemma apply_entry_panic:
  assumes "apply_entry E i e s = Inl f"
  obtains c p where "entry_command e = Command c" "sm_apply E (state_machine s) c = Inl p" "f = Panic p"
  using assms by (auto simp: apply_entry_def split: log_command.splits sum.splits)

lemma apply_committed_feeds:
  assumes "commit_index s < length (node_log s) \<or> commit_index s \<le> last_applied s"
  shows "case feed E (log_between (node_log s) (last_applied s) (commit_index s)) (state_machine s) of
      Inl p \<Rightarrow> apply_committed E s = Inl (Panic p)
    | Inr sm \<Rightarrow> \<exists>t. apply_committed E s = Inr t
        \<and> last_applied t = max (last_applied s) (commit_index s) \<and> state_machine t = sm
        \<and> set (replies s) \<subseteq> set (replies t)
        \<and> (\<forall>i r c. last_applied s < i \<longrightarrow> i \<le> commit_index s \<longrightarrow> hm_get (pending_applies s) i = Some r \<longrightarrow>
             entry_command (node_log s ! i) = Command c \<longrightarrow>
             (\<exists>out. output_at E (node_log s) (last_applied s) (state_machine s) i c = Inr out
               \<and> (r, ApplyReply (Inr out)) \<in> set (replies t)))"
  using assms
proof (induction E s rule: apply_committed.induct)
  case (1 E s)
  show ?case
  proof (cases "last_applied s < commit_index s")
    case True
    let ?i = "last_applied s + 1" and ?e = "node_log s ! (last_applied s + 1)" and ?v = "s\<lparr>last_applied := last_applied s + 1\<rparr>"
    have i: "?i < length (node_log s)" using True "1.prems" by auto
    then have idx: "index_at (node_log s) (last_applied s + 1) = (Inr ?e :: 'a log_entry raft_result)" by (simp add: index_at_def)
    have step: "apply_committed E s = and_then (apply_entry E ?i ?e ?v) (apply_committed E)"
      using True idx by (simp add: apply_committed.simps [of E s])
    have drop: "drop ?i (node_log s) = ?e # drop (?i + 1) (node_log s)"
      using i by (simp add: Cons_nth_drop_Suc)
    have cons: "log_between (node_log s) (last_applied s) k = ?e # log_between (node_log s) ?i k" if "last_applied s < k" for k
    proof -
      have "k - last_applied s = Suc (k - ?i)" using that by simp
      then show ?thesis by (simp only: drop take_Suc_Cons)
    qed
    show ?thesis
    proof (cases "apply_entry E ?i ?e ?v")
      case (Inl f)
      obtain c p where "entry_command ?e = Command c" "sm_apply E (state_machine ?v) c = Inl p" "f = Panic p"
        by (rule apply_entry_panic [OF Inl])
      then show ?thesis unfolding cons [OF True] step Inl by simp
    next
      case (Inr u)
      from Inr have u: "last_applied u = ?i" "commit_index u = commit_index s" "node_log u = node_log s"
          "set (replies s) \<subseteq> set (replies u)" "\<And>j. j \<noteq> ?i \<Longrightarrow> hm_get (pending_applies u) j = hm_get (pending_applies s) j"
        by (cases rule: apply_entry_cases; simp)+
      have feed_step: "feed E (log_between (node_log s) (last_applied s) k) (state_machine s) =
          feed E (log_between (node_log s) ?i k) (state_machine u)" if "last_applied s < k" for k
        unfolding cons [OF that] using Inr by (cases rule: apply_entry_cases) simp_all
      have pre: "commit_index u < length (node_log u) \<or> commit_index u \<le> last_applied u"
        using True "1.prems" u by simp
      note IH = "1.IH" [OF True idx Inr pre, unfolded u(1-3), folded feed_step [OF True]]
      have run: "apply_committed E s = apply_committed E u" unfolding step Inr by simp
      show ?thesis
      proof (cases "feed E (log_between (node_log s) (last_applied s) (commit_index s)) (state_machine s)")
        case (Inl p)
        with IH run show ?thesis by simp
      next
        case sm: (Inr sm)
        with IH obtain t where t: "apply_committed E u = Inr t" "last_applied t = max ?i (commit_index s)" "state_machine t = sm"
            "set (replies u) \<subseteq> set (replies t)"
            "\<And>i r c. ?i < i \<Longrightarrow> i \<le> commit_index s \<Longrightarrow> hm_get (pending_applies u) i = Some r \<Longrightarrow>
               entry_command (node_log s ! i) = Command c \<Longrightarrow>
               \<exists>out. output_at E (node_log s) ?i (state_machine u) i c = Inr out \<and> (r, ApplyReply (Inr out)) \<in> set (replies t)"
          by auto
        have "\<exists>out. output_at E (node_log s) (last_applied s) (state_machine s) j c = Inr out
            \<and> (r, ApplyReply (Inr out)) \<in> set (replies t)"
          if j: "last_applied s < j" "j \<le> commit_index s" "hm_get (pending_applies s) j = Some r"
            "entry_command (node_log s ! j) = Command c" for j r c
        proof (cases "j = ?i")
          case j1: True
          from Inr show ?thesis
            by (cases rule: apply_entry_cases) (use j j1 t(4) in \<open>auto simp: output_at_def\<close>)
        next
          case False
          then show ?thesis
            using t(5) [of j r c] j feed_step [of "j - 1"] u(5) by (simp add: output_at_def)
        qed
        then show ?thesis
          using sm run t(1-3) True u(4) t(4) by auto
      qed
    qed
  next
    case False
    then show ?thesis by (simp add: apply_committed.simps [of E s])
  qed
qed

text \<open>C34: \<open>apply_committed\<close> terminates; whenever the commit index lies within the log it
  feeds the state machine exactly the entries between \<open>last_applied\<close> and \<open>commit_index\<close> in
  log order, each once, and answers every client waiting on one of these indices with the output
  of the entry at that index; it panics only when the state machine panics on one of these entries.\<close>

theorem apply_committed_correct:
  assumes "commit_index s < length (node_log s)" "last_applied s \<le> commit_index s"
  shows "case feed E (log_between (node_log s) (last_applied s) (commit_index s)) (state_machine s) of
      Inl p \<Rightarrow> apply_committed E s = Inl (Panic p)
    | Inr sm \<Rightarrow> \<exists>t. apply_committed E s = Inr t \<and> last_applied t = commit_index s \<and> state_machine t = sm
        \<and> (\<forall>i r c. last_applied s < i \<longrightarrow> i \<le> commit_index s \<longrightarrow> hm_get (pending_applies s) i = Some r \<longrightarrow>
             entry_command (node_log s ! i) = Command c \<longrightarrow>
             (\<exists>out. output_at E (node_log s) (last_applied s) (state_machine s) i c = Inr out
               \<and> (r, ApplyReply (Inr out)) \<in> set (replies t)))"
  using apply_committed_feeds [of s E] assms by (auto simp: max_absorb2 split: sum.splits)

theorem apply_committed_correct_witness:
  "\<exists>s t. and_then test_leader (run_events test_env [CommandReceived (Apply (Inc 4) 0),
        CommandReceived (Apply (Inc 3) 1)]) = Inr s
    \<and> apply_committed test_env (s\<lparr>commit_index := 3\<rparr>) = Inr t
    \<and> last_applied t = 3 \<and> state_machine t = 7 \<and> (1, ApplyReply (Inr 7)) \<in> set (replies t)"
proof -
  have "ok_and (\<lambda>s. length (node_log s) = 4 \<and> last_applied s = 0 \<and> hm_get (pending_applies s) 3 = Some 1
        \<and> node_log s = [\<lparr>entry_term = 0, entry_command = NoOp\<rparr>, \<lparr>entry_term = 1, entry_command = NoOp\<rparr>,
            \<lparr>entry_term = 1, entry_command = Command (Inc 4)\<rparr>, \<lparr>entry_term = 1, entry_command = Command (Inc 3)\<rparr>]
        \<and> state_machine s = 0)
      (and_then test_leader (run_events test_env [CommandReceived (Apply (Inc 4) 0),
        CommandReceived (Apply (Inc 3) 1)]))"
    by code_simp
  then obtain s where s: "and_then test_leader (run_events test_env [CommandReceived (Apply (Inc 4) 0),
        CommandReceived (Apply (Inc 3) 1)]) = Inr s"
      "last_applied s = 0" "hm_get (pending_applies s) 3 = Some 1" "state_machine s = 0"
      "node_log s = [\<lparr>entry_term = 0, entry_command = NoOp\<rparr>, \<lparr>entry_term = 1, entry_command = NoOp\<rparr>,
            \<lparr>entry_term = 1, entry_command = Command (Inc 4)\<rparr>, \<lparr>entry_term = 1, entry_command = Command (Inc 3)\<rparr>]"
    by (auto simp: ok_and_iff)
  then show ?thesis
    using apply_committed_correct [of "s\<lparr>commit_index := 3\<rparr>" test_env]
    by (auto simp: test_env_def numeral_3_eq_3 output_at_def)
qed

end
