(* ===== verification/Raft_Apply.thy ===== *)
theory Raft_Apply
  imports Raft_Node_Props
begin

text \<open>
  The state machine of a node. Every event feeds it the entries between the old and the new \<open>last_applied\<close>, in order
  and once each (\<open>on_event_applies\<close>); nothing else changes it. The locale \<open>modelled_machine\<close> is the contract between
  a state machine and its specification: as long as the machine does not panic, it follows the specification and
  answers what the specification answers.
\<close>

section \<open>What an event applies\<close>

definition machine_part :: "('c, 'o, 's, 'st) raft_node \<Rightarrow> raft_config \<times> nat \<times> 's" where
  "machine_part s = (config s, last_applied s, state_machine s)"

definition applies :: "('c, 'o, 's, 'st, 'b) raft_env \<Rightarrow> ('c, 'o, 's, 'st) raft_node \<Rightarrow> ('c, 'o, 's, 'st) raft_node \<Rightarrow> bool" where
  "applies E s t \<longleftrightarrow> config t = config s \<and> last_applied s \<le> last_applied t
     \<and> feed E (log_between (node_log t) (last_applied s) (last_applied t)) (state_machine s) = Inr (state_machine t)"

lemma machine_part_upd [simp]:
  "machine_part (persist_state E s) = machine_part s" "machine_part (advance_commit s) = machine_part s"
  "machine_part (step_down T s) = machine_part s" "machine_part (leader_state s) = machine_part s"
  "machine_part (accept_entries msg s) = machine_part s" "machine_part (send_reply c v s) = machine_part s"
  "machine_part (insert_pending k c s) = machine_part s" "machine_part (send_message p m s) = machine_part s"
  "machine_part (s\<lparr>election_deadline := d\<rparr>) = machine_part s" "machine_part (s\<lparr>role := r\<rparr>) = machine_part s"
  "machine_part (s\<lparr>node_log := lg\<rparr>) = machine_part s" "machine_part (s\<lparr>voted_for := x\<rparr>) = machine_part s"
  "machine_part (s\<lparr>current_term := y\<rparr>) = machine_part s" "machine_part (s\<lparr>transport_work := w\<rparr>) = machine_part s"
  by (simp_all add: machine_part_def leader_state_def)

lemma applies_none: "machine_part t = machine_part s \<Longrightarrow> applies E s t"
  by (simp add: applies_def machine_part_def)

lemma apply_committed_in_range:
  "apply_committed E s = Inr t \<Longrightarrow> commit_index s < length (node_log s) \<or> commit_index s \<le> last_applied s"
proof (induction E s rule: apply_committed.induct)
  case (1 E s)
  show ?case
  proof (cases "last_applied s < commit_index s")
    case True
    let ?e = "node_log s ! (last_applied s + 1)"
    obtain u where i: "last_applied s + 1 < length (node_log s)"
      and u: "apply_entry E (last_applied s + 1) ?e (s\<lparr>last_applied := last_applied s + 1\<rparr>) = Inr u" "apply_committed E u = Inr t"
      using 1(2) True by (auto simp: apply_committed.simps [of E s] index_at_def result_simps split: if_splits)
    have "commit_index u < length (node_log u) \<or> commit_index u \<le> last_applied u"
      by (rule 1(1) [OF True _ u]) (use i in \<open>simp add: index_at_def\<close>)
    then show ?thesis by (cases rule: apply_entry_cases [OF u(1)]) (use i in auto)
  qed simp
qed

lemma apply_committed_applies:
  assumes "apply_committed E v = Inr u" "machine_part v = machine_part s" "machine_part t = machine_part u" "node_log t = node_log u"
  shows "applies E s t"
proof -
  have "last_applied u = max (last_applied v) (commit_index v)"
      "feed E (log_between (node_log v) (last_applied v) (commit_index v)) (state_machine v) = Inr (state_machine u)"
    using apply_committed_feeds [OF apply_committed_in_range [OF assms(1)], of E] assms(1) by (auto split: sum.splits)
  moreover have "node_log u = node_log v" "config u = config v"
    using apply_committed_frame [OF assms(1)] by auto
  moreover have "log_between (node_log v) (last_applied v) (max (last_applied v) (commit_index v))
      = log_between (node_log v) (last_applied v) (commit_index v)" by (simp add: max_def)
  ultimately show ?thesis using assms by (simp add: applies_def machine_part_def)
qed

lemma heartbeat_machine: "on_heartbeat u = Inr t \<Longrightarrow> machine_part t = machine_part u \<and> node_log t = node_log u"
  by (auto dest!: on_heartbeat_frame)

lemma become_leader_applies:
  assumes "become_leader E v = Inr t" "machine_part v = machine_part s"
  shows "applies E s t"
  using assms(1) by (rule become_leader_cases) (use assms(2) in \<open>auto dest!: heartbeat_machine intro: apply_committed_applies\<close>)

lemma follows_machine: "follows E req s u \<Longrightarrow> machine_part u = machine_part s"
  by (auto elim!: follows.cases)

lemma append_request_applies: "append_request E f req s = Inr t \<Longrightarrow> applies E s t"
proof (erule append_request_cases)
  fix u assume u: "follows E req s u" "append_request_log E f req u = Inr t"
  from u(2) show "applies E s t"
    by (rule append_request_log_cases)
      (use follows_machine [OF u(1)] in \<open>auto intro: applies_none apply_committed_applies\<close>)
qed (simp add: applies_none)

lemma broadcast_machine: "machine_part (broadcast_message m s) = machine_part s"
  using broadcast_message_frame [of m s] by auto

lemma become_candidate_applies: "become_candidate E s = Inr t \<Longrightarrow> applies E s t"
  by (erule become_candidate_cases) (auto intro: applies_none become_leader_applies simp: broadcast_machine)

lemma append_response_applies: "append_response E f rsp s = Inr t \<Longrightarrow> applies E s t"
  by (erule append_response_cases) (auto intro: applies_none apply_committed_applies)

lemma vote_request_applies: "vote_request E f q s = Inr t \<Longrightarrow> applies E s t"
  by (erule vote_request_cases) (auto intro!: applies_none elim!: vote_checked.cases)

lemma vote_response_applies: "vote_response E rsp s = Inr t \<Longrightarrow> applies E s t"
  by (erule vote_response_cases) (auto intro: applies_none become_leader_applies)

lemma client_command_applies: "client_command E c s = Inr t \<Longrightarrow> applies E s t"
  by (erule client_command_cases) (auto dest!: heartbeat_machine intro: applies_none apply_committed_applies)

lemma on_event_applies: "on_event E ev s = Inr t \<Longrightarrow> applies E s t"
  by (auto simp: on_event_def handle_message_def append_request_applies append_response_applies vote_request_applies
      vote_response_applies client_command_applies become_candidate_applies split: raft_event.splits raft_message.splits
      dest!: heartbeat_machine intro: applies_none)

section \<open>Feeding a machine\<close>

lemma feed_append: "feed E (es @ fs) sm = and_then (feed E es sm) (feed E fs)"
proof (induction es arbitrary: sm)
  case (Cons e es)
  then show ?case by (cases "entry_command e") (auto simp: and_then_def split: sum.split)
qed (simp add: and_then_def)

lemma log_between_drop: "log_between lg a b = drop (a + 1) (take (b + 1) lg)"
  by (simp add: drop_take)

lemma log_between_split:
  assumes "a \<le> b" "b \<le> c"
  shows "log_between lg a c = log_between lg a b @ log_between lg b c"
proof -
  have "c - a = (b - a) + (c - b)" "(b - a) + (a + 1) = b + 1" using assms by simp_all
  then show ?thesis by (simp only: take_add drop_drop)
qed

lemma log_between_agree:
  assumes "take (Suc b) lg = take (Suc b) lg'"
  shows "log_between lg a b = log_between lg' a b"
  using assms by (simp only: log_between_drop Suc_eq_plus1)

text \<open>The commands of a piece of the log, on the specification.\<close>

fun spec_log :: "('c \<Rightarrow> 'm \<Rightarrow> 'm \<times> 'o) \<Rightarrow> 'c log_entry list \<Rightarrow> 'm \<Rightarrow> 'm" where
  "spec_log spec [] m = m"
| "spec_log spec (e # es) m = spec_log spec es (case entry_command e of NoOp \<Rightarrow> m | Command c \<Rightarrow> fst (spec c m))"

locale modelled_machine =
  fixes step :: "'s \<Rightarrow> 'c \<Rightarrow> string + 's \<times> 'o" and spec :: "'c \<Rightarrow> 'm \<Rightarrow> 'm \<times> 'o"
    and models :: "'s \<Rightarrow> 'm \<Rightarrow> bool"
  assumes applied: "models s m \<Longrightarrow> step s c = Inr (s', out) \<Longrightarrow> models s' (fst (spec c m)) \<and> out = snd (spec c m)"
begin

lemma feed_models:
  assumes "sm_apply E = step" "models s m" "feed E es s = Inr s'"
  shows "models s' (spec_log spec es m)"
  using assms(2,3)
proof (induction es arbitrary: s m)
  case (Cons e es)
  show ?case
  proof (cases "entry_command e")
    case (Command c)
    then obtain s1 out where a: "step s c = Inr (s1, out)" "feed E es s1 = Inr s'"
      using Cons.prems(2) by (auto simp: assms(1) result_simps)
    with applied [OF Cons.prems(1) a(1)] Cons.IH [of s1 "fst (spec c m)"] Command show ?thesis by simp
  qed (use Cons in simp)
qed simp

end

text \<open>The counter of the tests is its own specification.\<close>

interpretation counter: modelled_machine "\<lambda>v c. Inr (test_apply v c)" "\<lambda>c n. test_apply n c" "(=)"
  by unfold_locales auto

end
