(* ===== verification/Example_App.thy ===== *)
theory Example_App
  imports Raft_Apply Database_Props
begin

text \<open>
  The example program (\<open>example/src/main.rs\<close>): a key-value database as the state machine of a Raft node, the
  network that connects the nodes in memory, and the client calls. The handle of a node (\<open>raft_handle.rs\<close>)
  stands for the sending ends of its two channels; handles are numbers, and the channels behind them are a map.

  \<open>RaftStateMachine::apply\<close> cannot report an error: the example unwraps every result, and a panic ends the task of
  the node. A lookup that does not return is given a message of its own in place of one of a panic: the node is stuck in it.
\<close>

section \<open>The state machine\<close>

datatype kv_command = Put bytes bytes | Read bytes

datatype example_error =
    KvError kv_error
  | RaftFailure raft_error
  | ExampleIo string
  | ElectionTimedOut
  | KeyNotFound

text \<open>\<open>Result::unwrap\<close>: an error becomes a panic.\<close>

definition unwrapped :: "kv_error fault \<Rightarrow> kv_error fault" where
  "unwrapped e = (case e of Fail _ \<Rightarrow> Panic ''called Result::unwrap() on an Err value'' | Panic p \<Rightarrow> Panic p)"

text \<open>When \<open>insert\<close> fails, the panic drops the transaction and poisons the writer lock; \<open>commit\<close> has consumed
  the transaction when its result is unwrapped. The read transaction is dropped in any case.\<close>

definition kv_put :: "nat \<Rightarrow> kv_crates \<Rightarrow> 'c moka \<Rightarrow> bytes \<Rightarrow> bytes \<Rightarrow> ('c database, bytes option) op" where
  "kv_put N X K key val s =
     (case begin_write s of
        Inl e \<Rightarrow> (Inl (unwrapped e), s)
      | Inr wt \<Rightarrow>
          (case transaction_insert N X K key val (s, wt) of
             (Inl e, s, _) \<Rightarrow> (Inl (unwrapped e), s\<lparr>db_writer_poisoned := True\<rparr>)
           | (Inr _, s, wt) \<Rightarrow>
               (case commit X K wt s of
                  (Inl e, s) \<Rightarrow> (Inl (unwrapped e), s)
                | (Inr _, s) \<Rightarrow> (Inr None, s))))"

definition kv_read ::
    "nat \<Rightarrow> kv_crates \<Rightarrow> 'c moka \<Rightarrow> bytes \<Rightarrow> 'c database \<Rightarrow> (bytes option kv_result \<times> 'c database) option" where
  "kv_read N X K key s =
     (case begin_read s of
        (Inl e, s) \<Rightarrow> Some (Inl (unwrapped e), s)
      | (Inr rt, s) \<Rightarrow>
          map_option (\<lambda>(r, s).
            case end_read rt s of
              (Inl e, s) \<Rightarrow> (Inl e, s)
            | (Inr _, s) \<Rightarrow> (case r of Inl e \<Rightarrow> Inl (unwrapped e) | Inr v \<Rightarrow> Inr v, s))
          (transaction_read N X K rt key s))"

definition kv_apply ::
    "nat \<Rightarrow> kv_crates \<Rightarrow> 'c moka \<Rightarrow> kv_command \<Rightarrow> 'c database \<Rightarrow> (bytes option kv_result \<times> 'c database) option" where
  "kv_apply N X K command s =
     (case command of Put key val \<Rightarrow> Some (kv_put N X K key val s) | Read key \<Rightarrow> kv_read N X K key s)"

type_synonym 'c kv_machine = "'c database"

definition panic_message :: "kv_error fault \<Rightarrow> string" where
  "panic_message e = (case e of Panic p \<Rightarrow> p | Fail _ \<Rightarrow> ''called Result::unwrap() on an Err value'')"

definition kv_sm_apply ::
    "nat \<Rightarrow> kv_crates \<Rightarrow> 'c moka \<Rightarrow> 'c kv_machine \<Rightarrow> kv_command \<Rightarrow> string + 'c kv_machine \<times> bytes option" where
  "kv_sm_apply N X K s command =
     (case kv_apply N X K command s of
        Some (Inr output, s) \<Rightarrow> Inr (s, output)
      | Some (Inl e, _) \<Rightarrow> Inl (panic_message e)
      | None \<Rightarrow> Inl ''does not return'')"

section \<open>The network in memory\<close>

type_synonym raft_handle = nat

record 'c raft_channels =
  ch_messages :: "'c raft_envelope list"
  ch_commands :: "'c client_command_msg list"
  ch_open :: bool

type_synonym 'c channel_map = "raft_handle \<Rightarrow> 'c raft_channels"

definition handle_send_message ::
    "raft_handle \<Rightarrow> 'c raft_envelope \<Rightarrow> 'c channel_map \<Rightarrow> (raft_error + unit) \<times> 'c channel_map" where
  "handle_send_message h message C =
     (if ch_open (C h) then (Inr (), C(h := (C h)\<lparr>ch_messages := ch_messages (C h) @ [message]\<rparr>))
      else (Inl CommandChannelClosed, C))"

text \<open>\<open>send_command\<close> up to the point where it waits, and what it returns once the reply channel is used or
  dropped; \<open>None\<close> while the caller waits.\<close>

definition handle_send_command ::
    "raft_handle \<Rightarrow> 'c client_command_msg \<Rightarrow> 'c channel_map \<Rightarrow> (raft_error + unit) \<times> 'c channel_map" where
  "handle_send_command h command C =
     (if ch_open (C h) then (Inr (), C(h := (C h)\<lparr>ch_commands := ch_commands (C h) @ [command]\<rparr>))
      else (Inl CommandChannelClosed, C))"

definition apply_response :: "nat \<Rightarrow> (nat \<times> ('c, 'o) client_reply) list \<Rightarrow> (raft_error + 'o) option" where
  "apply_response reply sent =
     map_option (\<lambda>v. case v of ApplyReply r \<Rightarrow> r | _ \<Rightarrow> Inl CommandResponseDropped) (map_of sent reply)"

text \<open>The calls of the handle; \<open>reply\<close> names the oneshot channel that the call creates.\<close>

definition handle_apply ::
    "raft_handle \<Rightarrow> 'c \<Rightarrow> nat \<Rightarrow> 'c channel_map \<Rightarrow> (raft_error + unit) \<times> 'c channel_map" where
  "handle_apply h command reply = handle_send_command h (Apply command reply)"

definition handle_is_leader :: "raft_handle \<Rightarrow> nat \<Rightarrow> 'c channel_map \<Rightarrow> (raft_error + unit) \<times> 'c channel_map" where
  "handle_is_leader h reply = handle_send_command h (IsLeader reply)"

definition handle_log :: "raft_handle \<Rightarrow> nat \<Rightarrow> 'c channel_map \<Rightarrow> (raft_error + unit) \<times> 'c channel_map" where
  "handle_log h reply = handle_send_command h (GetLog reply)"

definition handle_log_entry ::
    "raft_handle \<Rightarrow> nat \<Rightarrow> nat \<Rightarrow> 'c channel_map \<Rightarrow> (raft_error + unit) \<times> 'c channel_map" where
  "handle_log_entry h index reply = handle_send_command h (GetLogEntry index reply)"

definition handle_status :: "raft_handle \<Rightarrow> nat \<Rightarrow> 'c channel_map \<Rightarrow> (raft_error + unit) \<times> 'c channel_map" where
  "handle_status h reply = handle_send_command h (GetStatus reply)"

type_synonym memory_network = "(node_id, raft_handle) hash_map"

definition add_node :: "node_id \<Rightarrow> raft_handle \<Rightarrow> memory_network \<Rightarrow> memory_network" where
  "add_node i h nodes = hm_insert i h nodes"

definition remove_node :: "node_id \<Rightarrow> memory_network \<Rightarrow> memory_network" where
  "remove_node i nodes = hm_remove i nodes"

definition network_node :: "node_id \<Rightarrow> memory_network \<Rightarrow> raft_handle raft_result" where
  "network_node i nodes = (case hm_get nodes i of Some h \<Rightarrow> Inr h | None \<Rightarrow> Inl (Panic ''no entry found for key''))"

definition all_nodes :: "memory_network \<Rightarrow> (node_id \<times> raft_handle) list" where
  "all_nodes nodes = nodes"

definition network_send ::
    "memory_network \<Rightarrow> node_id \<Rightarrow> node_id \<Rightarrow> 'c raft_message \<Rightarrow> 'c channel_map \<Rightarrow> (raft_error + unit) \<times> 'c channel_map" where
  "network_send nodes source dest message C =
     (case hm_get nodes dest of
        None \<Rightarrow> (Inl (TransportError ''node is unavailable''), C)
      | Some h \<Rightarrow> handle_send_message h \<lparr>env_from = source, env_message = message\<rparr> C)"

text \<open>Aborting the task of a node drops the receiving ends of its channels.\<close>

definition kill_node ::
    "node_id \<Rightarrow> raft_handle \<Rightarrow> memory_network \<times> 'c channel_map \<Rightarrow> memory_network \<times> 'c channel_map" where
  "kill_node i task = (\<lambda>(nodes, C). (remove_node i nodes, C(task := (C task)\<lparr>ch_open := False\<rparr>)))"

section \<open>Client calls\<close>

text \<open>\<open>put\<close> and \<open>read\<close> up to the point where they wait for the leader, and what they make of its answer.\<close>

definition client_put ::
    "memory_network \<Rightarrow> node_id \<Rightarrow> bytes \<Rightarrow> bytes \<Rightarrow> nat \<Rightarrow> kv_command channel_map
     \<Rightarrow> ((raft_error + unit) \<times> kv_command channel_map) raft_result" where
  "client_put nodes leader key val reply C =
     and_then (network_node leader nodes) (\<lambda>h. Inr (handle_apply h (Put key val) reply C))"

definition client_read ::
    "memory_network \<Rightarrow> node_id \<Rightarrow> bytes \<Rightarrow> nat \<Rightarrow> kv_command channel_map
     \<Rightarrow> ((raft_error + unit) \<times> kv_command channel_map) raft_result" where
  "client_read nodes leader key reply C =
     and_then (network_node leader nodes) (\<lambda>h. Inr (handle_apply h (Read key) reply C))"

definition put_result :: "raft_error + bytes option \<Rightarrow> example_error + unit" where
  "put_result r = (case r of Inl e \<Rightarrow> Inl (RaftFailure e) | Inr _ \<Rightarrow> Inr ())"

definition read_result :: "raft_error + bytes option \<Rightarrow> example_error + bytes" where
  "read_result r =
     (case r of Inl e \<Rightarrow> Inl (RaftFailure e) | Inr None \<Rightarrow> Inl KeyNotFound | Inr (Some v) \<Rightarrow> Inr v)"

text \<open>One round of \<open>wait_for_leader\<close> over the answers of the nodes.\<close>

fun leader_round :: "(node_id \<times> (raft_error + raft_status)) list \<Rightarrow> node_id option" where
  "leader_round [] = None"
| "leader_round ((i, answer) # rest) =
     (case answer of
        Inl _ \<Rightarrow> leader_round rest
      | Inr st \<Rightarrow> (case st_role st of StatusLeader _ _ \<Rightarrow> Some i | _ \<Rightarrow> leader_round rest))"

section \<open>What a replica holds\<close>

text \<open>The specification of a command on maps, and of a piece of the log.\<close>

fun kv_spec :: "kv_command \<Rightarrow> kv_map \<Rightarrow> kv_map \<times> bytes option" where
  "kv_spec (Put key val) m = (m(key \<mapsto> val), None)"
| "kv_spec (Read key) m = (m, m key)"

abbreviation log_map :: "kv_command log_entry list \<Rightarrow> kv_map \<Rightarrow> kv_map" where
  "log_map \<equiv> spec_log kv_spec"

lemma fresh_simps [simp]:
  "w_db (fresh_world db) = db" "w_writer (fresh_world db) = None" "w_readers (fresh_world db) = []"
  "sp_committed (fresh_spec m) = m" "sp_working (fresh_spec m) = None" "sp_snapshots (fresh_spec m) = []"
  by (simp_all add: fresh_world_def fresh_spec_def)

lemma kv_put_sim:
  assumes "zerocopy_le X" "moka_cache K cv" "db_sim cv X n (fresh_world db) (fresh_spec m)" "kv_put N X K key val db = (Inr out, db')"
  shows "db_sim cv X n (fresh_world db') (fresh_spec (m(key \<mapsto> val))) \<and> out = None"
proof -
  obtain wt db1 wt1 where run: "begin_write db = Inr wt" "transaction_insert N X K key val (db, wt) = (Inr (), db1, wt1)"
      "commit X K wt1 db1 = (Inr (), db')" and out: "out = None"
    using assms(4) by (auto simp: kv_put_def split: sum.splits prod.splits)
  define w1 where "w1 = (fresh_world db)\<lparr>w_writer := Some wt\<rparr>"
  have w1: "w_writer w1 = Some wt" "w_db w1 = db" by (simp_all add: w1_def)
  have sim1: "db_sim cv X n w1 ((fresh_spec m)\<lparr>sp_working := Some m\<rparr>)"
    using begin_write_sim [OF assms(3)] run(1) by (simp add: w1_def)
  define w2 where "w2 = w1\<lparr>w_db := db1, w_writer := Some wt1\<rparr>"
  have w2: "w_writer w2 = Some wt1" "w_db w2 = db1" by (simp_all add: w2_def)
  have sim2: "db_sim cv X n w2 ((fresh_spec m)\<lparr>sp_working := Some (m(key \<mapsto> val))\<rparr>)"
    using insert_sim [OF assms(1,2) sim1 w1(1), unfolded w1(2), OF run(2)] by (auto simp: spec_step_simps panicked_def w2_def)
  have "db_sim cv X n (w2\<lparr>w_db := db', w_writer := None\<rparr>) (fresh_spec (m(key \<mapsto> val)))"
    using commit_sim [OF assms(1,2) sim2 w2(1), unfolded w2(2), OF run(3)] by (auto simp: spec_step_simps fresh_spec_def)
  moreover have "w2\<lparr>w_db := db', w_writer := None\<rparr> = fresh_world db'" by (simp add: w2_def w1_def fresh_world_def)
  ultimately show ?thesis using out by simp
qed

lemma kv_read_sim:
  assumes "zerocopy_le X" "moka_cache K cv" "db_sim cv X n (fresh_world db) (fresh_spec m)" "kv_read N X K key db = Some (Inr out, db')"
  shows "db_sim cv X n (fresh_world db') (fresh_spec m) \<and> out = m key"
proof -
  obtain rt db1 db2 where run: "begin_read db = (Inr rt, db1)" "transaction_read N X K rt key db1 = Some (Inr out, db2)"
      "end_read rt db2 = (Inr (), db')"
  proof -
    obtain rt db1 where b: "begin_read db = (Inr rt, db1)"
      using assms(4) by (auto simp: kv_read_def split: sum.splits prod.splits)
    obtain r db2 where t: "transaction_read N X K rt key db1 = Some (r, db2)" using assms(4) b by (auto simp: kv_read_def)
    obtain q db3 where e: "end_read rt db2 = (q, db3)" by fastforce
    have "q = Inr () \<and> r = Inr out \<and> db3 = db'"
      using assms(4) by (cases q; cases r) (simp_all add: kv_read_def b t e)
    with b t e that show thesis by simp
  qed
  define w1 where "w1 = (fresh_world db)\<lparr>w_db := db1, w_readers := [rt]\<rparr>"
  have w1: "w_db w1 = db1" "w_readers w1 = [rt]" by (simp_all add: w1_def)
  have "db_step N X K (fresh_world db) BeginRead w1"
    using db_step.begin_read [of "fresh_world db" rt db1] run(1) by (simp add: w1_def)
  from db_step_sim [OF assms(1-3) this] have sim1: "db_sim cv X n w1 ((fresh_spec m)\<lparr>sp_snapshots := [m]\<rparr>)"
    by (auto simp: spec_step_simps)
  define w2 where "w2 = w1\<lparr>w_db := db2\<rparr>"
  have w2: "w_db w2 = db2" "w_readers w2 = [rt]" by (simp_all add: w2_def w1_def)
  have sim2: "db_sim cv X n w2 ((fresh_spec m)\<lparr>sp_snapshots := [m]\<rparr>)" and out: "out = m key"
    using read_sim [OF assms(1,2) sim1, of 0 N key "Inr out" db2] run(2) w1 by (auto simp: w2_def)
  have "db_step N X K w2 (EndRead 0) (w2\<lparr>w_db := db', w_readers := remove_nth 0 (w_readers w2)\<rparr>)"
    using db_step.end_read [of 0 w2 db'] run(3) w2 by simp
  from db_step_sim [OF assms(1,2) sim2 this] have "db_sim cv X n (w2\<lparr>w_db := db', w_readers := []\<rparr>) (fresh_spec m)"
    using w2(2) by (auto simp: spec_step_simps remove_nth_def fresh_spec_def)
  moreover have "w2\<lparr>w_db := db', w_readers := []\<rparr> = fresh_world db'" by (simp add: w2_def w1_def fresh_world_def)
  ultimately show ?thesis using out by simp
qed

lemma kv_apply_sim:
  assumes "zerocopy_le X" "moka_cache K cv" "db_sim cv X n (fresh_world db) (fresh_spec m)"
    and "kv_sm_apply N X K db c = Inr (db', out)"
  shows "db_sim cv X n (fresh_world db') (fresh_spec (fst (kv_spec c m))) \<and> out = snd (kv_spec c m)"
proof (cases c)
  case (Put key val)
  have "kv_put N X K key val db = (Inr out, db')"
    using assms(4) Put by (auto simp: kv_sm_apply_def kv_apply_def split: sum.splits prod.splits)
  with kv_put_sim [OF assms(1-3)] Put show ?thesis by simp
next
  case (Read key)
  have "kv_read N X K key db = Some (Inr out, db')"
    using assms(4) Read by (auto simp: kv_sm_apply_def kv_apply_def split: option.splits sum.splits prod.splits)
  with kv_read_sim [OF assms(1-3)] Read show ?thesis by simp
qed

text \<open>The database is a machine in the sense of \<open>modelled_machine\<close>.\<close>

definition kv_models :: "('c \<Rightarrow> page_id \<rightharpoonup> bytes) \<Rightarrow> kv_crates \<Rightarrow> nat \<Rightarrow> 'c kv_machine \<Rightarrow> kv_map \<Rightarrow> bool" where
  "kv_models cv X n db m \<longleftrightarrow> db_sim cv X n (fresh_world db) (fresh_spec m)"

lemma kv_modelled:
  assumes "zerocopy_le X" "moka_cache K cv"
  shows "modelled_machine (kv_sm_apply N X K) kv_spec (kv_models cv X n)"
proof
  show "kv_models cv X n s' (fst (kv_spec c m)) \<and> out = snd (kv_spec c m)"
    if "kv_models cv X n s m" "kv_sm_apply N X K s c = Inr (s', out)" for s m c s' out
    using kv_apply_sim [OF assms _ that(2)] that(1) by (simp add: kv_models_def)
qed

lemma kv_feed_sim:
  assumes "zerocopy_le X" "moka_cache K cv" "sm_apply E = kv_sm_apply N X K"
    and "db_sim cv X n (fresh_world db) (fresh_spec m)" "feed E es db = Inr db'"
  shows "db_sim cv X n (fresh_world db') (fresh_spec (log_map es m))"
  using modelled_machine.feed_models [OF kv_modelled [OF assms(1,2), where n = n] assms(3), of db m es db'] assms(4,5)
  by (simp add: kv_models_def)

interpretation kv: modelled_machine "kv_sm_apply N le_crates fifo_cache" kv_spec "kv_models (\<lambda>c. map_of (snd c)) le_crates n" for N n
  by (rule kv_modelled [OF le.zerocopy_le_axioms fifo.moka_cache_axioms])

text \<open>C13: what a replica holds is determined by the log. When a node applies its committed entries, either the state machine panics
  on one of them (an error of the database that \<open>apply\<close> unwraps, or a lookup that does not return) and the node with it, or its database holds the map that the commands of these entries produce one after
  the other, and every client that waits on one of them is told what this map says. Two replicas that have applied the
  same entries therefore hold the same map, whatever the page sizes, the caches and the layouts of their files.\<close>

theorem replica_follows_log:
  assumes "zerocopy_le X" "moka_cache K cv" "sm_apply E = kv_sm_apply N X K"
    and "commit_index s < length (node_log s)" "last_applied s \<le> commit_index s"
    and "db_sim cv X n (fresh_world (state_machine s)) (fresh_spec m)"
  shows "(\<exists>p. feed E (log_between (node_log s) (last_applied s) (commit_index s)) (state_machine s) = Inl p
        \<and> apply_committed E s = Inl (Panic p))
    \<or> (\<exists>t. apply_committed E s = Inr t \<and> last_applied t = commit_index s
        \<and> db_sim cv X n (fresh_world (state_machine t))
            (fresh_spec (log_map (log_between (node_log s) (last_applied s) (commit_index s)) m))
        \<and> (\<forall>i r c. last_applied s < i \<longrightarrow> i \<le> commit_index s \<longrightarrow> hm_get (pending_applies s) i = Some r \<longrightarrow>
             entry_command (node_log s ! i) = Command c \<longrightarrow>
             (r, ApplyReply (Inr (snd (kv_spec c (log_map (log_between (node_log s) (last_applied s) (i - 1)) m))))) \<in> set (replies t)))"
proof -
  have sim: "db_sim cv X n (fresh_world db) (fresh_spec (log_map es m))" if "feed E es (state_machine s) = Inr db" for es db
    by (rule kv_feed_sim [OF assms(1-3,6) that])
  note run = apply_committed_feeds [of s E, OF disjI1 [OF assms(4)]]
  have out: "out = snd (kv_spec c (log_map (log_between (node_log s) (last_applied s) (i - 1)) m))"
    if "output_at E (node_log s) (last_applied s) (state_machine s) i c = Inr out" for i c out
  proof -
    obtain db1 db2 where db1: "feed E (log_between (node_log s) (last_applied s) (i - 1)) (state_machine s) = Inr db1"
      and "kv_sm_apply N X K db1 c = Inr (db2, out)"
    proof -
      obtain db1 where db1: "feed E (log_between (node_log s) (last_applied s) (i - 1)) (state_machine s) = Inr db1"
        and o: "map_sum id snd (kv_sm_apply N X K db1 c) = Inr out"
        using \<open>output_at E (node_log s) (last_applied s) (state_machine s) i c = Inr out\<close>
        by (auto simp: output_at_def result_simps assms(3))
      obtain q where "kv_sm_apply N X K db1 c = Inr q" "snd q = out" using o by (cases "kv_sm_apply N X K db1 c") auto
      with db1 that show thesis by (cases q) simp
    qed
    with kv_apply_sim [OF assms(1,2) sim [OF db1]] show ?thesis by blast
  qed
  show ?thesis
  proof (cases "feed E (log_between (node_log s) (last_applied s) (commit_index s)) (state_machine s)")
    case (Inl p)
    with run show ?thesis by simp
  next
    case (Inr db)
    with run obtain t where t: "apply_committed E s = Inr t" "last_applied t = max (last_applied s) (commit_index s)"
        "state_machine t = db"
      and replies: "\<And>i r c. last_applied s < i \<Longrightarrow> i \<le> commit_index s \<Longrightarrow> hm_get (pending_applies s) i = Some r \<Longrightarrow>
        entry_command (node_log s ! i) = Command c \<Longrightarrow>
        \<exists>out. output_at E (node_log s) (last_applied s) (state_machine s) i c = Inr out \<and> (r, ApplyReply (Inr out)) \<in> set (replies t)"
      by auto
    have "(r, ApplyReply (Inr (snd (kv_spec c (log_map (log_between (node_log s) (last_applied s) (i - 1)) m))))) \<in> set (replies t)"
      if "last_applied s < i" "i \<le> commit_index s" "hm_get (pending_applies s) i = Some r" "entry_command (node_log s ! i) = Command c"
      for i r c
      using replies [OF that] out by blast
    moreover have "last_applied t = commit_index s" using t(2) assms(5) by simp
    ultimately show ?thesis using t(1,3) sim [OF Inr] by blast
  qed
qed

inductive_simps db_run_simps: "db_run N X K w [] w'" "db_run N X K w (e # es) w'"

inductive_simps db_step_simps:
  "db_step N X K w BeginWrite w'" "db_step N X K w (InsertPair key val r) w'" "db_step N X K w (CommitTx r) w'" "db_step N X K w BeginRead w'"

lemma sample_kv_put:
  "\<exists>db db'. open_new le_crates fifo_cache [] 4096 capacity = Inr db \<and> kv_put 1 le_crates fifo_cache [7] [9] db = (Inr None, db')"
proof -
  have "4096 \<le> unat (4096 :: u64)" "unat (4096 :: u64) < 2 ^ 50" "24 + pair_space [([7], [9])] \<le> unat (4096 :: u64)"
    by (simp_all add: leaf_meta_size_def)
  from first_put_run [OF le.zerocopy_le_axioms fifo.moka_cache_axioms this, of capacity]
  obtain db w where "open_new le_crates fifo_cache [] 4096 capacity = Inr db"
      "db_run (Suc 0) le_crates fifo_cache (fresh_world db) [BeginWrite, InsertPair [7] [9] (Inr ()), CommitTx (Inr ()), BeginRead] w"
    by blast
  then show ?thesis by (auto simp: db_run_simps db_step_simps kv_put_def panicked_def)
qed

definition kv_test_env ::
    "(kv_command, bytes option, (nat \<times> (page_id \<times> bytes) list) kv_machine, kv_command persistent_state memory_storage,
      kv_command persistent_state) raft_env" where
  "kv_test_env = \<lparr>sm_apply = kv_sm_apply 1 le_crates fifo_cache, to_stdvec = Inr, from_bytes = Inr,
     save_state = memory_save_state, load_state = memory_restore_state, now_ms = 0, random_range = (\<lambda>a b. a)\<rparr>"

definition kv_test_node ::
    "(nat \<times> (page_id \<times> bytes) list) kv_machine
     \<Rightarrow> (kv_command, bytes option, (nat \<times> (page_id \<times> bytes) list) kv_machine, kv_command persistent_state memory_storage) raft_node" where
  "kv_test_node machine =
     \<lparr>current_term = 1, voted_for = None,
      node_log = [\<lparr>entry_term = 0, entry_command = NoOp\<rparr>, \<lparr>entry_term = 1, entry_command = Command (Put [7] [9])\<rparr>],
      node_id = 1, peer_ids = [2, 3], role = Follower None, commit_index = 1, last_applied = 0, config = default_config,
      state_machine = machine, storage = memory_default, election_deadline = 0, pending_applies = [(1, 5)], transport_work = [],
      replies = []\<rparr>"

theorem replica_follows_log_witness:
  "\<exists>db t. open_new le_crates fifo_cache [] 4096 8 = Inr db \<and> apply_committed kv_test_env (kv_test_node db) = Inr t
    \<and> db_sim (\<lambda>c. map_of (snd c)) le_crates 4096 (fresh_world (state_machine t)) (fresh_spec [[7] \<mapsto> [9]])
    \<and> (5, ApplyReply (Inr None)) \<in> set (replies t)"
proof -
  obtain db db1 where db: "open_new le_crates fifo_cache [] 4096 8 = Inr db" "kv_put 1 le_crates fifo_cache [7] [9] db = (Inr None, db1)"
    using sample_kv_put by blast
  define s where "s = kv_test_node db"
  have s: "commit_index s < length (node_log s)" "last_applied s \<le> commit_index s" "state_machine s = db"
      "log_between (node_log s) (last_applied s) (commit_index s) = [\<lparr>entry_term = 1, entry_command = Command (Put [7] [9])\<rparr>]"
      "last_applied s < 1" "1 \<le> commit_index s" "hm_get (pending_applies s) 1 = Some 5" "entry_command (node_log s ! 1) = Command (Put [7] [9])"
      "log_between (node_log s) (last_applied s) (1 - 1) = []"
    by (simp_all add: s_def kv_test_node_def hm_get_def)
  have e: "sm_apply kv_test_env = kv_sm_apply 1 le_crates fifo_cache" by (simp add: kv_test_env_def)
  have sim: "db_sim (\<lambda>c. map_of (snd c)) le_crates 4096 (fresh_world (state_machine s)) (fresh_spec Map.empty)"
    using open_new_sim(1) [OF le.zerocopy_le_axioms fifo.moka_cache_axioms db(1)] by (simp add: s(3))
  have "feed kv_test_env (log_between (node_log s) (last_applied s) (commit_index s)) (state_machine s) = Inr db1"
    unfolding s(3,4) using db(2) by (simp add: e kv_sm_apply_def kv_apply_def)
  with replica_follows_log [OF le.zerocopy_le_axioms fifo.moka_cache_axioms e s(1,2) sim]
  obtain t where t: "apply_committed kv_test_env s = Inr t"
      "db_sim (\<lambda>c. map_of (snd c)) le_crates 4096 (fresh_world (state_machine t))
        (fresh_spec (log_map (log_between (node_log s) (last_applied s) (commit_index s)) Map.empty))"
    and r: "\<forall>i r c. last_applied s < i \<longrightarrow> i \<le> commit_index s \<longrightarrow> hm_get (pending_applies s) i = Some r \<longrightarrow>
         entry_command (node_log s ! i) = Command c \<longrightarrow>
         (r, ApplyReply (Inr (snd (kv_spec c (log_map (log_between (node_log s) (last_applied s) (i - 1)) Map.empty))))) \<in> set (replies t)"
    by auto
  have "db_sim (\<lambda>c. map_of (snd c)) le_crates 4096 (fresh_world (state_machine t)) (fresh_spec [[7] \<mapsto> [9]])"
    using t(2) unfolding s(4) by simp
  moreover have "(5, ApplyReply (Inr None)) \<in> set (replies t)"
    using r [rule_format, OF s(5-8)] by simp
  ultimately show ?thesis using db(1) t(1) unfolding s_def by blast
qed

end
