(* ===== verification/Raft_Node_Safety.thy ===== *)
theory Raft_Node_Safety
  imports Raft_Node_Props
begin

text \<open>
  When a node survives an event: what its state machine must not panic on, an invariant of the node's volatile state, the conditions on an
  event that the rest of the cluster guarantees (\<open>Raft_Progress\<close>), and the lemma that under these no handler
  panics and the invariant is kept. Then the voting rule and the client commands, branch by branch,
  and two things that go wrong: the reply that a deposed leader sends for a command it lost, and
  the leader that a repeated vote elects.
\<close>

section \<open>The node invariant\<close>

definition next_ok :: "role \<Rightarrow> node_id list \<Rightarrow> nat \<Rightarrow> bool" where
  "next_ok r peers len =
     (case r of
        Leader ni mi \<Rightarrow>
          list_all (\<lambda>p. case hm_get ni p of Some n \<Rightarrow> 1 \<le> n \<and> n \<le> len | None \<Rightarrow> False) peers
      | _ \<Rightarrow> True)"

lemma next_ok_simps [simp]:
  "next_ok (Follower l) peers len" "next_ok (Candidate v) peers len"
  "next_ok (Leader ni mi) peers len \<longleftrightarrow>
     (\<forall>p \<in> set peers. \<exists>n. hm_get ni p = Some n \<and> 1 \<le> n \<and> n \<le> len)"
  by (auto simp: next_ok_def list_all_iff split: option.splits)

definition node_inv :: "('c, 'o, 's, 'st) raft_node \<Rightarrow> bool" where
  "node_inv s \<longleftrightarrow>
     node_log s \<noteq> [] \<and> commit_index s < length (node_log s) \<and> last_applied s \<le> commit_index s
     \<and> election_timeout_min_ms (config s) < election_timeout_max_ms (config s)
     \<and> next_ok (role s) (peer_ids s) (length (node_log s))"

text \<open>What an event must satisfy. The conditions on messages hold in a cluster in which every node
  runs this code: a term has one leader, acknowledged indices exist in the leader's log, and
  committed entries are never in conflict with a leader's entries.\<close>

definition message_ok :: "'c raft_message \<Rightarrow> ('c, 'o, 's, 'st) raft_node \<Rightarrow> bool" where
  "message_ok m s =
     (case m of
        AppendRequest r \<Rightarrow>
          (areq_term r = current_term s \<longrightarrow> \<not> is_leader (role s))
          \<and> (areq_term r \<ge> current_term s \<longrightarrow> areq_prev_log_index r < length (node_log s) \<longrightarrow>
               entry_term (node_log s ! areq_prev_log_index r) = areq_prev_log_term r \<longrightarrow>
               commit_index s < length (append_entries (areq_prev_log_index r + 1) (areq_entries r) (node_log s)))
      | AppendResponse r \<Rightarrow>
          aresp_term r = current_term s \<longrightarrow> is_leader (role s) \<longrightarrow> aresp_match_index r < length (node_log s)
      | _ \<Rightarrow> True)"

definition event_ok :: "'c raft_event \<Rightarrow> ('c, 'o, 's, 'st) raft_node \<Rightarrow> bool" where
  "event_ok ev s =
     (case ev of
        ElectionTimeout \<Rightarrow> current_term s \<noteq> - 1
      | MessageReceived e \<Rightarrow> message_ok (env_message e) s
      | _ \<Rightarrow> True)"

lemma node_inv_new:
  assumes "new_node E i peers sm st cfg = Inr s"
    and "election_timeout_min_ms cfg < election_timeout_max_ms cfg" "node_log s \<noteq> []"
  shows "node_inv s"
  using assms
  by (auto simp: new_node_def restore_state_def init_transport_workers_def node_inv_def
      Let_def split: sum.splits option.splits)

section \<open>Panics of the state machine\<close>

text \<open>The one panic that this code cannot exclude: the user's state machine panics on the entries that it is fed, those
  of the log \<open>lg\<close> from behind \<open>last_applied\<close> on, one after the other.\<close>

definition machine_panic ::
    "('c, 'o, 's, 'st, 'b) raft_env \<Rightarrow> 'c log_entry list \<Rightarrow> ('c, 'o, 's, 'st) raft_node \<Rightarrow> raft_error fault \<Rightarrow> bool" where
  "machine_panic E lg s f \<longleftrightarrow>
     (\<exists>n < length lg. \<exists>p. feed E (log_between lg (last_applied s) n) (state_machine s) = Inl p \<and> f = Panic p)"

definition survives ::
    "('c, 'o, 's, 'st, 'b) raft_env \<Rightarrow> 'c log_entry list \<Rightarrow> ('c, 'o, 's, 'st) raft_node
     \<Rightarrow> ('c, 'o, 's, 'st) raft_node raft_result \<Rightarrow> bool" where
  "survives E lg s res \<longleftrightarrow> (case res of Inr t \<Rightarrow> node_inv t | Inl f \<Rightarrow> machine_panic E lg s f)"

lemma survives_Inr [simp]: "survives E cs s (Inr t) = node_inv t"
  by (simp add: survives_def)

lemma survives_ok: "\<exists>t. res = Inr t \<and> node_inv t \<Longrightarrow> survives E cs s res"
  by (auto simp: survives_def)

lemma survives_le:
  "survives E lg u res \<Longrightarrow> lg = lg' \<Longrightarrow> state_machine u = state_machine s \<Longrightarrow> last_applied u = last_applied s \<Longrightarrow> survives E lg' s res"
  by (simp add: survives_def machine_panic_def split: sum.splits)

lemma survives_then:
  assumes "survives E cs s res" "\<And>t. res = Inr t \<Longrightarrow> node_inv t \<Longrightarrow> survives E cs s (k t)"
  shows "survives E cs s (and_then res k)"
  using assms by (cases res) (auto simp: survives_def)

text \<open>The log from which the handler of an event applies entries: a leader, also one that has just been elected,
  has appended an entry, a follower has taken over those of the request.\<close>

definition event_log :: "'c raft_event \<Rightarrow> ('c, 'o, 's, 'st) raft_node \<Rightarrow> 'c log_entry list" where
  "event_log ev s =
     (case ev of
        MessageReceived e \<Rightarrow>
          (case env_message e of
             AppendRequest r \<Rightarrow> append_entries (areq_prev_log_index r + 1) (areq_entries r) (node_log s)
           | VoteResponse _ \<Rightarrow> node_log s @ [\<lparr>entry_term = current_term s, entry_command = NoOp\<rparr>]
           | _ \<Rightarrow> node_log s)
      | CommandReceived cmd \<Rightarrow>
          (case cmd of
             Apply c _ \<Rightarrow> node_log s @ [\<lparr>entry_term = current_term s, entry_command = Command c\<rparr>]
           | _ \<Rightarrow> node_log s)
      | ElectionTimeout \<Rightarrow> node_log s @ [\<lparr>entry_term = current_term s + 1, entry_command = NoOp\<rparr>]
      | HeartbeatTick \<Rightarrow> node_log s)"

section \<open>Helpers that cannot panic\<close>

lemma reset_election_timer_ok:
  "node_inv s \<Longrightarrow> \<exists>d. reset_election_timer E s = Inr (s\<lparr>election_deadline := d\<rparr>)"
  by (simp add: reset_election_timer_def random_election_timeout_def node_inv_def) (rule exI, rule refl)

lemma node_inv_step_down: "node_inv s \<Longrightarrow> node_inv (step_down trm s)"
  by (simp add: node_inv_def)

lemma node_inv_persist [simp]: "node_inv (persist_state E s) = node_inv s"
  by (simp add: node_inv_def)

lemma node_inv_send [simp]: "node_inv (send_message p m s) = node_inv s"
  by (simp add: node_inv_def)

lemma node_inv_reply [simp]: "node_inv (send_reply p m s) = node_inv s"
  by (simp add: node_inv_def)

lemma node_inv_upd [simp]:
  "node_inv (s\<lparr>election_deadline := d\<rparr>) = node_inv s" "node_inv (s\<lparr>transport_work := w\<rparr>) = node_inv s"
  "node_inv (s\<lparr>voted_for := v\<rparr>) = node_inv s"
  by (simp_all add: node_inv_def)

lemma become_follower_ok:
  assumes "node_inv s"
  shows "\<exists>t. become_follower E trm s = Inr t \<and> node_inv t"
proof -
  have "node_inv (persist_state E (step_down trm s))"
    using assms by (simp add: node_inv_step_down)
  from reset_election_timer_ok [OF this, of E] this show ?thesis
    by (auto simp: become_follower_def step_down_def Let_def)
qed

lemma apply_committed_ok:
  assumes "node_inv s"
  shows "survives E (node_log s) s (apply_committed E s)"
proof (cases "feed E (log_between (node_log s) (last_applied s) (commit_index s)) (state_machine s)")
  case (Inl p)
  moreover have "commit_index s < length (node_log s)" using assms by (simp add: node_inv_def)
  ultimately have "apply_committed E s = Inl (Panic p)" "machine_panic E (node_log s) s (Panic p)"
    using apply_committed_feeds [of s E] by (auto simp: machine_panic_def)
  then show ?thesis by (simp add: survives_def)
next
  case (Inr sm)
  then obtain t where t: "apply_committed E s = Inr t" "last_applied t = max (last_applied s) (commit_index s)"
    using apply_committed_feeds [of s E] assms by (auto simp: node_inv_def)
  then have "node_inv t"
    using assms by (auto simp: node_inv_def dest!: apply_committed_frame split: role.splits)
  with t show ?thesis by simp
qed

lemma node_inv_advance: "node_inv s \<Longrightarrow> node_inv (advance_commit s)"
  using advance_commit_mono [of s] advance_commit_bound [of s]
  by (auto simp: node_inv_def)

lemma advance_apply_ok:
  "node_inv s \<Longrightarrow> survives E (node_log s) s (apply_committed E (advance_commit s))"
  using apply_committed_ok [OF node_inv_advance, of s E] by (rule survives_le) simp_all

lemma heartbeat_loop_ok:
  assumes "next_ok (role s) (peer_ids s) (length (node_log s))" "is_leader (role s)" "set ps \<subseteq> set (peer_ids s)" "node_log s \<noteq> []"
  shows "\<exists>w. heartbeat_loop ps s = Inr (s\<lparr>transport_work := w\<rparr>)"
  using assms
proof (induction ps arbitrary: s)
  case Nil
  show ?case by (auto intro: exI [of _ "transport_work s"])
next
  case (Cons p ps)
  obtain ni mi n where r: "role s = Leader ni mi" "hm_get ni p = Some n" "1 \<le> n" "n \<le> length (node_log s)"
    using Cons.prems by (cases "role s") auto
  have "n - 1 < length (node_log s)" using r(3,4) by simp
  then obtain m where m: "heartbeat_to p s = Inr (send_message p m s)"
    using r by (auto simp: heartbeat_to_def index_at_def)
  obtain w where w: "send_message p m s = s\<lparr>transport_work := w\<rparr>"
    using send_message_frame by blast
  have "\<exists>w'. heartbeat_loop ps (s\<lparr>transport_work := w\<rparr>) = Inr (s\<lparr>transport_work := w\<rparr>\<lparr>transport_work := w'\<rparr>)"
    using Cons.prems by (intro Cons.IH) (auto simp:)
  with m w show ?case by simp
qed

lemma on_heartbeat_ok:
  assumes "node_inv s" "is_leader (role s)"
  shows "\<exists>t. on_heartbeat s = Inr t \<and> node_inv t"
  using heartbeat_loop_ok [of s "peer_ids s"] assms by (auto simp: on_heartbeat_def node_inv_def)

lemma commit_and_replicate_ok:
  assumes "node_inv s" "is_leader (role s)"
  shows "survives E (node_log s) s (and_then (apply_committed E (advance_commit s)) on_heartbeat)"
proof (rule survives_then [OF advance_apply_ok [OF assms(1)]])
  fix u assume u: "apply_committed E (advance_commit s) = Inr u" "node_inv u"
  have "is_leader (role u)"
    using u(1) assms(2) by (auto dest!: advance_apply_log)
  with on_heartbeat_ok [OF u(2)] show "survives E (node_log s) s (on_heartbeat u)"
    by (intro survives_ok) simp
qed

section \<open>No handler panics\<close>

lemma become_leader_ok:
  assumes "node_inv s"
  shows "survives E (node_log s @ [\<lparr>entry_term = current_term s, entry_command = NoOp\<rparr>]) s (become_leader E s)"
proof -
  let ?u = "persist_state E (leader_state s)"
  have "node_inv ?u" "is_leader (role ?u)"
    using assms by (auto simp: node_inv_def leader_state_def)
  from commit_and_replicate_ok [OF this, of E]
  have "survives E (node_log s @ [\<lparr>entry_term = current_term s, entry_command = NoOp\<rparr>]) s (and_then (apply_committed E (advance_commit ?u)) on_heartbeat)"
    by (rule survives_le) (simp_all add: leader_state_def)
  then show ?thesis by (simp add: become_leader_def leader_state_def Let_def)
qed

lemma become_candidate_ok:
  assumes "node_inv s" "current_term s \<noteq> - 1"
  shows "survives E (event_log ElectionTimeout s) s (become_candidate E s)"
proof -
  let ?s = "s\<lparr>current_term := current_term s + 1, voted_for := Some (node_id s), role := Candidate 1\<rparr>"
  have inv: "node_inv ?s"
    using assms(1) by (auto simp: node_inv_def)
  obtain d where d: "reset_election_timer E ?s = Inr (?s\<lparr>election_deadline := d\<rparr>)"
    using reset_election_timer_ok [OF inv] by blast
  have inv': "node_inv (?s\<lparr>election_deadline := d\<rparr>)" "node_log s \<noteq> []"
    using inv by (simp_all add: node_inv_def)
  have "node_inv (broadcast_message m (persist_state E (?s\<lparr>election_deadline := d\<rparr>)))" for m
    using inv'(1) broadcast_message_frame [of m "persist_state E (?s\<lparr>election_deadline := d\<rparr>)"] by auto
  moreover have "survives E (event_log ElectionTimeout s) s (become_leader E (?s\<lparr>election_deadline := d\<rparr>))"
    using become_leader_ok [OF inv'(1), of E] by (rule survives_le) (simp_all add: event_log_def)
  ultimately show ?thesis
    using assms(2) d inv'(2) by (auto simp: become_candidate_def Let_def)
qed

lemma append_response_ok:
  assumes "node_inv s" "message_ok (AppendResponse msg) s"
  shows "survives E (node_log s) s (append_response E from_id msg s)"
proof (cases "aresp_term msg = current_term s \<and> is_leader (role s)")
  case True
  then obtain ni mi where r: "role s = Leader ni mi" by (cases "role s") auto
  have i: "aresp_match_index msg < length (node_log s)"
    using assms(2) True by (simp add: message_ok_def)
  have upd: "survives E (node_log s) s (apply_committed E (advance_commit (s\<lparr>role := Leader (hm_insert from_id n ni) mi'\<rparr>)))"
    if "1 \<le> n" "n \<le> length (node_log s)" for n mi'
  proof -
    have "node_inv (s\<lparr>role := Leader (hm_insert from_id n ni) mi'\<rparr>)" using assms(1) that by (auto simp: node_inv_def r)
    from advance_apply_ok [OF this] show ?thesis by (rule survives_le) simp_all
  qed
  have "1 \<le> max (aresp_match_index msg - 1) 1" "max (aresp_match_index msg - 1) 1 \<le> length (node_log s)"
    using i by auto
  then show ?thesis
    using True r i upd [of "aresp_match_index msg + 1" "hm_insert from_id (aresp_match_index msg) mi"]
      upd [of "max (aresp_match_index msg - 1) 1" mi]
    by (simp add: append_response_def Let_def Suc_le_eq)
next
  case False
  have "survives E (node_log s) s (become_follower E (aresp_term msg) s)"
    using become_follower_ok [OF assms(1)] by (rule survives_ok)
  then show ?thesis
    using assms(1) False by (cases "role s") (auto simp: append_response_def)
qed

lemma append_request_log_ok:
  assumes "node_inv s"
    and "areq_prev_log_index msg < length (node_log s) \<Longrightarrow>
      entry_term (node_log s ! areq_prev_log_index msg) = areq_prev_log_term msg \<Longrightarrow> commit_index s <
      length (append_entries (areq_prev_log_index msg + 1) (areq_entries msg) (node_log s))"
    and "is_follower (role s)"
  shows "survives E (append_entries (areq_prev_log_index msg + 1) (areq_entries msg) (node_log s)) s (append_request_log E from_id msg s)"
proof (cases "areq_prev_log_index msg < length (node_log s)
    \<and> entry_term (node_log s ! areq_prev_log_index msg) = areq_prev_log_term msg")
  case True
  define lg where "lg = append_entries (areq_prev_log_index msg + 1) (areq_entries msg) (node_log s)"
  have lg: "commit_index s < length lg" "lg \<noteq> []"
    using assms(2) True unfolding lg_def by auto
  let ?u = "persist_state E (accept_entries msg s)" 
  have "node_inv ?u"
    using assms(1,3) lg
    by (cases "role s") (auto simp: accept_entries_def node_inv_def Let_def lg_def min_def)
  from apply_committed_ok [OF this, of E] have "survives E lg s (apply_committed E ?u)"
    by (rule survives_le) (simp_all add: lg_def)
  then have "survives E lg s (and_then (apply_committed E ?u) (\<lambda>u. Inr (send_message from_id
      (AppendResponse \<lparr>aresp_term = current_term u, aresp_match_index = areq_prev_log_index msg + length (areq_entries msg),
        aresp_success = True\<rparr>) u)))"
    by (rule survives_then) simp
  with True show ?thesis
    by (simp add: append_request_log_def accept_entries_def lg_def Let_def cong: if_cong)
next
  case False
  then show ?thesis
    using assms(1) by (auto simp: append_request_log_def Let_def node_inv_def)
qed

lemma append_request_ok:
  assumes "node_inv s" "message_ok (AppendRequest msg) s"
  shows "survives E (append_entries (areq_prev_log_index msg + 1) (areq_entries msg) (node_log s)) s (append_request E from_id msg s)"
proof (cases "areq_term msg < current_term s")
  case True
  then show ?thesis using assms(1) by (simp add: append_request_def)
next
  case False
  let ?ok = "survives E (append_entries (areq_prev_log_index msg + 1) (areq_entries msg) (node_log s)) s"
  have len: "areq_prev_log_index msg < length (node_log s) \<Longrightarrow>
      entry_term (node_log s ! areq_prev_log_index msg) = areq_prev_log_term msg \<Longrightarrow> commit_index s <
      length (append_entries (areq_prev_log_index msg + 1) (areq_entries msg) (node_log s))"
    using assms(2) False by (simp add: message_ok_def)
  have tail: "?ok (and_then (reset_election_timer E u) (append_request_log E from_id msg))"
    if u: "node_inv u" "node_log u = node_log s" "commit_index u = commit_index s" "is_follower (role u)"
      "state_machine u = state_machine s" "last_applied u = last_applied s" for u
  proof -
    obtain d where d: "reset_election_timer E u = Inr (u\<lparr>election_deadline := d\<rparr>)"
      using reset_election_timer_ok [OF u(1)] by blast
    have "survives E (append_entries (areq_prev_log_index msg + 1) (areq_entries msg) (node_log u)) (u\<lparr>election_deadline := d\<rparr>)
        (append_request_log E from_id msg (u\<lparr>election_deadline := d\<rparr>))"
      using append_request_log_ok [of "u\<lparr>election_deadline := d\<rparr>" msg E from_id] u len by simp
    then have "?ok (append_request_log E from_id msg (u\<lparr>election_deadline := d\<rparr>))"
      by (rule survives_le) (simp_all add: u)
    then show ?thesis by (simp add: d)
  qed
  have down: "node_inv (u\<lparr>role := Follower l\<rparr>)" if "node_inv u" for u l
    using that by (simp add: node_inv_def)
  obtain f where f: "become_follower E (areq_term msg) s = Inr f" "node_inv f"
    using become_follower_ok [OF assms(1)] by blast
  from f(1) obtain d where fd: "f = (persist_state E (step_down (areq_term msg) s))\<lparr>election_deadline := d\<rparr>"
    by (rule become_follower_cases)
  have f_tail: "?ok (and_then (reset_election_timer E (f\<lparr>role := Follower (Some (areq_leader_id msg))\<rparr>))
      (append_request_log E from_id msg))"
    by (rule tail) (simp_all add: down f(2), simp_all add: fd)
  show ?thesis
  proof (cases "areq_term msg > current_term s \<or> is_candidate (role s)")
    case True
    moreover from this False have "is_leader (role s) \<Longrightarrow> areq_term msg > current_term s"
      by (cases "role s") auto
    ultimately show ?thesis
      using False f_tail f(1) by (auto simp: append_request_def fd Let_def not_less max_def split: if_splits)
  next
    case same: False
    with False have eq: "areq_term msg = current_term s" by simp
    with assms(2) same obtain l where l: "role s = Follower l"
      by (cases "role s") (auto simp: message_ok_def)
    show ?thesis
      using eq l tail [of "s\<lparr>role := Follower (Some (areq_leader_id msg))\<rparr>"] tail [of s] assms(1) down
      by (cases l) (auto simp: append_request_def Let_def)
  qed
qed

lemma vote_request_ok:
  assumes "node_inv s"
  shows "\<exists>t. vote_request E from_id msg s = Inr t \<and> node_inv t"
proof -
  have tail: "\<exists>t. and_then (reset_election_timer E (u\<lparr>voted_for := v\<rparr>)) (\<lambda>w. Inr (send_message from_id
      (VoteResponse \<lparr>vresp_term = current_term w, vresp_vote_granted = True\<rparr>) (persist_state E w)))
      = Inr t \<and> node_inv t" if "node_inv u" for u v
    using reset_election_timer_ok [of "u\<lparr>voted_for := v\<rparr>" E] that by auto
  have ne: "node_log u \<noteq> []" if "node_inv u" for u :: "('a, 'b, 'c, 'd) raft_node"
    using that by (simp add: node_inv_def)
  obtain f where "become_follower E (vreq_term msg) s = Inr f" "node_inv f"
    using become_follower_ok [OF assms] by blast
  then show ?thesis
    using assms tail [of f] tail [of s] ne
    by (auto simp: vote_request_def Let_def)
qed

lemma vote_response_ok:
  assumes "node_inv s"
  shows "survives E (node_log s @ [\<lparr>entry_term = current_term s, entry_command = NoOp\<rparr>]) s (vote_response E msg s)"
proof -
  have upd: "node_inv (s\<lparr>role := Candidate v\<rparr>)" for v
    using assms by (simp add: node_inv_def)
  have "survives E (node_log s @ [\<lparr>entry_term = current_term s, entry_command = NoOp\<rparr>]) s (become_leader E (s\<lparr>role := Candidate v\<rparr>))" for v
    using become_leader_ok [OF upd] by (rule survives_le) simp_all
  moreover have "survives E (node_log s @ [\<lparr>entry_term = current_term s, entry_command = NoOp\<rparr>]) s (become_follower E (vresp_term msg) s)"
    using become_follower_ok [OF assms] by (rule survives_ok)
  ultimately show ?thesis
    using assms upd by (auto simp: vote_response_def Let_def split: role.split)
qed

lemma client_command_ok:
  assumes "node_inv s"
  shows "survives E (event_log (CommandReceived cmd) s) s (client_command E cmd s)"
proof (cases "\<exists>c r. cmd = Apply c r \<and> is_leader (role s)")
  case True
  then obtain c r ni mi where c: "cmd = Apply c r" "role s = Leader ni mi"
    by (cases "role s") auto
  let ?u = "persist_state E (appended c r s)"
  have "node_inv ?u" "is_leader (role ?u)"
    using assms c(2) by (fastforce simp: node_inv_def)+
  from commit_and_replicate_ok [OF this, of E]
  have "survives E (event_log (CommandReceived cmd) s) s
      (and_then (apply_committed E (advance_commit ?u)) on_heartbeat)"
    by (rule survives_le) (simp_all add: event_log_def c(1))
  with c show ?thesis
    by (simp add: client_command_def require_leader_def Let_def)
next
  case False
  then show ?thesis
    using assms by (cases cmd; cases "role s")
      (auto simp: client_command_def require_leader_def split: option.split)
qed

text \<open>From a state that satisfies the node invariant, every enabled event that satisfies
  \<open>event_ok\<close> is handled without a panic of this code (no index out of bounds, no failed \<open>unwrap\<close>, no
  \<open>unreachable!\<close>, no arithmetic overflow), and the invariant holds again afterwards: the log is
  never empty, \<open>last_applied \<le> commit_index < log.len()\<close>, and a leader's \<open>next_index\<close> of every
  peer points into its log. The only panic left is one of the state machine, on the entries of the log
  behind those it has been fed.\<close>

lemma on_event_no_panic:
  assumes "node_inv s" "event_enabled ev s" "event_ok ev s"
  shows "survives E (event_log ev s) s (on_event E ev s)"
proof (cases ev)
  case (MessageReceived e)
  have "survives E (event_log ev s) s (vote_request E (env_from e) m s)" for m
    using vote_request_ok [OF assms(1)] by (rule survives_ok)
  with assms MessageReceived show ?thesis
    by (cases "env_message e")
      (auto simp: on_event_def handle_message_def event_ok_def event_log_def append_request_ok [simplified] append_response_ok
        vote_response_ok)
next
  case HeartbeatTick
  then show ?thesis using on_heartbeat_ok [OF assms(1)] assms(2) by (intro survives_ok) (simp add: on_event_def event_enabled_def)
next
  case ElectionTimeout
  with assms become_candidate_ok [of s E] show ?thesis by (simp add: on_event_def event_ok_def)
next
  case (CommandReceived cmd)
  with assms client_command_ok [of s E cmd] show ?thesis by (simp add: on_event_def)
qed

section \<open>The voting rule\<close>

text \<open>Raft's rule: vote once per term, and only for a candidate whose last entry has a later term, or the same term
  and at least the same index.\<close>

definition votes_for :: "vote_request_msg \<Rightarrow> ('c, 'o, 's, 'st) raft_node \<Rightarrow> bool" where
  "votes_for msg s \<longleftrightarrow>
     (vreq_term msg > current_term s
      \<or> vreq_term msg = current_term s \<and> (voted_for s = None \<or> voted_for s = Some (vreq_candidate_id msg)))
     \<and> (entry_term (last (node_log s)) < vreq_last_log_term msg
        \<or> entry_term (last (node_log s)) = vreq_last_log_term msg \<and> length (node_log s) \<le> vreq_last_log_index msg + 1)"

lemma hm_get_send:
  "hm_get (transport_work s) f = Some q \<Longrightarrow> length q < channel_capacity \<Longrightarrow>
   hm_get (transport_work (send_message f m s)) f = Some (q @ [m])"
  by (simp add: send_message_def)

text \<open>C35: a vote request of a peer whose queue has room is answered, and the answer and the vote follow Raft's rule.\<close>

theorem vote_request_rule:
  assumes "node_inv s" "hm_get (transport_work s) f = Some q" "length q < channel_capacity"
  shows "\<exists>t. vote_request E f msg s = Inr t
    \<and> current_term t = max (current_term s) (vreq_term msg)
    \<and> voted_for t = (if votes_for msg s then Some (vreq_candidate_id msg)
                     else if vreq_term msg > current_term s then None else voted_for s)
    \<and> hm_get (transport_work t) f = Some (q @ [VoteResponse
        \<lparr>vresp_term = max (current_term s) (vreq_term msg), vresp_vote_granted = votes_for msg s\<rparr>])
    \<and> node_log t = node_log s \<and> commit_index t = commit_index s"
proof -
  obtain t where t: "vote_request E f msg s = Inr t"
    using vote_request_ok [OF assms(1)] by blast
  have chk: "current_term u = vreq_term msg \<and> node_log u = node_log s \<and> commit_index u = commit_index s
      \<and> transport_work u = transport_work s \<and> vreq_term msg \<ge> current_term s
      \<and> (grants msg u = votes_for msg s)
      \<and> voted_for u = (if vreq_term msg > current_term s then None else voted_for s)"
    if "vote_checked E msg s u" for u
    using that by cases (auto simp: grants_def votes_for_def log_up_to_date_def)
  show ?thesis
    using t
  proof (cases rule: vote_request_cases)
    case stale
    then have "\<not> votes_for msg s" by (auto simp: votes_for_def)
    with t stale assms(2,3) show ?thesis
      by (auto simp: hm_get_send max_def)
  next
    case (granted u d)
    with t chk [OF granted(2)] assms(2,3) show ?thesis
      by (auto simp: hm_get_send max_def)
  next
    case (rejected u)
    with t chk [OF rejected(2)] assms(2,3) show ?thesis
      by (auto simp: hm_get_send max_def)
  qed
qed

theorem vote_request_rule_witness:
  "\<exists>s t q. test_node 2 [1, 2, 3] = Inr s \<and> vote_request test_env 1
      \<lparr>vreq_term = 1, vreq_candidate_id = 1, vreq_last_log_index = 0, vreq_last_log_term = 0\<rparr> s = Inr t
    \<and> voted_for t = Some 1 \<and> hm_get (transport_work t) 1 = Some (q @ [VoteResponse
        \<lparr>vresp_term = 1, vresp_vote_granted = True\<rparr>])"
proof -
  let ?msg = "\<lparr>vreq_term = 1, vreq_candidate_id = 1, vreq_last_log_index = 0, vreq_last_log_term = 0\<rparr>"
  have "ok_and (\<lambda>s. node_inv s \<and> hm_get (transport_work s) 1 = Some [] \<and> votes_for ?msg s \<and> current_term s = 0)
      (test_node 2 [1, 2, 3])"
    by code_simp
  then obtain s where s: "test_node 2 [1, 2, 3] = Inr s" "node_inv s" "hm_get (transport_work s) 1 = Some []"
      "votes_for ?msg s" "current_term s = 0"
    by (auto simp: ok_and_iff)
  then obtain t where "vote_request test_env 1 ?msg s = Inr t" "voted_for t = Some 1"
      "hm_get (transport_work t) 1 = Some ([] @ [VoteResponse \<lparr>vresp_term = 1, vresp_vote_granted = True\<rparr>])"
    using vote_request_rule [OF s(2,3), of test_env ?msg] by (auto simp: channel_capacity_def)
  with s(1) show ?thesis by blast
qed

section \<open>Client commands\<close>

lemma find_rev_last: "m < n \<Longrightarrow> P (n - 1) \<Longrightarrow> find P (rev [m..<n]) = Some (n - 1)"
  by (cases n) auto

text \<open>A leader without peers commits and applies a command at once and answers the client with the
  state machine's output.\<close>

lemma single_node_apply:
  assumes "is_leader (role s)" "peer_ids s = []" "node_log s \<noteq> []"
    and "commit_index s = length (node_log s) - 1" "last_applied s = commit_index s"
    and "hm_get (pending_applies s) (length (node_log s)) = None" "sm_apply E (state_machine s) cmd = Inr (sm, out)"
  shows "\<exists>t. client_command E (Apply cmd reply) s = Inr t
    \<and> state_machine t = sm \<and> replies t = replies s @ [(reply, ApplyReply (Inr out))]
    \<and> node_log t = node_log s @ [\<lparr>entry_term = current_term s, entry_command = Command cmd\<rparr>]
    \<and> commit_index t = length (node_log s) \<and> last_applied t = length (node_log s)
    \<and> hm_get (pending_applies t) (length (node_log s)) = None"
proof -
  obtain ni mi where r: "role s = Leader ni mi" using assms(1) by (cases "role s") auto
  let ?n = "length (node_log s)"
  define s1 where "s1 = persist_state E (appended cmd reply s)"
  have n: "0 < ?n" using assms(3) by simp
  have "find (committable s1 mi) (rev [commit_index s1 + 1 ..< length (node_log s1)]) = Some ?n"
    using find_rev_last [of "?n" "Suc ?n" "committable s1 mi"] n assms(2,4)
    by (simp add: s1_def committable_def nth_append replicated_count_def has_majority_def)
  then have adv: "advance_commit s1 = s1\<lparr>commit_index := ?n\<rparr>"
    using r by (simp add: advance_commit_def s1_def)
  obtain t where ap: "apply_entry E ?n \<lparr>entry_term = current_term s, entry_command = Command cmd\<rparr>
      (s1\<lparr>commit_index := ?n, last_applied := ?n\<rparr>) = Inr t"
    and t: "state_machine t = sm" "node_log t = node_log s1" "replies t = replies s @ [(reply, ApplyReply (Inr out))]"
      "hm_get (pending_applies t) ?n = None" "commit_index t = ?n" "last_applied t = ?n" "peer_ids t = []"
    using assms(2,6,7) by (simp add: s1_def apply_entry_def insert_pending_def)
  have "apply_committed E (s1\<lparr>commit_index := ?n\<rparr>) = apply_committed E t"
    using n assms(4,5) ap by (subst apply_committed.simps) (simp add: s1_def index_at_def nth_append)
  moreover have "apply_committed E t = Inr t"
    using t(5,6) by (subst apply_committed.simps) simp
  moreover have "on_heartbeat t = Inr t" using t(7) by (simp add: on_heartbeat_def)
  ultimately have "client_command E (Apply cmd reply) s = Inr t"
    using adv r by (simp add: client_command_def require_leader_def Let_def s1_def)
  with t show ?thesis by (simp add: s1_def)
qed

section \<open>Clients of a deposed leader\<close>

text \<open>The append request with which node 2, leader of term 2, overwrites index 2.\<close>

definition overwrite_request :: "test_command append_request_msg" where
  "overwrite_request = \<lparr>areq_term = 2, areq_leader_id = 2, areq_prev_log_index = 1, areq_prev_log_term = 1,
     areq_entries = [\<lparr>entry_term = 2, entry_command = Command (Set 9)\<rparr>], areq_leader_commit = 2\<rparr>"

text \<open>C39: \<open>pending_applies\<close> survives the loss of leadership. A client waits on index \<open>k\<close>, whose entry is not committed.
  A request of a later term replaces that entry and commits the new one: the client is answered as if its
  command had been applied, with the output of the command that replaced it.\<close>

theorem deposed_leader_answers_lost_command:
  assumes "hm_get (pending_applies s) k = Some r" "k < length (node_log s)" "last_applied s \<le> commit_index s" "commit_index s < k"
    and "current_term s < areq_term req" "areq_prev_log_index req < k"
    and "entry_term (node_log s ! areq_prev_log_index req) = areq_prev_log_term req"
    and "k \<le> areq_prev_log_index req + length (areq_entries req)" "k \<le> areq_leader_commit req"
    and "e = areq_entries req ! (k - areq_prev_log_index req - 1)" "entry_command e = Command c"
    and "entry_term e \<noteq> entry_term (node_log s ! k)" "append_request E f req s = Inr t"
  shows "node_log t ! k = e \<and> (\<exists>out. output_at E (node_log t) (last_applied s) (state_machine s) k c = Inr out
    \<and> (r, ApplyReply (Inr out)) \<in> set (replies t))"
  using assms(13)
proof (cases rule: append_request_cases)
  case (current u)
  have u: "node_log u = node_log s" "commit_index u = commit_index s" "last_applied u = last_applied s"
      "state_machine u = state_machine s" "pending_applies u = pending_applies s"
    using current(2) assms(5) by (auto elim!: follows.cases)
  let ?lg = "append_entries (areq_prev_log_index req + 1) (areq_entries req) (node_log s)"
  have k: "?lg ! k = e"
    using append_entries_index [of "areq_prev_log_index req + 1" k "areq_entries req" "node_log s"] assms(2,6,8,10,12) by simp
  have len: "k < length ?lg"
    using append_entries_length [of "areq_prev_log_index req + 1" "node_log s" "areq_entries req"] assms(2,6,8) by simp
  from current(3) show ?thesis
  proof (cases rule: append_request_log_cases)
    case (accepted w)
    let ?v = "persist_state E (accept_entries req u)"
    have v: "node_log ?v = ?lg" "last_applied ?v = last_applied s" "state_machine ?v = state_machine s"
        "pending_applies ?v = pending_applies s" "commit_index ?v < length ?lg" "k \<le> commit_index ?v"
      using assms(3,4,9) len by (auto simp: u accept_entries_def Let_def)
    have t: "node_log t = ?lg" "replies t = replies w"
      using apply_committed_frame [OF accepted(3)] accepted(4) v(1) by auto
    have "\<exists>out. output_at E ?lg (last_applied s) (state_machine s) k c = Inr out \<and> (r, ApplyReply (Inr out)) \<in> set (replies w)"
      using apply_committed_feeds [of ?v E] accepted(3) v assms(1,3,4,11) k by (auto split: sum.splits)
    with k t show ?thesis by simp
  qed (use assms(2,6,7) u in auto)
qed (use assms(5) in simp)

theorem deposed_leader_answers_lost_command_witness:
  "\<exists>s t. and_then test_leader (run_events test_env [CommandReceived (Apply (Inc 4) 0)]) = Inr s
    \<and> entry_command (node_log s ! 2) = Command (Inc 4) \<and> append_request test_env 2 overwrite_request s = Inr t
    \<and> (0, ApplyReply (Inr 9)) \<in> set (replies t)"
proof -
  have "ok_and (\<lambda>s. hm_get (pending_applies s) 2 = Some 0 \<and> length (node_log s) = 3 \<and> last_applied s = 0 \<and> commit_index s = 0
      \<and> current_term s = 1 \<and> entry_term (node_log s ! 1) = 1 \<and> entry_term (node_log s ! 2) = 1
      \<and> entry_command (node_log s ! 2) = Command (Inc 4) \<and> ok_and (\<lambda>t. last_applied t = 2
        \<and> node_log t = [\<lparr>entry_term = 0, entry_command = NoOp\<rparr>, \<lparr>entry_term = 1, entry_command = NoOp\<rparr>,
            \<lparr>entry_term = 2, entry_command = Command (Set 9)\<rparr>]) (append_request test_env 2 overwrite_request s))
    (and_then test_leader (run_events test_env [CommandReceived (Apply (Inc 4) 0)]))"
    by code_simp
  then obtain s t where st: "and_then test_leader (run_events test_env [CommandReceived (Apply (Inc 4) 0)]) = Inr s"
      "hm_get (pending_applies s) 2 = Some 0" "length (node_log s) = 3" "last_applied s = 0" "commit_index s = 0"
      "current_term s = 1" "entry_term (node_log s ! 1) = 1" "entry_term (node_log s ! 2) = 1"
      "entry_command (node_log s ! 2) = Command (Inc 4)" "append_request test_env 2 overwrite_request s = Inr t"
    and t: "node_log t = [\<lparr>entry_term = 0, entry_command = NoOp\<rparr>, \<lparr>entry_term = 1, entry_command = NoOp\<rparr>,
            \<lparr>entry_term = 2, entry_command = Command (Set 9)\<rparr>]"
    by (auto simp: ok_and_iff)
  have "\<exists>out. output_at test_env (node_log t) (last_applied s) (state_machine s) 2 (Set 9) = Inr out
      \<and> (0, ApplyReply (Inr out)) \<in> set (replies t)"
    using deposed_leader_answers_lost_command [OF st(2) _ _ _ _ _ _ _ _ refl _ _ st(10), of "Set 9"] st(3-9)
    by (simp add: overwrite_request_def del: One_nat_def)
  then have "(0, ApplyReply (Inr 9)) \<in> set (replies t)"
    by (auto simp: output_at_def t st(4) test_env_def)
  with st show ?thesis by blast
qed

section \<open>Votes that count twice\<close>

lemma become_leader_waits:
  assumes "node_inv s" "peer_ids s \<noteq> []" "last_applied s = commit_index s"
  shows "\<exists>t. become_leader E s = Inr t \<and> is_leader (role t) \<and> current_term t = current_term s"
proof -
  define u where "u = persist_state E (leader_state s)"
  have u: "role u = role (leader_state s)" "peer_ids u = peer_ids s" "commit_index u = commit_index s" "last_applied u = last_applied s"
      "current_term u = current_term s"
    by (simp_all add: u_def leader_state_def)
  have "\<not> committable u (hm_collect (map (\<lambda>p. (p, 0)) (peer_ids s))) i" if "0 < i" for i
  proof -
    have "m = 0" if "(p, m) \<in> set (hm_collect (map (\<lambda>p. (p, 0)) (peer_ids s)))" for p and m :: nat
      using map_of_is_SomeI [OF distinct_hm_collect that]
        hm_get_collect_const [of "0 :: nat" "peer_ids s" p] by (simp add: hm_get_def split: if_splits)
    then have none: "filter (\<lambda>(_, m). i \<le> m) (hm_collect (map (\<lambda>p. (p, 0)) (peer_ids s))) = []"
      using \<open>0 < i\<close> by (auto simp: filter_empty_conv)
    have "1 \<le> (length (peer_ids u) + 1) div 2" using assms(2) by (cases "peer_ids s") (auto simp: u(2))
    then show ?thesis by (simp add: committable_def has_majority_def replicated_count_def none)
  qed
  then have "find (committable u (hm_collect (map (\<lambda>p. (p, 0)) (peer_ids s)))) (rev [commit_index u + 1 ..< length (node_log u)]) = None"
    by (auto simp: find_None_iff)
  then have adv: "advance_commit u = u" by (simp add: advance_commit_def u(1) leader_state_def)
  have ap: "apply_committed E u = Inr u" using assms(3) by (subst apply_committed.simps) (simp add: u)
  have "node_inv u" "is_leader (role u)"
    using assms(1) by (auto simp: node_inv_def leader_state_def u_def)
  from on_heartbeat_ok [OF this] obtain t where t: "on_heartbeat u = Inr t" by blast
  have "become_leader E s = Inr t"
    using t adv ap by (simp add: become_leader_def Let_def u_def leader_state_def)
  moreover have "is_leader (role t)" "current_term t = current_term s"
    using on_heartbeat_frame [OF t] \<open>is_leader (role u)\<close> u(5) by auto
  ultimately show ?thesis by blast
qed

text \<open>C40: votes are counted per message, not per voter. A candidate with \<open>v\<close> votes that receives one granted vote
  \<open>d\<close> times leads as soon as \<open>v + d\<close> exceeds half of the cluster, whoever else has voted.\<close>

theorem duplicate_vote_elects:
  assumes "node_inv s" "last_applied s = commit_index s" "peer_ids s \<noteq> []"
    and "role s = Candidate v" "vresp_term msg = current_term s" "vresp_vote_granted msg"
    and "length (peer_ids s) + 1 < 2 * (v + d)" "0 < d"
  shows "\<exists>t. run_events E (replicate d (MessageReceived \<lparr>env_from = f, env_message = VoteResponse msg\<rparr>)) s = Inr t
    \<and> is_leader (role t) \<and> current_term t = current_term s"
  using assms
proof (induction d arbitrary: s v)
  case (Suc d)
  let ?ev = "MessageReceived \<lparr>env_from = f, env_message = VoteResponse msg\<rparr>"
  have enabled: "event_enabled ?ev x" for x :: "('a, 'b, 'c, 'd) raft_node" by (simp add: event_enabled_def)
  define s1 where "s1 = s\<lparr>role := Candidate (v + 1)\<rparr>"
  have s1: "node_inv s1" "last_applied s1 = commit_index s1" "peer_ids s1 = peer_ids s" "current_term s1 = current_term s"
    using Suc.prems by (auto simp: s1_def node_inv_def)
  show ?case
  proof (cases "has_majority (v + 1) (length (peer_ids s) + 1)")
    case True
    have idle: "run_events E (replicate n ?ev) t = Inr t" if "is_leader (role t)" "current_term t = current_term s" for n t
      using that Suc.prems(5)
      by (induction n) (auto simp: enabled on_event_def handle_message_def vote_response_def is_leader_def split: role.splits)
    obtain t where t: "become_leader E s1 = Inr t" "is_leader (role t)" "current_term t = current_term s"
      using become_leader_waits [OF s1(1), of E] s1(2-4) Suc.prems(3) by auto
    then have "on_event E ?ev s = Inr t"
      using True Suc.prems(4-6) by (simp add: on_event_def handle_message_def vote_response_def Let_def s1_def)
    then have "run_events E (replicate (Suc d) ?ev) s = Inr t" using idle [OF t(2,3)] by (simp add: enabled)
    with t show ?thesis by blast
  next
    case False
    then have ev: "on_event E ?ev s = Inr s1"
      using Suc.prems(4-6) by (simp add: on_event_def handle_message_def vote_response_def Let_def s1_def)
    have "0 < d" using False Suc.prems(7) by (cases d) (auto simp: has_majority_def)
    have "\<exists>t. run_events E (replicate d ?ev) s1 = Inr t \<and> is_leader (role t) \<and> current_term t = current_term s1"
      by (rule Suc.IH [of s1 "v + 1"]) (use s1 Suc.prems \<open>0 < d\<close> in \<open>simp_all add: s1_def\<close>)
    then obtain t where "run_events E (replicate d ?ev) s1 = Inr t" "is_leader (role t)" "current_term t = current_term s"
      unfolding s1(4) by blast
    with ev show ?thesis by (auto simp: enabled)
  qed
qed simp

theorem duplicate_vote_elects_witness:
  "\<exists>s t. and_then (test_node 1 [1, 2, 3, 4, 5]) (on_event test_env ElectionTimeout) = Inr s
    \<and> run_events test_env [vote_from 2 1, vote_from 2 1] s = Inr t \<and> is_leader (role t) \<and> length (peer_ids s) = 4"
proof -
  have "ok_and (\<lambda>s. node_inv s \<and> last_applied s = commit_index s \<and> peer_ids s = [2, 3, 4, 5] \<and> role s = Candidate 1
      \<and> current_term s = 1) (and_then (test_node 1 [1, 2, 3, 4, 5]) (on_event test_env ElectionTimeout))"
    by code_simp
  then obtain s where s: "and_then (test_node 1 [1, 2, 3, 4, 5]) (on_event test_env ElectionTimeout) = Inr s"
      "node_inv s" "last_applied s = commit_index s" "peer_ids s = [2, 3, 4, 5]" "role s = Candidate 1" "current_term s = 1"
    by (auto simp: ok_and_iff)
  obtain t where "run_events test_env (replicate 2 (vote_from 2 1)) s = Inr t" "is_leader (role t)"
    using duplicate_vote_elects [OF s(2,3) _ s(5), of "\<lparr>vresp_term = 1, vresp_vote_granted = True\<rparr>" 2 test_env 2] s(4,6) by auto
  with s(1,4) show ?thesis by (auto simp: numeral_2_eq_2)
qed

end
