(* ===== verification/Election.thy ===== *)
theory Election
  imports Prelude "HOL-Library.Multiset"
begin

text \<open>
  The election protocol in the abstract: what a candidate, its voters and the network may do, with
  no log, no timers and no storage. Nodes are the elements of a finite set \<open>M\<close>; a message is a request
  for a vote or a granted vote, each carrying its term; the network may lose messages but delivers each
  at most once. The fields \<open>votes\<close>, \<open>counted\<close> and \<open>leaders\<close> are history: they record what happened and
  no step reads them. \<open>Raft_Cluster\<close> shows that the nodes of the program implement these steps.

  The result is election safety: a term has at most one leader. It needs the tally of a candidate to be
  the number of its voters, which holds because a vote in flight for a term is one token: a request,
  then a grant, then a counted vote.
\<close>

section \<open>The protocol\<close>

datatype 't ballot = Ask 't | Grant 't

record ('n, 't) election =
  trm :: "'n \<Rightarrow> 't"
  vote :: "'n \<Rightarrow> 'n option"
  tally :: "'n \<Rightarrow> nat option" \<comment> \<open>the votes received, while a candidate\<close>
  lead :: "'n \<Rightarrow> bool"
  wire :: "'n \<Rightarrow> 'n \<Rightarrow> 't ballot multiset"
  votes :: "('t \<times> 'n \<times> 'n) set" \<comment> \<open>term, voter, candidate\<close>
  counted :: "('t \<times> 'n \<times> 'n) set" \<comment> \<open>term, candidate, voter\<close>
  leaders :: "('t \<times> 'n) set"

text \<open>The new term, vote, tally and leadership of a node, recorded in the history.\<close>

definition install ::
    "'n \<Rightarrow> 't \<Rightarrow> 'n option \<Rightarrow> nat option \<Rightarrow> bool \<Rightarrow> ('n, 't) election \<Rightarrow> ('n, 't) election" where
  "install i T v n l A =
     A\<lparr>trm := (trm A)(i := T), vote := (vote A)(i := v), tally := (tally A)(i := n),
       lead := (lead A)(i := l), votes := votes A \<union> {(T, i, c) |c. v = Some c},
       leaders := leaders A \<union> {(T, i) |_::unit. l}\<rparr>"

definition on_link ::
    "'n \<Rightarrow> 'n \<Rightarrow> ('t ballot multiset \<Rightarrow> 't ballot multiset) \<Rightarrow> ('n, 't) election \<Rightarrow> ('n, 't) election" where
  "on_link i j f A = A\<lparr>wire := (wire A)(i := (wire A i)(j := f (wire A i j)))\<rparr>"

definition ask_all :: "'n \<Rightarrow> 'n set \<Rightarrow> 't \<Rightarrow> ('n, 't) election \<Rightarrow> ('n, 't) election" where
  "ask_all i J T A =
     A\<lparr>wire := (wire A)(i := (\<lambda>j. if j \<in> J then add_mset (Ask T) (wire A i j) else wire A i j))\<rparr>"

inductive election_step ::
    "'n set \<Rightarrow> ('n, 't::linorder) election \<Rightarrow> ('n, 't) election \<Rightarrow> bool" for M where
  idle: "i \<in> M \<Longrightarrow> n = None \<or> n = tally A i \<Longrightarrow> l \<longrightarrow> lead A i \<Longrightarrow>
    election_step M A (install i (trm A i) (vote A i) n l A)"
| newer: "i \<in> M \<Longrightarrow> trm A i < T \<Longrightarrow> election_step M A (install i T None None False A)"
| campaign: "i \<in> M \<Longrightarrow> trm A i < T \<Longrightarrow> J \<subseteq> M - {i} \<Longrightarrow>
    n = Some 1 \<and> \<not> l \<or> n = None \<and> l \<and> card M < 2 \<Longrightarrow>
    election_step M A (install i T (Some i) n l (ask_all i J T A))"
| grant: "i \<in> M \<Longrightarrow> Ask T \<in># wire A f i \<Longrightarrow>
    trm A i < T \<and> n = None \<and> \<not> l
      \<or> trm A i = T \<and> (vote A i = None \<or> vote A i = Some f) \<and> n = tally A i \<and> l = lead A i \<Longrightarrow>
    g = {#} \<or> g = {#Grant T#} \<Longrightarrow>
    election_step M A (install i T (Some f) n l
      (on_link i f (\<lambda>w. w + g) (on_link f i (\<lambda>w. w - {#Ask T#}) A)))"
| count_vote: "i \<in> M \<Longrightarrow> Grant (trm A i) \<in># wire A f i \<Longrightarrow> tally A i = Some v \<Longrightarrow>
    n = Some (v + 1) \<and> \<not> l \<or> n = None \<and> l \<and> card M < 2 * (v + 1) \<Longrightarrow>
    B = on_link f i (\<lambda>w. w - {#Grant (trm A i)#}) A \<Longrightarrow>
    election_step M A (install i (trm A i) (vote A i) n l (B\<lparr>counted := insert (trm A i, i, f) (counted B)\<rparr>))"
| lose: "(\<And>i j. W i j \<subseteq># wire A i j) \<Longrightarrow> election_step M A (A\<lparr>wire := W\<rparr>)"

definition election_init :: "('n, 't) election \<Rightarrow> bool" where
  "election_init A \<longleftrightarrow> vote A = (\<lambda>_. None) \<and> tally A = (\<lambda>_. None) \<and> lead A = (\<lambda>_. False)
     \<and> wire A = (\<lambda>_ _. {#}) \<and> votes A = {} \<and> counted A = {} \<and> leaders A = {}"

lemma install_sel [simp]:
  "trm (install i T v n l A) = (trm A)(i := T)" "vote (install i T v n l A) = (vote A)(i := v)"
  "tally (install i T v n l A) = (tally A)(i := n)" "lead (install i T v n l A) = (lead A)(i := l)"
  "wire (install i T v n l A) = wire A" "counted (install i T v n l A) = counted A"
  "votes (install i T v n l A) = votes A \<union> {(T, i, c) |c. v = Some c}"
  "leaders (install i T v n l A) = leaders A \<union> {(T, i) |_::unit. l}"
  by (simp_all add: install_def)

lemma on_link_sel [simp]:
  "trm (on_link i j f A) = trm A" "vote (on_link i j f A) = vote A" "tally (on_link i j f A) = tally A"
  "lead (on_link i j f A) = lead A" "votes (on_link i j f A) = votes A"
  "counted (on_link i j f A) = counted A" "leaders (on_link i j f A) = leaders A"
  "wire (on_link i j f A) a b = (if a = i \<and> b = j then f (wire A i j) else wire A a b)"
  by (auto simp: on_link_def)

lemma ask_all_sel [simp]:
  "trm (ask_all i J T A) = trm A" "vote (ask_all i J T A) = vote A" "tally (ask_all i J T A) = tally A"
  "lead (ask_all i J T A) = lead A" "votes (ask_all i J T A) = votes A"
  "counted (ask_all i J T A) = counted A" "leaders (ask_all i J T A) = leaders A"
  "wire (ask_all i J T A) a b =
     (if a = i \<and> b \<in> J then add_mset (Ask T) (wire A a b) else wire A a b)"
  by (auto simp: ask_all_def)

section \<open>The invariant\<close>

text \<open>A vote of \<open>v\<close> for \<open>c\<close> in term \<open>T\<close> on its way.\<close>

definition tokens :: "('n, 't) election \<Rightarrow> 't \<Rightarrow> 'n \<Rightarrow> 'n \<Rightarrow> nat" where
  "tokens A T c v =
     count (wire A c v) (Ask T) + count (wire A v c) (Grant T) + (if (T, c, v) \<in> counted A then 1 else 0)"

definition votes_ok :: "'n set \<Rightarrow> ('n, 't::linorder) election \<Rightarrow> bool" where
  "votes_ok M A \<longleftrightarrow>
     (\<forall>(T, v, c) \<in> votes A. v \<in> M \<and> T \<le> trm A v \<and> (T = trm A v \<longrightarrow> vote A v = Some c))
     \<and> (\<forall>v \<in> M. \<forall>c. vote A v = Some c \<longrightarrow> (trm A v, v, c) \<in> votes A)
     \<and> (\<forall>T v c c'. (T, v, c) \<in> votes A \<longrightarrow> (T, v, c') \<in> votes A \<longrightarrow> c = c')"

definition tokens_ok :: "'n set \<Rightarrow> ('n, 't::linorder) election \<Rightarrow> bool" where
  "tokens_ok M A \<longleftrightarrow>
     (\<forall>T c v. tokens A T c v \<le> 1) \<and> (\<forall>T. \<forall>c \<in> M. \<forall>v. trm A c < T \<longrightarrow> tokens A T c v = 0)
     \<and> (\<forall>i j x. x \<in># wire A i j \<longrightarrow> i \<in> M \<and> j \<in> M \<and> i \<noteq> j)"

definition tally_ok :: "'n set \<Rightarrow> ('n, 't::linorder) election \<Rightarrow> bool" where
  "tally_ok M A \<longleftrightarrow>
     (\<forall>c \<in> M. \<forall>n. tally A c = Some n \<longrightarrow>
        vote A c = Some c \<and> n = Suc (card {v. (trm A c, c, v) \<in> counted A}))
     \<and> (\<forall>(T, c, v) \<in> counted A. (T, v, c) \<in> votes A \<and> v \<noteq> c)
     \<and> (\<forall>T v c. Grant T \<in># wire A v c \<longrightarrow> (T, v, c) \<in> votes A)"

definition leaders_ok :: "'n set \<Rightarrow> ('n, 't::linorder) election \<Rightarrow> bool" where
  "leaders_ok M A \<longleftrightarrow>
     (\<forall>(T, c) \<in> leaders A. \<exists>Q \<subseteq> M. card M < 2 * card Q \<and> (\<forall>v \<in> Q. (T, v, c) \<in> votes A))
     \<and> (\<forall>c \<in> M. lead A c \<longrightarrow> (trm A c, c) \<in> leaders A)"

definition election_inv :: "'n set \<Rightarrow> ('n, 't::linorder) election \<Rightarrow> bool" where
  "election_inv M A \<longleftrightarrow> votes_ok M A \<and> tokens_ok M A \<and> tally_ok M A \<and> leaders_ok M A"

lemma election_inv_init: "election_init A \<Longrightarrow> election_inv M A"
  by (simp add: election_init_def election_inv_def votes_ok_def tokens_ok_def tally_ok_def leaders_ok_def
      tokens_def)

text \<open>Two majorities of voters share a voter, who voted once.\<close>

lemma majorities_meet:
  assumes "finite M" "Q \<subseteq> M" "R \<subseteq> M" "card M < 2 * card Q" "card M < 2 * card R"
  shows "\<exists>v. v \<in> Q \<and> v \<in> R"
proof (rule ccontr)
  assume "\<nexists>v. v \<in> Q \<and> v \<in> R"
  then have "Q \<inter> R = {}" by blast
  then have "card (Q \<union> R) = card Q + card R"
    using assms by (meson card_Un_disjoint finite_subset)
  moreover have "card (Q \<union> R) \<le> card M"
    using assms by (simp add: card_mono)
  ultimately show False using assms by simp
qed

lemma election_inv_unique:
  assumes "finite M" "election_inv M A" "(T, c) \<in> leaders A" "(T, d) \<in> leaders A"
  shows "c = d"
proof -
  obtain Q where Q: "Q \<subseteq> M" "card M < 2 * card Q" "\<forall>v \<in> Q. (T, v, c) \<in> votes A"
    using assms(2,3) by (auto simp: election_inv_def leaders_ok_def)
  obtain R where R: "R \<subseteq> M" "card M < 2 * card R" "\<forall>v \<in> R. (T, v, d) \<in> votes A"
    using assms(2,4) by (auto simp: election_inv_def leaders_ok_def)
  obtain v where "v \<in> Q" "v \<in> R"
    using majorities_meet [OF assms(1) Q(1) R(1) Q(2) R(2)] by blast
  with Q(3) R(3) assms(2) show ?thesis
    by (auto simp: election_inv_def votes_ok_def)
qed

section \<open>Every step keeps it\<close>

text \<open>The votes: a node moves to a later term, or keeps its vote.\<close>

lemma votes_ok_intro:
  assumes "\<And>T v c. (T, v, c) \<in> votes A \<Longrightarrow> v \<in> M \<and> T \<le> trm A v \<and> (T = trm A v \<longrightarrow> vote A v = Some c)"
    and "\<And>v c. v \<in> M \<Longrightarrow> vote A v = Some c \<Longrightarrow> (trm A v, v, c) \<in> votes A"
    and "\<And>T v c c'. (T, v, c) \<in> votes A \<Longrightarrow> (T, v, c') \<in> votes A \<Longrightarrow> c = c'"
  shows "votes_ok M A"
  unfolding votes_ok_def using assms by (fast intro: case_prodI2)

lemma votes_ok_dest:
  assumes "votes_ok M A"
  shows "(T, v, c) \<in> votes A \<Longrightarrow> v \<in> M" "(T, v, c) \<in> votes A \<Longrightarrow> T \<le> trm A v"
    "(trm A v, v, c) \<in> votes A \<Longrightarrow> vote A v = Some c"
    "v \<in> M \<Longrightarrow> vote A v = Some c \<Longrightarrow> (trm A v, v, c) \<in> votes A"
    "(T, v, c) \<in> votes A \<Longrightarrow> (T, v, c') \<in> votes A \<Longrightarrow> c = c'"
  using assms unfolding votes_ok_def by (fast dest: bspec)+

lemma votes_ok_install:
  assumes ok: "votes_ok M A" and "i \<in> M"
    and adv: "trm A i < T \<or> trm A i = T \<and> (vote A i = None \<or> vote A i = v)"
    and same: "votes B = votes A" "trm B = trm A" "vote B = vote A"
  shows "votes_ok M (install i T v n l B)"
proof (rule votes_ok_intro)
  note ok = votes_ok_dest [OF ok]
  have kept: "U \<le> T \<and> (U = T \<longrightarrow> v = Some c)" if "(U, i, c) \<in> votes A" for U c
    using adv ok(2) [of U i c] ok(3) [of i c] that by (auto simp: order.strict_iff_order)
  show "w \<in> M \<and> U \<le> trm (install i T v n l B) w
      \<and> (U = trm (install i T v n l B) w \<longrightarrow> vote (install i T v n l B) w = Some c)"
    if "(U, w, c) \<in> votes (install i T v n l B)" for U w c
    using that ok(1,2) [of U w c] ok(3) [of w c] kept [of U c] assms(2) same by (cases "w = i") auto
  show "(trm (install i T v n l B) w, w, c) \<in> votes (install i T v n l B)"
    if "w \<in> M" "vote (install i T v n l B) w = Some c" for w c
    using that ok(4) [of w c] same by (cases "w = i") auto
  show "c = d"
    if "(U, w, c) \<in> votes (install i T v n l B)" "(U, w, d) \<in> votes (install i T v n l B)" for U w c d
    using that ok(5) [of U w c d] kept [of U c] kept [of U d] same by (cases "w = i \<and> U = T") auto
qed

lemma tokens_install [simp]: "tokens (install i T v n l A) = tokens A"
  by (intro ext) (simp add: tokens_def)

lemma tokens_ok_install:
  "tokens_ok M A \<Longrightarrow> trm A i \<le> T \<Longrightarrow> tokens_ok M (install i T v n l A)"
  unfolding tokens_ok_def by (auto dest: le_less_trans)

lemma leaders_ok_mono:
  assumes "leaders_ok M A" "i \<in> M"
    and "l \<Longrightarrow> \<exists>Q \<subseteq> M. card M < 2 * card Q \<and> (\<forall>w \<in> Q. (T, w, i) \<in> votes (install i T v n l B))"
    and "votes B = votes A" "trm B = trm A" "lead B = lead A" "leaders B = leaders A"
  shows "leaders_ok M (install i T v n l B)"
  unfolding leaders_ok_def
proof (intro conjI ballI impI)
  show "case x of (T', c) \<Rightarrow> \<exists>Q \<subseteq> M. card M < 2 * card Q \<and> (\<forall>w \<in> Q. (T', w, c) \<in> votes (install i T v n l B))"
    if "x \<in> leaders (install i T v n l B)" for x
  proof (cases "x \<in> leaders A")
    case True
    with assms(1,4) show ?thesis by (fastforce simp: leaders_ok_def)
  next
    case False
    with that assms(3,7) show ?thesis by auto
  qed
  show "(trm (install i T v n l B) c, c) \<in> leaders (install i T v n l B)"
    if "c \<in> M" "lead (install i T v n l B) c" for c
    using that assms(1,5-7) by (cases "c = i") (auto simp: leaders_ok_def)
qed

lemma leader_majority:
  assumes "leaders_ok M A" "i \<in> M" "lead A i"
  shows "\<exists>Q \<subseteq> M. card M < 2 * card Q \<and> (\<forall>w \<in> Q. (trm A i, w, i) \<in> votes A)"
  using assms by (fastforce simp: leaders_ok_def)

text \<open>The tallies: a step that leaves the counted votes alone may only drop a tally or start one.\<close>

lemma tally_ok_install:
  assumes ok: "tally_ok M A" and i: "i \<in> M"
    and n: "n = None \<or> n = tally A i \<and> T = trm A i \<and> (vote A i = None \<or> v = vote A i)
      \<or> n = Some 1 \<and> v = Some i \<and> (\<forall>w. (T, i, w) \<notin> counted A)"
    and grants: "\<And>U w c. Grant U \<in># wire B w c \<Longrightarrow> Grant U \<in># wire A w c \<or> (U, w, c) = (T, i, f) \<and> v = Some f"
    and same: "votes B = votes A" "trm B = trm A" "vote B = vote A" "tally B = tally A" "counted B = counted A"
  shows "tally_ok M (install i T v n l B)"
  unfolding tally_ok_def
proof (intro conjI ballI allI impI)
  have old: "tally A c = Some m \<Longrightarrow> vote A c = Some c" "tally A c = Some m \<Longrightarrow>
      m = Suc (card {v. (trm A c, c, v) \<in> counted A})" if "c \<in> M" for c m
    using ok that by (auto simp: tally_ok_def)
  show "vote (install i T v n l B) c = Some c" if "c \<in> M" "tally (install i T v n l B) c = Some m" for c m
    using that n old(1) [of c] same by (cases "c = i"; cases "tally A i") auto
  show "m = Suc (card {w. (trm (install i T v n l B) c, c, w) \<in> counted (install i T v n l B)})"
    if "c \<in> M" "tally (install i T v n l B) c = Some m" for c m
    using that n old [of c] same by (cases "c = i") auto
  show "case x of (U, c, w) \<Rightarrow> (U, w, c) \<in> votes (install i T v n l B) \<and> w \<noteq> c"
    if "x \<in> counted (install i T v n l B)" for x
    using that ok same by (auto simp: tally_ok_def)
  show "(U, w, c) \<in> votes (install i T v n l B)" if "Grant U \<in># wire (install i T v n l B) w c" for U w c
    using that grants [of U w c] ok same by (auto simp: tally_ok_def)
qed

lemma tokens_ok_dest:
  assumes "tokens_ok M A"
  shows "tokens A T c v \<le> 1" "c \<in> M \<Longrightarrow> trm A c < T \<Longrightarrow> tokens A T c v = 0"
    "x \<in># wire A i j \<Longrightarrow> i \<in> M \<and> j \<in> M \<and> i \<noteq> j"
  using assms by (force simp: tokens_ok_def)+

lemma not_counted_later: "tokens_ok M A \<Longrightarrow> c \<in> M \<Longrightarrow> trm A c < T \<Longrightarrow> (T, c, v) \<notin> counted A"
  using tokens_ok_dest(2) [of M A c T v] by (auto simp: tokens_def)

lemma tokens_ok_less:
  assumes "tokens_ok M A" "\<And>T c v. tokens B T c v \<le> tokens A T c v" "trm B = trm A"
    and "\<And>i j x. x \<in># wire B i j \<Longrightarrow> i \<in> M \<and> j \<in> M \<and> i \<noteq> j"
  shows "tokens_ok M B"
  unfolding tokens_ok_def
proof (intro conjI allI ballI impI)
  show "tokens B T c v \<le> 1" for T c v
    by (rule order_trans [OF assms(2) tokens_ok_dest(1) [OF assms(1)]])
  show "tokens B T c v = 0" if "c \<in> M" "trm B c < T" for T c v
    using tokens_ok_dest(2) [OF assms(1) that(1), of T v] assms(2) [of T c v] assms(3) that(2) by simp
qed (use assms(4) in blast)+

lemma keeps_idle:
  assumes "election_inv M A" "i \<in> M" "n = None \<or> n = tally A i" "l \<longrightarrow> lead A i"
  shows "election_inv M (install i (trm A i) (vote A i) n l A)"
proof -
  have inv: "votes_ok M A" "tokens_ok M A" "tally_ok M A" "leaders_ok M A"
    using assms(1) by (simp_all add: election_inv_def)
  have "leaders_ok M (install i (trm A i) (vote A i) n l A)"
    by (rule leaders_ok_mono [OF inv(4) assms(2)]) (use leader_majority [OF inv(4) assms(2)] assms(4) in force)+
  moreover have "tally_ok M (install i (trm A i) (vote A i) n l A)"
    by (rule tally_ok_install [OF inv(3) assms(2)]) (use assms(3) in auto)
  ultimately show ?thesis
    using tokens_ok_install [OF inv(2)] votes_ok_install [OF inv(1) assms(2)]
    by (simp add: election_inv_def)
qed

lemma keeps_newer:
  assumes "election_inv M A" "i \<in> M" "trm A i < T"
  shows "election_inv M (install i T None None False A)"
proof -
  have inv: "votes_ok M A" "tokens_ok M A" "tally_ok M A" "leaders_ok M A"
    using assms(1) by (simp_all add: election_inv_def)
  have "leaders_ok M (install i T None None False A)"
    by (rule leaders_ok_mono [OF inv(4) assms(2)]) simp_all
  moreover have "tally_ok M (install i T None None False A)"
    by (rule tally_ok_install [OF inv(3) assms(2)]) auto
  ultimately show ?thesis
    using tokens_ok_install [OF inv(2)] votes_ok_install [OF inv(1) assms(2)] assms(3)
    by (simp add: election_inv_def)
qed

lemma tokens_ok_ask_all:
  assumes "tokens_ok M A" "i \<in> M" "trm A i < T" "J \<subseteq> M - {i}"
  shows "tokens_ok M (install i T v n l (ask_all i J T A))"
proof -
  have tok: "tokens (ask_all i J T A) U c w = tokens A U c w + (if c = i \<and> w \<in> J \<and> U = T then 1 else 0)"
    for U c w by (simp add: tokens_def)
  have zero: "tokens A U i w = 0" if "T \<le> U" for U w
    using tokens_ok_dest(2) [OF assms(1,2), of U w] assms(3) that by (simp add: less_le_trans)
  show ?thesis
    unfolding tokens_ok_def
  proof (intro conjI allI ballI impI)
    show "tokens (install i T v n l (ask_all i J T A)) U c w \<le> 1" for U c w
      using tok [of U c w] zero [of U w] tokens_ok_dest(1) [OF assms(1), of U c w] by auto
    show "tokens (install i T v n l (ask_all i J T A)) U c w = 0"
      if "c \<in> M" "trm (install i T v n l (ask_all i J T A)) c < U" for U c w
      using that tok [of U c w] zero [of U w] tokens_ok_dest(2) [OF assms(1), of c U w]
      by (cases "c = i") auto
  qed (use assms(2,4) tokens_ok_dest(3) [OF assms(1)] in \<open>auto split: if_splits\<close>)
qed

lemma keeps_campaign:
  assumes "election_inv M A" "i \<in> M" "trm A i < T" "J \<subseteq> M - {i}" "finite M"
    and "n = Some 1 \<and> \<not> l \<or> n = None \<and> l \<and> card M < 2"
  shows "election_inv M (install i T (Some i) n l (ask_all i J T A))"
proof -
  have inv: "votes_ok M A" "tokens_ok M A" "tally_ok M A" "leaders_ok M A"
    using assms(1) by (simp_all add: election_inv_def)
  have fresh: "(T, i, w) \<notin> counted A" for w
    using inv(2) assms(2,3) by (rule not_counted_later)
  have maj: "\<exists>Q \<subseteq> M. card M < 2 * card Q \<and> (\<forall>w \<in> Q. (T, w, i) \<in> votes (install i T (Some i) n l (ask_all i J T A)))"
    if l
    using assms(2,6) that by (intro exI [of _ "{i}"]) auto
  have "leaders_ok M (install i T (Some i) n l (ask_all i J T A))"
    by (rule leaders_ok_mono [OF inv(4) assms(2) maj]) simp_all
  moreover have "tally_ok M (install i T (Some i) n l (ask_all i J T A))"
    by (rule tally_ok_install [OF inv(3) assms(2), where f = i]) (use assms(6) fresh in \<open>auto split: if_splits\<close>)
  ultimately show ?thesis
    using tokens_ok_ask_all [OF inv(2) assms(2-4)] votes_ok_install [OF inv(1) assms(2)] assms(3)
    by (simp add: election_inv_def)
qed

text \<open>A granted vote: the request becomes a grant, so no token is added.\<close>

lemma tokens_swap:
  assumes "f \<noteq> i" "Ask T \<in># wire A f i" "g = {#} \<or> g = {#Grant T#}"
  shows "tokens (on_link i f (\<lambda>w. w + g) (on_link f i (\<lambda>w. w - {#Ask T#}) A)) U c w \<le> tokens A U c w"
proof -
  have c: "0 < count (wire A f i) (Ask T)" using assms(2) by simp
  show ?thesis
  proof (cases "c = f \<and> w = i \<and> U = T")
    case True
    then show ?thesis using assms(1,3) c by (auto simp: tokens_def)
  next
    case False
    then show ?thesis using assms(1,3) by (auto simp: tokens_def)
  qed
qed

lemma keeps_grant:
  assumes "election_inv M A" "i \<in> M" "Ask T \<in># wire A f i" "g = {#} \<or> g = {#Grant T#}"
    and "trm A i < T \<and> n = None \<and> \<not> l
      \<or> trm A i = T \<and> (vote A i = None \<or> vote A i = Some f) \<and> n = tally A i \<and> l = lead A i"
  shows "election_inv M (install i T (Some f) n l
    (on_link i f (\<lambda>w. w + g) (on_link f i (\<lambda>w. w - {#Ask T#}) A)))" (is "election_inv M (install i T _ n l ?B)")
proof -
  have inv: "votes_ok M A" "tokens_ok M A" "tally_ok M A" "leaders_ok M A"
    using assms(1) by (simp_all add: election_inv_def)
  have f: "f \<in> M" "i \<in> M" "f \<noteq> i"
    using tokens_ok_dest(3) [OF inv(2) assms(3)] by auto
  note g = assms(4)
  have ends: "a \<in> M \<and> b \<in> M \<and> a \<noteq> b" if "x \<in># wire ?B a b" for x a b
    using that f tokens_ok_dest(3) [OF inv(2)] by (auto split: if_splits dest: in_diffD)
  have tok: "tokens_ok M ?B"
    by (rule tokens_ok_less [OF inv(2) tokens_swap [OF f(3) assms(3) g] _ ends]) simp_all
  have "tally_ok M (install i T (Some f) n l ?B)"
    by (rule tally_ok_install [OF inv(3) assms(2), where f = f])
      (use assms(5) g f in \<open>auto split: if_splits dest: in_diffD\<close>)
  moreover have "leaders_ok M (install i T (Some f) n l ?B)"
  proof (rule leaders_ok_mono [OF inv(4) assms(2)])
    assume l
    with assms(5) have "lead A i" "trm A i = T" by auto
    with leader_majority [OF inv(4) assms(2)] show "\<exists>Q \<subseteq> M. card M < 2 * card Q
        \<and> (\<forall>w \<in> Q. (T, w, i) \<in> votes (install i T (Some f) n l ?B))"
      by auto
  qed simp_all
  moreover have "tokens_ok M (install i T (Some f) n l ?B)"
    by (rule tokens_ok_install [OF tok]) (use assms(5) in auto)
  moreover have "votes_ok M (install i T (Some f) n l ?B)"
    by (rule votes_ok_install [OF inv(1) assms(2)]) (use assms(5) in auto)
  ultimately show ?thesis
    by (simp add: election_inv_def)
qed

text \<open>A counted vote: the grant becomes an entry of \<open>counted\<close>, so a voter is counted once.\<close>

lemma finite_voters: "votes_ok M A \<Longrightarrow> tally_ok M A \<Longrightarrow> finite M \<Longrightarrow> finite {v. (T, c, v) \<in> counted A}"
  by (rule finite_subset [of _ M]) (auto simp: tally_ok_def votes_ok_def)

lemma keeps_count:
  assumes "election_inv M A" "finite M" "i \<in> M" "Grant (trm A i) \<in># wire A f i" "tally A i = Some v"
    and "n = Some (v + 1) \<and> \<not> l \<or> n = None \<and> l \<and> card M < 2 * (v + 1)"
    and B: "B = on_link f i (\<lambda>w. w - {#Grant (trm A i)#}) A"
    and D: "D = install i (trm A i) (vote A i) n l (B\<lparr>counted := insert (trm A i, i, f) (counted B)\<rparr>)"
  shows "election_inv M D"
proof -
  define T where "T = trm A i"
  have inv: "votes_ok M A" "tokens_ok M A" "tally_ok M A" "leaders_ok M A"
    using assms(1) by (simp_all add: election_inv_def)
  have f: "f \<in> M" "f \<noteq> i"
    using tokens_ok_dest(3) [OF inv(2) assms(4)] by auto
  have g: "0 < count (wire A f i) (Grant T)" using assms(4) by (simp add: T_def)
  have new: "(T, i, f) \<notin> counted A"
    using tokens_ok_dest(1) [OF inv(2), of T i f] g by (simp add: tokens_def del: count_greater_zero_iff split: if_splits)
  have voted: "(T, f, i) \<in> votes A" "vote A i = Some i" "v = Suc (card {w. (T, i, w) \<in> counted A})"
    using inv(3) assms(3-5) by (auto simp: tally_ok_def T_def)
  have card: "card (insert f {w. (T, i, w) \<in> counted A}) = v"
    using voted(3) new finite_voters [OF inv(1,3) assms(2), of T i] by simp
  have sel: "trm D = trm A" "vote D = vote A" "votes D = votes A \<union> {(T, i, i)}" "tally D = (tally A)(i := n)"
      "counted D = insert (T, i, f) (counted A)" "wire D = wire B" "lead D = (lead A)(i := l)"
      "leaders D = leaders A \<union> {(T, i) |_::unit. l}"
    using voted(2) by (auto simp: D B T_def)
  have "tokens D U c w \<le> tokens A U c w" for U c w
    using g f(2) new by (auto simp: tokens_def sel B T_def [symmetric])
  then have "tokens_ok M D"
    by (rule tokens_ok_less [OF inv(2)])
      (use tokens_ok_dest(3) [OF inv(2)] in \<open>auto simp: sel B split: if_splits dest: in_diffD\<close>)
  moreover have "votes_ok M D"
    unfolding D by (rule votes_ok_install [OF inv(1) assms(3)]) (auto simp: B)
  moreover have "tally_ok M D"
    unfolding tally_ok_def
  proof (intro conjI ballI allI impI)
    show "vote D c = Some c" if "c \<in> M" "tally D c = Some m" for c m
      using that inv(3) voted(2) by (cases "c = i") (auto simp: sel tally_ok_def)
    show "m = Suc (card {w. (trm D c, c, w) \<in> counted D})" if "c \<in> M" "tally D c = Some m" for c m
    proof (cases "c = i")
      case True
      have "{w. (trm D i, i, w) \<in> counted D} = insert f {w. (T, i, w) \<in> counted A}"
        by (auto simp: sel T_def)
      with card True that assms(6) show ?thesis by (auto simp: sel)
    next
      case False
      with that inv(3) show ?thesis by (auto simp: sel tally_ok_def)
    qed
    show "case x of (U, c, w) \<Rightarrow> (U, w, c) \<in> votes D \<and> w \<noteq> c" if "x \<in> counted D" for x
      using that inv(3) voted(1) f(2) by (auto simp: sel tally_ok_def)
    show "(U, w, c) \<in> votes D" if "Grant U \<in># wire D w c" for U w c
      using that inv(3) by (auto simp: sel B tally_ok_def split: if_splits dest!: in_diffD)
  qed
  moreover have "leaders_ok M D"
    unfolding D
  proof (rule leaders_ok_mono [OF inv(4) assms(3)])
    define Q where "Q = insert i (insert f {w. (T, i, w) \<in> counted A})"
    assume l
    have "Q \<subseteq> M"
      using inv(1,3) assms(3) f(1) by (auto simp: Q_def tally_ok_def votes_ok_def)
    moreover have "card Q = v + 1"
      using card inv(3) f(2) finite_voters [OF inv(1,3) assms(2), of T i]
      by (auto simp: Q_def tally_ok_def card_insert_if)
    moreover have "\<forall>w \<in> Q. (T, w, i) \<in> votes D"
      using inv(3) voted(1) by (auto simp: Q_def tally_ok_def sel)
    ultimately show "\<exists>Q \<subseteq> M. card M < 2 * card Q \<and> (\<forall>w \<in> Q. (trm A i, w, i) \<in> votes (install i (trm A i)
        (vote A i) n l (B\<lparr>counted := insert (trm A i, i, f) (counted B)\<rparr>)))"
      using assms(6) \<open>l\<close> by (intro exI [of _ Q]) (simp add: D T_def)
  qed (simp_all add: B)
  ultimately show ?thesis by (simp add: election_inv_def)
qed

lemma keeps_lose:
  assumes "election_inv M A" "\<And>i j. W i j \<subseteq># wire A i j"
  shows "election_inv M (A\<lparr>wire := W\<rparr>)"
proof -
  have inv: "votes_ok M A" "tokens_ok M A" "tally_ok M A" "leaders_ok M A"
    using assms(1) by (simp_all add: election_inv_def)
  have "tokens (A\<lparr>wire := W\<rparr>) T c v \<le> tokens A T c v" for T c v
    using assms(2) by (simp add: tokens_def mset_subset_eq_count add_mono)
  then have "tokens_ok M (A\<lparr>wire := W\<rparr>)"
    by (rule tokens_ok_less [OF inv(2)])
      (simp_all, metis tokens_ok_dest(3) [OF inv(2)] mset_subset_eqD [OF assms(2)])
  with inv show ?thesis
    using mset_subset_eqD [OF assms(2)]
    by (simp add: election_inv_def votes_ok_def tally_ok_def leaders_ok_def)
qed

lemma election_step_inv:
  assumes "finite M" "election_step M A B" "election_inv M A"
  shows "election_inv M B"
  using assms(2,3)
  by cases (blast intro: keeps_idle keeps_newer keeps_campaign assms(1) keeps_grant keeps_lose keeps_count)+

lemma election_steps_inv:
  assumes "finite M" "(election_step M)\<^sup>*\<^sup>* A B" "election_inv M A"
  shows "election_inv M B"
  using assms(2,3) by induction (auto intro: election_step_inv [OF assms(1)])

text \<open>The history of leaders only grows.\<close>

lemma election_step_leaders: "election_step M A B \<Longrightarrow> leaders A \<subseteq> leaders B"
  by (cases rule: election_step.cases) (auto simp: on_link_def)

lemma election_steps_leaders: "(election_step M)\<^sup>*\<^sup>* A B \<Longrightarrow> leaders A \<subseteq> leaders B"
  by (induction rule: rtranclp_induct) (auto dest: election_step_leaders)

end
