(* ===== verification/Raft_Election.thy ===== *)
theory Raft_Election
  imports Raft_Node_Safety Election
begin

text \<open>
  What the events of a node mean for an election: the vote messages that each handler of
  \<open>Raft_Node\<close> queues, and the five effects (\<open>elects\<close>) that an event can have on the term, the vote,
  the tally, the leadership and the vote messages of a node. They correspond to the steps of the
  protocol of \<open>Election\<close>; \<open>Raft_Cluster\<close> puts the nodes together.
\<close>

section \<open>Queues\<close>

definition queue :: "('c, 'o, 's, 'st) raft_node \<Rightarrow> node_id \<Rightarrow> 'c raft_message list" where
  "queue s j = (case hm_get (transport_work s) j of Some q \<Rightarrow> q | None \<Rightarrow> [])"

text \<open>The messages that matter for an election.\<close>

definition is_vote_msg :: "'c raft_message \<Rightarrow> bool" where
  "is_vote_msg m = (case m of VoteRequest _ \<Rightarrow> True | VoteResponse r \<Rightarrow> vresp_vote_granted r | _ \<Rightarrow> False)"

definition vote_msgs :: "('c, 'o, 's, 'st) raft_node \<Rightarrow> node_id \<Rightarrow> 'c raft_message list" where
  "vote_msgs s j = filter is_vote_msg (queue s j)"

lemma is_vote_msg_simps [simp]:
  "\<not> is_vote_msg (AppendRequest a)" "\<not> is_vote_msg (AppendResponse b)" "is_vote_msg (VoteRequest v)"
  "is_vote_msg (VoteResponse r) = vresp_vote_granted r"
  by (simp_all add: is_vote_msg_def)

lemma queue_cong: "transport_work s = transport_work t \<Longrightarrow> queue s j = queue t j"
  by (simp add: queue_def)

lemma vote_msgs_cong: "transport_work s = transport_work t \<Longrightarrow> vote_msgs s j = vote_msgs t j"
  by (simp add: vote_msgs_def queue_def)

lemma queue_send:
  "queue (send_message p m s) j = queue s j \<or> (j = p \<and> queue (send_message p m s) j = queue s j @ [m])"
  by (auto simp: send_message_def queue_def split: option.split)

lemma vote_msgs_send_other: "\<not> is_vote_msg m \<Longrightarrow> vote_msgs (send_message p m s) j = vote_msgs s j"
  using queue_send [of p m s j] by (auto simp: vote_msgs_def)

lemma vote_msgs_send:
  "vote_msgs (send_message p m s) j = vote_msgs s j \<or>
   (j = p \<and> is_vote_msg m \<and> vote_msgs (send_message p m s) j = vote_msgs s j @ [m])"
  using queue_send [of p m s j] by (auto simp: vote_msgs_def split: if_splits)

lemma vote_msgs_broadcast_fold:
  "distinct ps \<Longrightarrow> vote_msgs (fold (\<lambda>p. send_message p m) ps s) j = vote_msgs s j \<or>
     (j \<in> set ps \<and> vote_msgs (fold (\<lambda>p. send_message p m) ps s) j = vote_msgs s j @ [m])"
proof (induction ps arbitrary: s)
  case (Cons p ps)
  have "distinct ps" "p \<notin> set ps" using Cons.prems by auto
  with vote_msgs_send [of p m s j] Cons.IH [of "send_message p m s"] show ?case
    by (elim disjE conjE) auto
qed simp

lemma heartbeat_loop_vote_msgs: "heartbeat_loop ps s = Inr t \<Longrightarrow> vote_msgs t j = vote_msgs s j"
proof (induction ps arbitrary: s)
  case (Cons p ps)
  then obtain u where u: "heartbeat_to p s = Inr u" "heartbeat_loop ps u = Inr t"
    by (auto simp: result_simps)
  have "vote_msgs u j = vote_msgs s j"
    using u(1) by (auto simp: heartbeat_to_def result_simps vote_msgs_send_other
        split: role.splits option.splits if_splits)
  with Cons.IH [OF u(2)] show ?case by simp
qed simp

lemma on_heartbeat_vote_msgs: "on_heartbeat s = Inr t \<Longrightarrow> vote_msgs t j = vote_msgs s j"
  by (simp add: on_heartbeat_def heartbeat_loop_vote_msgs)

lemma apply_committed_vote_msgs: "apply_committed E s = Inr t \<Longrightarrow> vote_msgs t j = vote_msgs s j"
  by (auto simp: vote_msgs_def queue_def dest!: apply_committed_frame)

lemma vote_msgs_upd [simp]:
  "vote_msgs (persist_state E s) j = vote_msgs s j" "vote_msgs (advance_commit s) j = vote_msgs s j"
  "vote_msgs (step_down T s) j = vote_msgs s j" "vote_msgs (leader_state s) j = vote_msgs s j"
  "vote_msgs (accept_entries msg s) j = vote_msgs s j" "vote_msgs (send_reply c v s) j = vote_msgs s j"
  "vote_msgs (insert_pending i c s) j = vote_msgs s j"
  "vote_msgs (s\<lparr>election_deadline := d\<rparr>) j = vote_msgs s j" "vote_msgs (s\<lparr>role := r\<rparr>) j = vote_msgs s j"
  "vote_msgs (s\<lparr>node_log := lg\<rparr>) j = vote_msgs s j" "vote_msgs (s\<lparr>voted_for := x\<rparr>) j = vote_msgs s j"
  "vote_msgs (s\<lparr>current_term := y\<rparr>) j = vote_msgs s j"
  by (simp_all add: vote_msgs_def queue_def leader_state_def)

section \<open>The election messages of each event\<close>

text \<open>What a node adds to its queue towards \<open>j\<close>: vote requests only when it starts an election, a
  granted vote only in answer to a vote request from \<open>j\<close>.\<close>

lemma become_leader_vote_msgs: "become_leader E s = Inr t \<Longrightarrow> vote_msgs t j = vote_msgs s j"
  by (erule become_leader_cases) (simp add: apply_committed_vote_msgs on_heartbeat_vote_msgs)

lemma become_candidate_vote_msgs:
  assumes "become_candidate E s = Inr t" "distinct (peer_ids s)"
  shows "vote_msgs t j = vote_msgs s j
    \<or> (j \<in> set (peer_ids s) \<and> vote_msgs t j = vote_msgs s j @ [vote_request_of s])"
  using assms(1)
proof (cases rule: become_candidate_cases)
  case (single d)
  then show ?thesis by (simp add: become_leader_vote_msgs)
next
  case (ask d)
  then show ?thesis
    using vote_msgs_broadcast_fold [OF assms(2), of "vote_request_of s"
        "persist_state E (candidate_state s d)" j]
    by (simp add: broadcast_message_def)
qed

lemma append_response_vote_msgs: "append_response E f msg s = Inr t \<Longrightarrow> vote_msgs t j = vote_msgs s j"
  by (erule append_response_cases) (auto simp: apply_committed_vote_msgs)

lemma follows_vote_msgs: "follows E msg s u \<Longrightarrow> vote_msgs u j = vote_msgs s j"
  by (erule follows.cases) auto

lemma append_request_vote_msgs: "append_request E f msg s = Inr t \<Longrightarrow> vote_msgs t j = vote_msgs s j"
  by (erule append_request_cases)
    (auto simp: vote_msgs_send_other apply_committed_vote_msgs follows_vote_msgs elim!: append_request_log_cases)

lemma vote_checked_vote_msgs: "vote_checked E msg s u \<Longrightarrow> vote_msgs u j = vote_msgs s j"
  by (erule vote_checked.cases) auto

lemma vote_checked_term: "vote_checked E msg s u \<Longrightarrow> current_term u = vreq_term msg"
  by (erule vote_checked.cases) (auto simp: max_def)

lemma vote_request_vote_msgs:
  assumes "vote_request E f msg s = Inr t"
  shows "vote_msgs t j = vote_msgs s j
    \<or> (j = f \<and> current_term t = vreq_term msg \<and> voted_for t = Some (vreq_candidate_id msg)
       \<and> vote_msgs t j = vote_msgs s j @
           [VoteResponse \<lparr>vresp_term = vreq_term msg, vresp_vote_granted = True\<rparr>])"
  using assms
proof (cases rule: vote_request_cases)
  case stale
  then show ?thesis by (simp add: vote_msgs_send_other)
next
  case (granted u d)
  then show ?thesis
    using vote_msgs_send [of f "VoteResponse \<lparr>vresp_term = current_term u, vresp_vote_granted = True\<rparr>"
        "persist_state E (u\<lparr>voted_for := Some (vreq_candidate_id msg), election_deadline := d\<rparr>)" j]
    by (auto simp: vote_checked_vote_msgs vote_checked_term)
next
  case (rejected u)
  then show ?thesis by (simp add: vote_msgs_send_other vote_checked_vote_msgs)
qed

lemma vote_response_vote_msgs: "vote_response E msg s = Inr t \<Longrightarrow> vote_msgs t j = vote_msgs s j"
  by (erule vote_response_cases) (auto simp: become_leader_vote_msgs)

lemma client_command_vote_msgs: "client_command E cmd s = Inr t \<Longrightarrow> vote_msgs t j = vote_msgs s j"
  by (erule client_command_cases) (auto simp: apply_committed_vote_msgs on_heartbeat_vote_msgs)

section \<open>What an event does to an election\<close>

definition votes_of :: "role \<Rightarrow> nat option" where
  "votes_of r = (case r of Candidate v \<Rightarrow> Some v | _ \<Rightarrow> None)"

lemma votes_of_simps [simp]:
  "votes_of (Follower l) = None" "votes_of (Candidate v) = Some v" "votes_of (Leader ni mi) = None"
  by (simp_all add: votes_of_def)

text \<open>The part of a node that an election sees.\<close>

definition election_view where
  "election_view s = (current_term s, voted_for s, votes_of (role s), is_leader (role s), vote_msgs s)"

text \<open>The five effects an event can have on the view; the event is a message \<open>m\<close> from \<open>f\<close>, or none.\<close>

inductive elects ::
    "(node_id \<times> 'c raft_message) option \<Rightarrow> ('c, 'o, 's, 'st) raft_node \<Rightarrow> ('c, 'o, 's, 'st) raft_node \<Rightarrow> bool"
  for m s t where
  el_idle: "current_term t = current_term s \<Longrightarrow> voted_for t = voted_for s \<Longrightarrow>
    votes_of (role t) = None \<or> votes_of (role t) = votes_of (role s) \<Longrightarrow>
    is_leader (role t) \<longrightarrow> is_leader (role s) \<Longrightarrow> vote_msgs t = vote_msgs s \<Longrightarrow> elects m s t"
| el_newer: "current_term s < current_term t \<Longrightarrow> voted_for t = None \<Longrightarrow> votes_of (role t) = None \<Longrightarrow>
    \<not> is_leader (role t) \<Longrightarrow> vote_msgs t = vote_msgs s \<Longrightarrow> elects m s t"
| el_campaign: "current_term s < current_term t \<Longrightarrow> voted_for t = Some (node_id s) \<Longrightarrow>
    votes_of (role t) = Some 1 \<and> \<not> is_leader (role t)
      \<or> votes_of (role t) = None \<and> is_leader (role t) \<and> has_majority 1 (length (peer_ids s) + 1) \<Longrightarrow>
    J \<subseteq> set (peer_ids s) \<Longrightarrow> vreq_candidate_id r = node_id s \<Longrightarrow> vreq_term r = current_term t \<Longrightarrow>
    (\<And>j. vote_msgs t j = vote_msgs s j @ (if j \<in> J then [VoteRequest r] else [])) \<Longrightarrow> elects m s t"
| el_grant: "m = Some (f, VoteRequest r) \<Longrightarrow> current_term t = vreq_term r \<Longrightarrow>
    voted_for t = Some (vreq_candidate_id r) \<Longrightarrow>
    current_term s < vreq_term r \<and> votes_of (role t) = None \<and> \<not> is_leader (role t)
      \<or> current_term s = vreq_term r \<and> (voted_for s = None \<or> voted_for s = Some (vreq_candidate_id r))
        \<and> votes_of (role t) = votes_of (role s) \<and> is_leader (role t) = is_leader (role s) \<Longrightarrow>
    g = [] \<or> g = [VoteResponse \<lparr>vresp_term = vreq_term r, vresp_vote_granted = True\<rparr>] \<Longrightarrow>
    (\<And>j. vote_msgs t j = vote_msgs s j @ (if j = f then g else [])) \<Longrightarrow> elects m s t"
| el_count: "m = Some (f, VoteResponse r) \<Longrightarrow> vresp_vote_granted r \<Longrightarrow> vresp_term r = current_term s \<Longrightarrow>
    votes_of (role s) = Some v \<Longrightarrow> current_term t = current_term s \<Longrightarrow> voted_for t = voted_for s \<Longrightarrow>
    votes_of (role t) = Some (v + 1) \<and> \<not> is_leader (role t)
      \<or> votes_of (role t) = None \<and> is_leader (role t) \<and> has_majority (v + 1) (length (peer_ids s) + 1) \<Longrightarrow>
    vote_msgs t = vote_msgs s \<Longrightarrow> elects m s t"

lemma elects_cong:
  assumes "elects m s t" "election_view u = election_view t"
  shows "elects m s u"
proof -
  have eq: "current_term u = current_term t" "voted_for u = voted_for t" "votes_of (role u) = votes_of (role t)"
      "is_leader (role u) = is_leader (role t)" "vote_msgs u = vote_msgs t"
    using assms(2) by (simp_all add: election_view_def)
  from assms(1) show ?thesis
  proof cases
    case el_idle
    then show ?thesis by (intro elects.el_idle; simp only: eq)
  next
    case el_newer
    then show ?thesis by (intro elects.el_newer; simp only: eq)
  next
    case el_campaign
    then show ?thesis by (intro elects.el_campaign; simp only: eq)
  next
    case el_grant
    then show ?thesis by (intro elects.el_grant; simp only: eq)
  next
    case el_count
    then show ?thesis by (intro elects.el_count; simp only: eq)
  qed
qed

lemma elects_refl: "election_view t = election_view s \<Longrightarrow> elects m s t"
  by (auto simp: election_view_def intro: el_idle)

lemma vote_msgs_ext: "(\<And>j. vote_msgs t j = vote_msgs s j) \<Longrightarrow> vote_msgs t = vote_msgs s"
  by (rule ext)

lemma view_eqI:
  "current_term t = current_term s \<Longrightarrow> voted_for t = voted_for s \<Longrightarrow> role t = role s \<Longrightarrow>
   (\<And>j. vote_msgs t j = vote_msgs s j) \<Longrightarrow> election_view t = election_view s"
  by (auto simp: election_view_def)

lemma apply_committed_view: "apply_committed E s = Inr t \<Longrightarrow> election_view t = election_view s"
  by (rule view_eqI) (auto simp: apply_committed_vote_msgs dest!: apply_committed_frame)

lemma on_heartbeat_view: "on_heartbeat s = Inr t \<Longrightarrow> election_view t = election_view s"
  by (rule view_eqI) (auto simp: on_heartbeat_vote_msgs dest!: on_heartbeat_frame)

lemma become_leader_view:
  assumes "become_leader E s = Inr t"
  shows "election_view t = (current_term s, voted_for s, None, True, vote_msgs s)"
  using assms
  by (rule become_leader_cases)
    (auto simp: election_view_def leader_state_def fun_eq_iff apply_committed_vote_msgs on_heartbeat_vote_msgs
      dest!: apply_committed_view on_heartbeat_view)

lemma step_down_elects:
  "election_view t = election_view (step_down T s) \<Longrightarrow> current_term s \<le> T \<Longrightarrow> elects m s t"
  by (cases "current_term s < T")
    (auto simp: election_view_def fun_eq_iff max_def intro: el_idle el_newer)

lemma stepped_down_elects [simp]:
  assumes "current_term s \<le> T"
  shows "elects m s ((persist_state E (step_down T s))\<lparr>election_deadline := d\<rparr>)"
    "elects m s ((persist_state E (step_down T s))\<lparr>role := Follower l, election_deadline := d\<rparr>)"
  by (rule step_down_elects [OF _ assms]; simp add: election_view_def fun_eq_iff)+

lemma become_candidate_elects:
  assumes "become_candidate E s = Inr t" "distinct (peer_ids s)"
  shows "elects m s t"
  using assms(1)
proof (cases rule: become_candidate_cases)
  case (single d)
  then show ?thesis
    using become_leader_view [OF single(3)] word_less_succ [of "current_term s"]
    by (intro el_campaign [where J = "{}" and r = "\<lparr>vreq_term = current_term t,
          vreq_candidate_id = node_id s, vreq_last_log_index = 0, vreq_last_log_term = 0\<rparr>"])
      (auto simp: election_view_def)
next
  case (ask d)
  define J where "J = {j. vote_msgs t j \<noteq> vote_msgs s j}"
  have sel: "current_term t = current_term s + 1" "voted_for t = Some (node_id s)" "role t = Candidate 1"
    using ask(4) broadcast_message_frame [of "vote_request_of s" "persist_state E (candidate_state s d)"] by auto
  have msgs: "vote_msgs t j = vote_msgs s j @ (if j \<in> J then [vote_request_of s] else [])"
      "j \<in> J \<Longrightarrow> j \<in> set (peer_ids s)" for j
    using become_candidate_vote_msgs [OF assms, of j] by (auto simp: J_def)
  show ?thesis
    by (rule el_campaign [OF _ _ _ _ _ _ msgs(1)])
      (use sel msgs(2) word_less_succ [OF ask(1)] in auto)
qed

lemma append_response_elects: "append_response E f msg s = Inr t \<Longrightarrow> elects m s t"
  by (erule append_response_cases)
    (simp_all add: elects_refl, (rule elects_refl, auto simp: election_view_def fun_eq_iff dest!: apply_committed_view)+)

lemma follows_elects: "follows E msg s u \<Longrightarrow> elects m s u"
  by (erule follows.cases)
    (auto intro: el_idle simp: fun_eq_iff)

lemma append_request_log_view: "append_request_log E f msg s = Inr t \<Longrightarrow> election_view t = election_view s"
  by (erule append_request_log_cases)
    (auto simp: election_view_def fun_eq_iff vote_msgs_send_other dest!: apply_committed_view)

lemma append_request_elects: "append_request E f msg s = Inr t \<Longrightarrow> elects m s t"
  by (erule append_request_cases)
    (auto intro: elects_refl elects_cong follows_elects append_request_log_view
      simp: election_view_def fun_eq_iff vote_msgs_send_other)

lemma vote_checked_elects: "vote_checked E msg s u \<Longrightarrow> elects m s u"
  by (erule vote_checked.cases)
    (auto intro: elects_refl)

lemma vote_request_elects:
  assumes "vote_request E f msg s = Inr t"
  shows "elects (Some (f, VoteRequest msg)) s t"
  using assms
proof (cases rule: vote_request_cases)
  case stale
  then show ?thesis
    by (intro elects_refl) (simp add: election_view_def fun_eq_iff vote_msgs_send_other)
next
  case (granted u d)
  define g where "g = drop (length (vote_msgs s f)) (vote_msgs t f)"
  have msgs: "g = [] \<or> g = [VoteResponse \<lparr>vresp_term = vreq_term msg, vresp_vote_granted = True\<rparr>]"
      "vote_msgs t j = vote_msgs s j @ (if j = f then g else [])" for j
    using vote_request_vote_msgs [OF assms, of f] vote_request_vote_msgs [OF assms, of j] by (auto simp: g_def)
  have t: "current_term t = vreq_term msg" "voted_for t = Some (vreq_candidate_id msg)" "role t = role u"
    using granted(2,5) vote_checked_term [OF granted(2)] by auto
  show ?thesis
    by (rule el_grant [OF refl t(1,2) _ msgs])
      (use granted(2,4) t(3) in \<open>auto simp: grants_def elim!: vote_checked.cases\<close>)
next
  case (rejected u)
  then have "election_view t = election_view u"
    by (simp add: election_view_def fun_eq_iff vote_msgs_send_other)
  then show ?thesis
    by (rule elects_cong [OF vote_checked_elects [OF rejected(2)]])
qed

lemma vote_response_elects:
  assumes "vote_response E msg s = Inr t"
  shows "elects (Some (f, VoteResponse msg)) s t"
  using assms
proof (cases rule: vote_response_cases)
  case stale
  then show ?thesis by (simp add: elects_refl)
next
  case (newer d)
  then show ?thesis
    by (intro step_down_elects [where T = "vresp_term msg"]) (auto simp: election_view_def fun_eq_iff)
next
  case ignored
  then show ?thesis by (simp add: elects_refl)
next
  case (counted v)
  then show ?thesis by (intro el_count [where v = v]) (auto simp: fun_eq_iff)
next
  case (elected v)
  from become_leader_view [OF elected(5)] elected(1-4) show ?thesis
    by (intro el_count [where v = v]) (auto simp: election_view_def fun_eq_iff)
qed

lemma client_command_elects: "client_command E cmd s = Inr t \<Longrightarrow> elects m s t"
  by (erule client_command_cases)
    (auto intro!: elects_refl simp: election_view_def fun_eq_iff dest!: apply_committed_view on_heartbeat_view)

text \<open>Every event has one of the five effects.\<close>

definition event_message :: "'c raft_event \<Rightarrow> (node_id \<times> 'c raft_message) option" where
  "event_message ev =
     (case ev of MessageReceived e \<Rightarrow> Some (env_from e, env_message e) | _ \<Rightarrow> None)"

lemma on_event_elects:
  assumes "on_event E ev s = Inr t" "distinct (peer_ids s)"
  shows "elects (event_message ev) s t"
  using assms
  by (auto simp: on_event_def handle_message_def event_message_def
      become_candidate_elects append_response_elects append_request_elects vote_request_elects
      vote_response_elects client_command_elects elects_refl on_heartbeat_view
      split: raft_event.splits raft_message.splits)

end
