(* ===== verification/Raft_Cluster.thy ===== *)
theory Raft_Cluster
  imports Raft_Election
begin

text \<open>
  A cluster of Raft nodes: every member runs the node of \<open>Raft_Node\<close>, the worker tasks move messages
  from the nodes' queues into the network, and the network delivers each message at most once, in any
  order, or loses it. A node may stop at any moment between two events, or when its state machine panics
  in the middle of one, and come back through \<open>RaftNode::new\<close> on its storage. The step relation covers every event of \<open>launch\<close>.

  The cluster implements the protocol of \<open>Election\<close> (\<open>cluster_simulates\<close>), from which follows election
  safety: a term never has two leaders, in one state or over time.
\<close>

section \<open>The cluster\<close>

record ('c, 'o, 's, 'st) cluster =
  nodes :: "node_id \<Rightarrow> ('c, 'o, 's, 'st) raft_node"
  net :: "node_id \<Rightarrow> node_id \<Rightarrow> 'c raft_message multiset"

definition set_node ::
    "node_id \<Rightarrow> ('c, 'o, 's, 'st) raft_node \<Rightarrow> ('c, 'o, 's, 'st) cluster \<Rightarrow> ('c, 'o, 's, 'st) cluster" where
  "set_node i t C = C\<lparr>nodes := (nodes C)(i := t)\<rparr>"

definition on_net ::
    "node_id \<Rightarrow> node_id \<Rightarrow> ('c raft_message multiset \<Rightarrow> 'c raft_message multiset)
     \<Rightarrow> ('c, 'o, 's, 'st) cluster \<Rightarrow> ('c, 'o, 's, 'st) cluster" where
  "on_net i j f C = C\<lparr>net := (net C)(i := (net C i)(j := f (net C i j)))\<rparr>"

text \<open>Clock and random source may differ from event to event.\<close>

definition at_time :: "nat \<Rightarrow> (u64 \<Rightarrow> u64 \<Rightarrow> u64) \<Rightarrow> ('c, 'o, 's, 'st, 'b) raft_env
    \<Rightarrow> ('c, 'o, 's, 'st, 'b) raft_env" where
  "at_time n r E = E\<lparr>now_ms := n, random_range := r\<rparr>"

text \<open>The steps in which no node dies in the middle of an event.\<close>

inductive alive_step ::
    "('c, 'o, 's, 'st, 'b) raft_env \<Rightarrow> node_id list \<Rightarrow> ('c, 'o, 's, 'st) cluster
     \<Rightarrow> ('c, 'o, 's, 'st) cluster \<Rightarrow> bool" for E ms C where
  local: "i \<in> set ms \<Longrightarrow> event_message ev = None \<Longrightarrow> event_enabled ev (nodes C i) \<Longrightarrow>
    on_event (at_time n r E) ev (nodes C i) = Inr t \<Longrightarrow> alive_step E ms C (set_node i t C)"
| transmit: "i \<in> set ms \<Longrightarrow> worker_take j (nodes C i) = Some (m, t) \<Longrightarrow>
    alive_step E ms C (on_net i j (add_mset m) (set_node i t C))"
| deliver: "j \<in> set ms \<Longrightarrow> m \<in># net C i j \<Longrightarrow>
    on_event (at_time n r E) (MessageReceived \<lparr>env_from = i, env_message = m\<rparr>) (nodes C j) = Inr t \<Longrightarrow>
    alive_step E ms C (set_node j t (on_net i j (\<lambda>w. w - {#m#}) C))"
| drop_msg: "m \<in># net C i j \<Longrightarrow> alive_step E ms C (on_net i j (\<lambda>w. w - {#m#}) C)"
| restart: "i \<in> set ms \<Longrightarrow>
    new_node (at_time n r E) i ms sm (storage (nodes C i)) cfg = Inr t \<Longrightarrow>
    alive_step E ms C (set_node i t C)"

text \<open>A panic of the state machine ends the task of a node in the middle of an event. \<open>f\<close> stands for what the
  state machine has done in this event before; what the handler has stored stays, and the node comes back on this storage.\<close>

definition dying :: "('s \<Rightarrow> 'c \<Rightarrow> 's \<times> 'o) \<Rightarrow> ('c, 'o, 's, 'st, 'b) raft_env \<Rightarrow> ('c, 'o, 's, 'st, 'b) raft_env" where
  "dying f E = E\<lparr>sm_apply := \<lambda>sm c. Inr (f sm c)\<rparr>"

inductive cluster_step ::
    "('c, 'o, 's, 'st, 'b) raft_env \<Rightarrow> node_id list \<Rightarrow> ('c, 'o, 's, 'st) cluster
     \<Rightarrow> ('c, 'o, 's, 'st) cluster \<Rightarrow> bool" for E ms C where
  alive: "alive_step E ms C D \<Longrightarrow> cluster_step E ms C D"
| crash: "i \<in> set ms \<Longrightarrow> event_message ev = None \<Longrightarrow> event_enabled ev (nodes C i) \<Longrightarrow>
    on_event (at_time n r (dying f E)) ev (nodes C i) = Inr t \<Longrightarrow>
    new_node (at_time n' r' E) i ms sm (storage t) cfg = Inr u \<Longrightarrow> cluster_step E ms C (set_node i u C)"
| crash_deliver: "j \<in> set ms \<Longrightarrow> m \<in># net C i j \<Longrightarrow>
    on_event (at_time n r (dying f E)) (MessageReceived \<lparr>env_from = i, env_message = m\<rparr>) (nodes C j) = Inr t \<Longrightarrow>
    new_node (at_time n' r' E) j ms sm (storage t) cfg = Inr u \<Longrightarrow>
    cluster_step E ms C (set_node j u (on_net i j (\<lambda>w. w - {#m#}) C))"

lemmas step_local = cluster_step.alive [OF alive_step.local]
lemmas step_transmit = cluster_step.alive [OF alive_step.transmit]
lemmas step_deliver = cluster_step.alive [OF alive_step.deliver]

text \<open>A fresh cluster: every member starts on an empty storage.\<close>

definition cluster_init ::
    "('c, 'o, 's, 'st, 'b) raft_env \<Rightarrow> node_id list \<Rightarrow> ('c, 'o, 's, 'st) cluster \<Rightarrow> bool" where
  "cluster_init E ms C \<longleftrightarrow>
     (\<forall>i \<in> set ms. \<exists>n r sm st cfg. load_state E st = Inr None
        \<and> new_node (at_time n r E) i ms sm st cfg = Inr (nodes C i))
     \<and> net C = (\<lambda>i j. {#})"

definition leads :: "('c, 'o, 's, 'st) cluster \<Rightarrow> node_id \<Rightarrow> u64 \<Rightarrow> bool" where
  "leads C i T \<longleftrightarrow> is_leader (role (nodes C i)) \<and> current_term (nodes C i) = T"

lemma set_node_sel [simp]:
  "nodes (set_node i t C) = (nodes C)(i := t)" "net (set_node i t C) = net C"
  by (simp_all add: set_node_def)

lemma set_node_twice: "set_node i u (set_node i t C) = set_node i u C"
  by (simp add: set_node_def)

lemma on_net_sel [simp]:
  "nodes (on_net i j f C) = nodes C"
  "net (on_net i j f C) a b = (if a = i \<and> b = j then f (net C i j) else net C a b)"
  by (simp_all add: on_net_def)

text \<open>A crash is an event and a restart.\<close>

lemma new_node_dying: "new_node (at_time n r (dying f E)) i ms sm st cfg = new_node (at_time n r E) i ms sm st cfg"
proof -
  have "from_bytes (at_time n r (dying f E)) = from_bytes (at_time n r E)" "load_state (at_time n r (dying f E)) = load_state (at_time n r E)"
      "now_ms (at_time n r (dying f E)) = now_ms (at_time n r E)"
    by (simp_all add: dying_def at_time_def)
  then show ?thesis by (simp only: new_node_def restore_state_def)
qed

lemma cluster_step_split:
  assumes "cluster_step E ms C D"
  obtains (alive) "alive_step E ms C D"
    | (crash) f i B where "i \<in> set ms" "alive_step (dying f E) ms C B" "alive_step (dying f E) ms B D"
        "\<exists>n r ev t. on_event (at_time n r (dying f E)) ev (nodes C i) = Inr t \<and> nodes B = (nodes C)(i := t)"
        "\<And>j. j \<noteq> i \<Longrightarrow> nodes D j = nodes C j" "\<exists>n r sm st cfg. new_node (at_time n r E) i ms sm st cfg = Inr (nodes D i)"
  using assms
proof cases
  case (crash i ev n r f t n' r' sm cfg u)
  let ?B = "set_node i t C"
  have "alive_step (dying f E) ms ?B (set_node i u ?B)"
    by (rule alive_step.restart [OF crash(2)]) (use crash(6) in \<open>simp add: new_node_dying\<close>)
  then have "alive_step (dying f E) ms ?B D" by (simp add: crash(1) set_node_twice)
  moreover have "\<exists>n r sm st cfg. new_node (at_time n r E) i ms sm st cfg = Inr (nodes D i)"
    using crash(6) unfolding crash(1) by (simp del: split_paired_Ex) blast
  moreover have "nodes D j = nodes C j" if "j \<noteq> i" for j using that by (simp add: crash(1))
  moreover have "\<exists>n r ev t. on_event (at_time n r (dying f E)) ev (nodes C i) = Inr t \<and> nodes ?B = (nodes C)(i := t)"
    using crash(5) by auto
  ultimately show ?thesis using that(2) [OF crash(2) alive_step.local [OF crash(2-5)]] by blast
next
  case (crash_deliver j m i n r f t n' r' sm cfg u)
  let ?B = "set_node j t (on_net i j (\<lambda>w. w - {#m#}) C)"
  have "alive_step (dying f E) ms ?B (set_node j u ?B)"
    by (rule alive_step.restart [OF crash_deliver(2)]) (use crash_deliver(5) in \<open>simp add: new_node_dying\<close>)
  then have "alive_step (dying f E) ms ?B D" by (simp add: crash_deliver(1) set_node_twice)
  moreover have "\<exists>n r sm st cfg. new_node (at_time n r E) j ms sm st cfg = Inr (nodes D j)"
    using crash_deliver(5) unfolding crash_deliver(1) by (simp del: split_paired_Ex) blast
  moreover have "nodes D k = nodes C k" if "k \<noteq> j" for k using that by (simp add: crash_deliver(1))
  moreover have "\<exists>n r ev t. on_event (at_time n r (dying f E)) ev (nodes C j) = Inr t \<and> nodes ?B = (nodes C)(j := t)"
    using crash_deliver(4) by auto
  ultimately show ?thesis using that(2) [OF crash_deliver(2) alive_step.deliver [OF crash_deliver(2-4)]] by blast
qed (rule that)

section \<open>What stays fixed\<close>

definition fixed_part :: "('c, 'o, 's, 'st) raft_node \<Rightarrow> node_id \<times> node_id list" where
  "fixed_part s = (node_id s, peer_ids s)"

lemma apply_committed_fixed: "apply_committed E s = Inr t \<Longrightarrow> fixed_part t = fixed_part s"
  by (auto simp: fixed_part_def dest!: apply_committed_frame)

lemma on_heartbeat_fixed: "on_heartbeat s = Inr t \<Longrightarrow> fixed_part t = fixed_part s"
  by (auto simp: fixed_part_def dest!: on_heartbeat_frame)

lemma fixed_part_upd [simp]:
  "fixed_part (persist_state E s) = fixed_part s" "fixed_part (advance_commit s) = fixed_part s"
  "fixed_part (step_down T s) = fixed_part s" "fixed_part (leader_state s) = fixed_part s"
  "fixed_part (accept_entries msg s) = fixed_part s" "fixed_part (send_reply c v s) = fixed_part s"
  "fixed_part (insert_pending k c s) = fixed_part s" "fixed_part (send_message p m s) = fixed_part s"
  "fixed_part (s\<lparr>election_deadline := d\<rparr>) = fixed_part s" "fixed_part (s\<lparr>role := r\<rparr>) = fixed_part s"
  "fixed_part (s\<lparr>node_log := lg\<rparr>) = fixed_part s" "fixed_part (s\<lparr>voted_for := x\<rparr>) = fixed_part s"
  "fixed_part (s\<lparr>current_term := y\<rparr>) = fixed_part s"
  "fixed_part (s\<lparr>transport_work := w\<rparr>) = fixed_part s"
  by (simp_all add: fixed_part_def leader_state_def)

lemma broadcast_message_fixed [simp]: "fixed_part (broadcast_message m s) = fixed_part s"
  using broadcast_message_frame [of m s] by auto

lemma become_leader_fixed: "become_leader E s = Inr t \<Longrightarrow> fixed_part t = fixed_part s"
  by (erule become_leader_cases) (simp add: apply_committed_fixed on_heartbeat_fixed)

lemma append_request_fixed: "append_request E f msg s = Inr t \<Longrightarrow> fixed_part t = fixed_part s"
  by (erule append_request_cases)
    (auto simp: apply_committed_fixed elim!: append_request_log_cases follows.cases)

lemma on_event_fixed:
  assumes "on_event E ev s = Inr t"
  shows "fixed_part t = fixed_part s"
proof -
  have "append_response E f msg s = Inr t \<Longrightarrow> fixed_part t = fixed_part s" for f msg
    by (erule append_response_cases) (auto simp: apply_committed_fixed)
  moreover have "vote_request E f msg s = Inr t \<Longrightarrow> fixed_part t = fixed_part s" for f msg
    by (erule vote_request_cases) (auto elim!: vote_checked.cases)
  moreover have "vote_response E msg s = Inr t \<Longrightarrow> fixed_part t = fixed_part s" for msg
    by (erule vote_response_cases) (auto simp: become_leader_fixed)
  moreover have "client_command E cmd s = Inr t \<Longrightarrow> fixed_part t = fixed_part s" for cmd
    by (erule client_command_cases) (auto simp: apply_committed_fixed on_heartbeat_fixed)
  moreover have "become_candidate E s = Inr t \<Longrightarrow> fixed_part t = fixed_part s"
    by (erule become_candidate_cases) (auto simp: become_leader_fixed)
  ultimately show ?thesis
    using assms append_request_fixed
    by (auto simp: on_event_def handle_message_def on_heartbeat_fixed
        split: raft_event.splits raft_message.splits)
qed

text \<open>Restarting: the persistent fields survive, the queues start empty.\<close>

lemma hm_get_fold_init:
  "hm_get (fold (\<lambda>p. hm_insert p v) ps w) j = (if j \<in> set ps then Some v else hm_get w j)"
  by (induction ps arbitrary: w) auto

lemma queue_init: "queue (init_transport_workers s) j = (if j \<in> set (peer_ids s) then [] else queue s j)"
  by (simp add: queue_def init_transport_workers_def hm_get_fold_init)

lemma new_node_fresh:
  assumes "new_node E i ms sm st cfg = Inr t"
  shows "node_id t = i" "peer_ids t = filter (\<lambda>p. p \<noteq> i) ms" "role t = Follower None" "vote_msgs t j = []"
    "storage t = st"
proof -
  obtain u where u: "t = init_transport_workers u" "transport_work u = []" "node_id u = i"
      "peer_ids u = filter (\<lambda>p. p \<noteq> i) ms" "role u = Follower None" "storage u = st"
    using assms by (auto simp: new_node_def restore_state_def Let_def split: sum.splits option.splits)
  then show "node_id t = i" "peer_ids t = filter (\<lambda>p. p \<noteq> i) ms" "role t = Follower None" "storage t = st"
    by (simp_all add: init_transport_workers_def)
  show "vote_msgs t j = []"
    using u(1) queue_init [of u j] by (simp add: vote_msgs_def queue_def u(2))
qed

lemma new_node_persistent:
  assumes "new_node E i ms sm st cfg = Inr t"
  shows "durable E t"
  using assms
  by (auto simp: new_node_def restore_state_def init_transport_workers_def durable_def persistent_part_def
      Let_def split: sum.splits option.splits)

lemma durable_unique:
  assumes "durable E s" "durable E t" "storage s = storage t"
  shows "current_term s = current_term t" "voted_for s = voted_for t" "node_log s = node_log t"
  using assms by (auto simp: durable_def persistent_part_def split: sum.splits option.splits)

lemma durable_at_time [simp]: "durable (at_time n r E) s = durable E s"
  by (simp add: durable_def at_time_def split: sum.split option.split)

lemma at_time_sel [simp]:
  "save_state (at_time n r E) = save_state E" "load_state (at_time n r E) = load_state E"
  "postcard_roundtrip (at_time n r E) = postcard_roundtrip E"
  by (simp_all add: at_time_def postcard_roundtrip_def)

lemma durable_dying [simp]: "durable (dying f E) s = durable E s"
  by (simp add: durable_def dying_def split: sum.split option.split)

section \<open>The cluster implements the election protocol\<close>

definition ballot_of :: "'c raft_message \<Rightarrow> u64 ballot" where
  "ballot_of m =
     (case m of VoteRequest r \<Rightarrow> Ask (vreq_term r) | VoteResponse r \<Rightarrow> Grant (vresp_term r) | _ \<Rightarrow> Ask 0)"

definition ballots :: "'c raft_message multiset \<Rightarrow> u64 ballot multiset" where
  "ballots w = image_mset ballot_of (filter_mset is_vote_msg w)"

lemma ballots_simps [simp]:
  "ballots {#} = {#}" "ballots (v + w) = ballots v + ballots w"
  "ballots (add_mset m w) = (if is_vote_msg m then add_mset (ballot_of m) (ballots w) else ballots w)"
  by (simp_all add: ballots_def)

lemma ballots_remove:
  "m \<in># w \<Longrightarrow> ballots (w - {#m#}) = (if is_vote_msg m then ballots w - {#ballot_of m#} else ballots w)"
  by (metis add_mset_remove_trivial ballots_simps(3) insert_DiffM)

lemma ballots_in: "m \<in># w \<Longrightarrow> is_vote_msg m \<Longrightarrow> ballot_of m \<in># ballots w"
  by (simp add: ballots_def)

text \<open>The vote messages on their way from \<open>i\<close> to \<open>j\<close>: in the queue of \<open>i\<close> or in the network.\<close>

definition link :: "('c, 'o, 's, 'st) cluster \<Rightarrow> node_id \<Rightarrow> node_id \<Rightarrow> u64 ballot multiset" where
  "link C i j = ballots (mset (vote_msgs (nodes C i) j)) + ballots (net C i j)"

definition implements ::
    "node_id set \<Rightarrow> ('c, 'o, 's, 'st) cluster \<Rightarrow> (node_id, u64) election \<Rightarrow> bool" where
  "implements M C A \<longleftrightarrow>
     (\<forall>i \<in> M. trm A i = current_term (nodes C i) \<and> vote A i = voted_for (nodes C i)
        \<and> tally A i = votes_of (role (nodes C i)) \<and> lead A i = is_leader (role (nodes C i))
        \<and> (\<forall>j. wire A i j = link C i j))
     \<and> (\<forall>i j. i \<notin> M \<longrightarrow> wire A i j = {#} \<and> net C i j = {#})"

text \<open>The facts about the nodes that the simulation relies on: identities, durability, and that a
  node asks for votes in its own name.\<close>

definition cluster_ok ::
    "('c, 'o, 's, 'st, 'b) raft_env \<Rightarrow> node_id list \<Rightarrow> ('c, 'o, 's, 'st) cluster \<Rightarrow> bool" where
  "cluster_ok E ms C \<longleftrightarrow>
     (\<forall>i \<in> set ms. fixed_part (nodes C i) = (i, filter (\<lambda>p. p \<noteq> i) ms) \<and> durable E (nodes C i)
        \<and> (\<forall>j r. VoteRequest r \<in> set (vote_msgs (nodes C i) j) \<longrightarrow> vreq_candidate_id r = i))
     \<and> (\<forall>i j r. VoteRequest r \<in># net C i j \<longrightarrow> vreq_candidate_id r = i)"

lemma worker_take_queue:
  assumes "worker_take j s = Some (m, t)"
  shows "queue s k = (if k = j then m # queue t k else queue t k)" "core t = core s" "fixed_part t = fixed_part s"
    "role t = role s"
  using assms
  by (auto simp: worker_take_def queue_def core_def fixed_part_def split: option.splits list.splits)

lemma elects_requests:
  assumes "elects m s t" "VoteRequest r \<in> set (vote_msgs t j)"
  shows "VoteRequest r \<in> set (vote_msgs s j) \<or> vreq_candidate_id r = node_id s"
  using assms(1) by cases (use assms(2) in \<open>auto split: if_splits\<close>)

text \<open>The hypotheses: members are distinct, storage and serialiser keep their promise.\<close>

definition cluster_env :: "('c, 'o, 's, 'st, 'b) raft_env \<Rightarrow> node_id list \<Rightarrow> bool" where
  "cluster_env E ms \<longleftrightarrow>
     distinct ms \<and> stable_storage (save_state E) (load_state E) \<and> postcard_roundtrip E"

lemma event_durable:
  assumes "cluster_env E ms" "durable E s" "on_event (at_time n r E) ev s = Inr t"
  shows "durable E t"
proof -
  have st: "stable_storage (save_state E) (load_state E)" "postcard_roundtrip E"
    using assms(1) by (simp_all add: cluster_env_def)
  have "durable (at_time n r E) (persist_state (at_time n r E) u)" for u
    by (rule stable_storage.persist_durable [OF st(1)]) (simp_all add: st(2))
  then have "durable E (persist_state (at_time n r E) u)" for u by simp
  with on_event_saved [OF assms(3)] assms(2) show ?thesis
    by (auto simp: saved_def dest: durable_core [of _ _ E])
qed

lemma cluster_ok_node:
  assumes "cluster_ok E ms C" "i \<in> set ms"
  shows "node_id (nodes C i) = i" "peer_ids (nodes C i) = filter (\<lambda>p. p \<noteq> i) ms" "durable E (nodes C i)"
    "VoteRequest r \<in> set (vote_msgs (nodes C i) j) \<Longrightarrow> vreq_candidate_id r = i"
  using assms by (auto simp: cluster_ok_def fixed_part_def)

lemma cluster_env_dying [simp]: "cluster_env (dying f E) ms = cluster_env E ms"
  by (simp add: cluster_env_def dying_def postcard_roundtrip_def)

lemma cluster_ok_dying [simp]: "cluster_ok (dying f E) ms C = cluster_ok E ms C"
  by (simp add: cluster_ok_def)

lemma alive_ok_step:
  assumes "cluster_env E ms" "alive_step E ms C D" "cluster_ok E ms C"
  shows "cluster_ok E ms D"
proof -
  have event: "cluster_ok E ms (set_node i t B)"
    if "i \<in> set ms" "on_event (at_time n r E) ev (nodes C i) = Inr t" "cluster_ok E ms B" "nodes B = nodes C"
    for i n r ev t and B :: "('a, 'b, 'c, 'd) cluster"
  proof -
    note ok = cluster_ok_node [OF assms(3) that(1)]
    have "distinct (peer_ids (nodes C i))"
      using assms(1) ok(2) by (simp add: cluster_env_def)
    then have el: "elects (event_message ev) (nodes C i) t"
      by (rule on_event_elects [OF that(2)])
    have "vreq_candidate_id q = i" if "VoteRequest q \<in> set (vote_msgs t j)" for j q
      using elects_requests [OF el that] ok(1,4) by auto
    moreover have "fixed_part t = (i, filter (\<lambda>p. p \<noteq> i) ms)"
      using on_event_fixed [OF that(2)] ok(1,2) by (simp add: fixed_part_def)
    ultimately show ?thesis
      using that(3) event_durable [OF assms(1) ok(3) that(2)] by (auto simp: cluster_ok_def)
  qed
  have dropped: "cluster_ok E ms (on_net i j (\<lambda>w. w - {#m#}) C)" for i j m
    using assms(3) by (auto simp: cluster_ok_def dest: in_diffD)
  from assms(2) show ?thesis
  proof cases
    case (local i ev n r t)
    then show ?thesis using event [OF local(2,5) assms(3)] by simp
  next
    case (transmit i j m t)
    have q: "vote_msgs (nodes C i) k = (if k = j \<and> is_vote_msg m then m # vote_msgs t k else vote_msgs t k)" for k
      using worker_take_queue(1) [OF transmit(3), of k] by (simp add: vote_msgs_def)
    have "durable E t = durable E (nodes C i)"
      by (rule durable_core) (rule worker_take_queue [OF transmit(3)])
    moreover have "fixed_part t = fixed_part (nodes C i)"
      by (rule worker_take_queue [OF transmit(3)])
    moreover have "vreq_candidate_id r = i" if "VoteRequest r \<in> set (vote_msgs t k)" for k r
      using that cluster_ok_node(4) [OF assms(3) transmit(2), of r k] q [of k] by (auto split: if_splits)
    moreover have "vreq_candidate_id r = i" if "VoteRequest r = m" for r
      using that cluster_ok_node(4) [OF assms(3) transmit(2), of r j] q [of j] by auto
    ultimately show ?thesis
      using assms(3) transmit(1,2) by (auto simp: cluster_ok_def)
  next
    case (deliver j m i n r t)
    then show ?thesis using event [OF deliver(2,4) dropped] by simp
  next
    case (drop_msg m i j)
    then show ?thesis using dropped by simp
  next
    case (restart i n r sm cfg t)
    then show ?thesis
      using assms(3) new_node_fresh [OF restart(3)] new_node_persistent [OF restart(3)]
      by (auto simp: cluster_ok_def fixed_part_def)
  qed
qed

lemma cluster_ok_step:
  assumes "cluster_env E ms" "cluster_step E ms C D" "cluster_ok E ms C"
  shows "cluster_ok E ms D"
  using assms(2)
proof (cases rule: cluster_step_split)
  case alive
  then show ?thesis by (rule alive_ok_step [OF assms(1) _ assms(3)])
next
  case (crash f i B)
  then show ?thesis using alive_ok_step [of "dying f E" ms] assms(1,3) by auto
qed

text \<open>After a step of the protocol, messages may have to be lost to match the cluster.\<close>

lemma settle:
  assumes "election_step M A A1"
    and "\<And>i. i \<in> M \<Longrightarrow> trm A1 i = current_term (nodes D i) \<and> vote A1 i = voted_for (nodes D i)
        \<and> tally A1 i = votes_of (role (nodes D i)) \<and> lead A1 i = is_leader (role (nodes D i))"
    and "\<And>i j. i \<in> M \<Longrightarrow> link D i j \<subseteq># wire A1 i j" "\<And>i j. i \<notin> M \<Longrightarrow> net D i j = {#}"
    and "votes A1 \<subseteq> V" "leaders A1 = W"
  shows "\<exists>A'. (election_step M)\<^sup>*\<^sup>* A A' \<and> implements M D A' \<and> votes A' \<subseteq> V \<and> leaders A' = W"
proof -
  define A' where "A' = A1\<lparr>wire := \<lambda>i j. if i \<in> M then link D i j else {#}\<rparr>"
  have "election_step M A1 A'"
    unfolding A'_def by (rule election_step.lose) (simp add: assms(3))
  then have "(election_step M)\<^sup>*\<^sup>* A A'"
    using assms(1) by (simp add: converse_rtranclp_into_rtranclp)
  moreover have "implements M D A'"
    using assms(2,4) by (simp add: implements_def A'_def)
  moreover have "votes A' \<subseteq> V" "leaders A' = W" using assms(5,6) by (simp_all add: A'_def)
  ultimately show ?thesis by blast
qed

lemma implements_dest:
  assumes "implements M C A" "i \<in> M"
  shows "trm A i = current_term (nodes C i)" "vote A i = voted_for (nodes C i)"
    "tally A i = votes_of (role (nodes C i))" "lead A i = is_leader (role (nodes C i))" "wire A i j = link C i j"
  using assms by (simp_all add: implements_def)

text \<open>What the network holds before and after an event: nothing changes, or the message is taken.\<close>

definition consumed ::
    "(node_id \<times> 'c raft_message) option \<Rightarrow> node_id \<Rightarrow> ('c, 'o, 's, 'st) cluster \<Rightarrow> ('c, 'o, 's, 'st) cluster \<Rightarrow> bool" where
  "consumed m i C B \<longleftrightarrow> nodes B = nodes C \<and>
     (case m of None \<Rightarrow> net B = net C
      | Some (f, x) \<Rightarrow> x \<in># net C f i \<and> net B = net (on_net f i (\<lambda>w. w - {#x#}) C))"

lemma consumed_le:
  assumes "consumed m i C B"
  shows "ballots (net B a b) \<subseteq># ballots (net C a b)" "net C a b = {#} \<Longrightarrow> net B a b = {#}"
proof -
  have "net B a b \<subseteq># net C a b"
    using assms by (auto simp: consumed_def split: option.splits)
  then show "ballots (net B a b) \<subseteq># ballots (net C a b)" "net C a b = {#} \<Longrightarrow> net B a b = {#}"
    by (auto simp: ballots_def image_mset_subseteq_mono multiset_filter_mono)
qed

lemma has_majority_iff:
  assumes "distinct ms" "i \<in> set ms"
  shows "has_majority n (length (filter (\<lambda>p. p \<noteq> i) ms) + 1) \<longleftrightarrow> card (set ms) < 2 * n"
proof -
  have no: "filter (\<lambda>p. p \<noteq> i) xs = xs" if "i \<notin> set xs" for xs
    using that by (auto simp: filter_id_conv)
  have "length (filter (\<lambda>p. p \<noteq> i) ms) + 1 = length ms"
    using assms by (induction ms) (auto simp: no)
  then show ?thesis
    using assms(1) by (auto simp: has_majority_def distinct_card)
qed

lemma consumed_vote:
  assumes "implements M C A" "consumed (Some (f, x)) i C B" "is_vote_msg x"
  shows "ballot_of x \<in># wire A f i" "f \<in> M" "ballots (net B f i) = ballots (net C f i) - {#ballot_of x#}"
    "ballot_of x \<in># ballots (net C f i)"
proof -
  have x: "x \<in># net C f i" using assms(2) by (simp add: consumed_def)
  then show f: "f \<in> M" using assms(1) by (force simp: implements_def)
  show b: "ballot_of x \<in># ballots (net C f i)"
    using x assms(3) by (rule ballots_in)
  then show "ballot_of x \<in># wire A f i"
    using implements_dest(5) [OF assms(1) f] by (simp add: link_def)
  show "ballots (net B f i) = ballots (net C f i) - {#ballot_of x#}"
    using assms(2,3) x by (simp add: consumed_def ballots_remove)
qed

lemma link_unchanged:
  assumes "implements M C A" "consumed m i C B" "a \<in> M"
    and "a = i \<Longrightarrow> vote_msgs t b = vote_msgs (nodes C i) b"
  shows "link (set_node i t B) a b \<subseteq># wire A a b"
  using consumed_le(1) [OF assms(2), of a b] assms(2,4) implements_dest(5) [OF assms(1,3), of b]
  by (cases "a = i") (auto simp: link_def consumed_def)

lemma on_link_id: "on_link i j (\<lambda>w. w) A = A"
  by (simp add: on_link_def)

lemma consumed_link:
  assumes "implements M C A" "consumed (Some (f, x)) i C B" "is_vote_msg x" "a \<in> M"
    and "vote_msgs t b = vote_msgs (nodes C i) b @ (if b = f then g else [])"
  shows "link (set_node i t B) a b \<subseteq>#
    wire (on_link i f (\<lambda>w. w + ballots (mset g)) (on_link f i (\<lambda>w. w - {#ballot_of x#}) A)) a b"
proof -
  note x = consumed_vote [OF assms(1-3)]
  have B: "nodes B = nodes C" "\<And>a b. \<not> (a = f \<and> b = i) \<Longrightarrow> net B a b = net C a b"
    using assms(2) by (auto simp: consumed_def)
  have w: "wire A a b = link C a b" by (rule implements_dest(5) [OF assms(1,4)])
  have taken: "link C f i - {#ballot_of x#} = ballots (mset (vote_msgs (nodes C f) i)) + ballots (net B f i)"
    unfolding link_def x(3) by (rule diff_union_single_conv [OF x(4)])
  have sent: "link (set_node i t B) i b =
      ballots (mset (vote_msgs (nodes C i) b)) + ballots (net B i b) + (if b = f then ballots (mset g) else {#})"
    using assms(5) by (simp add: link_def ac_simps)
  have other: "link (set_node i t B) c b = ballots (mset (vote_msgs (nodes C c) b)) + ballots (net B c b)"
    if "c \<noteq> i" for c
    using that by (simp add: link_def B(1))
  show ?thesis
  proof (cases "a = f \<and> b = i")
    case True
    then have fi: "a = f" "b = i" by simp_all
    show ?thesis
    proof (cases "f = i")
      case True
      with sent taken w fi show ?thesis by simp
    next
      case False
      then have "wire (on_link i f (\<lambda>w. w + ballots (mset g)) (on_link f i (\<lambda>w. w - {#ballot_of x#}) A)) f i
          = link C f i - {#ballot_of x#}"
        using w fi by simp
      with other [OF False] taken fi show ?thesis by (simp only: subset_mset.order_refl)
    qed
  next
    case False
    then have "net B a b = net C a b" by (rule B(2))
    then have "link (set_node i t B) a b = link C a b + (if a = i \<and> b = f then ballots (mset g) else {#})"
      using sent other [of a] by (cases "a = i") (simp_all add: link_def)
    also have "\<dots> = wire (on_link i f (\<lambda>w. w + ballots (mset g)) (on_link f i (\<lambda>w. w - {#ballot_of x#}) A)) a b"
    proof (cases "a = i \<and> b = f")
      case True
      then have "\<not> (i = f \<and> f = i)" using False by auto
      with True show ?thesis unfolding w [symmetric] on_link_sel by (simp only: if_False if_True simp_thms)
    next
      case other: False
      with False show ?thesis
        unfolding w [symmetric] on_link_sel by (simp only: if_False simp_thms add_0_right)
    qed
    finally show ?thesis by simp
  qed
qed

text \<open>One event of a node is one step of the protocol, up to lost messages.\<close>

lemma event_simulates:
  assumes env: "cluster_env E ms" and M: "M = set ms" and ok: "cluster_ok E ms C" and imp: "implements M C A"
    and i: "i \<in> M" and el: "elects m (nodes C i) t" and cons: "consumed m i C B"
  shows "\<exists>A'. (election_step M)\<^sup>*\<^sup>* A A' \<and> implements M (set_node i t B) A'
    \<and> votes A' \<subseteq> votes A \<union> {(current_term t, i, c) |c. voted_for t = Some c}
    \<and> leaders A' = leaders A \<union> {(current_term t, i) |_::unit. is_leader (role t)}"
proof -
  note at_i = implements_dest [OF imp i]
  note node = cluster_ok_node [OF ok, of i]
  have B: "nodes B = nodes C" using cons by (simp add: consumed_def)
  have out: "net (set_node i t B) a b = {#}" if "a \<notin> M" for a b
    using imp that consumed_le(2) [OF cons, of a b] by (simp add: implements_def)
  have maj: "has_majority n (length (peer_ids (nodes C i)) + 1) \<longleftrightarrow> card M < 2 * n" for n
    using has_majority_iff [of ms i n] node(2) i M env by (simp add: cluster_env_def)
  have fields: "trm A1 a = current_term (nodes (set_node i t B) a) \<and> vote A1 a = voted_for (nodes (set_node i t B) a)
      \<and> tally A1 a = votes_of (role (nodes (set_node i t B) a)) \<and> lead A1 a = is_leader (role (nodes (set_node i t B) a))"
    if "A1 = install i (current_term t) (voted_for t) (votes_of (role t)) (is_leader (role t)) A2" "a \<in> M"
      "trm A2 = trm A" "vote A2 = vote A" "tally A2 = tally A" "lead A2 = lead A" for A1 A2 a
    using that implements_dest(1-4) [OF imp that(2)] by (simp add: B)
  from el show ?thesis
  proof cases
    case el_idle
    show ?thesis
    proof (rule settle [OF election_step.idle [OF i]])
      show "votes_of (role t) = None \<or> votes_of (role t) = tally A i" "is_leader (role t) \<longrightarrow> lead A i"
        using el_idle at_i by simp_all
    qed (rule fields, use el_idle at_i link_unchanged [OF imp cons] out in auto)
  next
    case el_newer
    show ?thesis
    proof (rule settle [OF election_step.newer [OF i]])
      show "trm A i < current_term t" using el_newer at_i by simp
    qed (rule fields, use el_newer link_unchanged [OF imp cons] out in auto)
  next
    case (el_campaign J r)
    have nid: "node_id (nodes C i) = i" "set (peer_ids (nodes C i)) \<subseteq> M - {i}"
      using node(1,2) i M by auto
    show ?thesis
    proof (rule settle [OF election_step.campaign [OF i]])
      show "trm A i < current_term t" "J \<subseteq> M - {i}" using el_campaign at_i nid by auto
      show "votes_of (role t) = Some 1 \<and> \<not> is_leader (role t) \<or>
          votes_of (role t) = None \<and> is_leader (role t) \<and> card M < 2"
        using el_campaign(3) maj [of 1] by auto
      show "link (set_node i t B) a b \<subseteq># wire (install i (current_term t) (Some i) (votes_of (role t))
          (is_leader (role t)) (ask_all i J (current_term t) A)) a b" if "a \<in> M" for a b
      proof (cases "a = i \<and> b \<in> J")
        case True
        then show ?thesis
          using el_campaign(6,7) at_i(5) consumed_le(1) [OF cons, of i b]
          by (simp add: link_def ballot_of_def)
      next
        case False
        then show ?thesis
          using link_unchanged [OF imp cons that, of t b] el_campaign(7) by auto
      qed
    qed (rule fields [where ?A2.0 = "ask_all i J (current_term t) A"], use el_campaign nid out in auto)
  next
    case (el_grant f r g)
    have req: "is_vote_msg (VoteRequest r :: 'a raft_message)" "ballot_of (VoteRequest r :: 'a raft_message) = Ask (vreq_term r)"
      by (simp_all add: ballot_of_def)
    note x = consumed_vote [OF imp cons [unfolded el_grant(1)] req(1), unfolded req(2)]
    have cand: "vreq_candidate_id r = f"
      using cons el_grant(1) ok by (auto simp: consumed_def cluster_ok_def)
    show ?thesis
    proof (rule settle [OF election_step.grant [OF i x(1), where g = "ballots (mset g)"]])
      show "trm A i < vreq_term r \<and> votes_of (role t) = None \<and> \<not> is_leader (role t)
        \<or> trm A i = vreq_term r \<and> (vote A i = None \<or> vote A i = Some f) \<and> votes_of (role t) = tally A i
          \<and> is_leader (role t) = lead A i"
        using el_grant(4) at_i cand by simp
      show "ballots (mset g) = {#} \<or> ballots (mset g) = {#Grant (vreq_term r)#}"
        using el_grant(5) by (auto simp: ballot_of_def)
      show "link (set_node i t B) a b \<subseteq># wire (install i (vreq_term r) (Some f) (votes_of (role t))
          (is_leader (role t)) (on_link i f (\<lambda>w. w + ballots (mset g))
            (on_link f i (\<lambda>w. w - {#Ask (vreq_term r)#}) A))) a b" if "a \<in> M" for a b
        using consumed_link [OF imp cons [unfolded el_grant(1)] req(1) that, of t b] el_grant(6) [of b]
        by (simp add: req(2))
    qed (rule fields [where ?A2.0 = "on_link i f (\<lambda>w. w + ballots (mset g))
            (on_link f i (\<lambda>w. w - {#Ask (vreq_term r)#}) A)"], use el_grant cand out in auto)
  next
    case (el_count f r v)
    have rsp: "is_vote_msg (VoteResponse r :: 'a raft_message)"
        "ballot_of (VoteResponse r :: 'a raft_message) = Grant (trm A i)"
      using el_count(2,3) at_i by (simp_all add: ballot_of_def)
    note x = consumed_vote [OF imp cons [unfolded el_count(1)] rsp(1), unfolded rsp(2)]
    let ?B = "on_link f i (\<lambda>w. w - {#Grant (trm A i)#}) A"
    show ?thesis
    proof (rule settle [OF election_step.count_vote [OF i x(1) _ _ refl]])
      show "tally A i = Some v" using el_count(4) at_i by simp
      show "votes_of (role t) = Some (v + 1) \<and> \<not> is_leader (role t)
        \<or> votes_of (role t) = None \<and> is_leader (role t) \<and> card M < 2 * (v + 1)"
        using el_count(7) maj [of "v + 1"] by auto
      show "link (set_node i t B) a b \<subseteq># wire (install i (trm A i) (vote A i) (votes_of (role t))
          (is_leader (role t)) (?B\<lparr>counted := insert (trm A i, i, f) (counted ?B)\<rparr>)) a b" if "a \<in> M" for a b
      proof -
        have "vote_msgs t b = vote_msgs (nodes C i) b @ (if b = f then [] else [])"
          using el_count(8) by simp
        from consumed_link [OF imp cons [unfolded el_count(1)] rsp(1) that this]
        have "link (set_node i t B) a b \<subseteq># wire ?B a b"
          by (simp add: rsp(2) on_link_id del: on_link_sel)
        then show ?thesis by simp
      qed
    qed (rule fields [where ?A2.0 = "?B\<lparr>counted := insert (trm A i, i, f) (counted ?B)\<rparr>"],
        use el_count at_i out in auto)
  qed
qed

text \<open>The history grows by what the nodes of the new state show.\<close>

definition recorded :: "node_id set \<Rightarrow> ('c, 'o, 's, 'st) cluster \<Rightarrow> (node_id, u64) election \<Rightarrow> (node_id, u64) election \<Rightarrow> bool" where
  "recorded M D A A' \<longleftrightarrow>
     (\<forall>T v c. (T, v, c) \<in> votes A' \<longrightarrow> (T, v, c) \<in> votes A \<or> T = current_term (nodes D v) \<and> voted_for (nodes D v) = Some c)
     \<and> leaders A \<subseteq> leaders A'
     \<and> (\<forall>T i. (T, i) \<in> leaders A' \<longrightarrow> (T, i) \<in> leaders A \<or> i \<in> M \<and> leads D i T)"

lemma recordedI:
  assumes "votes A' \<subseteq> votes A \<union> {(current_term t, i, c) |c. voted_for t = Some c}"
    and "leaders A' = leaders A \<union> {(current_term t, i) |_::unit. is_leader (role t)}" "nodes D i = t" "i \<in> M"
  shows "recorded M D A A'"
  using assms by (auto simp: recorded_def leads_def)

lemma alive_simulates:
  assumes "cluster_env E ms" "alive_step E ms C D" "cluster_ok E ms C" "implements (set ms) C A"
  shows "\<exists>A'. (election_step (set ms))\<^sup>*\<^sup>* A A' \<and> implements (set ms) D A' \<and> recorded (set ms) D A A'"
  using assms(2)
proof cases
  case (local i ev n r t)
  have "distinct (peer_ids (nodes C i))"
    using assms(1) cluster_ok_node(2) [OF assms(3) local(2)] by (simp add: cluster_env_def)
  then have "elects None (nodes C i) t"
    using on_event_elects [OF local(5)] local(3) by simp
  from event_simulates [OF assms(1) refl assms(3,4) local(2) this, of C] recordedI [of _ A t i D "set ms", OF _ _ _ local(2)]
  show ?thesis unfolding local(1) by (auto simp: consumed_def)
next
  case (transmit i j m t)
  have q: "vote_msgs (nodes C i) k = (if k = j \<and> is_vote_msg m then m # vote_msgs t k else vote_msgs t k)" for k
    using worker_take_queue(1) [OF transmit(3), of k] by (simp add: vote_msgs_def)
  have "link D a b = link C a b" for a b
    using q [of b] by (auto simp: transmit(1) link_def)
  moreover have "core t = core (nodes C i)" "role t = role (nodes C i)"
    using worker_take_queue [OF transmit(3)] by auto
  ultimately have "implements (set ms) D A"
    using assms(4) transmit(2) by (auto simp: implements_def transmit(1) core_def)
  moreover have "recorded (set ms) D A A" by (simp add: recorded_def)
  ultimately show ?thesis by blast
next
  case (deliver j m i n r t)
  have "distinct (peer_ids (nodes C j))"
    using assms(1) cluster_ok_node(2) [OF assms(3) deliver(2)] by (simp add: cluster_env_def)
  then have "elects (Some (i, m)) (nodes C j) t"
    using on_event_elects [OF deliver(4)] by (simp add: event_message_def)
  from event_simulates [OF assms(1) refl assms(3,4) deliver(2) this, of "on_net i j (\<lambda>w. w - {#m#}) C"] recordedI [of _ A t j D "set ms", OF _ _ _ deliver(2)]
  show ?thesis unfolding deliver(1) by (auto simp: consumed_def deliver(3))
next
  case (drop_msg m i j)
  have cons: "consumed (Some (i, m)) j C D"
    using drop_msg by (simp add: consumed_def)
  have "election_step (set ms) A (A\<lparr>wire := wire A\<rparr>)"
    by (rule election_step.lose) simp
  then have "\<exists>A'. (election_step (set ms))\<^sup>*\<^sup>* A A' \<and> implements (set ms) D A' \<and> votes A' \<subseteq> votes A \<and> leaders A' = leaders A"
  proof (rule settle)
    show "link D a b \<subseteq># wire (A\<lparr>wire := wire A\<rparr>) a b" if "a \<in> set ms" for a b
      using consumed_le(1) [OF cons, of a b] implements_dest(5) [OF assms(4) that, of b]
      by (simp add: link_def drop_msg(1))
    show "net D a b = {#}" if "a \<notin> set ms" for a b
      using assms(4) that consumed_le(2) [OF cons, of a b] by (simp add: implements_def)
  qed (use assms(4) in \<open>auto simp: implements_def drop_msg(1)\<close>)
  then show ?thesis by (auto simp: recorded_def)
next
  case (restart i n r sm cfg t)
  have "durable E t"
    using new_node_persistent [OF restart(3)] by simp
  then have keep: "current_term t = current_term (nodes C i)" "voted_for t = voted_for (nodes C i)"
    using durable_unique [of E t "nodes C i"] cluster_ok_node(3) [OF assms(3) restart(2)]
      new_node_fresh(5) [OF restart(3)] by auto
  note fresh = new_node_fresh(3,4) [OF restart(3)]
  have "election_step (set ms) A (install i (trm A i) (vote A i) None False A)"
    by (rule election_step.idle [OF restart(2)]) simp_all
  then have "\<exists>A'. (election_step (set ms))\<^sup>*\<^sup>* A A' \<and> implements (set ms) D A'
    \<and> votes A' \<subseteq> votes A \<union> {(current_term t, i, c) |c. voted_for t = Some c}
    \<and> leaders A' = leaders A \<union> {(current_term t, i) |_::unit. is_leader (role t)}"
  proof (rule settle)
    show "link D a b \<subseteq># wire (install i (trm A i) (vote A i) None False A) a b" if "a \<in> set ms" for a b
      using implements_dest(5) [OF assms(4) that, of b] fresh(2) by (auto simp: link_def restart(1))
  qed (use assms(4) keep fresh(1) restart(2) in \<open>auto simp: implements_def restart(1)\<close>)
  with recordedI [of _ A t i D "set ms", OF _ _ _ restart(2)] show ?thesis by (auto simp: restart(1))
qed

lemma cluster_simulates:
  assumes "cluster_env E ms" "cluster_step E ms C D" "cluster_ok E ms C" "implements (set ms) C A"
  shows "\<exists>A'. (election_step (set ms))\<^sup>*\<^sup>* A A' \<and> implements (set ms) D A'"
  using assms(2)
proof (cases rule: cluster_step_split)
  case alive
  then show ?thesis using alive_simulates [OF assms(1) _ assms(3,4)] by blast
next
  case (crash f i B)
  have env: "cluster_env (dying f E) ms" "cluster_ok (dying f E) ms C" using assms(1,3) by simp_all
  obtain A1 where A1: "(election_step (set ms))\<^sup>*\<^sup>* A A1" "implements (set ms) B A1"
    using alive_simulates [OF env(1) crash(2) env(2) assms(4)] by blast
  obtain A2 where "(election_step (set ms))\<^sup>*\<^sup>* A1 A2" "implements (set ms) D A2"
    using alive_simulates [OF env(1) crash(3) alive_ok_step [OF env(1) crash(2) env(2)] A1(2)] by blast
  with A1(1) show ?thesis by (meson rtranclp_trans)
qed

lemma cluster_init_simulates:
  assumes "cluster_init E ms C"
  shows "cluster_ok E ms C" "\<exists>A. election_init A \<and> implements (set ms) C A"
proof -
  have node: "node_id (nodes C i) = i \<and> peer_ids (nodes C i) = filter (\<lambda>p. p \<noteq> i) ms
      \<and> role (nodes C i) = Follower None \<and> (\<forall>j. vote_msgs (nodes C i) j = []) \<and> durable E (nodes C i)
      \<and> voted_for (nodes C i) = None" if i: "i \<in> set ms" for i
  proof -
    obtain n r sm st cfg where st: "load_state E st = Inr None"
        and new: "new_node (at_time n r E) i ms sm st cfg = Inr (nodes C i)"
      using assms i by (auto simp: cluster_init_def)
    have d: "durable E (nodes C i)"
      using new_node_persistent [OF new] by simp
    then have "voted_for (nodes C i) = None"
      using st new_node_fresh(5) [OF new] by (simp add: durable_def persistent_part_def)
    with d show ?thesis using new_node_fresh [OF new] by simp
  qed
  have net: "net C = (\<lambda>i j. {#})" using assms by (simp add: cluster_init_def)
  show "cluster_ok E ms C"
    using node by (auto simp: cluster_ok_def fixed_part_def net)
  define A where "A = \<lparr>trm = \<lambda>i. current_term (nodes C i), vote = \<lambda>_. None, tally = \<lambda>_. None,
    lead = \<lambda>_. False, wire = \<lambda>_ _. {#}, votes = {}, counted = {}, leaders = {}\<rparr>"
  have "election_init A" by (simp add: election_init_def A_def)
  moreover have "implements (set ms) C A"
    using node by (auto simp: implements_def A_def link_def net)
  ultimately show "\<exists>A. election_init A \<and> implements (set ms) C A" by blast
qed

lemma cluster_run_simulates:
  assumes "cluster_env E ms" "(cluster_step E ms)\<^sup>*\<^sup>* C D" "cluster_ok E ms C" "implements (set ms) C A"
  shows "cluster_ok E ms D \<and> (\<exists>A'. (election_step (set ms))\<^sup>*\<^sup>* A A' \<and> implements (set ms) D A')"
  using assms(2)
proof induction
  case base
  then show ?case using assms by blast
next
  case (step D F)
  then show ?case
    using cluster_ok_step [OF assms(1)] cluster_simulates [OF assms(1) step(2)]
    by (meson rtranclp_trans)
qed

text \<open>A run of three nodes in which node 1 is elected: it times out, asks node 2, which grants its
  vote, and counts the vote.\<close>

lemma at_time_test_env: "at_time 0 (\<lambda>a b. a) test_env = test_env"
  by (simp add: at_time_def test_env_def)

lemma cluster_env_test: "cluster_env test_env [1, 2, 3]"
  by (simp add: cluster_env_def test_env_storage test_env_postcard)

abbreviation received :: "node_id \<Rightarrow> 'c raft_message \<Rightarrow> 'c raft_event" where
  "received p m \<equiv> MessageReceived \<lparr>env_from = p, env_message = m\<rparr>"

lemma test_votes:
  "\<exists>n2 n3 a a' b b' c m m'. test_node 2 [1, 2, 3] = Inr n2 \<and> test_node 3 [1, 2, 3] = Inr n3
    \<and> and_then (test_node 1 [1, 2, 3]) (on_event test_env ElectionTimeout) = Inr a
    \<and> worker_take 2 a = Some (m, a') \<and> on_event test_env (received 1 m) n2 = Inr b
    \<and> worker_take 1 b = Some (m', b') \<and> on_event test_env (received 2 m') a' = Inr c
    \<and> is_leader (role c) \<and> current_term c = 1"
proof -
  have "ok_and (\<lambda>n2. ok_and (\<lambda>n3. ok_and (\<lambda>a.
      (case worker_take 2 a of None \<Rightarrow> False | Some (m, a') \<Rightarrow> ok_and (\<lambda>b.
        (case worker_take 1 b of None \<Rightarrow> False | Some (m', b') \<Rightarrow> ok_and (\<lambda>c.
          is_leader (role c) \<and> current_term c = 1) (on_event test_env (received 2 m') a')))
        (on_event test_env (received 1 m) n2)))
      (and_then (test_node 1 [1, 2, 3]) (on_event test_env ElectionTimeout)))
      (test_node 3 [1, 2, 3])) (test_node 2 [1, 2, 3])"
    by code_simp
  then show ?thesis
    by (fastforce simp: ok_and_iff split: option.splits)
qed

lemma test_cluster_run:
  "\<exists>C0 C. cluster_init test_env [1, 2, 3] C0 \<and> (cluster_step test_env [1, 2, 3])\<^sup>*\<^sup>* C0 C \<and> leads C 1 1"
proof -
  let ?step = "cluster_step test_env [1, 2, 3]"
  obtain n1 n2 n3 a a' b b' c m m' where
      new: "test_node 1 [1, 2, 3] = Inr n1" "test_node 2 [1, 2, 3] = Inr n2" "test_node 3 [1, 2, 3] = Inr n3"
    and ev: "on_event test_env ElectionTimeout n1 = Inr a" "worker_take 2 a = Some (m, a')"
      "on_event test_env (received 1 m) n2 = Inr b" "worker_take 1 b = Some (m', b')"
      "on_event test_env (received 2 m') a' = Inr c" "is_leader (role c)" "current_term c = 1"
    using test_votes by (auto simp: result_simps)
  define C0 where "C0 = \<lparr>nodes = (\<lambda>_. n3)(1 := n1, 2 := n2), net = \<lambda>_ _. {#}\<rparr>"
  define C1 where "C1 = set_node 1 a C0"
  define C2 where "C2 = on_net 1 2 (add_mset m) (set_node 1 a' C1)"
  define C3 where "C3 = set_node 2 b (on_net 1 2 (\<lambda>w. w - {#m#}) C2)"
  define C4 where "C4 = on_net 2 1 (add_mset m') (set_node 2 b' C3)"
  define C5 where "C5 = set_node 1 c (on_net 2 1 (\<lambda>w. w - {#m'#}) C4)"
  have init: "cluster_init test_env [1, 2, 3] C0"
    unfolding cluster_init_def
  proof (intro conjI ballI)
    fix i :: node_id
    assume "i \<in> set [1, 2, 3]"
    then have "new_node (at_time 0 (\<lambda>a b. a) test_env) i [1, 2, 3] 0 memory_default default_config
        = Inr (nodes C0 i)"
      using new unfolding at_time_test_env by (auto simp: test_node_def C0_def)
    moreover have "load_state test_env memory_default = Inr None"
      by (simp add: test_env_def memory_restore_state_def memory_default_def)
    ultimately show "\<exists>n r sm st cfg. load_state test_env st = Inr None
        \<and> new_node (at_time n r test_env) i [1, 2, 3] sm st cfg = Inr (nodes C0 i)"
      by blast
  qed (simp add: C0_def)
  have enabled: "event_enabled ElectionTimeout n1"
    using new_node_fresh(3) [OF new(1) [unfolded test_node_def]] by (simp add: event_enabled_def)
  have "?step C0 C1"
    unfolding C1_def by (rule step_local [where n = 0 and r = "\<lambda>a b. a" and ev = ElectionTimeout])
      (use ev(1) enabled at_time_test_env in \<open>simp_all add: C0_def event_message_def\<close>)
  moreover have "?step C1 C2"
    unfolding C2_def by (rule step_transmit) (use ev(2) in \<open>simp_all add: C1_def\<close>)
  moreover have "?step C2 C3"
    unfolding C3_def by (rule step_deliver [where n = 0 and r = "\<lambda>a b. a"])
      (use ev(3) at_time_test_env in \<open>simp_all add: C2_def C1_def C0_def\<close>)
  moreover have "?step C3 C4"
    unfolding C4_def by (rule step_transmit) (use ev(4) in \<open>simp_all add: C3_def\<close>)
  moreover have "?step C4 C5"
    unfolding C5_def by (rule step_deliver [where n = 0 and r = "\<lambda>a b. a"])
      (use ev(5) at_time_test_env in \<open>simp_all add: C4_def C3_def C2_def\<close>)
  ultimately have "?step\<^sup>*\<^sup>* C0 C5" by (meson converse_rtranclp_into_rtranclp rtranclp.rtrancl_refl)
  moreover have "leads C5 1 1" using ev(6,7) by (simp add: leads_def C5_def)
  ultimately show ?thesis using init by blast
qed

lemma leader_unique:
  assumes "cluster_env E ms" "cluster_init E ms C0"
    and "(cluster_step E ms)\<^sup>*\<^sup>* C0 C" "(cluster_step E ms)\<^sup>*\<^sup>* C D"
    and "i \<in> set ms" "j \<in> set ms" "leads C i T" "leads D j T"
  shows "i = j"
proof -
  obtain A0 where A0: "election_init A0" "implements (set ms) C0 A0"
    using cluster_init_simulates(2) [OF assms(2)] by blast
  obtain A where A: "cluster_ok E ms C" "(election_step (set ms))\<^sup>*\<^sup>* A0 A" "implements (set ms) C A"
    using cluster_run_simulates [OF assms(1,3) cluster_init_simulates(1) [OF assms(2)] A0(2)] by blast
  obtain B where B: "(election_step (set ms))\<^sup>*\<^sup>* A B" "implements (set ms) D B"
    using cluster_run_simulates [OF assms(1,4) A(1,3)] by blast
  have fin: "finite (set ms)" by simp
  have inv: "election_inv (set ms) A" "election_inv (set ms) B"
    using election_steps_inv [OF fin A(2) election_inv_init [OF A0(1)]] election_steps_inv [OF fin B(1)] by auto
  have "(T, i) \<in> leaders A"
    using inv(1) assms(5,7) implements_dest(1,4) [OF A(3) assms(5)]
    by (auto simp: election_inv_def leaders_ok_def leads_def)
  then have "(T, i) \<in> leaders B"
    using election_steps_leaders [OF B(1)] by blast
  moreover have "(T, j) \<in> leaders B"
    using inv(2) assms(6,8) implements_dest(1,4) [OF B(2) assms(6)]
    by (auto simp: election_inv_def leaders_ok_def leads_def)
  ultimately show ?thesis
    using election_inv_unique [OF fin inv(2)] by blast
qed

text \<open>C1: election safety. In every run of a cluster of distinct members from a fresh start, with
  message loss, reordering, delays, timeouts and restarts at any point, two nodes that lead in
  the same term, at the same time or at different times, are the same node.\<close>

theorem election_safety:
  assumes "cluster_env E ms" "cluster_init E ms C0"
    and "(cluster_step E ms)\<^sup>*\<^sup>* C0 C" "(cluster_step E ms)\<^sup>*\<^sup>* C D"
    and "i \<in> set ms" "j \<in> set ms" "leads C i T" "leads D j T"
  shows "i = j"
  by (rule leader_unique [OF assms])

theorem election_safety_witness:
  "\<exists>C0 C. cluster_init test_env [1, 2, 3] C0 \<and> (cluster_step test_env [1, 2, 3])\<^sup>*\<^sup>* C0 C \<and> leads C 1 1
    \<and> (\<forall>D j. (cluster_step test_env [1, 2, 3])\<^sup>*\<^sup>* C D \<longrightarrow> j \<in> {1, 2, 3} \<longrightarrow> leads D j 1 \<longrightarrow> j = 1)"
proof -
  obtain C0 C where run: "cluster_init test_env [1, 2, 3] C0" "(cluster_step test_env [1, 2, 3])\<^sup>*\<^sup>* C0 C"
      "leads C 1 1"
    using test_cluster_run by blast
  have "j = 1" if "(cluster_step test_env [1, 2, 3])\<^sup>*\<^sup>* C D" "j \<in> {1, 2, 3}" "leads D j 1" for D j
    using election_safety [OF cluster_env_test run(1,2) that(1) _ _ run(3) that(3)] that(2) by simp
  with run show ?thesis by blast
qed

text \<open>C10: the cluster of \<open>RaftNode\<close>s refines the abstract election protocol: whatever state a run
  reaches, the protocol reaches a state with the same terms, votes, tallies and leaders and with the same
  vote messages on every link.\<close>

theorem cluster_refines_election:
  assumes "cluster_env E ms" "cluster_init E ms C" "(cluster_step E ms)\<^sup>*\<^sup>* C D"
  shows "\<exists>A B. election_init A \<and> implements (set ms) C A
    \<and> (election_step (set ms))\<^sup>*\<^sup>* A B \<and> implements (set ms) D B"
proof -
  obtain A where A: "election_init A" "implements (set ms) C A"
    using cluster_init_simulates(2) [OF assms(2)] by blast
  then show ?thesis
    using cluster_run_simulates [OF assms(1,3) cluster_init_simulates(1) [OF assms(2)] A(2)] by blast
qed

theorem cluster_refines_election_witness:
  "\<exists>C D B. cluster_init test_env [1, 2, 3] C \<and> (cluster_step test_env [1, 2, 3])\<^sup>*\<^sup>* C D \<and> leads D 1 1
    \<and> implements {1, 2, 3} D B \<and> lead B 1"
proof -
  obtain C D where run: "cluster_init test_env [1, 2, 3] C" "(cluster_step test_env [1, 2, 3])\<^sup>*\<^sup>* C D"
      "leads D 1 1"
    using test_cluster_run by blast
  obtain B where "implements (set [1, 2, 3]) D B"
    using cluster_refines_election [OF cluster_env_test run(1,2)] by blast
  with run show ?thesis
    by (auto simp: leads_def dest: implements_dest(4))
qed

end
