(* ===== verification/Raft_Replication.thy ===== *)
theory Raft_Replication
  imports Raft_Cluster
begin

text \<open>
  What the events of a node mean for the replicated log: the five effects (\<open>replicates\<close>) that an event can
  have on the log, the commit index and the match indices of a node, and the messages that it queues
  (\<open>sends\<close>). \<open>Raft_Log\<close> puts the nodes together.
\<close>

section \<open>Effects\<close>

definition matches :: "role \<Rightarrow> (node_id, nat) hash_map option" where
  "matches r = (case r of Leader _ mi \<Rightarrow> Some mi | _ \<Rightarrow> None)"

lemma matches_simps [simp]: "matches (Leader ni mi) = Some mi" "matches (Follower l) = None" "matches (Candidate v) = None"
  by (simp_all add: matches_def)

lemma is_leader_matches: "is_leader r \<longleftrightarrow> (\<exists>mi. matches r = Some mi)"
  by (cases r) simp_all

text \<open>The commit index stays or a leader moves it to an index that it finds replicated.\<close>

definition commits :: "('c, 'o, 's, 'st) raft_node \<Rightarrow> ('c, 'o, 's, 'st) raft_node \<Rightarrow> bool" where
  "commits s t \<longleftrightarrow> commit_index t = commit_index s
     \<or> (\<exists>mi. matches (role t) = Some mi \<and> commit_index t < length (node_log t) \<and> committable t mi (commit_index t))"

definition accepts :: "'c append_request_msg \<Rightarrow> ('c, 'o, 's, 'st) raft_node \<Rightarrow> ('c, 'o, 's, 'st) raft_node \<Rightarrow> bool" where
  "accepts req s t \<longleftrightarrow> \<not> is_leader (role t) \<and> \<not> is_candidate (role t) \<and> current_term t = areq_term req
     \<and> areq_prev_log_index req < length (node_log s)
     \<and> entry_term (node_log s ! areq_prev_log_index req) = areq_prev_log_term req
     \<and> node_log t = append_entries (areq_prev_log_index req + 1) (areq_entries req) (node_log s)
     \<and> commit_index t = (if commit_index s < areq_leader_commit req
                          then min (areq_leader_commit req) (length (node_log t) - 1) else commit_index s)"

inductive replicates ::
    "(node_id \<times> 'c raft_message) option \<Rightarrow> ('c, 'o, 's, 'st) raft_node \<Rightarrow> ('c, 'o, 's, 'st) raft_node \<Rightarrow> bool"
  for m s t where
  rp_idle: "node_log t = node_log s \<Longrightarrow> commits s t \<Longrightarrow>
    is_leader (role t) \<longrightarrow> is_leader (role s) \<and> current_term t = current_term s \<and> matches (role t) = matches (role s) \<Longrightarrow>
    replicates m s t"
| rp_lead: "is_leader (role t) \<Longrightarrow> is_candidate (role s) \<and> current_term t = current_term s \<or> current_term s < current_term t \<Longrightarrow>
    node_log t = node_log s @ [\<lparr>entry_term = current_term t, entry_command = NoOp\<rparr>] \<Longrightarrow>
    matches (role t) = Some (hm_collect (map (\<lambda>p. (p, 0)) (peer_ids s))) \<Longrightarrow> commits s t \<Longrightarrow> replicates m s t"
| rp_append: "is_leader (role s) \<Longrightarrow> is_leader (role t) \<Longrightarrow> current_term t = current_term s \<Longrightarrow>
    node_log t = node_log s @ [e] \<Longrightarrow> entry_term e = current_term s \<Longrightarrow> matches (role t) = matches (role s) \<Longrightarrow>
    commits s t \<Longrightarrow> replicates m s t"
| rp_ack: "m = Some (f, AppendResponse rsp) \<Longrightarrow> aresp_success rsp \<Longrightarrow> aresp_term rsp = current_term s \<Longrightarrow>
    current_term t = current_term s \<Longrightarrow> node_log t = node_log s \<Longrightarrow> matches (role s) = Some mi \<Longrightarrow>
    matches (role t) = Some (hm_insert f (aresp_match_index rsp) mi) \<Longrightarrow> commits s t \<Longrightarrow> replicates m s t"
| rp_accept: "m = Some (f, AppendRequest req) \<Longrightarrow> accepts req s t \<Longrightarrow> replicates m s t"

section \<open>Messages\<close>

definition fresh_request :: "('c, 'o, 's, 'st) raft_node \<Rightarrow> 'c append_request_msg \<Rightarrow> bool" where
  "fresh_request t req \<longleftrightarrow> is_leader (role t) \<and> areq_term req = current_term t
     \<and> areq_prev_log_index req < length (node_log t)
     \<and> areq_prev_log_term req = entry_term (node_log t ! areq_prev_log_index req)
     \<and> areq_entries req = drop (areq_prev_log_index req + 1) (node_log t) \<and> areq_leader_commit req = commit_index t"

definition sends ::
    "(node_id \<times> 'c raft_message) option \<Rightarrow> ('c, 'o, 's, 'st) raft_node \<Rightarrow> ('c, 'o, 's, 'st) raft_node \<Rightarrow> node_id
     \<Rightarrow> 'c raft_message \<Rightarrow> bool" where
  "sends m s t j x \<longleftrightarrow> (j \<in> set (peer_ids s) \<or> (\<exists>y. m = Some (j, y)))
     \<and> (case x of
        AppendRequest req \<Rightarrow> fresh_request t req
      | AppendResponse rsp \<Rightarrow>
          aresp_match_index rsp = 0 \<and> \<not> aresp_success rsp
          \<or> (\<exists>req. m = Some (j, AppendRequest req) \<and> aresp_term rsp = areq_term req \<and> current_term t = areq_term req
               \<and> (if aresp_success rsp
                  then accepts req s t \<and> aresp_match_index rsp = areq_prev_log_index req + length (areq_entries req)
                  else aresp_match_index rsp \<le> areq_prev_log_index req))
      | VoteRequest q \<Rightarrow> current_term s < current_term t \<and> vreq_term q = current_term t \<and> voted_for t = Some (node_id s)
          \<and> node_log s \<noteq> [] \<and> vreq_last_log_index q = length (node_log s) - 1
          \<and> vreq_last_log_term q = entry_term (last (node_log s))
      | VoteResponse _ \<Rightarrow> True)"

definition queues ::
    "(node_id \<times> 'c raft_message) option \<Rightarrow> ('c, 'o, 's, 'st) raft_node \<Rightarrow> ('c, 'o, 's, 'st) raft_node \<Rightarrow> bool" where
  "queues m s t \<longleftrightarrow> (\<forall>j x. x \<in> set (queue t j) \<longrightarrow> x \<in> set (queue s j) \<or> sends m s t j x)"

lemma queues_same: "transport_work t = transport_work s \<Longrightarrow> queues m s t"
  by (simp add: queues_def queue_def)

lemma queues_send:
  assumes "transport_work u = transport_work s" "t = send_message p x u" "sends m s t p x"
  shows "queues m s t"
proof -
  have "queue u j = queue s j" for j using assms(1) by (simp add: queue_def)
  with assms(2,3) queue_send [of p x u] show ?thesis by (auto simp: queues_def) (metis Un_iff empty_iff insert_iff list.set(1,2) set_append)
qed

lemma sends_simps [simp]:
  "sends (Some (j, y)) s t j (VoteResponse r)"
  "j \<in> set (peer_ids s) \<Longrightarrow> fresh_request t req \<Longrightarrow> sends m s t j (AppendRequest req)"
  "\<not> aresp_success rsp \<Longrightarrow> aresp_match_index rsp = 0
     \<or> aresp_term rsp = areq_term req \<and> current_term t = areq_term req \<and> aresp_match_index rsp \<le> areq_prev_log_index req \<Longrightarrow>
   sends (Some (j, AppendRequest req)) s t j (AppendResponse rsp)"
  by (simp_all add: sends_def)

lemma heartbeat_to_queue:
  assumes "heartbeat_to p s = Inr t" "x \<in> set (queue t j)"
  shows "x \<in> set (queue s j) \<or> j = p \<and> (\<exists>req. x = AppendRequest req \<and> fresh_request s req)"
proof -
  obtain ni mi k where k: "role s = Leader ni mi" "hm_get ni p = Some k" "k \<noteq> 0" "k - 1 < length (node_log s)"
      "t = send_message p (AppendRequest \<lparr>areq_term = current_term s, areq_leader_id = node_id s,
         areq_prev_log_index = k - 1, areq_prev_log_term = entry_term (node_log s ! (k - 1)),
         areq_entries = drop k (node_log s), areq_leader_commit = commit_index s\<rparr>) s"
    using assms(1)
    by (auto simp: heartbeat_to_def result_simps index_at_def split: role.splits option.splits if_splits)
  have "fresh_request s \<lparr>areq_term = current_term s, areq_leader_id = node_id s,
         areq_prev_log_index = k - 1, areq_prev_log_term = entry_term (node_log s ! (k - 1)),
         areq_entries = drop k (node_log s), areq_leader_commit = commit_index s\<rparr>"
    using k(1,3,4) by (simp add: fresh_request_def)
  with assms(2) queue_send [of p "AppendRequest \<lparr>areq_term = current_term s, areq_leader_id = node_id s,
         areq_prev_log_index = k - 1, areq_prev_log_term = entry_term (node_log s ! (k - 1)),
         areq_entries = drop k (node_log s), areq_leader_commit = commit_index s\<rparr>" s j]
  show ?thesis unfolding k(5) by auto
qed

lemma heartbeat_queue:
  assumes "on_heartbeat s = Inr t" "x \<in> set (queue t j)"
  shows "x \<in> set (queue s j) \<or> j \<in> set (peer_ids s) \<and> (\<exists>req. x = AppendRequest req \<and> fresh_request s req)"
proof -
  have "heartbeat_loop ps s = Inr t \<Longrightarrow> x \<in> set (queue t j) \<Longrightarrow>
      x \<in> set (queue s j) \<or> j \<in> set ps \<and> (\<exists>req. x = AppendRequest req \<and> fresh_request s req)" for ps
  proof (induction ps arbitrary: s)
    case (Cons p ps)
    obtain u where u: "heartbeat_to p s = Inr u" "heartbeat_loop ps u = Inr t"
      using Cons.prems(1) by (auto simp: result_simps)
    have "\<exists>w. u = s\<lparr>transport_work := w\<rparr>" using heartbeat_loop_frame [of "[p]" s u] u(1) by simp
    then have "fresh_request u req = fresh_request s req" for req by (auto simp: fresh_request_def)
    with Cons.IH [OF u(2) Cons.prems(2)] heartbeat_to_queue [OF u(1), of x j] show ?case by auto
  qed simp
  with assms show ?thesis by (simp add: on_heartbeat_def)
qed

lemma queues_heartbeat:
  assumes "on_heartbeat u = Inr t" "transport_work u = transport_work s" "peer_ids u = peer_ids s"
  shows "queues m s t"
proof -
  have q: "queue u j = queue s j" for j using assms(2) by (simp add: queue_def)
  have fr: "fresh_request t req = fresh_request u req" for req
    using on_heartbeat_frame [OF assms(1)] by (auto simp: fresh_request_def)
  have "x \<in> set (queue s j) \<or> sends m s t j x" if "x \<in> set (queue t j)" for x j
    using heartbeat_queue [OF assms(1) that] by (auto simp: q fr assms(3))
  then show ?thesis by (simp add: queues_def)
qed

section \<open>The handlers\<close>

lemma advance_commits: "commits s (advance_commit s)"
  by (auto simp: commits_def advance_commit_def committable_def split: role.splits option.splits dest!: find_in_set)

lemma advance_commit_same:
  "role (advance_commit s) = role s" "node_log (advance_commit s) = node_log s" "current_term (advance_commit s) = current_term s"
  "peer_ids (advance_commit s) = peer_ids s" "transport_work (advance_commit s) = transport_work s" "voted_for (advance_commit s) = voted_for s"
  using advance_commit_frame [of s] by auto

text \<open>The common tail of the handlers of a leader: commit, apply, and perhaps send.\<close>

lemma commit_tail:
  assumes "apply_committed E (advance_commit v) = Inr u"
  shows "node_log u = node_log v" "role u = role v" "current_term u = current_term v" "transport_work u = transport_work v"
    "peer_ids u = peer_ids v" "commits v u"
proof -
  obtain la sm pend r where u: "u = (advance_commit v)\<lparr>last_applied := la, state_machine := sm, pending_applies := pend, replies := r\<rparr>"
    using apply_committed_frame [OF assms] by blast
  then show "node_log u = node_log v" "role u = role v" "current_term u = current_term v" "transport_work u = transport_work v"
    "peer_ids u = peer_ids v"
    by (simp_all add: advance_commit_same)
  from u advance_commits [of v] show "commits v u" by (simp add: commits_def committable_def advance_commit_same)
qed

lemma heartbeat_same:
  assumes "on_heartbeat u = Inr t"
  shows "node_log t = node_log u" "role t = role u" "current_term t = current_term u" "commit_index t = commit_index u"
    "commits v t = commits v u"
  using on_heartbeat_frame [OF assms] by (auto simp: commits_def committable_def)

lemma become_leader_effect:
  assumes "become_leader E s = Inr t"
  shows "node_log t = node_log s @ [\<lparr>entry_term = current_term s, entry_command = NoOp\<rparr>]" "current_term t = current_term s"
    "matches (role t) = Some (hm_collect (map (\<lambda>p. (p, 0)) (peer_ids s)))" "is_leader (role t)" "commits s t"
    "transport_work s = transport_work v \<Longrightarrow> peer_ids s = peer_ids v \<Longrightarrow> queues m v t"
proof -
  obtain u where u: "apply_committed E (advance_commit (persist_state E (leader_state s))) = Inr u" "on_heartbeat u = Inr t"
    using become_leader_cases [OF assms] by blast
  note a = commit_tail [OF u(1)] and b = heartbeat_same [OF u(2)]
  have l: "role (persist_state E (leader_state s)) = role (leader_state s)" "node_log (persist_state E (leader_state s)) = node_log (leader_state s)"
      "current_term (persist_state E (leader_state s)) = current_term s" "commit_index (persist_state E (leader_state s)) = commit_index s"
      "transport_work (persist_state E (leader_state s)) = transport_work s" "peer_ids (persist_state E (leader_state s)) = peer_ids s"
    by (simp_all add: leader_state_def)
  show "node_log t = node_log s @ [\<lparr>entry_term = current_term s, entry_command = NoOp\<rparr>]" "current_term t = current_term s"
    "matches (role t) = Some (hm_collect (map (\<lambda>p. (p, 0)) (peer_ids s)))" "is_leader (role t)"
    by (simp_all add: a b l leader_state_def)
  have "commits s u" using a(6) by (simp only: commits_def l)
  then show "commits s t" by (simp only: b(5))
  show "queues m v t" if "transport_work s = transport_work v" "peer_ids s = peer_ids v"
    by (rule queues_heartbeat [OF u(2)]) (simp_all only: a(4,5) l(5,6) that)
qed

lemma become_candidate_effect:
  assumes "become_candidate E s = Inr t"
  shows "replicates m s t \<and> queues m s t"
  using assms
proof (cases rule: become_candidate_cases)
  case (single d)
  note l = become_leader_effect [OF single(3)]
  have "current_term s < current_term t" using word_less_succ [OF single(1)] l(2) by simp
  moreover have "commits s t" using l(5) by (simp add: commits_def)
  ultimately have "replicates m s t" using l(1,2,3,4) by (intro rp_lead) simp_all
  moreover have "queues m s t" by (rule l(6)) simp_all
  ultimately show ?thesis by blast
next
  case (ask d)
  define v where "v = persist_state E (candidate_state s d)"
  obtain w where t: "t = v\<lparr>transport_work := w\<rparr>" using broadcast_message_frame [of "vote_request_of s" v] ask(4) by (auto simp: v_def)
  have "replicates m s t" by (rule rp_idle) (simp_all add: t v_def commits_def)
  moreover have fold: "x \<in> set (queue (fold (\<lambda>p. send_message p y) ps u) j) \<Longrightarrow> x \<in> set (queue u j) \<or> j \<in> set ps \<and> x = y"
    for x y j ps and u :: "('a, 'b, 'c, 'd) raft_node"
  proof (induction ps arbitrary: u)
    case (Cons p ps)
    with queue_send [of p y u j] show ?case by (auto dest!: Cons.IH)
  qed simp
  have new: "sends m s t j (vote_request_of s)" if "j \<in> set (peer_ids s)" for j
    using ask(1,3) word_less_succ [OF ask(1)] that by (simp add: sends_def t v_def)
  have "queues m s t"
    unfolding queues_def
  proof (intro allI impI)
    fix j x assume "x \<in> set (queue t j)"
    then have "x \<in> set (queue v j) \<or> j \<in> set (peer_ids v) \<and> x = vote_request_of s"
      unfolding ask(4) v_def [symmetric] broadcast_message_def by (rule fold)
    moreover have "queue v j = queue s j" "peer_ids v = peer_ids s" by (simp_all add: queue_def v_def)
    ultimately show "x \<in> set (queue s j) \<or> sends m s t j x" using new by auto
  qed
  ultimately show ?thesis by blast
qed

lemma stepped_down_effect:
  assumes "t = (persist_state E (step_down T s))\<lparr>election_deadline := d\<rparr>"
  shows "replicates m s t \<and> queues m s t"
  using assms by (auto simp: commits_def intro!: rp_idle queues_same)

lemma unchanged_effect: "replicates m s s \<and> queues m s s"
  by (auto simp: commits_def intro!: rp_idle queues_same)

lemma append_response_effect:
  assumes "append_response E f rsp s = Inr t"
  shows "replicates (Some (f, AppendResponse rsp)) s t \<and> queues m s t"
  using assms
proof (cases rule: append_response_cases)
  case (newer d)
  then show ?thesis using stepped_down_effect by blast
next
  case (success ni mi)
  note a = commit_tail [OF success(4)]
  have "commits s t" using a(6) by (simp add: commits_def)
  then have "replicates (Some (f, AppendResponse rsp)) s t"
    using success(1-3) a(1-3) by (intro rp_ack [where mi = mi]) simp_all
  with a(4) show ?thesis by (simp add: queues_same)
next
  case (failure ni mi)
  note a = commit_tail [OF failure(4)]
  have "commits s t" using a(6) by (simp add: commits_def)
  then have "replicates (Some (f, AppendResponse rsp)) s t"
    using failure(2) a(1-3) by (intro rp_idle) simp_all
  with a(4) show ?thesis by (simp add: queues_same)
qed (use unchanged_effect in auto)

lemma follows_effect:
  assumes "follows E req s u" "\<not> areq_term req < current_term s"
  shows "current_term u = areq_term req" "node_log u = node_log s" "commit_index u = commit_index s" "transport_work u = transport_work s"
    "\<not> is_leader (role u)" "\<not> is_candidate (role u)"
  using assms by (auto elim!: follows.cases simp: max_def)

lemma append_request_effect:
  assumes "append_request E f req s = Inr t"
  shows "replicates (Some (f, AppendRequest req)) s t \<and> queues (Some (f, AppendRequest req)) s t"
  using assms
proof (cases rule: append_request_cases)
  case stale
  have "replicates (Some (f, AppendRequest req)) s t" by (rule rp_idle) (simp_all add: stale(2) commits_def)
  moreover have "queues (Some (f, AppendRequest req)) s t" by (rule queues_send [OF refl stale(2)]) simp
  ultimately show ?thesis by blast
next
  case (current u)
  note fo = follows_effect [OF current(2,1)]
  from current(3) show ?thesis
  proof (cases rule: append_request_log_cases)
    case gap
    have "replicates (Some (f, AppendRequest req)) s t" by (rule rp_idle) (simp_all add: gap(3) fo commits_def)
    moreover have "queues (Some (f, AppendRequest req)) s t" by (rule queues_send [OF fo(4) gap(3)]) (use gap(1) in \<open>auto simp: sends_def fo(1) gap(3)\<close>)
    ultimately show ?thesis by blast
  next
    case mismatch
    have "replicates (Some (f, AppendRequest req)) s t" by (rule rp_idle) (simp_all add: mismatch(3) fo commits_def)
    moreover have "queues (Some (f, AppendRequest req)) s t" by (rule queues_send [OF fo(4) mismatch(3)]) (simp add: sends_def fo(1) mismatch(3))
    ultimately show ?thesis by blast
  next
    case (accepted v)
    obtain la sm pend r where v: "v = (persist_state E (accept_entries req u))\<lparr>last_applied := la, state_machine := sm,
        pending_applies := pend, replies := r\<rparr>"
      using apply_committed_frame [OF accepted(3)] by blast
    have acc: "accepts req s t"
      using accepted(1,2) fo by (simp add: accepts_def accepted(4) v) (simp add: accept_entries_def Let_def)
    then have "replicates (Some (f, AppendRequest req)) s t" by (intro rp_accept [OF refl])
    moreover have "transport_work v = transport_work s" using fo(4) by (simp add: v)
    then have "queues (Some (f, AppendRequest req)) s t"
      by (rule queues_send [OF _ accepted(4)]) 
        (use acc in \<open>simp add: sends_def accepted(4) v, simp add: fo(1)\<close>)
    ultimately show ?thesis by blast
  qed
qed

lemma vote_request_effect:
  assumes "vote_request E f q s = Inr t" "m = Some (f, VoteRequest q)"
  shows "replicates m s t \<and> queues m s t"
  using assms(1)
proof (cases rule: vote_request_cases)
  case stale
  have "replicates m s t" by (rule rp_idle) (simp_all add: stale(2) commits_def)
  moreover have "queues m s t" by (rule queues_send [OF refl stale(2)]) (simp add: assms(2))
  ultimately show ?thesis by blast
next
  case (granted u d)
  have u: "node_log u = node_log s" "commit_index u = commit_index s" "transport_work u = transport_work s"
      "is_leader (role u) \<longrightarrow> u = s"
    using granted(2) by (auto elim!: vote_checked.cases)
  have "replicates m s t" by (rule rp_idle) (use u in \<open>auto simp: granted(5) commits_def\<close>)
  moreover have "queues m s t" by (rule queues_send [OF _ granted(5)]) (simp_all add: u assms(2))
  ultimately show ?thesis by blast
next
  case (rejected u)
  have u: "node_log u = node_log s" "commit_index u = commit_index s" "transport_work u = transport_work s"
      "is_leader (role u) \<longrightarrow> u = s"
    using rejected(2) by (auto elim!: vote_checked.cases)
  have "replicates m s t" by (rule rp_idle) (use u in \<open>auto simp: rejected(5) commits_def\<close>)
  moreover have "queues m s t" by (rule queues_send [OF _ rejected(5)]) (simp_all add: u assms(2))
  ultimately show ?thesis by blast
qed

lemma vote_response_effect:
  assumes "vote_response E rsp s = Inr t"
  shows "replicates m s t \<and> queues m s t"
  using assms
proof (cases rule: vote_response_cases)
  case (newer d)
  then show ?thesis using stepped_down_effect by blast
next
  case (counted v)
  then show ?thesis by (auto simp: commits_def intro!: rp_idle queues_same)
next
  case (elected v)
  note l = become_leader_effect [OF elected(5)]
  have "commits s t" using l(5) by (simp add: commits_def)
  then have "replicates m s t" using l(1-4) elected(2) by (intro rp_lead) simp_all
  moreover have "queues m s t" by (rule l(6)) simp_all
  ultimately show ?thesis by blast
qed (use unchanged_effect in auto)

lemma client_command_effect:
  assumes "client_command E cmd s = Inr t"
  shows "replicates m s t \<and> queues m s t"
  using assms
proof (cases rule: client_command_cases)
  case (append c reply u)
  note a = commit_tail [OF append(3)] and b = heartbeat_same [OF append(4)]
  have "commits s u" using a(6) by (simp add: commits_def)
  then have "commits s t" by (simp only: b(5))
  then have "replicates m s t"
    using append(2) a(1-3) b(1-3) by (intro rp_append [where e = "\<lparr>entry_term = current_term s, entry_command = Command c\<rparr>"]) simp_all
  moreover have "queues m s t" by (rule queues_heartbeat [OF append(4)]) (simp_all add: a(4,5))
  ultimately show ?thesis by blast
next
  case (answered reply v)
  have "replicates m s t" by (rule rp_idle) (simp_all add: answered(1) commits_def)
  moreover have "queues m s t" by (rule queues_same) (simp add: answered(1))
  ultimately show ?thesis by blast
qed

lemma on_event_effect:
  assumes "on_event E ev s = Inr t"
  shows "replicates (event_message ev) s t \<and> queues (event_message ev) s t"
proof (cases ev)
  case ElectionTimeout
  then show ?thesis using assms become_candidate_effect by (simp add: on_event_def)
next
  case HeartbeatTick
  then have hb: "on_heartbeat s = Inr t" using assms by (simp add: on_event_def)
  have "replicates (event_message ev) s t" by (rule rp_idle) (simp_all add: heartbeat_same [OF hb] commits_def)
  with queues_heartbeat [OF hb refl refl] show ?thesis by blast
next
  case (MessageReceived x)
  show ?thesis
  proof (cases "env_message x")
    case (AppendRequest req)
    then show ?thesis using assms MessageReceived append_request_effect [of E "env_from x" req s t]
      by (simp add: on_event_def handle_message_def event_message_def)
  next
    case (AppendResponse rsp)
    then show ?thesis using assms MessageReceived append_response_effect [of E "env_from x" rsp s t]
      by (simp add: on_event_def handle_message_def event_message_def)
  next
    case (VoteRequest q)
    then show ?thesis using assms MessageReceived vote_request_effect [of E "env_from x" q s t "Some (env_from x, VoteRequest q)"]
      by (simp add: on_event_def handle_message_def event_message_def)
  next
    case (VoteResponse rsp)
    then show ?thesis using assms MessageReceived vote_response_effect [of E rsp s t]
      by (simp add: on_event_def handle_message_def event_message_def)
  qed
next
  case (CommandReceived c)
  then show ?thesis using assms client_command_effect by (simp add: on_event_def)
qed

text \<open>A node gives its vote to candidates whose log is at least as up to date as its own.\<close>

definition votes_up_to_date ::
    "(node_id \<times> 'c raft_message) option \<Rightarrow> ('c, 'o, 's, 'st) raft_node \<Rightarrow> ('c, 'o, 's, 'st) raft_node \<Rightarrow> bool" where
  "votes_up_to_date m s t \<longleftrightarrow>
     (\<forall>f r. m = Some (f, VoteRequest r) \<longrightarrow> voted_for t \<noteq> None \<longrightarrow>
        current_term t = current_term s \<and> voted_for t = voted_for s \<or> log_up_to_date r (node_log s))"

lemma on_event_votes:
  assumes "on_event E ev s = Inr t"
  shows "votes_up_to_date (event_message ev) s t"
  unfolding votes_up_to_date_def
proof (intro allI impI)
  fix f r assume m: "event_message ev = Some (f, VoteRequest r)" and v: "voted_for t \<noteq> None"
  then have "vote_request E f r s = Inr t"
    using assms by (cases ev) (auto simp: event_message_def on_event_def handle_message_def)
  then show "current_term t = current_term s \<and> voted_for t = voted_for s \<or> log_up_to_date r (node_log s)"
    by (cases rule: vote_request_cases) (use v in \<open>auto simp: grants_def elim!: vote_checked.cases\<close>)
qed

section \<open>The steps of the cluster\<close>

text \<open>The messages on their way from \<open>i\<close> to \<open>j\<close>, and the part of a node that the replicated log depends on.\<close>

definition msgs :: "('c, 'o, 's, 'st) cluster \<Rightarrow> node_id \<Rightarrow> node_id \<Rightarrow> 'c raft_message set" where
  "msgs C i j = set (queue (nodes C i) j) \<union> set_mset (net C i j)"

definition view :: "('c, 'o, 's, 'st) raft_node \<Rightarrow> u64 \<times> node_id option \<times> role \<times> 'c log_entry list \<times> nat" where
  "view s = (current_term s, voted_for s, role s, node_log s, commit_index s)"

lemma view_eqD:
  assumes "view s = view t"
  shows "current_term s = current_term t" "voted_for s = voted_for t" "role s = role t" "node_log s = node_log t"
    "commit_index s = commit_index t"
  using assms by (simp_all add: view_def)

inductive node_step ::
    "(node_id \<times> 'c raft_message) option \<Rightarrow> ('c, 'o, 's, 'st) raft_node \<Rightarrow> ('c, 'o, 's, 'st) raft_node \<Rightarrow> bool" for m s t where
  ns_event: "replicates m s t \<Longrightarrow> elects m s t \<Longrightarrow> votes_up_to_date m s t \<Longrightarrow> fixed_part t = fixed_part s \<Longrightarrow> node_step m s t"
| ns_restart: "current_term t = current_term s \<Longrightarrow> voted_for t = voted_for s \<Longrightarrow> node_log t = node_log s \<Longrightarrow>
    role t = Follower None \<Longrightarrow> commit_index t = 0 \<Longrightarrow> fixed_part t = fixed_part s \<Longrightarrow> node_step m s t"

lemma msgs_step:
  assumes "nodes D = (nodes C)(i := t)" "queues m (nodes C i) t" "\<And>a b. net D a b \<subseteq># net C a b"
  shows "msgs D a b \<subseteq> msgs C a b \<union> {x. a = i \<and> sends m (nodes C i) t b x}"
  using assms(2) set_mset_mono [OF assms(3), of a b] by (auto simp: msgs_def assms(1) queues_def)

lemma new_node_empty:
  assumes "new_node E i ms sm st cfg = Inr t"
  shows "commit_index t = 0" "queue t j = []"
proof -
  obtain u where u: "t = init_transport_workers u" "transport_work u = []" "commit_index u = 0"
    using assms by (auto simp: new_node_def restore_state_def Let_def split: sum.splits option.splits)
  then show "commit_index t = 0" by (simp add: init_transport_workers_def)
  show "queue t j = []" using queue_init [of u j] u(1,2) by (simp add: queue_def)
qed

lemma alive_step_view:
  assumes "cluster_env E ms" "alive_step E ms C D" "cluster_ok E ms C" "implements (set ms) C A"
  obtains (node) i m t where "i \<in> set ms" "nodes D = (nodes C)(i := t)" "node_step m (nodes C i) t"
      "\<And>f x. m = Some (f, x) \<Longrightarrow> f \<in> set ms \<and> x \<in> msgs C f i"
      "\<And>a b. msgs D a b \<subseteq> msgs C a b \<union> {x. a = i \<and> sends m (nodes C i) t b x}"
    | (still) "\<And>i. view (nodes D i) = view (nodes C i)" "\<And>i j. msgs D i j \<subseteq> msgs C i j"
  using assms(2)
proof cases
  case (local i ev n r t)
  have "distinct (peer_ids (nodes C i))"
    using assms(1) cluster_ok_node(2) [OF assms(3) local(2)] by (simp add: cluster_env_def)
  then have "node_step None (nodes C i) t"
    using on_event_effect [OF local(5)] on_event_elects [OF local(5)] on_event_votes [OF local(5)] on_event_fixed [OF local(5)]
      ns_event [of None "nodes C i" t] by (simp add: local(3))
  moreover have "msgs D a b \<subseteq> msgs C a b \<union> {x. a = i \<and> sends None (nodes C i) t b x}" for a b
    by (rule msgs_step) (use on_event_effect [OF local(5)] in \<open>simp_all add: local(1,3)\<close>)
  ultimately show ?thesis using local(1,2) by (intro node [of i t None]) simp_all
next
  case (transmit i j m t)
  have "view t = view (nodes C i)" using worker_take_queue(2,4) [OF transmit(3)] transmit(3)
    by (auto simp: view_def core_def worker_take_def split: option.splits list.splits)
  moreover have "msgs D a b \<subseteq> msgs C a b" for a b
    using worker_take_queue(1) [OF transmit(3), of b] by (auto simp: msgs_def transmit(1) split: if_splits)
  ultimately show ?thesis by (intro still) (simp_all add: transmit(1))
next
  case (deliver j m i n r t)
  have i: "i \<in> set ms" using assms(4) deliver(3) by (force simp: implements_def)
  have "distinct (peer_ids (nodes C j))"
    using assms(1) cluster_ok_node(2) [OF assms(3) deliver(2)] by (simp add: cluster_env_def)
  moreover note eff = on_event_effect [OF deliver(4)]
  ultimately have "node_step (Some (i, m)) (nodes C j) t"
    using on_event_elects [OF deliver(4)] on_event_votes [OF deliver(4)] on_event_fixed [OF deliver(4)]
      ns_event [of "Some (i, m)" "nodes C j" t]
    by (simp add: event_message_def)
  moreover have "msgs D a b \<subseteq> msgs C a b \<union> {x. a = j \<and> sends (Some (i, m)) (nodes C j) t b x}" for a b
    by (rule msgs_step) (use eff in \<open>simp_all add: deliver(1) event_message_def\<close>)
  ultimately show ?thesis using deliver i by (intro node [of j t "Some (i, m)"]) (auto simp: msgs_def)
next
  case (drop_msg m i j)
  then show ?thesis by (intro still) (auto simp: msgs_def dest: in_diffD)
next
  case (restart i n r sm cfg t)
  have "durable E t" using new_node_persistent [OF restart(3)] by simp
  then have "current_term t = current_term (nodes C i)" "voted_for t = voted_for (nodes C i)" "node_log t = node_log (nodes C i)"
    using durable_unique [of E t "nodes C i"] cluster_ok_node(3) [OF assms(3) restart(2)]
      new_node_fresh(5) [OF restart(3)] by auto
  moreover note new_node_empty [OF restart(3)]
  moreover have "fixed_part t = fixed_part (nodes C i)"
    using new_node_fresh(1,2) [OF restart(3)] cluster_ok_node(1,2) [OF assms(3) restart(2)] by (simp add: fixed_part_def)
  ultimately have "node_step None (nodes C i) t" "queues None (nodes C i) t"
    using new_node_fresh(3) [OF restart(3)] by (auto intro!: ns_restart simp: queues_def)
  moreover from this have "msgs D a b \<subseteq> msgs C a b \<union> {x. a = i \<and> sends None (nodes C i) t b x}" for a b
    by (intro msgs_step) (simp_all add: restart(1))
  ultimately show ?thesis using restart(1,2) by (intro node [of i t None]) simp_all
qed

end
