(* ===== verification/Raft_Log.thy ===== *)
theory Raft_Log
  imports Raft_Replication "HOL-Library.Sublist"
begin

text \<open>
  The replicated log of a cluster. A history records the log of the leader of every term, the logs with which
  candidates asked for votes and the prefixes of its leader's log that a node has held in a term; no step
  of the cluster reads it. Every log is, up to each of its entries, the log of the leader that created the entry
  (\<open>backed\<close>), from which follows the log matching property.
\<close>

section \<open>Logs that agree\<close>

definition agree :: "'c log_entry list \<Rightarrow> 'c log_entry list \<Rightarrow> nat \<Rightarrow> bool" where
  "agree lg lg' k \<longleftrightarrow> k < length lg \<and> k < length lg' \<and> take (Suc k) lg = take (Suc k) lg'"

lemma agree_sym: "agree lg lg' k \<Longrightarrow> agree lg' lg k"
  by (simp add: agree_def)

lemma agree_trans: "agree lg lg' k \<Longrightarrow> agree lg' lg'' k \<Longrightarrow> agree lg lg'' k"
  by (simp add: agree_def)

lemma agree_le: "agree lg lg' k \<Longrightarrow> j \<le> k \<Longrightarrow> agree lg lg' j"
  unfolding agree_def by (metis Suc_le_mono le_less_trans min.absorb1 take_take)

lemma agree_nth: "agree lg lg' k \<Longrightarrow> j \<le> k \<Longrightarrow> lg ! j = lg' ! j"
  unfolding agree_def by (metis le_imp_less_Suc nth_take)

lemma agree_refl: "k < length lg \<Longrightarrow> agree lg lg k"
  by (simp add: agree_def)

lemma agree_len: "agree lg lg' k \<Longrightarrow> k < length lg" "agree lg lg' k \<Longrightarrow> k < length lg'"
  by (simp_all add: agree_def)

lemma agree_prefix: "prefix lg lg' \<Longrightarrow> k < length lg \<Longrightarrow> agree lg lg' k"
  by (auto simp: agree_def prefix_def)

lemma agree_prefix_right: "agree lg l k \<Longrightarrow> prefix l l' \<Longrightarrow> agree lg l' k"
  using agree_trans agree_prefix agree_len(2) by blast

lemma agree_prefix_left: "agree lg l k \<Longrightarrow> prefix lg lg' \<Longrightarrow> agree lg' l k"
  using agree_prefix_right agree_sym by blast

definition backed :: "(u64 \<Rightarrow> 'c log_entry list) \<Rightarrow> 'c log_entry list \<Rightarrow> bool" where
  "backed L lg \<longleftrightarrow> (\<forall>k < length lg. agree lg (L (entry_term (lg ! k))) k)"

text \<open>The logs of a node in term \<open>T\<close>: begun with the entry of term 0, backed, with no entry of a later term.\<close>

definition wf_log :: "(u64 \<Rightarrow> 'c log_entry list) \<Rightarrow> u64 \<Rightarrow> 'c log_entry list \<Rightarrow> bool" where
  "wf_log L T lg \<longleftrightarrow> lg \<noteq> [] \<and> entry_term (lg ! 0) = 0 \<and> backed L lg \<and> (\<forall>e \<in> set lg. entry_term e \<le> T)"

definition leader_logs :: "(u64 \<Rightarrow> 'c log_entry list) \<Rightarrow> bool" where
  "leader_logs L \<longleftrightarrow> (\<forall>T. L T \<noteq> [] \<longrightarrow> wf_log L T (L T) \<and> entry_term (last (L T)) = T)"

abbreviation grows :: "(u64 \<Rightarrow> 'c log_entry list) \<Rightarrow> (u64 \<Rightarrow> 'c log_entry list) \<Rightarrow> bool" where
  "grows L L' \<equiv> \<forall>T. prefix (L T) (L' T)"

lemma backed_grows: "backed L lg \<Longrightarrow> grows L L' \<Longrightarrow> backed L' lg"
  unfolding backed_def using agree_prefix_right by blast

lemma wf_log_grows: "wf_log L T lg \<Longrightarrow> grows L L' \<Longrightarrow> T \<le> T' \<Longrightarrow> wf_log L' T' lg"
  unfolding wf_log_def using backed_grows order_trans by blast

lemma wf_log_dest:
  assumes "wf_log L T lg" "k < length lg"
  shows "agree lg (L (entry_term (lg ! k))) k" "entry_term (lg ! k) \<le> T"
  using assms by (auto simp: wf_log_def backed_def)

text \<open>Two logs with entries of one term at an index agree up to there.\<close>

lemma backed_match:
  assumes "backed L lg" "backed L lg'" "k < length lg" "k < length lg'" "entry_term (lg ! k) = entry_term (lg' ! k)"
  shows "agree lg lg' k"
  using assms agree_trans agree_sym unfolding backed_def by metis

lemma wf_log_sorted:
  assumes "leader_logs L" "wf_log L T lg" "j \<le> k" "k < length lg"
  shows "entry_term (lg ! j) \<le> entry_term (lg ! k)"
proof -
  let ?X = "entry_term (lg ! k)"
  have a: "agree lg (L ?X) k" by (rule wf_log_dest(1) [OF assms(2,4)])
  then have "L ?X \<noteq> []" by (auto simp: agree_def)
  with assms(1) have "wf_log L ?X (L ?X)" by (simp add: leader_logs_def)
  moreover have "j < length (L ?X)" using agree_len(2) [OF a] assms(3) by simp
  ultimately have "entry_term (L ?X ! j) \<le> ?X" by (rule wf_log_dest(2))
  with agree_nth [OF a assms(3)] show ?thesis by simp
qed

lemma wf_log_snoc:
  assumes "wf_log L T lg" "grows L L'" "prefix (lg @ [e]) (L' T)" "entry_term e = T"
  shows "wf_log L' T (lg @ [e])"
proof -
  have wf: "wf_log L' T lg" by (rule wf_log_grows [OF assms(1,2) order_refl])
  have "agree (lg @ [e]) (L' (entry_term ((lg @ [e]) ! k))) k" if "k < length (lg @ [e])" for k
  proof (cases "k = length lg")
    case True
    with agree_prefix [OF assms(3), of k] assms(4) show ?thesis by simp
  next
    case False
    with that have k: "k < length lg" by simp
    from agree_prefix_left [OF wf_log_dest(1) [OF wf k]] k show ?thesis by (simp add: nth_append)
  qed
  with wf assms(4) show ?thesis by (auto simp: wf_log_def backed_def nth_append)
qed

lemma wf_log_take:
  assumes "wf_log L T lg" "0 < n"
  shows "wf_log L T (take n lg)"
proof -
  have "agree (take n lg) (L (entry_term (take n lg ! k))) k" if "k < length (take n lg)" for k
  proof -
    have k: "k < length lg" "k < n" using that by simp_all
    have "agree (take n lg) lg k" by (rule agree_prefix [OF take_is_prefix that])
    from agree_trans [OF this wf_log_dest(1) [OF assms(1) k(1)]] k(2) show ?thesis by simp
  qed
  with assms show ?thesis by (auto simp: wf_log_def backed_def dest: in_set_takeD)
qed

text \<open>The entries of a request on a log that agrees with the leader's before them: the log takes over the
  leader's entries and gives up nothing that it shares with the leader.\<close>

lemma slice_Cons:
  assumes "e # es = take (length (e # es)) (drop n LX)"
  shows "n < length LX" "LX ! n = e" "es = take (length es) (drop (Suc n) LX)"
proof -
  show n: "n < length LX" using assms by (cases "n < length LX") simp_all
  from assms Cons_nth_drop_Suc [OF n, symmetric] show "LX ! n = e" "es = take (length es) (drop (Suc n) LX)"
    by simp_all
qed

lemma append_entries_take:
  assumes "es = take (length es) (drop n LX)" "n \<le> length LX"
  shows "append_entries n es (take n LX) = take (n + length es) LX"
  using assms
proof (induction es arbitrary: n)
  case (Cons e es)
  note e = slice_Cons [OF Cons.prems(1)]
  have "take n LX @ [e] = take (Suc n) LX" using e(1,2) by (simp add: take_Suc_conv_app_nth)
  with Cons.IH [OF e(3)] e(1) show ?case by simp
qed simp

lemma append_entries_slice:
  assumes "es = take (length es) (drop n LX)" "n \<le> length LX" "n \<le> length lg" "take n lg = take n LX"
    and match: "\<And>k. k < length lg \<Longrightarrow> k < length LX \<Longrightarrow> entry_term (lg ! k) = entry_term (LX ! k) \<Longrightarrow> agree lg LX k"
  shows "append_entries n es lg = lg \<and> n + length es \<le> length lg \<and> take (n + length es) lg = take (n + length es) LX
    \<or> append_entries n es lg = take (n + length es) LX
      \<and> (\<forall>k. agree lg LX k \<longrightarrow> k < n + length es)"
  using assms(1-4)
proof (induction es arbitrary: n)
  case (Cons e es)
  note e = slice_Cons [OF Cons.prems(1)]
  show ?case
  proof (cases "n < length lg \<and> entry_term (lg ! n) = entry_term e")
    case True
    then have "agree lg LX n" by (intro match) (simp_all add: e)
    with Cons.IH [OF e(3)] True e(1) show ?thesis by (auto simp: agree_def)
  next
    case False
    have "(if n < length lg then if entry_term (lg ! n) \<noteq> entry_term e then take n lg @ [e] else lg else lg @ [e])
        = take (Suc n) LX"
      using False e(1,2) Cons.prems(3,4) by (auto simp: take_Suc_conv_app_nth)
    moreover have "k < n + length (e # es)" if "agree lg LX k" for k
    proof (rule ccontr)
      assume "\<not> k < n + length (e # es)"
      then have "n \<le> k" by simp
      with agree_nth [OF that this] agree_len(1) [OF that] False e(2) show False by simp
    qed
    ultimately show ?thesis using append_entries_take [OF e(3)] e(1) by auto
  qed
qed auto

section \<open>History\<close>

record 'c history =
  term_log :: "u64 \<Rightarrow> 'c log_entry list" \<comment> \<open>the log of the leader of a term\<close>
  bid :: "u64 \<Rightarrow> node_id \<Rightarrow> 'c log_entry list option" \<comment> \<open>the log with which a node asked for votes\<close>
  held :: "(u64 \<times> node_id \<times> nat) set" \<comment> \<open>a node held its leader's log up to an index\<close>

definition remember ::
    "node_id \<Rightarrow> ('c, 'o, 's, 'st) raft_node \<Rightarrow> ('c, 'o, 's, 'st) raft_node \<Rightarrow> 'c history \<Rightarrow> 'c history" where
  "remember i s t H =
     (let L = (if is_leader (role t) then (term_log H)(current_term t := node_log t) else term_log H) in
      \<lparr>term_log = L,
       bid = (if current_term s < current_term t \<and> voted_for t = Some i
              then (bid H)(current_term t := (bid H (current_term t))(i := Some (node_log s))) else bid H),
       held = held H \<union> {(current_term t, i, k) |k. agree (node_log t) (L (current_term t)) k}\<rparr>)"

lemma remember_term_log:
  "term_log (remember i s t H) =
     (if is_leader (role t) then (term_log H)(current_term t := node_log t) else term_log H)"
  by (simp add: remember_def Let_def)

text \<open>The requests of a leader carry a piece of its log.\<close>

definition slice_of :: "(u64 \<Rightarrow> 'c log_entry list) \<Rightarrow> 'c append_request_msg \<Rightarrow> bool" where
  "slice_of L req \<longleftrightarrow>
     (let lg = L (areq_term req); n = Suc (areq_prev_log_index req) in
      n \<le> length lg \<and> areq_prev_log_term req = entry_term (lg ! areq_prev_log_index req)
      \<and> areq_entries req = take (length (areq_entries req)) (drop n lg)
      \<and> n + length (areq_entries req) \<le> length lg)"

lemma prefix_slice:
  assumes "prefix l l'" "n + k \<le> length l"
  shows "take k (drop n l') = take k (drop n l)"
  using assms by (auto simp: prefix_def)

lemma slice_of_grows: "slice_of L req \<Longrightarrow> grows L L' \<Longrightarrow> slice_of L' req"
  unfolding slice_of_def Let_def
  by (metis (no_types, lifting) Suc_le_lessD nth_append order_trans prefixE prefix_length_le prefix_slice)

lemma fresh_request_slice:
  assumes "fresh_request t req" "L (current_term t) = node_log t"
  shows "slice_of L req"
  using assms by (auto simp: fresh_request_def slice_of_def Let_def)

section \<open>The invariant\<close>

definition log_inv :: "node_id set \<Rightarrow> ('c, 'o, 's, 'st) cluster \<Rightarrow> (node_id, u64) election \<Rightarrow> 'c history \<Rightarrow> bool" where
  "log_inv M C A H \<longleftrightarrow>
     leader_logs (term_log H)
     \<and> (\<forall>T. T \<noteq> 0 \<longrightarrow> term_log H T \<noteq> [] \<longrightarrow> (\<exists>c. (T, c) \<in> leaders A))
     \<and> (\<forall>T c. (T, c) \<in> leaders A \<longrightarrow> c \<in> M \<and> T \<noteq> 0 \<and> term_log H T \<noteq> [] \<and> T \<le> current_term (nodes C c)
          \<and> (T = current_term (nodes C c) \<longrightarrow> \<not> is_candidate (role (nodes C c))))
     \<and> (\<forall>i \<in> M. wf_log (term_log H) (current_term (nodes C i)) (node_log (nodes C i))
          \<and> (is_leader (role (nodes C i)) \<longrightarrow>
              current_term (nodes C i) \<noteq> 0 \<and> term_log H (current_term (nodes C i)) = node_log (nodes C i))
          \<and> (is_candidate (role (nodes C i)) \<longrightarrow> current_term (nodes C i) \<noteq> 0))
     \<and> (\<forall>i \<in> M. \<forall>j req. AppendRequest req \<in> msgs C i j \<longrightarrow> slice_of (term_log H) req)"

lemma log_inv_dest:
  assumes "log_inv M C A H"
  shows "leader_logs (term_log H)" "T \<noteq> 0 \<Longrightarrow> term_log H T \<noteq> [] \<Longrightarrow> \<exists>c. (T, c) \<in> leaders A"
    "(T, c) \<in> leaders A \<Longrightarrow> c \<in> M" "(T, c) \<in> leaders A \<Longrightarrow> T \<noteq> 0" "(T, c) \<in> leaders A \<Longrightarrow> term_log H T \<noteq> []"
    "(T, c) \<in> leaders A \<Longrightarrow> T \<le> current_term (nodes C c)"
    "(current_term (nodes C c), c) \<in> leaders A \<Longrightarrow> \<not> is_candidate (role (nodes C c))"
    "i \<in> M \<Longrightarrow> wf_log (term_log H) (current_term (nodes C i)) (node_log (nodes C i))"
    "i \<in> M \<Longrightarrow> is_leader (role (nodes C i)) \<Longrightarrow> current_term (nodes C i) \<noteq> 0"
    "i \<in> M \<Longrightarrow> is_leader (role (nodes C i)) \<Longrightarrow> term_log H (current_term (nodes C i)) = node_log (nodes C i)"
    "i \<in> M \<Longrightarrow> is_candidate (role (nodes C i)) \<Longrightarrow> current_term (nodes C i) \<noteq> 0"
    "i \<in> M \<Longrightarrow> AppendRequest req \<in> msgs C i j \<Longrightarrow> slice_of (term_log H) req"
  using assms by (auto simp: log_inv_def)

text \<open>A step of node \<open>i\<close> with what the election protocol records of it.\<close>

definition moves ::
    "node_id set \<Rightarrow> ('c, 'o, 's, 'st) cluster \<Rightarrow> (node_id, u64) election \<Rightarrow> node_id \<Rightarrow> (node_id \<times> 'c raft_message) option
     \<Rightarrow> ('c, 'o, 's, 'st) raft_node \<Rightarrow> ('c, 'o, 's, 'st) cluster \<Rightarrow> (node_id, u64) election \<Rightarrow> bool" where
  "moves M C A i m t D A' \<longleftrightarrow> finite M \<and> i \<in> M \<and> nodes D = (nodes C)(i := t) \<and> node_step m (nodes C i) t
     \<and> node_id (nodes C i) = i \<and> set (peer_ids (nodes C i)) = M - {i}
     \<and> (\<forall>n. has_majority n (length (peer_ids (nodes C i)) + 1) \<longleftrightarrow> card M < 2 * n)
     \<and> (\<forall>f x. m = Some (f, x) \<longrightarrow> f \<in> M \<and> x \<in> msgs C f i)
     \<and> (\<forall>f r. m = Some (f, VoteRequest r) \<longrightarrow> vreq_candidate_id r = f)
     \<and> (\<forall>a b x. x \<in> msgs D a b \<longrightarrow> x \<in> msgs C a b \<or> a = i \<and> sends m (nodes C i) t b x)
     \<and> implements M C A \<and> implements M D A' \<and> election_inv M A \<and> election_inv M A' \<and> recorded M D A A'"

lemma moves_dest:
  assumes "moves M C A i m t D A'"
  shows "finite M" "i \<in> M" "nodes D = (nodes C)(i := t)" "node_step m (nodes C i) t"
    "m = Some (f, x) \<Longrightarrow> f \<in> M" "m = Some (f, x) \<Longrightarrow> x \<in> msgs C f i"
    "y \<in> msgs D a b \<Longrightarrow> y \<in> msgs C a b \<or> a = i \<and> sends m (nodes C i) t b y"
    "election_inv M A" "election_inv M A'" "leaders A \<subseteq> leaders A'"
    "(T, c) \<in> leaders A' \<Longrightarrow> (T, c) \<in> leaders A \<or> c \<in> M \<and> leads D c T"
    "node_id (nodes C i) = i" "set (peer_ids (nodes C i)) = M - {i}" "implements M C A" "implements M D A'"
    "has_majority n (length (peer_ids (nodes C i)) + 1) \<longleftrightarrow> card M < 2 * n"
    "m = Some (f, VoteRequest r) \<Longrightarrow> vreq_candidate_id r = f"
    "(T, v, c) \<in> votes A' \<Longrightarrow> (T, v, c) \<in> votes A \<or> T = current_term (nodes D v) \<and> voted_for (nodes D v) = Some c"
proof -
  have rec: "recorded M D A A'" using assms by (simp add: moves_def)
  show "(T, v, c) \<in> votes A' \<Longrightarrow> (T, v, c) \<in> votes A \<or> T = current_term (nodes D v) \<and> voted_for (nodes D v) = Some c"
    "(T, c) \<in> leaders A' \<Longrightarrow> (T, c) \<in> leaders A \<or> c \<in> M \<and> leads D c T" "leaders A \<subseteq> leaders A'"
    using rec unfolding recorded_def by blast+
qed (use assms in \<open>simp_all add: moves_def\<close>)

lemma implements_leader:
  assumes "implements M C A" "election_inv M A" "i \<in> M" "is_leader (role (nodes C i))"
  shows "(current_term (nodes C i), i) \<in> leaders A"
  using assms implements_dest(1,4) [OF assms(1,3)] by (auto simp: election_inv_def leaders_ok_def)

lemma node_step_term: "node_step m s t \<Longrightarrow> current_term s \<le> current_term t"
  by (induction rule: node_step.induct) (auto elim!: elects.cases)

text \<open>What a request does to the log of a node, and what a log can do at all.\<close>

definition adopts :: "'c log_entry list \<Rightarrow> nat \<Rightarrow> 'c log_entry list \<Rightarrow> 'c log_entry list \<Rightarrow> bool" where
  "adopts LX n lg lg' \<longleftrightarrow> n < length LX \<and> agree lg' LX n
     \<and> (lg' = lg \<or> lg' = take (Suc n) LX) \<and> (\<forall>k. agree lg LX k \<longrightarrow> agree lg' LX k)"

lemma accepts_adopts:
  assumes "leader_logs L" "wf_log L T (node_log s)" "slice_of L req" "accepts req s t"
  shows "adopts (L (areq_term req)) (areq_prev_log_index req + length (areq_entries req)) (node_log s) (node_log t)"
proof -
  let ?LX = "L (areq_term req)" and ?p = "areq_prev_log_index req" and ?es = "areq_entries req"
  let ?n = "Suc ?p + length ?es"
  have sl: "Suc ?p \<le> length ?LX" "areq_prev_log_term req = entry_term (?LX ! ?p)"
      "?es = take (length ?es) (drop (Suc ?p) ?LX)" "?n \<le> length ?LX"
    using assms(3) by (simp_all add: slice_of_def Let_def)
  have acc: "?p < length (node_log s)" "entry_term (node_log s ! ?p) = areq_prev_log_term req"
      "node_log t = append_entries (Suc ?p) ?es (node_log s)"
    using assms(4) by (simp_all add: accepts_def)
  have "wf_log L (areq_term req) ?LX" using assms(1) sl(1) by (cases "?LX = []") (simp_all add: leader_logs_def)
  then have match: "agree (node_log s) ?LX k"
    if "k < length (node_log s)" "k < length ?LX" "entry_term (node_log s ! k) = entry_term (?LX ! k)" for k
    using backed_match [of L "node_log s" ?LX k] assms(2) that by (simp add: wf_log_def)
  have "take (Suc ?p) (node_log s) = take (Suc ?p) ?LX"
    using match [of ?p] acc sl by (simp add: agree_def)
  from append_entries_slice [OF sl(3,1) Suc_leI [OF acc(1)] this match, folded acc(3)]
  consider "node_log t = node_log s" "?n \<le> length (node_log s)" "take ?n (node_log s) = take ?n ?LX"
    | "node_log t = take ?n ?LX" "\<And>k. agree (node_log s) ?LX k \<Longrightarrow> k < ?n"
    by blast
  then show ?thesis
  proof cases
    case 1
    with sl(4) show ?thesis by (auto simp: adopts_def agree_def)
  next
    case 2
    have "agree (node_log t) ?LX k" if "k < ?n" for k
      using that sl(4) agree_prefix [OF take_is_prefix, of k ?n ?LX] by (simp add: 2(1))
    with 2 sl(4) show ?thesis by (simp add: adopts_def)
  qed
qed

lemma log_moves:
  assumes "moves M C A i m t D A'" "log_inv M C A H"
  obtains (same) "node_log t = node_log (nodes C i)"
      "is_leader (role t) \<Longrightarrow> is_leader (role (nodes C i)) \<and> current_term t = current_term (nodes C i)"
    | (lead) e where "is_leader (role t)" "term_log H (current_term t) = []" "current_term t \<noteq> 0"
        "node_log t = node_log (nodes C i) @ [e]" "entry_term e = current_term t"
    | (extend) e where "is_leader (role t)" "is_leader (role (nodes C i))" "current_term t = current_term (nodes C i)"
        "node_log t = node_log (nodes C i) @ [e]" "entry_term e = current_term t"
    | (accept) f req where "m = Some (f, AppendRequest req)" "slice_of (term_log H) req" "accepts req (nodes C i) t"
proof -
  note mv = moves_dest [OF assms(1)] and inv = log_inv_dest [OF assms(2)]
  from mv(4) show ?thesis
  proof cases
    case ns_restart
    then show ?thesis by (intro same) simp_all
  next
    case ns_event
    from ns_event(1) show ?thesis
    proof cases
      case rp_idle
      then show ?thesis by (intro same) simp_all
    next
      case rp_lead
      have "(current_term t, i) \<in> leaders A'"
        using implements_leader [of M D A' i] assms(1) rp_lead(1) by (simp add: moves_def)
      then have one: "c = i" if "(current_term t, c) \<in> leaders A" for c
        using election_inv_unique [OF mv(1,9)] mv(10) that by blast
      have "current_term t \<noteq> 0"
        using rp_lead(2) inv(11) [OF mv(2)] by (auto simp: word_neq_0_conv dest: le_less_trans [OF word_zero_le])
      moreover have "term_log H (current_term t) = []"
      proof (rule ccontr)
        assume "term_log H (current_term t) \<noteq> []"
        then have "(current_term t, i) \<in> leaders A" using inv(2) [OF \<open>current_term t \<noteq> 0\<close>] one by blast
        then show False using inv(6) [of "current_term t" i] inv(7) [of i] rp_lead(2) by auto
      qed
      ultimately show ?thesis 
        using rp_lead(1,3) by (intro lead [of "\<lparr>entry_term = current_term t, entry_command = NoOp\<rparr>"]) simp_all
    next
      case (rp_append e)
      then show ?thesis by (intro extend) simp_all
    next
      case (rp_ack f rsp mi)
      then show ?thesis by (intro same) (auto simp: is_leader_matches)
    next
      case (rp_accept f req)
      then show ?thesis using mv(5,6) inv(12) by (intro accept) auto
    qed
  qed
qed

lemma moves_grows:
  assumes "moves M C A i m t D A'" "log_inv M C A H"
  shows "grows (term_log H) (term_log (remember i (nodes C i) t H))"
  using assms
proof (cases rule: log_moves)
  case same
  then show ?thesis using log_inv_dest(10) [OF assms(2) moves_dest(2) [OF assms(1)]] by (simp add: remember_term_log)
next
  case (extend e)
  then show ?thesis using log_inv_dest(10) [OF assms(2) moves_dest(2) [OF assms(1)]] by (simp add: remember_term_log)
qed (auto simp: remember_term_log accepts_def)

lemma moves_wf:
  assumes "moves M C A i m t D A'" "log_inv M C A H" "L' = term_log (remember i (nodes C i) t H)"
  shows "wf_log L' (current_term t) (node_log t)"
    "is_leader (role t) \<Longrightarrow> current_term t \<noteq> 0 \<and> entry_term (last (node_log t)) = current_term t"
proof -
  note mv = moves_dest [OF assms(1)] and inv = log_inv_dest [OF assms(2)]
  have gr: "grows (term_log H) L'" using moves_grows [OF assms(1,2)] assms(3) by simp
  have le: "current_term (nodes C i) \<le> current_term t" by (rule node_step_term [OF mv(4)])
  have s: "wf_log (term_log H) (current_term (nodes C i)) (node_log (nodes C i))" by (rule inv(8) [OF mv(2)])
  note s' = wf_log_grows [OF s gr le]
  have snoc: "wf_log L' (current_term t) (node_log t)"
    if "is_leader (role t)" "node_log t = node_log (nodes C i) @ [e]" "entry_term e = current_term t" for e
    unfolding that(2) by (rule wf_log_snoc [OF wf_log_grows [OF s _ le] gr]) (use that in \<open>simp_all add: assms(3) remember_term_log\<close>)
  have "wf_log L' (current_term t) (node_log t)
      \<and> (is_leader (role t) \<longrightarrow> current_term t \<noteq> 0 \<and> entry_term (last (node_log t)) = current_term t)"
    using assms(1,2)
  proof (cases rule: log_moves)
    case same
    moreover have "entry_term (last (node_log (nodes C i))) = current_term (nodes C i)" if "is_leader (role (nodes C i))"
      using inv(1) [unfolded leader_logs_def, rule_format, of "current_term (nodes C i)"] inv(10) [OF mv(2) that] s
      by (simp add: wf_log_def)
    ultimately show ?thesis using s' inv(9) [OF mv(2)] by auto
  next
    case (lead e)
    then show ?thesis using snoc [of e] by simp
  next
    case (extend e)
    then show ?thesis using snoc [of e] inv(9) [OF mv(2)] by simp
  next
    case (accept f req)
    let ?n = "areq_prev_log_index req + length (areq_entries req)"
    have "adopts (term_log H (current_term t)) ?n (node_log (nodes C i)) (node_log t)" and nl: "\<not> is_leader (role t)"
      using accepts_adopts [OF inv(1) s accept(2,3)] accept(3) by (simp_all add: accepts_def)
    then consider "node_log t = node_log (nodes C i)"
      | "node_log t = take (Suc ?n) (term_log H (current_term t))" "term_log H (current_term t) \<noteq> []"
      by (cases "term_log H (current_term t) = []") (auto simp: adopts_def)
    then have "wf_log L' (current_term t) (node_log t)"
    proof cases
      case 1
      with s' show ?thesis by simp
    next
      case 2
      from 2(2) inv(1) have "wf_log (term_log H) (current_term t) (term_log H (current_term t))" by (simp add: leader_logs_def)
      from wf_log_grows [OF wf_log_take [OF this] gr order_refl, of "Suc ?n"] 2(1) show ?thesis by simp
    qed
    with nl show ?thesis by simp
  qed
  then show "wf_log L' (current_term t) (node_log t)"
    "is_leader (role t) \<Longrightarrow> current_term t \<noteq> 0 \<and> entry_term (last (node_log t)) = current_term t"
    by simp_all
qed

lemma moves_leader_logs:
  assumes "moves M C A i m t D A'" "log_inv M C A H"
  shows "leader_logs (term_log (remember i (nodes C i) t H))"
  unfolding leader_logs_def
proof (intro allI impI)
  fix T
  let ?L = "term_log (remember i (nodes C i) t H)"
  assume ne: "?L T \<noteq> []"
  show "wf_log ?L T (?L T) \<and> entry_term (last (?L T)) = T"
  proof (cases "is_leader (role t) \<and> T = current_term t")
    case True
    then show ?thesis using moves_wf [OF assms refl] by (simp add: remember_term_log)
  next
    case False
    then have eq: "?L T = term_log H T" by (auto simp: remember_term_log)
    have "wf_log (term_log H) T (term_log H T)" "entry_term (last (term_log H T)) = T"
      using ne log_inv_dest(1) [OF assms(2)] unfolding eq by (simp_all add: leader_logs_def)
    then show ?thesis using wf_log_grows [OF _ moves_grows [OF assms] order_refl] unfolding eq by simp
  qed
qed

lemma node_step_candidate:
  assumes "node_step m s t" "is_candidate (role t)"
  shows "current_term t \<noteq> 0 \<and> current_term s < current_term t \<or> is_candidate (role s) \<and> current_term t = current_term s"
  using assms(1)
proof cases
  case ns_event
  have *: "is_candidate r \<longleftrightarrow> votes_of r \<noteq> None" for r by (cases r) simp_all
  from ns_event(2) show ?thesis
    by cases (use assms(2) in \<open>auto simp: * dest: le_less_trans [OF word_zero_le]\<close>)
qed (use assms(2) in simp)

lemma log_inv_moves:
  assumes "moves M C A i m t D A'" "log_inv M C A H"
  shows "log_inv M D A' (remember i (nodes C i) t H)"
proof -
  note mv = moves_dest [OF assms(1)] and inv = log_inv_dest [OF assms(2)] and gr = moves_grows [OF assms]
  let ?L = "term_log (remember i (nodes C i) t H)"
  have lead: "(current_term t, i) \<in> leaders A'" if "is_leader (role t)"
    using implements_leader [of M D A' i] assms(1) that by (simp add: moves_def)
  have le: "current_term (nodes C i) \<le> current_term t" by (rule node_step_term [OF mv(4)])
  show ?thesis
    unfolding log_inv_def
  proof (intro conjI allI impI ballI)
    show "leader_logs ?L" by (rule moves_leader_logs [OF assms])
  next
    fix T assume T: "T \<noteq> 0" "?L T \<noteq> []"
    show "\<exists>c. (T, c) \<in> leaders A'"
      using lead inv(2) [of T] mv(10) T by (auto simp: remember_term_log split: if_splits)
  next
    fix T c assume "(T, c) \<in> leaders A'"
    then consider "(T, c) \<in> leaders A" | "(T, c) \<notin> leaders A" "c \<in> M" "leads D c T" using mv(11) by blast
    then have "c \<in> M \<and> T \<noteq> 0 \<and> ?L T \<noteq> [] \<and> T \<le> current_term (nodes D c)
      \<and> (T = current_term (nodes D c) \<longrightarrow> \<not> is_candidate (role (nodes D c)))"
    proof cases
      case 1
      have "\<not> is_candidate (role (nodes D c))" if "T = current_term (nodes D c)"
      proof (cases "c = i")
        case True
        with that 1 inv(6) [of T i] inv(7) [of i] node_step_candidate [OF mv(4)] show ?thesis by (auto simp: mv(3))
      qed (use that 1 inv(7) in \<open>auto simp: mv(3)\<close>)
      moreover have "?L T \<noteq> []" using gr inv(5) [OF 1] by (metis prefix_Nil)
      ultimately show ?thesis using inv(3,4,6) [OF 1] le by (auto simp: mv(3) intro: order_trans)
    next
      case 2
      have "c = i"
        using implements_leader [of M C A c] assms(1) 2 by (cases "c = i") (auto simp: moves_def leads_def)
      moreover have "\<not> is_candidate (role t)" if "is_leader (role t)" using that by (cases "role t") simp_all
      ultimately show ?thesis
        using 2(2,3) moves_wf [OF assms refl] by (auto simp: leads_def mv(3) remember_term_log wf_log_def)
    qed
    then show "c \<in> M" "T \<noteq> 0" "?L T \<noteq> []" "T \<le> current_term (nodes D c)"
      "T = current_term (nodes D c) \<Longrightarrow> \<not> is_candidate (role (nodes D c))" by simp_all
  next
    fix a assume a: "a \<in> M"
    show "wf_log ?L (current_term (nodes D a)) (node_log (nodes D a))"
      using moves_wf(1) [OF assms refl] wf_log_grows [OF inv(8) [OF a] gr order_refl] by (auto simp: mv(3))
    show "current_term (nodes D a) \<noteq> 0" if "is_leader (role (nodes D a))"
      using moves_wf(2) [OF assms refl] inv(9) [OF a] that by (auto simp: mv(3) split: if_splits)
    show "?L (current_term (nodes D a)) = node_log (nodes D a)" if "is_leader (role (nodes D a))"
    proof (cases "a = i")
      case False
      then have l: "is_leader (role (nodes C a))" using that by (simp add: mv(3))
      have "(current_term (nodes C a), a) \<in> leaders A'"
        using implements_leader [of M C A a] assms(1) a l mv(10) by (auto simp: moves_def)
      then have "\<not> (is_leader (role t) \<and> current_term (nodes C a) = current_term t)"
        using lead election_inv_unique [OF mv(1,9)] False by metis
      with False inv(10) [OF a l] show ?thesis by (auto simp: mv(3) remember_term_log)
    qed (use that in \<open>simp add: mv(3) remember_term_log\<close>)
    show "current_term (nodes D a) \<noteq> 0" if "is_candidate (role (nodes D a))"
      using node_step_candidate [OF mv(4)] inv(11) [OF a] that by (auto simp: mv(3) split: if_splits)
    fix b req assume "AppendRequest req \<in> msgs D a b"
    then consider "AppendRequest req \<in> msgs C a b" | "sends m (nodes C i) t b (AppendRequest req)" using mv(7) by blast
    then show "slice_of ?L req"
    proof cases
      case 1
      then show ?thesis using slice_of_grows [OF inv(12) [OF a] gr] by simp
    next
      case 2
      then have "fresh_request t req" by (simp add: sends_def)
      then show ?thesis by (rule fresh_request_slice) (use \<open>fresh_request t req\<close> in \<open>simp add: remember_term_log fresh_request_def\<close>)
    qed
  qed
qed

lemma log_inv_still:
  assumes "\<And>i. view (nodes D i) = view (nodes C i)" "\<And>i j. msgs D i j \<subseteq> msgs C i j" "leaders A' = leaders A"
    and "log_inv M C A H"
  shows "log_inv M D A' H"
  using assms(4) unfolding log_inv_def by (auto simp: view_eqD [OF assms(1)] assms(3) dest: subsetD [OF assms(2)])

section \<open>Every step of the cluster\<close>

lemma vote_request_sender:
  assumes "cluster_ok E ms C" "i \<in> set ms" "VoteRequest r \<in> msgs C i j"
  shows "vreq_candidate_id r = i"
  using assms by (auto simp: cluster_ok_def msgs_def vote_msgs_def)

lemma recorded_still:
  assumes "recorded M D A A'" "implements M C A" "election_inv M A" "election_inv M A'"
    and "\<And>i. view (nodes D i) = view (nodes C i)"
  shows "leaders A' = leaders A" "votes A' \<subseteq> votes A"
proof -
  have "(T, c) \<in> leaders A" if "(T, c) \<in> leaders A'" for T c
  proof -
    have "(T, c) \<in> leaders A \<or> c \<in> M \<and> leads D c T" using assms(1) that unfolding recorded_def by blast
    then show ?thesis using implements_leader [OF assms(2,3), of c] by (auto simp: leads_def view_eqD [OF assms(5)])
  qed
  then show "leaders A' = leaders A" using assms(1) by (auto simp: recorded_def)
  have "(T, v, c) \<in> votes A" if v: "(T, v, c) \<in> votes A'" for T v c
  proof -
    have "v \<in> M" using assms(4) v by (auto simp: election_inv_def votes_ok_def)
    moreover have "(T, v, c) \<in> votes A \<or> T = current_term (nodes D v) \<and> voted_for (nodes D v) = Some c"
      using assms(1) v unfolding recorded_def by blast
    ultimately show ?thesis
      using assms(3) implements_dest(1,2) [OF assms(2), of v]
      by (auto simp: election_inv_def votes_ok_def view_eqD [OF assms(5)])
  qed
  then show "votes A' \<subseteq> votes A" by auto
qed

lemma alive_step_moves:
  assumes "cluster_env E ms" "alive_step E ms C D" "cluster_ok E ms C" "implements (set ms) C A" "election_inv (set ms) A"
  obtains (move) A' i m t where "moves (set ms) C A i m t D A'"
    | (still) A' where "implements (set ms) D A'" "election_inv (set ms) A'" "leaders A' = leaders A" "votes A' \<subseteq> votes A"
        "\<And>i. view (nodes D i) = view (nodes C i)" "\<And>i j. msgs D i j \<subseteq> msgs C i j"
proof -
  obtain A' where A': "(election_step (set ms))\<^sup>*\<^sup>* A A'" "implements (set ms) D A'" "recorded (set ms) D A A'"
    using alive_simulates [OF assms(1-4)] by blast
  have inv: "election_inv (set ms) A'" by (rule election_steps_inv [OF finite_set A'(1) assms(5)])
  from assms(1-4) show ?thesis
  proof (cases rule: alive_step_view)
    case (node i m t)
    note ok = cluster_ok_node(1,2) [OF assms(3) node(1)]
    have "moves (set ms) C A i m t D A'"
      unfolding moves_def
    proof (intro conjI allI impI)
      show "has_majority n (length (peer_ids (nodes C i)) + 1) = (card (set ms) < 2 * n)" for n
        using has_majority_iff [of ms i n] assms(1) node(1) ok(2) by (simp add: cluster_env_def)
      show "vreq_candidate_id r = f" if "m = Some (f, VoteRequest r)" for f r
        using vote_request_sender [OF assms(3)] node(4) [OF that] by blast
      show "x \<in> msgs C a b \<or> a = i \<and> sends m (nodes C i) t b x" if "x \<in> msgs D a b" for a b x
        using node(5) [of a b] that by auto
    qed (use A' inv assms(4,5) node ok in auto)
    then show ?thesis by (rule move)
  next
    case still': still
    from still [OF A'(2) inv recorded_still [OF A'(3) assms(4,5) inv still'(1)] still'] show ?thesis .
  qed
qed

end
