(* ===== verification/Raft_Commit.thy ===== *)
theory Raft_Commit
  imports Raft_Log
begin

text \<open>
  Commitment in a cluster. An entry is committed when a majority has held it in the term of its leader; the vote
  invariant (\<open>vote_inv\<close>) says that whoever could be elected carries what its voters have held, so that
  every later leader has the committed entries (\<open>leader_complete\<close>). The commit invariant (\<open>commit_inv\<close>) ties the
  match indices of the leaders, the messages and the commit indices of the nodes to this notion. From them
  follow log matching, leader completeness and state machine safety for every run of the cluster.
\<close>

section \<open>What a majority has held\<close>

text \<open>No leader of a term of \<open>S\<close> departs from the log of term \<open>T\<close> up to \<open>k\<close>.\<close>

definition kept :: "(u64 \<Rightarrow> 'c log_entry list) \<Rightarrow> u64 \<Rightarrow> nat \<Rightarrow> u64 set \<Rightarrow> bool" where
  "kept L T k S \<longleftrightarrow> (\<forall>T' \<in> S. L T' \<noteq> [] \<longrightarrow> agree (L T') (L T) k)"

text \<open>The log \<open>lg\<close> of a candidate of term \<open>T'\<close> has the entries of earlier leaders' own terms that the voter \<open>v\<close> has held.\<close>

definition carries ::
    "(u64 \<Rightarrow> 'c log_entry list) \<Rightarrow> (u64 \<times> node_id \<times> nat) set \<Rightarrow> node_id \<Rightarrow> u64 \<Rightarrow> 'c log_entry list \<Rightarrow> bool" where
  "carries L h v T' lg \<longleftrightarrow>
     (\<forall>T k. (T, v, k) \<in> h \<longrightarrow> T < T' \<longrightarrow> entry_term (L T ! k) = T \<longrightarrow> kept L T k {T<..<T'} \<longrightarrow> agree lg (L T) k)"

lemma kept_subset: "kept L T k S \<Longrightarrow> S' \<subseteq> S \<Longrightarrow> kept L T k S'"
  by (auto simp: kept_def)

lemma leader_logs_dest:
  assumes "leader_logs L" "L T \<noteq> []"
  shows "wf_log L T (L T)" "entry_term (last (L T)) = T"
  using assms by (simp_all add: leader_logs_def)

text \<open>A later leader's log that agrees with the log of \<open>T\<close> up to \<open>k\<close> reaches beyond \<open>k\<close> as soon as it ends in
  an entry of a later term.\<close>

lemma later_reaches:
  assumes "leader_logs L" "agree lg' (L T) k" "prefix lg lg'" "lg \<noteq> []" "T < entry_term (last lg)"
  shows "k < length lg"
proof (rule ccontr)
  assume "\<not> k < length lg"
  then have le: "length lg - 1 \<le> k" by simp
  have "L T \<noteq> []" using assms(2) by (auto simp: agree_def)
  note wf = leader_logs_dest(1) [OF assms(1) this]
  have "last lg = lg' ! (length lg - 1)"
    using assms(3,4) by (auto simp: prefix_def last_conv_nth nth_append)
  also have "\<dots> = L T ! (length lg - 1)" by (rule agree_nth [OF assms(2) le])
  finally have "entry_term (last lg) \<le> T"
    using wf_log_dest(2) [OF wf, of "length lg - 1"] agree_len(2) [OF assms(2)] le by simp
  with assms(5) show False by simp
qed

lemma grows_nth: "grows L L' \<Longrightarrow> k < length (L T) \<Longrightarrow> L' T ! k = L T ! k"
  using agree_nth [OF agree_prefix [of "L T" "L' T" k], of k] by simp

lemma kept_grows:
  assumes "leader_logs L" "leader_logs L'" "grows L L'" "k < length (L T)" "S \<subseteq> {T<..}" "kept L' T k S"
  shows "kept L T k S"
  unfolding kept_def
proof (intro ballI impI)
  fix T' assume T': "T' \<in> S" "L T' \<noteq> []"
  have "L' T' \<noteq> []" using assms(3) T'(2) by (metis prefix_Nil)
  then have a: "agree (L' T') (L' T) k" using assms(6) T'(1) by (simp add: kept_def)
  have lt: "T < T'" using assms(5) T'(1) by auto
  have "k < length (L T')"
    by (rule later_reaches [OF assms(2) a _ T'(2)]) (use assms(3) lt leader_logs_dest(2) [OF assms(1) T'(2)] in simp_all)
  then have "agree (L T') (L' T') k" using assms(3) by (intro agree_prefix) simp_all
  moreover have "agree (L T) (L' T) k" using assms(3,4) by (intro agree_prefix) simp_all
  ultimately show "agree (L T') (L T) k" using a agree_trans agree_sym by blast
qed

lemma carries_grows:
  assumes "leader_logs L" "leader_logs L'" "grows L L'" "\<And>T k. (T, v, k) \<in> h \<Longrightarrow> k < length (L T)"
    and "\<And>T k. (T, v, k) \<in> h' \<Longrightarrow> T < T' \<Longrightarrow> (T, v, k) \<in> h" "carries L h v T' lg"
  shows "carries L' h' v T' lg"
  unfolding carries_def
proof (intro allI impI)
  fix T k assume x: "(T, v, k) \<in> h'" "T < T'" "entry_term (L' T ! k) = T" "kept L' T k {T<..<T'}"
  have h: "(T, v, k) \<in> h" by (rule assms(5) [OF x(1,2)])
  note len = assms(4) [OF h]
  have "kept L T k {T<..<T'}" by (rule kept_grows [OF assms(1-3) len _ x(4)]) auto
  moreover have "entry_term (L T ! k) = T" using x(3) grows_nth [OF assms(3) len] by simp
  ultimately have "agree lg (L T) k" using assms(6) h x(2) by (simp add: carries_def)
  then show "agree lg (L' T) k" using agree_prefix_right assms(3) by blast
qed

text \<open>An up-to-date log has what the voter's log has.\<close>

lemma up_to_date_agrees:
  assumes "leader_logs L" "wf_log L X lg" "\<forall>e \<in> set lg. entry_term e < T'" "wf_log L Y s"
    and "log_up_to_date r s" "vreq_last_log_index r = length lg - 1" "vreq_last_log_term r = entry_term (last lg)"
    and "agree s (L T) k" "entry_term (L T ! k) = T" "kept L T k {T<..<T'}"
  shows "agree lg (L T) k"
proof -
  let ?b = "entry_term (last lg)" and ?n = "length lg - 1"
  have ne: "lg \<noteq> []" "s \<noteq> []" using assms(2,4) by (auto simp: wf_log_def)
  have n: "?n < length lg" "lg ! ?n = last lg" using ne by (simp_all add: last_conv_nth)
  have lg: "agree lg (L ?b) ?n" using wf_log_dest(1) [OF assms(2) n(1)] n(2) by simp
  have "entry_term (s ! k) = T" using agree_nth [OF assms(8), of k] assms(9) by simp
  moreover have "entry_term (s ! k) \<le> entry_term (last s)"
    using wf_log_sorted [OF assms(1,4), of k "length s - 1"] agree_len(1) [OF assms(8)] ne(2) by (simp add: last_conv_nth)
  ultimately have T: "T \<le> entry_term (last s)" by simp
  then consider "?b = T" "k \<le> ?n" | "T < ?b"
    using assms(5-7) agree_len(1) [OF assms(8)] by (fastforce simp: log_up_to_date_def)
  then show ?thesis
  proof cases
    case 1
    with lg agree_le show ?thesis by auto
  next
    case 2
    have "L ?b \<noteq> []" using lg by (auto simp: agree_def)
    moreover have "?b < T'" using assms(3) ne(1) by simp
    ultimately have b: "agree (L ?b) (L T) k" using assms(10) 2 by (simp add: kept_def)
    have pre: "prefix lg (L ?b)" using lg n(1) unfolding agree_def by (metis Suc_pred' length_greater_0_conv ne(1) take_all order_refl take_is_prefix)
    then have "k < length lg" by (rule later_reaches [OF assms(1) b _ ne(1) 2])
    with agree_prefix [OF pre] b agree_trans show ?thesis by blast
  qed
qed

section \<open>The vote invariant\<close>

definition vote_inv :: "node_id set \<Rightarrow> ('c, 'o, 's, 'st) cluster \<Rightarrow> (node_id, u64) election \<Rightarrow> 'c history \<Rightarrow> bool" where
  "vote_inv M C A H \<longleftrightarrow>
     (\<forall>a \<in> M. msgs C a a = {})
     \<and> (\<forall>T q k. (T, q, k) \<in> held H \<longrightarrow> q \<in> M \<and> T \<le> current_term (nodes C q) \<and> k < length (term_log H T)
          \<and> (kept (term_log H) T k {T<..current_term (nodes C q)} \<longrightarrow> agree (node_log (nodes C q)) (term_log H T) k))
     \<and> (\<forall>T c lg. bid H T c = Some lg \<longrightarrow> c \<in> M \<and> T \<le> current_term (nodes C c) \<and> wf_log (term_log H) T lg
          \<and> (\<forall>e \<in> set lg. entry_term e < T))
     \<and> (\<forall>c \<in> M. is_candidate (role (nodes C c)) \<longrightarrow> bid H (current_term (nodes C c)) c = Some (node_log (nodes C c)))
     \<and> (\<forall>a \<in> M. \<forall>b r. VoteRequest r \<in> msgs C a b \<longrightarrow> (\<exists>lg. bid H (vreq_term r) a = Some lg
          \<and> vreq_last_log_index r = length lg - 1 \<and> vreq_last_log_term r = entry_term (last lg)))
     \<and> (\<forall>T v c. (T, v, c) \<in> votes A \<longrightarrow> (\<exists>lg. bid H T c = Some lg
          \<and> (term_log H T = [] \<longrightarrow> carries (term_log H) (held H) v T lg)))
     \<and> (\<forall>T c. (T, c) \<in> leaders A \<longrightarrow> (\<exists>Q \<subseteq> M. card M < 2 * card Q
          \<and> (\<forall>q \<in> Q. T \<le> current_term (nodes C q) \<and> carries (term_log H) (held H) q T (term_log H T))))"

lemma vote_inv_dest:
  assumes "vote_inv M C A H"
  shows "a \<in> M \<Longrightarrow> msgs C a a = {}"
    "(T, q, k) \<in> held H \<Longrightarrow> q \<in> M" "(T, q, k) \<in> held H \<Longrightarrow> T \<le> current_term (nodes C q)"
    "(T, q, k) \<in> held H \<Longrightarrow> k < length (term_log H T)"
    "(T, q, k) \<in> held H \<Longrightarrow> kept (term_log H) T k {T<..current_term (nodes C q)} \<Longrightarrow> agree (node_log (nodes C q)) (term_log H T) k"
    "bid H T c = Some lg \<Longrightarrow> c \<in> M" "bid H T c = Some lg \<Longrightarrow> T \<le> current_term (nodes C c)"
    "bid H T c = Some lg \<Longrightarrow> wf_log (term_log H) T lg" "bid H T c = Some lg \<Longrightarrow> \<forall>e \<in> set lg. entry_term e < T"
    "c \<in> M \<Longrightarrow> is_candidate (role (nodes C c)) \<Longrightarrow> bid H (current_term (nodes C c)) c = Some (node_log (nodes C c))"
    "a \<in> M \<Longrightarrow> VoteRequest r \<in> msgs C a b \<Longrightarrow> \<exists>lg. bid H (vreq_term r) a = Some lg
       \<and> vreq_last_log_index r = length lg - 1 \<and> vreq_last_log_term r = entry_term (last lg)"
    "(T, v, c) \<in> votes A \<Longrightarrow> \<exists>lg. bid H T c = Some lg \<and> (term_log H T = [] \<longrightarrow> carries (term_log H) (held H) v T lg)"
    "(T, c) \<in> leaders A \<Longrightarrow> \<exists>Q \<subseteq> M. card M < 2 * card Q
       \<and> (\<forall>q \<in> Q. T \<le> current_term (nodes C q) \<and> carries (term_log H) (held H) q T (term_log H T))"
  using assms unfolding vote_inv_def by blast+

lemma remember_sel:
  "held (remember i s t H) = held H
     \<union> {(current_term t, i, k) |k. agree (node_log t) (term_log (remember i s t H) (current_term t)) k}"
  "bid (remember i s t H) = (if current_term s < current_term t \<and> voted_for t = Some i
     then (bid H)(current_term t := (bid H (current_term t))(i := Some (node_log s))) else bid H)"
  by (simp_all add: remember_def Let_def)

text \<open>A log keeps what it shares with a leader's log that no later leader departs from.\<close>

lemma moves_keeps:
  assumes "moves M C A i m t D A'" "log_inv M C A H" "agree (node_log (nodes C i)) (term_log H T) k"
    and "T \<le> current_term (nodes C i)"
    and "\<And>X. T < X \<Longrightarrow> X \<le> current_term t \<Longrightarrow> term_log H X \<noteq> [] \<Longrightarrow> agree (term_log H X) (term_log H T) k"
  shows "agree (node_log t) (term_log H T) k"
  using assms(1,2)
proof (cases rule: log_moves)
  case same
  with assms(3) show ?thesis by simp
next
  case (lead e)
  with agree_prefix_left [OF assms(3), of "node_log t"] show ?thesis by simp
next
  case (extend e)
  with agree_prefix_left [OF assms(3), of "node_log t"] show ?thesis by simp
next
  case (accept f req)
  note mv = moves_dest [OF assms(1)] and inv = log_inv_dest [OF assms(2)]
  let ?LX = "term_log H (current_term t)"
  have ad: "adopts ?LX (areq_prev_log_index req + length (areq_entries req)) (node_log (nodes C i)) (node_log t)"
    using accepts_adopts [OF inv(1) inv(8) [OF mv(2)] accept(2,3)] accept(3) by (simp add: accepts_def)
  then have "?LX \<noteq> []" by (auto simp: adopts_def)
  have X: "agree ?LX (term_log H T) k"
  proof (cases "T = current_term t")
    case True
    with assms(3) show ?thesis by (simp add: agree_refl agree_len)
  next
    case False
    with assms(4) node_step_term [OF mv(4)] have "T < current_term t" by simp
    with \<open>?LX \<noteq> []\<close> show ?thesis by (intro assms(5)) simp_all
  qed
  then have "agree (node_log (nodes C i)) ?LX k" using assms(3) agree_trans agree_sym by blast
  then have "agree (node_log t) ?LX k" using ad by (simp add: adopts_def)
  with X agree_trans show ?thesis by blast
qed

lemma held_moves:
  assumes "moves M C A i m t D A'" "log_inv M C A H" "vote_inv M C A H" "H' = remember i (nodes C i) t H"
    and "(T, q, k) \<in> held H'"
  shows "q \<in> M \<and> T \<le> current_term (nodes D q) \<and> k < length (term_log H' T)
    \<and> (kept (term_log H') T k {T<..current_term (nodes D q)} \<longrightarrow> agree (node_log (nodes D q)) (term_log H' T) k)"
proof -
  note mv = moves_dest [OF assms(1)] and inv = log_inv_dest [OF assms(2)] and vi = vote_inv_dest [OF assms(3)]
  have gr: "grows (term_log H) (term_log H')" using moves_grows [OF assms(1,2)] assms(4) by simp
  have ll: "leader_logs (term_log H')" using moves_leader_logs [OF assms(1,2)] assms(4) by simp
  have le: "current_term (nodes C i) \<le> current_term t" by (rule node_step_term [OF mv(4)])
  consider (new) "T = current_term t" "q = i" "agree (node_log t) (term_log H' T) k" | (old) "(T, q, k) \<in> held H"
    using assms(5) unfolding assms(4) by (auto simp: remember_sel)
  then show ?thesis
  proof cases
    case new
    then show ?thesis using mv(2,3) agree_len(2) [OF new(3)] by simp
  next
    case old
    note len = vi(4) [OF old]
    have "agree (node_log (nodes D q)) (term_log H' T) k" if kp: "kept (term_log H') T k {T<..current_term (nodes D q)}"
    proof -
      have kp': "kept (term_log H) T k {T<..current_term (nodes D q)}" by (rule kept_grows [OF inv(1) ll gr len _ kp]) auto
      have "{T<..current_term (nodes C q)} \<subseteq> {T<..current_term (nodes D q)}" using le by (auto simp: mv(3))
      then have s: "agree (node_log (nodes C q)) (term_log H T) k" by (intro vi(5) [OF old] kept_subset [OF kp'])
      have "agree (node_log (nodes D q)) (term_log H T) k"
      proof (cases "q = i")
        case True
        have "agree (node_log t) (term_log H T) k"
          by (rule moves_keeps [OF assms(1,2)]) (use s True vi(3) [OF old] kp' in \<open>auto simp: kept_def mv(3)\<close>)
        with True show ?thesis by (simp add: mv(3))
      qed (use s in \<open>simp add: mv(3)\<close>)
      then show ?thesis using agree_prefix_right gr by blast
    qed
    moreover have "k < length (term_log H' T)" using len gr prefix_length_le less_le_trans by blast
    moreover have "T \<le> current_term (nodes D q)" using vi(3) [OF old] le by (auto simp: mv(3))
    ultimately show ?thesis using vi(2) [OF old] by blast
  qed
qed

lemma bid_extends:
  assumes "moves M C A i m t D A'" "vote_inv M C A H" "bid H T c = Some lg"
  shows "bid (remember i (nodes C i) t H) T c = Some lg"
  using vote_inv_dest(7) [OF assms(2,3)] assms(3) by (auto simp: remember_sel)

lemma held_before:
  assumes "moves M C A i m t D A'" "(T, q, k) \<in> held (remember i (nodes C i) t H)" "T < current_term t \<or> q \<noteq> i"
  shows "(T, q, k) \<in> held H"
  using assms(2,3) by (auto simp: remember_sel)

text \<open>What the log of a voter holds when it enters a term or votes in a term without a leader.\<close>

lemma voter_agrees:
  assumes "moves M C A i m t D A'" "log_inv M C A H" "vote_inv M C A H" "H' = remember i (nodes C i) t H"
    and "(T, i, k) \<in> held H'" "T < current_term t" "kept (term_log H') T k {T<..<current_term t}"
    and "current_term (nodes C i) < current_term t \<or> term_log H (current_term t) = []"
  shows "agree (node_log (nodes C i)) (term_log H T) k" "kept (term_log H) T k {T<..<current_term t}" "k < length (term_log H T)"
proof -
  note mv = moves_dest [OF assms(1)] and inv = log_inv_dest [OF assms(2)] and vi = vote_inv_dest [OF assms(3)]
  have gr: "grows (term_log H) (term_log H')" using moves_grows [OF assms(1,2)] assms(4) by simp
  have ll: "leader_logs (term_log H')" using moves_leader_logs [OF assms(1,2)] assms(4) by simp
  have h: "(T, i, k) \<in> held H" using held_before [OF assms(1)] assms(4-6) by simp
  show len: "k < length (term_log H T)" by (rule vi(4) [OF h])
  show kp: "kept (term_log H) T k {T<..<current_term t}" by (rule kept_grows [OF inv(1) ll gr len _ assms(7)]) auto
  have "kept (term_log H) T k {T<..current_term (nodes C i)}"
    unfolding kept_def
  proof (intro ballI impI)
    fix X assume "X \<in> {T<..current_term (nodes C i)}" "term_log H X \<noteq> []"
    moreover from this have "X < current_term t"
      using assms(8) node_step_term [OF mv(4)] by (cases "X = current_term t") auto
    ultimately show "agree (term_log H X) (term_log H T) k" using kp by (simp add: kept_def)
  qed
  then show "agree (node_log (nodes C i)) (term_log H T) k" by (rule vi(5) [OF h])
qed

lemma own_vote_carries:
  assumes "moves M C A i m t D A'" "log_inv M C A H" "vote_inv M C A H" "H' = remember i (nodes C i) t H"
    and "current_term (nodes C i) < current_term t"
  shows "carries (term_log H') (held H') i (current_term t) (node_log (nodes C i))"
  unfolding carries_def
proof (intro allI impI)
  fix T k assume x: "(T, i, k) \<in> held H'" "T < current_term t" "kept (term_log H') T k {T<..<current_term t}"
  from voter_agrees(1) [OF assms(1-4) x] assms(5) moves_grows [OF assms(1,2)] assms(4)
  show "agree (node_log (nodes C i)) (term_log H' T) k" using agree_prefix_right by blast
qed

lemma granted_vote_carries:
  assumes "moves M C A i m t D A'" "log_inv M C A H" "vote_inv M C A H" "H' = remember i (nodes C i) t H"
    and "m = Some (f, VoteRequest r)" "current_term t = vreq_term r" "log_up_to_date r (node_log (nodes C i))"
    and "bid H (vreq_term r) f = Some lg" "vreq_last_log_index r = length lg - 1" "vreq_last_log_term r = entry_term (last lg)"
    and "term_log H (current_term t) = []"
  shows "carries (term_log H') (held H') i (current_term t) lg"
  unfolding carries_def
proof (intro allI impI)
  note mv = moves_dest [OF assms(1)] and inv = log_inv_dest [OF assms(2)] and vi = vote_inv_dest [OF assms(3)]
  have gr: "grows (term_log H) (term_log H')" using moves_grows [OF assms(1,2)] assms(4) by simp
  fix T k assume x: "(T, i, k) \<in> held H'" "T < current_term t" "entry_term (term_log H' T ! k) = T"
      "kept (term_log H') T k {T<..<current_term t}"
  note v = voter_agrees [OF assms(1-4) x(1,2,4) disjI2 [OF assms(11)]]
  have "agree lg (term_log H T) k"
  proof (rule up_to_date_agrees [OF inv(1) _ _ inv(8) [OF mv(2)] assms(7,9,10) v(1) _ v(2)])
    show "wf_log (term_log H) (current_term t) lg" "\<forall>e \<in> set lg. entry_term e < current_term t"
      using vi(8,9) [OF assms(8)] assms(6) by simp_all
    show "entry_term (term_log H T ! k) = T" using x(3) grows_nth [OF gr v(3)] by simp
  qed
  then show "agree lg (term_log H' T) k" using agree_prefix_right gr by blast
qed

lemma vote_moves:
  assumes "moves M C A i m t D A'" "log_inv M C A H" "vote_inv M C A H" "H' = remember i (nodes C i) t H"
    and "(T, v, c) \<in> votes A'"
  shows "\<exists>lg. bid H' T c = Some lg \<and> (term_log H T = [] \<longrightarrow> carries (term_log H') (held H') v T lg)"
proof -
  note mv = moves_dest [OF assms(1)] and inv = log_inv_dest [OF assms(2)] and vi = vote_inv_dest [OF assms(3)]
  have gr: "grows (term_log H) (term_log H')" using moves_grows [OF assms(1,2)] assms(4) by simp
  have ll: "leader_logs (term_log H')" using moves_leader_logs [OF assms(1,2)] assms(4) by simp
  have le: "current_term (nodes C i) \<le> current_term t" by (rule node_step_term [OF mv(4)])
  have vok: "votes_ok M A" using mv(8) by (simp add: election_inv_def)
  have "v \<in> M" using mv(9) assms(5) by (auto simp: election_inv_def votes_ok_def)
  have now: "(current_term (nodes C u), u, d) \<in> votes A" if "u \<in> M" "voted_for (nodes C u) = Some d" for u d
    using vok implements_dest(1,2) [OF mv(14) that(1)] that by (auto simp: votes_ok_def)
  consider (old) "(T, v, c) \<in> votes A" | (new) "v = i" "T = current_term t" "voted_for t = Some c"
      "\<not> (current_term t = current_term (nodes C i) \<and> voted_for t = voted_for (nodes C i))"
    using mv(18) [OF assms(5)] now [OF \<open>v \<in> M\<close>, of c]
    by (cases "v = i"; cases "current_term t = current_term (nodes C i) \<and> voted_for t = voted_for (nodes C i)") (auto simp: mv(3))
  then show ?thesis
  proof cases
    case old
    then obtain lg where lg: "bid H T c = Some lg" "term_log H T = [] \<longrightarrow> carries (term_log H) (held H) v T lg"
      using vi(12) by blast
    have "T \<le> current_term (nodes C v)" using vok old implements_dest(1) [OF mv(14) \<open>v \<in> M\<close>] by (auto simp: votes_ok_def)
    then have "(T0, v, k) \<in> held H" if "(T0, v, k) \<in> held H'" "T0 < T" for T0 k
      using held_before [OF assms(1), of T0 v k H] that assms(4) le by (cases "v = i") auto
    then have "carries (term_log H') (held H') v T lg" if "term_log H T = []"
      using lg(2) that by (intro carries_grows [OF inv(1) ll gr vi(4)]) auto
    with bid_extends [OF assms(1,3) lg(1)] assms(4) show ?thesis by blast
  next
    case new
    from mv(4) show ?thesis
    proof cases
      case ns_event
      from ns_event(2) show ?thesis
      proof cases
        case (el_campaign J r)
        then have "bid H' T c = Some (node_log (nodes C i))"
          using new mv(12) by (simp add: assms(4) remember_sel)
        with own_vote_carries [OF assms(1-4) el_campaign(1)] new show ?thesis by blast
      next
        case (el_grant f r g)
        have f: "vreq_candidate_id r = f" "f \<in> M" "VoteRequest r \<in> msgs C f i"
          using mv(5,6,17) el_grant(1) by simp_all
        have "log_up_to_date r (node_log (nodes C i))"
          using ns_event(3) el_grant(1) new(3,4) by (auto simp: votes_up_to_date_def)
        moreover obtain lg where lg: "bid H (vreq_term r) f = Some lg" "vreq_last_log_index r = length lg - 1"
            "vreq_last_log_term r = entry_term (last lg)"
          using vi(11) [OF f(2,3)] by blast
        ultimately have "term_log H T = [] \<longrightarrow> carries (term_log H') (held H') v T lg"
          using granted_vote_carries [OF assms(1-4) el_grant(1,2)] new(1,2) by blast
        moreover have "c = f" "T = vreq_term r" using el_grant(2,3) f(1) new by simp_all
        ultimately show ?thesis using bid_extends [OF assms(1,3) lg(1)] assms(4) by blast
      qed (use new in simp_all)
    qed (use new in simp)
  qed
qed

lemma candidate_moves:
  assumes "moves M C A i m t D A'" "log_inv M C A H" "vote_inv M C A H" "is_candidate (role t)"
  shows "bid (remember i (nodes C i) t H) (current_term t) i = Some (node_log t)"
proof -
  note mv = moves_dest [OF assms(1)]
  have *: "is_candidate r \<longleftrightarrow> votes_of r \<noteq> None" "is_leader r \<Longrightarrow> votes_of r = None" for r by (cases r; simp)+
  have log: "node_log t = node_log (nodes C i)"
    using assms(1,2) by (cases rule: log_moves) (use assms(4) * [of "role t"] in \<open>auto simp: accepts_def\<close>)
  from mv(4) show ?thesis
  proof cases
    case ns_event
    show ?thesis
    proof (cases "current_term (nodes C i) < current_term t")
      case True
      from ns_event(2) have "voted_for t = Some i"
        by cases (use True assms(4) mv(12) in \<open>auto simp: *\<close>)
      with True log show ?thesis by (simp add: remember_sel)
    next
      case False
      with node_step_candidate [OF mv(4) assms(4)] have "is_candidate (role (nodes C i))" "current_term t = current_term (nodes C i)"
        by auto
      with vote_inv_dest(10) [OF assms(3) mv(2)] bid_extends [OF assms(1,3)] log show ?thesis by simp
    qed
  qed (use assms(4) in simp)
qed

lemma new_leader:
  assumes "node_step m s t" "is_leader (role t)" "\<not> (is_leader (role s) \<and> current_term t = current_term s)"
  shows "current_term s < current_term t \<and> voted_for t = Some (node_id s)
    \<or> is_candidate (role s) \<and> current_term t = current_term s"
  using assms(1)
proof cases
  case ns_event
  have *: "votes_of r = Some n \<Longrightarrow> is_candidate r" for r n by (cases r) simp_all
  from ns_event(2) show ?thesis by cases (use assms(2,3) * in auto)
qed (use assms(2) in simp)

lemma leader_moves:
  assumes "moves M C A i m t D A'" "log_inv M C A H" "vote_inv M C A H" "H' = remember i (nodes C i) t H"
    and "(T, c) \<in> leaders A'"
  shows "\<exists>Q \<subseteq> M. card M < 2 * card Q
    \<and> (\<forall>q \<in> Q. T \<le> current_term (nodes D q) \<and> carries (term_log H') (held H') q T (term_log H' T))"
proof -
  note mv = moves_dest [OF assms(1)] and inv = log_inv_dest [OF assms(2)] and vi = vote_inv_dest [OF assms(3)]
  have gr: "grows (term_log H) (term_log H')" using moves_grows [OF assms(1,2)] assms(4) by simp
  have ll: "leader_logs (term_log H')" using moves_leader_logs [OF assms(1,2)] assms(4) by simp
  have le: "current_term (nodes C q) \<le> current_term (nodes D q)" for q using node_step_term [OF mv(4)] by (simp add: mv(3))
  have longer: "carries L h q T lg \<Longrightarrow> prefix lg lg' \<Longrightarrow> carries L h q T lg'" for L h q and lg lg' :: "'a log_entry list"
    unfolding carries_def using agree_prefix_left by blast
  show ?thesis
  proof (cases "(T, c) \<in> leaders A")
    case True
    obtain Q where Q: "Q \<subseteq> M" "card M < 2 * card Q" "\<And>q. q \<in> Q \<Longrightarrow> T \<le> current_term (nodes C q)"
        "\<And>q. q \<in> Q \<Longrightarrow> carries (term_log H) (held H) q T (term_log H T)"
      using vi(13) [OF True] by blast
    have "carries (term_log H') (held H') q T (term_log H' T)" if q: "q \<in> Q" for q
    proof -
      have "(T0, q, k) \<in> held H" if "(T0, q, k) \<in> held H'" "T0 < T" for T0 k
        using held_before [OF assms(1), of T0 q k H] that assms(4) Q(3) [OF q] le [of q]
        by (cases "q = i") (auto simp: mv(3))
      then have "carries (term_log H') (held H') q T (term_log H T)"
        by (intro carries_grows [OF inv(1) ll gr vi(4) _ Q(4) [OF q]]) auto
      then show ?thesis by (rule longer) (simp add: gr)
    qed
    with Q(1-3) le show ?thesis by (meson order_trans)
  next
    case False
    then have "c \<in> M" "leads D c T" using mv(11) [OF assms(5)] by blast+
    then have ci: "c = i" using implements_leader [OF mv(14,8), of c] False by (cases "c = i") (auto simp: leads_def mv(3))
    with \<open>leads D c T\<close> have t: "is_leader (role t)" "T = current_term t" by (auto simp: leads_def mv(3))
    have fresh: "\<not> (is_leader (role (nodes C i)) \<and> current_term t = current_term (nodes C i))"
      using implements_leader [OF mv(14,8,2)] False ci t(2) by auto
    obtain e where e: "term_log H T = []" "node_log t = node_log (nodes C i) @ [e]"
      using assms(1,2) by (cases rule: log_moves) (use t fresh in \<open>auto simp: accepts_def\<close>)
    have bid: "bid H' T i = Some (node_log (nodes C i))"
      using new_leader [OF mv(4) t(1) fresh]
    proof
      assume "current_term (nodes C i) < current_term t \<and> voted_for t = Some (node_id (nodes C i))"
      then show ?thesis by (simp add: assms(4) remember_sel t(2) mv(12))
    next
      assume "is_candidate (role (nodes C i)) \<and> current_term t = current_term (nodes C i)"
      then show ?thesis using vi(10) [OF mv(2)] bid_extends [OF assms(1,3)] by (simp add: assms(4) t(2))
    qed
    have "leaders_ok M A'" using mv(9) by (simp add: election_inv_def)
    from bspec [OF conjunct1 [OF this [unfolded leaders_ok_def]] assms(5)] ci
    obtain Q where Q: "Q \<subseteq> M" "card M < 2 * card Q" "\<And>v. v \<in> Q \<Longrightarrow> (T, v, i) \<in> votes A'" by auto
    have "T \<le> current_term (nodes D q) \<and> carries (term_log H') (held H') q T (term_log H' T)" if q: "q \<in> Q" for q
    proof
      show "T \<le> current_term (nodes D q)"
        using mv(9) Q(3) [OF q] implements_dest(1) [OF mv(15), of q] Q(1) q by (auto simp: election_inv_def votes_ok_def)
      have "carries (term_log H') (held H') q T (node_log (nodes C i))"
        using vote_moves [OF assms(1-4) Q(3) [OF q]] bid e(1) by auto
      then show "carries (term_log H') (held H') q T (term_log H' T)"
        by (rule longer) (simp add: assms(4) remember_term_log t e(2))
    qed
    with Q(1,2) show ?thesis by blast
  qed
qed

lemma vote_inv_moves:
  assumes "moves M C A i m t D A'" "log_inv M C A H" "vote_inv M C A H"
  shows "vote_inv M D A' (remember i (nodes C i) t H)"
proof -
  note mv = moves_dest [OF assms(1)] and inv = log_inv_dest [OF assms(2)] and vi = vote_inv_dest [OF assms(3)]
  note gr = moves_grows [OF assms(1,2)]
  let ?H = "remember i (nodes C i) t H"
  have le: "current_term (nodes C q) \<le> current_term (nodes D q)" for q using node_step_term [OF mv(4)] by (simp add: mv(3))
  have grT: "prefix (term_log H T) (term_log ?H T)" for T using gr by blast
  show ?thesis
    unfolding vote_inv_def
  proof (intro conjI allI impI ballI)
    fix a assume a: "a \<in> M"
    have False if x: "x \<in> msgs D a a" for x
      using mv(7) [OF x] vi(1) [OF a] mv(6) [of a] mv(13) by (auto simp: sends_def)
    then show "msgs D a a = {}" by blast
  next
    fix T q k assume "(T, q, k) \<in> held ?H"
    from held_moves [OF assms refl this]
    show "q \<in> M" "T \<le> current_term (nodes D q)" "k < length (term_log ?H T)"
      "kept (term_log ?H) T k {T<..current_term (nodes D q)} \<Longrightarrow> agree (node_log (nodes D q)) (term_log ?H T) k" by blast+
  next
    fix T c lg assume b: "bid ?H T c = Some lg"
    have "c \<in> M \<and> T \<le> current_term (nodes D c) \<and> wf_log (term_log ?H) T lg \<and> (\<forall>e \<in> set lg. entry_term e < T)"
    proof (cases "bid H T c = Some lg")
      case True
      from vi(6-9) [OF True] wf_log_grows [OF _ gr order_refl] le [of c] show ?thesis by (auto intro: order_trans)
    next
      case False
      then have n: "T = current_term t" "c = i" "lg = node_log (nodes C i)" "current_term (nodes C i) < current_term t"
        using b by (auto simp: remember_sel split: if_splits)
      note wf = inv(8) [OF mv(2)]
      have "wf_log (term_log ?H) T lg" using wf_log_grows [OF wf gr] n by simp
      moreover have "\<forall>e \<in> set lg. entry_term e < T" using wf n by (auto simp: wf_log_def intro: le_less_trans)
      ultimately show ?thesis using n mv(2) by (simp add: mv(3))
    qed
    then show "c \<in> M" "T \<le> current_term (nodes D c)" "wf_log (term_log ?H) T lg" "\<And>e. e \<in> set lg \<Longrightarrow> entry_term e < T"
      by simp_all
  next
    fix c assume c: "c \<in> M" "is_candidate (role (nodes D c))"
    then show "bid ?H (current_term (nodes D c)) c = Some (node_log (nodes D c))"
      using candidate_moves [OF assms] bid_extends [OF assms(1,3) vi(10) [OF c(1)]] by (cases "c = i") (simp_all add: mv(3))
  next
    fix a b r assume a: "a \<in> M" "VoteRequest r \<in> msgs D a b"
    from mv(7) [OF a(2)]
    show "\<exists>lg. bid ?H (vreq_term r) a = Some lg \<and> vreq_last_log_index r = length lg - 1 \<and> vreq_last_log_term r = entry_term (last lg)"
    proof
      assume "VoteRequest r \<in> msgs C a b"
      with vi(11) [OF a(1)] bid_extends [OF assms(1,3)] show ?thesis by blast
    next
      assume "a = i \<and> sends m (nodes C i) t b (VoteRequest r)"
      then show ?thesis by (auto simp: sends_def remember_sel mv(12))
    qed
  next
    fix T v c assume "(T, v, c) \<in> votes A'"
    from vote_moves [OF assms refl this] obtain lg where
      lg: "bid ?H T c = Some lg" "term_log H T = [] \<longrightarrow> carries (term_log ?H) (held ?H) v T lg" by blast
    moreover have "term_log ?H T = [] \<longrightarrow> term_log H T = []" using grT [of T] by auto
    ultimately show "\<exists>lg. bid ?H T c = Some lg \<and> (term_log ?H T = [] \<longrightarrow> carries (term_log ?H) (held ?H) v T lg)" by blast
  next
    fix T c assume "(T, c) \<in> leaders A'"
    from leader_moves [OF assms refl this]
    show "\<exists>Q \<subseteq> M. card M < 2 * card Q \<and> (\<forall>q \<in> Q. T \<le> current_term (nodes D q) \<and> carries (term_log ?H) (held ?H) q T (term_log ?H T))" .
  qed
qed

lemma vote_inv_still:
  assumes "\<And>i. view (nodes D i) = view (nodes C i)" "\<And>i j. msgs D i j \<subseteq> msgs C i j" "leaders A' = leaders A"
    and "votes A' \<subseteq> votes A" "vote_inv M C A H"
  shows "vote_inv M D A' H"
proof -
  note vi = vote_inv_dest [OF assms(5)] and eq = view_eqD [OF assms(1)]
  show ?thesis
    unfolding vote_inv_def eq assms(3)
  proof (intro conjI)
    show "\<forall>a \<in> M. msgs D a a = {}" using vi(1) assms(2) by blast
    show "\<forall>a \<in> M. \<forall>b r. VoteRequest r \<in> msgs D a b \<longrightarrow> (\<exists>lg. bid H (vreq_term r) a = Some lg
        \<and> vreq_last_log_index r = length lg - 1 \<and> vreq_last_log_term r = entry_term (last lg))"
      using vi(11) assms(2) by blast
    show "\<forall>T v c. (T, v, c) \<in> votes A' \<longrightarrow> (\<exists>lg. bid H T c = Some lg
        \<and> (term_log H T = [] \<longrightarrow> carries (term_log H) (held H) v T lg))"
      using vi(12) assms(4) by blast
  qed ((insert assms(5) [unfolded vote_inv_def], elim conjE, assumption)+)
qed

section \<open>Leader completeness\<close>

definition committed :: "node_id set \<Rightarrow> 'c history \<Rightarrow> u64 \<Rightarrow> nat \<Rightarrow> bool" where
  "committed M H T k \<longleftrightarrow> k < length (term_log H T) \<and> entry_term (term_log H T ! k) = T
     \<and> (\<exists>R \<subseteq> M. card M < 2 * card R \<and> (\<forall>r \<in> R. (T, r, k) \<in> held H))"

lemma leader_complete:
  assumes "finite M" "log_inv M C A H" "vote_inv M C A H" "committed M H T k"
  shows "T < T' \<Longrightarrow> term_log H T' \<noteq> [] \<Longrightarrow> agree (term_log H T') (term_log H T) k"
proof (induction T' rule: less_induct)
  case (less T')
  then have kp: "kept (term_log H) T k {T<..<T'}" by (auto simp: kept_def)
  obtain R where R: "R \<subseteq> M" "card M < 2 * card R" "\<And>r. r \<in> R \<Longrightarrow> (T, r, k) \<in> held H"
    using assms(4) by (auto simp: committed_def)
  have "T' \<noteq> 0" using less.prems(1) by (auto dest: le_less_trans [OF word_zero_le])
  then obtain c where "(T', c) \<in> leaders A" using log_inv_dest(2) [OF assms(2)] less.prems(2) by blast
  from vote_inv_dest(13) [OF assms(3) this] obtain Q where Q: "Q \<subseteq> M" "card M < 2 * card Q"
      "\<And>q. q \<in> Q \<Longrightarrow> carries (term_log H) (held H) q T' (term_log H T')" by blast
  obtain q where "q \<in> Q" "q \<in> R" using majorities_meet [OF assms(1) Q(1) R(1) Q(2) R(2)] by blast
  with Q(3) R(3) kp less.prems(1) assms(4) show ?case by (auto simp: carries_def committed_def)
qed

section \<open>The commit invariant\<close>

text \<open>In term \<open>T\<close> the log \<open>lg\<close> may be taken as committed up to \<open>c\<close>.\<close>

definition settled :: "node_id set \<Rightarrow> 'c history \<Rightarrow> u64 \<Rightarrow> 'c log_entry list \<Rightarrow> nat \<Rightarrow> bool" where
  "settled M H T lg c \<longleftrightarrow> c < length lg
     \<and> (c = 0 \<or> (\<exists>T0 k. T0 \<le> T \<and> c \<le> k \<and> committed M H T0 k \<and> agree lg (term_log H T0) c))"

definition acked :: "node_id set \<Rightarrow> node_id \<Rightarrow> 'c history \<Rightarrow> u64 \<Rightarrow> (node_id, nat) hash_map \<Rightarrow> bool" where
  "acked M i H T mi \<longleftrightarrow> distinct (map fst mi)
     \<and> (\<forall>(p, n) \<in> set mi. p \<in> M - {i} \<and> n < length (term_log H T)
          \<and> (\<forall>k \<le> n. entry_term (term_log H T ! k) = T \<longrightarrow> (T, p, k) \<in> held H))"

definition commit_inv :: "node_id set \<Rightarrow> ('c, 'o, 's, 'st) cluster \<Rightarrow> 'c history \<Rightarrow> bool" where
  "commit_inv M C H \<longleftrightarrow>
     (\<forall>i \<in> M. settled M H (current_term (nodes C i)) (node_log (nodes C i)) (commit_index (nodes C i))
        \<and> (\<forall>mi. matches (role (nodes C i)) = Some mi \<longrightarrow> acked M i H (current_term (nodes C i)) mi))
     \<and> (\<forall>i \<in> M. \<forall>j req. AppendRequest req \<in> msgs C i j \<longrightarrow>
          areq_leader_commit req \<le> areq_prev_log_index req + length (areq_entries req)
          \<and> settled M H (areq_term req) (term_log H (areq_term req)) (areq_leader_commit req))
     \<and> (\<forall>i \<in> M. \<forall>j rsp. AppendResponse rsp \<in> msgs C i j \<longrightarrow> aresp_success rsp \<longrightarrow>
          aresp_match_index rsp < length (term_log H (aresp_term rsp))
          \<and> (\<forall>k \<le> aresp_match_index rsp. (aresp_term rsp, i, k) \<in> held H))"

lemma commit_inv_dest:
  assumes "commit_inv M C H"
  shows "i \<in> M \<Longrightarrow> settled M H (current_term (nodes C i)) (node_log (nodes C i)) (commit_index (nodes C i))"
    "i \<in> M \<Longrightarrow> matches (role (nodes C i)) = Some mi \<Longrightarrow> acked M i H (current_term (nodes C i)) mi"
    "i \<in> M \<Longrightarrow> AppendRequest req \<in> msgs C i j \<Longrightarrow> areq_leader_commit req \<le> areq_prev_log_index req + length (areq_entries req)"
    "i \<in> M \<Longrightarrow> AppendRequest req \<in> msgs C i j \<Longrightarrow>
      settled M H (areq_term req) (term_log H (areq_term req)) (areq_leader_commit req)"
    "i \<in> M \<Longrightarrow> AppendResponse rsp \<in> msgs C i j \<Longrightarrow> aresp_success rsp \<Longrightarrow>
      aresp_match_index rsp < length (term_log H (aresp_term rsp))"
    "i \<in> M \<Longrightarrow> AppendResponse rsp \<in> msgs C i j \<Longrightarrow> aresp_success rsp \<Longrightarrow> k \<le> aresp_match_index rsp \<Longrightarrow>
      (aresp_term rsp, i, k) \<in> held H"
  using assms unfolding commit_inv_def by blast+

text \<open>All three survive a longer history.\<close>

definition later :: "'c history \<Rightarrow> 'c history \<Rightarrow> bool" where
  "later H H' \<longleftrightarrow> grows (term_log H) (term_log H') \<and> held H \<subseteq> held H'"

lemma later_dest:
  assumes "later H H'"
  shows "prefix (term_log H T) (term_log H' T)" "x \<in> held H \<Longrightarrow> x \<in> held H'"
    "k < length (term_log H T) \<Longrightarrow> k < length (term_log H' T)" "k < length (term_log H T) \<Longrightarrow> term_log H' T ! k = term_log H T ! k"
proof -
  show p: "prefix (term_log H T) (term_log H' T)" and "x \<in> held H \<Longrightarrow> x \<in> held H'" using assms by (auto simp: later_def)
  show "k < length (term_log H T) \<Longrightarrow> k < length (term_log H' T)" using prefix_length_le [OF p] by simp
  show "k < length (term_log H T) \<Longrightarrow> term_log H' T ! k = term_log H T ! k"
    using assms grows_nth [of "term_log H" "term_log H'"] by (simp add: later_def)
qed

lemma later_refl: "later H H"
  by (simp add: later_def)

lemma later_trans: "later H H' \<Longrightarrow> later H' H'' \<Longrightarrow> later H H''"
  unfolding later_def by (meson order_trans prefix_order.trans)

lemma moves_later:
  assumes "moves M C A i m t D A'" "log_inv M C A H"
  shows "later H (remember i (nodes C i) t H)"
  using moves_grows [OF assms] by (auto simp: later_def remember_sel)

lemma committed_later: "committed M H T k \<Longrightarrow> later H H' \<Longrightarrow> committed M H' T k"
  unfolding committed_def using later_dest(2-4) [of H H'] by (metis (no_types, lifting))

lemma settled_later:
  assumes "settled M H T lg c" "later H H'" "prefix lg lg'" "T \<le> T'"
  shows "settled M H' T' lg' c"
proof -
  have "c < length lg'" using assms(1,3) prefix_length_le [of lg lg'] by (simp add: settled_def)
  moreover have "agree lg' (term_log H' T0) c" if "agree lg (term_log H T0) c" for T0
    using that agree_prefix_left agree_prefix_right later_dest(1) [OF assms(2)] assms(3) by blast
  ultimately show ?thesis
    using assms(1,4) committed_later [OF _ assms(2)] unfolding settled_def by (meson order_trans)
qed

lemma acked_later:
  assumes "acked M i H T mi" "later H H'"
  shows "acked M i H' T mi"
  using assms(1) later_dest(2-4) [OF assms(2)] unfolding acked_def by (fastforce dest: le_less_trans)

lemma hash_map_pair: "distinct (map fst mi) \<Longrightarrow> (p, n) \<in> set mi \<longleftrightarrow> hm_get mi p = Some n"
  by (simp add: hm_get_def)

lemma acked_get:
  "acked M i H T mi \<longleftrightarrow> distinct (map fst mi)
     \<and> (\<forall>p n. hm_get mi p = Some n \<longrightarrow> p \<in> M - {i} \<and> n < length (term_log H T)
          \<and> (\<forall>k \<le> n. entry_term (term_log H T ! k) = T \<longrightarrow> (T, p, k) \<in> held H))"
proof -
  have "(\<forall>(p, n) \<in> set mi. P p n) \<longleftrightarrow> (\<forall>p n. (p, n) \<in> set mi \<longrightarrow> P p n)" for P by auto
  then show ?thesis unfolding acked_def by (simp add: hash_map_pair cong: conj_cong)
qed

lemma moves_fixed: "moves M C A i m t D A' \<Longrightarrow> peer_ids t = peer_ids (nodes C i)"
  using moves_dest(4) [of M C A i m t D A'] by (auto elim!: node_step.cases simp: fixed_part_def)

lemma acked_moves:
  assumes "moves M C A i m t D A'" "log_inv M C A H" "vote_inv M C A H" "commit_inv M C H"
    and "H' = remember i (nodes C i) t H" "matches (role t) = Some mi"
  shows "acked M i H' (current_term t) mi"
proof -
  note mv = moves_dest [OF assms(1)] and ci = commit_inv_dest [OF assms(4)]
  have la: "later H H'" using moves_later [OF assms(1,2)] assms(5) by simp
  have lt: "is_leader (role t)" using assms(6) by (simp add: is_leader_matches)
  have same: "acked M i H' (current_term t) mi"
    if "matches (role (nodes C i)) = Some mi" "current_term t = current_term (nodes C i)" for mi
    using acked_later [OF ci(2) [OF mv(2) that(1)] la] that(2) by simp
  from mv(4) show ?thesis
  proof cases
    case ns_event
    from ns_event(1) show ?thesis
    proof cases
      case rp_idle
      then show ?thesis using same lt assms(6) by simp
    next
      case rp_lead
      note wf = moves_wf [OF assms(1,2) refl]
      have "term_log H' (current_term t) = node_log t" using lt by (simp add: assms(5) remember_term_log)
      with wf lt have "0 < length (term_log H' (current_term t))" "entry_term (term_log H' (current_term t) ! 0) \<noteq> current_term t"
        by (auto simp: wf_log_def)
      with rp_lead(4) assms(6) mv(13) show ?thesis by (auto simp: acked_get split: if_splits)
    next
      case (rp_append e)
      then show ?thesis using same assms(6) by simp
    next
      case (rp_ack f rsp mi0)
      have msg: "f \<in> M" "AppendResponse rsp \<in> msgs C f i" using mv(5,6) rp_ack(1) by auto
      then have "f \<noteq> i" using vote_inv_dest(1) [OF assms(3) mv(2)] by auto
      have rsp: "aresp_match_index rsp < length (term_log H' (current_term t))"
          "\<And>k. k \<le> aresp_match_index rsp \<Longrightarrow> (current_term t, f, k) \<in> held H'"
        using ci(5,6) [OF msg rp_ack(2)] later_dest(2,3) [OF la] rp_ack(3,4) by simp_all
      have "acked M i H' (current_term t) mi0" by (rule same [OF rp_ack(6,4)])
      then show ?thesis using rp_ack(7) assms(6) rsp msg(1) \<open>f \<noteq> i\<close> by (auto simp: acked_get split: if_splits)
    next
      case (rp_accept f req)
      then show ?thesis using lt by (simp add: accepts_def)
    qed
  qed (use assms(6) in simp)
qed

lemma committable_committed:
  assumes "moves M C A i m t D A'" "log_inv M C A H" "H' = remember i (nodes C i) t H"
    and "matches (role t) = Some mi" "acked M i H' (current_term t) mi" "committable t mi c" "c < length (node_log t)"
  shows "committed M H' (current_term t) c"
proof -
  note mv = moves_dest [OF assms(1)]
  have L: "term_log H' (current_term t) = node_log t"
    using assms(4) by (auto simp: assms(3) remember_term_log is_leader_matches)
  have own: "(current_term t, i, c) \<in> held H'"
    using L agree_refl [OF assms(7)] by (simp add: assms(3) remember_sel)
  have et: "entry_term (node_log t ! c) = current_term t" using assms(6) by (simp add: committable_def)
  let ?F = "filter (\<lambda>(_, n). n \<ge> c) mi" and ?R = "insert i (fst ` set (filter (\<lambda>(_, n). n \<ge> c) mi))"
  have sub: "p \<in> M - {i} \<and> (current_term t, p, c) \<in> held H'" if "(p, n) \<in> set ?F" for p n
    using assms(5) that et L by (auto simp: acked_def)
  have "distinct (map fst ?F)" using assms(5) distinct_map_filter by (auto simp: acked_def)
  then have "card (fst ` set ?F) = length ?F" using distinct_card [of "map fst ?F"] by simp
  moreover have "i \<notin> fst ` set ?F" using sub by fastforce
  ultimately have "card ?R = replicated_count mi c" by (simp add: replicated_count_def)
  then have "card M < 2 * card ?R"
    using assms(6) mv(16) by (simp add: committable_def moves_fixed [OF assms(1)])
  moreover have "?R \<subseteq> M" using sub mv(2) by force
  moreover have "\<forall>r \<in> ?R. (current_term t, r, c) \<in> held H'" using sub own by force
  ultimately show ?thesis unfolding committed_def L using et assms(7) by blast
qed

lemma settled_moves:
  assumes "moves M C A i m t D A'" "log_inv M C A H" "vote_inv M C A H" "commit_inv M C H"
    and "H' = remember i (nodes C i) t H"
  shows "settled M H' (current_term t) (node_log t) (commit_index t)"
proof -
  note mv = moves_dest [OF assms(1)] and inv = log_inv_dest [OF assms(2)] and ci = commit_inv_dest [OF assms(4)]
  have la: "later H H'" using moves_later [OF assms(1,2)] assms(5) by simp
  have le: "current_term (nodes C i) \<le> current_term t" by (rule node_step_term [OF mv(4)])
  note s = ci(1) [OF mv(2)]
  have wf: "node_log t \<noteq> []" using moves_wf(1) [OF assms(1,2) refl] by (simp add: wf_log_def)
  have adv: "settled M H' (current_term t) (node_log t) (commit_index t)"
    if c: "commits (nodes C i) t" and p: "prefix (node_log (nodes C i)) (node_log t)"
    using c unfolding commits_def
  proof (elim disjE exE conjE)
    assume "commit_index t = commit_index (nodes C i)"
    then show ?thesis using settled_later [OF s la p le] by simp
  next
    fix mi assume mi: "matches (role t) = Some mi" "commit_index t < length (node_log t)" "committable t mi (commit_index t)"
    have "committed M H' (current_term t) (commit_index t)"
      by (rule committable_committed [OF assms(1,2,5) mi(1) acked_moves [OF assms mi(1)] mi(3,2)])
    moreover have "term_log H' (current_term t) = node_log t"
      using mi(1) by (auto simp: assms(5) remember_term_log is_leader_matches)
    ultimately show ?thesis using mi(2) agree_refl unfolding settled_def by (metis order_refl)
  qed
  have keep: "settled M H' (current_term t) (node_log t) (commit_index (nodes C i))"
    using s unfolding settled_def
  proof (elim conjE disjE exE)
    assume "commit_index (nodes C i) = 0"
    with wf show "commit_index (nodes C i) < length (node_log t) \<and> (commit_index (nodes C i) = 0 \<or>
      (\<exists>T0 k. T0 \<le> current_term t \<and> commit_index (nodes C i) \<le> k \<and> committed M H' T0 k
         \<and> agree (node_log t) (term_log H' T0) (commit_index (nodes C i))))" by simp
  next
    fix T0 k assume c: "T0 \<le> current_term (nodes C i)" "commit_index (nodes C i) \<le> k" "committed M H T0 k"
      "agree (node_log (nodes C i)) (term_log H T0) (commit_index (nodes C i))"
    have "agree (node_log t) (term_log H T0) (commit_index (nodes C i))"
      by (rule moves_keeps [OF assms(1,2) c(4,1)])
        (use leader_complete [OF mv(1) assms(2,3) c(3)] agree_le c(2) in blast)
    then have "agree (node_log t) (term_log H' T0) (commit_index (nodes C i))"
      using agree_prefix_right later_dest(1) [OF la] by blast
    with c(1,2) le committed_later [OF c(3) la] agree_len(1)
    show "commit_index (nodes C i) < length (node_log t) \<and> (commit_index (nodes C i) = 0 \<or>
      (\<exists>T0 k. T0 \<le> current_term t \<and> commit_index (nodes C i) \<le> k \<and> committed M H' T0 k
         \<and> agree (node_log t) (term_log H' T0) (commit_index (nodes C i))))" by (meson order_trans)
  qed
  from mv(4) show ?thesis
  proof cases
    case ns_event
    from ns_event(1) show ?thesis
    proof cases
      case (rp_accept f req)
      let ?n = "areq_prev_log_index req + length (areq_entries req)"
      have msg: "f \<in> M" "AppendRequest req \<in> msgs C f i" using mv(5,6) rp_accept(1) by auto
      have X: "current_term t = areq_term req" using rp_accept(2) by (simp add: accepts_def)
      have ad: "adopts (term_log H (current_term t)) ?n (node_log (nodes C i)) (node_log t)"
        using accepts_adopts [OF inv(1) inv(8) [OF mv(2)] inv(12) [OF msg] rp_accept(2)] by (simp add: X)
      show ?thesis
      proof (cases "commit_index (nodes C i) < areq_leader_commit req")
        case False
        then show ?thesis using keep rp_accept(2) by (simp add: accepts_def)
      next
        case True
        have a: "agree (node_log t) (term_log H (current_term t)) (areq_leader_commit req)"
          using ad ci(3) [OF msg] agree_le by (auto simp: adopts_def)
        then have c: "commit_index t = areq_leader_commit req"
          using rp_accept(2) True agree_len(1) [OF a] by (simp add: accepts_def)
        obtain T0 k where T0: "T0 \<le> current_term t" "areq_leader_commit req \<le> k" "committed M H T0 k"
            "agree (term_log H (current_term t)) (term_log H T0) (areq_leader_commit req)"
          using ci(4) [OF msg] True by (auto simp: settled_def X)
        have "agree (node_log t) (term_log H' T0) (commit_index t)"
          using agree_prefix_right [OF agree_trans [OF a T0(4)] later_dest(1) [OF la]] c by simp
        then show ?thesis using T0(1,2) committed_later [OF T0(3) la] agree_len(1) c unfolding settled_def by metis
      qed
    qed (use adv in simp_all)
  qed (use wf in \<open>simp add: settled_def\<close>)
qed

lemma commit_inv_moves:
  assumes "moves M C A i m t D A'" "log_inv M C A H" "vote_inv M C A H" "commit_inv M C H"
  shows "commit_inv M D (remember i (nodes C i) t H)"
proof -
  note mv = moves_dest [OF assms(1)] and inv = log_inv_dest [OF assms(2)] and ci = commit_inv_dest [OF assms(4)]
  note la = moves_later [OF assms(1,2)]
  let ?H = "remember i (nodes C i) t H"
  show ?thesis
    unfolding commit_inv_def
  proof (intro conjI ballI allI impI)
    fix a assume a: "a \<in> M"
    show "settled M ?H (current_term (nodes D a)) (node_log (nodes D a)) (commit_index (nodes D a))"
      using settled_moves [OF assms refl] settled_later [OF ci(1) [OF a] la] by (cases "a = i") (simp_all add: mv(3))
    show "acked M a ?H (current_term (nodes D a)) mi" if "matches (role (nodes D a)) = Some mi" for mi
      using acked_moves [OF assms refl] acked_later [OF ci(2) [OF a] la] that by (cases "a = i") (simp_all add: mv(3))
  next
    fix a b req assume a: "a \<in> M" "AppendRequest req \<in> msgs D a b"
    have "areq_leader_commit req \<le> areq_prev_log_index req + length (areq_entries req)
        \<and> settled M ?H (areq_term req) (term_log ?H (areq_term req)) (areq_leader_commit req)"
      using mv(7) [OF a(2)]
    proof
      assume old: "AppendRequest req \<in> msgs C a b"
      show ?thesis using ci(3) [OF a(1) old] settled_later [OF ci(4) [OF a(1) old] la later_dest(1) [OF la] order_refl] by simp
    next
      assume "a = i \<and> sends m (nodes C i) t b (AppendRequest req)"
      then have fr: "fresh_request t req" by (simp add: sends_def)
      then have L: "term_log ?H (current_term t) = node_log t" by (simp add: fresh_request_def remember_term_log)
      have st: "settled M ?H (current_term t) (node_log t) (commit_index t)" by (rule settled_moves [OF assms refl])
      then have "commit_index t < length (node_log t)" by (simp add: settled_def)
      with fr st L show ?thesis by (auto simp: fresh_request_def)
    qed
    then show "areq_leader_commit req \<le> areq_prev_log_index req + length (areq_entries req)"
      "settled M ?H (areq_term req) (term_log ?H (areq_term req)) (areq_leader_commit req)" by simp_all
  next
    fix a b rsp assume a: "a \<in> M" "AppendResponse rsp \<in> msgs D a b" "aresp_success rsp"
    have "aresp_match_index rsp < length (term_log ?H (aresp_term rsp))
        \<and> (\<forall>k \<le> aresp_match_index rsp. (aresp_term rsp, a, k) \<in> held ?H)"
      using mv(7) [OF a(2)]
    proof
      assume old: "AppendResponse rsp \<in> msgs C a b"
      show ?thesis using ci(5,6) [OF a(1) old a(3)] later_dest(2,3) [OF la] by simp
    next
      assume "a = i \<and> sends m (nodes C i) t b (AppendResponse rsp)"
      then obtain req where "a = i" and m: "m = Some (b, AppendRequest req)" and acc: "accepts req (nodes C i) t"
          and rsp: "aresp_term rsp = current_term t" "aresp_match_index rsp = areq_prev_log_index req + length (areq_entries req)"
        using a(3) by (auto simp: sends_def accepts_def)
      have sl: "slice_of (term_log H) req" using mv(5,6) [OF m] inv(12) by blast
      have "agree (node_log t) (term_log H (current_term t)) (aresp_match_index rsp)"
        using accepts_adopts [OF inv(1) inv(8) [OF mv(2)] sl acc] acc rsp(2) by (simp add: adopts_def accepts_def)
      then have ag: "agree (node_log t) (term_log ?H (current_term t)) (aresp_match_index rsp)"
        using agree_prefix_right later_dest(1) [OF la] by blast
      have "(current_term t, i, k) \<in> held ?H" if "k \<le> aresp_match_index rsp" for k
        using agree_le [OF ag that] by (simp add: remember_sel)
      with agree_len(2) [OF ag] \<open>a = i\<close> rsp(1) show ?thesis by simp
    qed
    then show "aresp_match_index rsp < length (term_log ?H (aresp_term rsp))"
      "\<And>k. k \<le> aresp_match_index rsp \<Longrightarrow> (aresp_term rsp, a, k) \<in> held ?H" by simp_all
  qed
qed

lemma commit_inv_still:
  assumes "\<And>i. view (nodes D i) = view (nodes C i)" "\<And>i j. msgs D i j \<subseteq> msgs C i j" "commit_inv M C H"
  shows "commit_inv M D H"
proof -
  note ci = commit_inv_dest [OF assms(3)]
  have m: "x \<in> msgs C a b" if "x \<in> msgs D a b" for a b x using assms(2) [of a b] that by blast
  show ?thesis
    unfolding commit_inv_def view_eqD [OF assms(1)]
    by (intro conjI ballI allI impI; (rule ci(1-2) | rule ci(3,4) [OF _ m] | rule ci(5,6) [OF _ m])?; assumption)
qed

end
