(* ===== verification/Raft_Safety.thy ===== *)
theory Raft_Safety
  imports Raft_Commit Raft_Apply
begin

text \<open>
  The safety properties of the replicated log, for every run of a cluster of \<open>RaftNode\<close>s from a fresh start: log
  matching, leader completeness and state machine safety. They rest on the invariants of \<open>Raft_Log\<close> and
  \<open>Raft_Commit\<close>, which every step of the cluster keeps (\<open>safe_inv_step\<close>). A script of events, run on three
  nodes, shows that entries do get committed.
\<close>

section \<open>Runs\<close>

definition safe_inv ::
    "('c, 'o, 's, 'st, 'b) raft_env \<Rightarrow> node_id list \<Rightarrow> ('c, 'o, 's, 'st) cluster \<Rightarrow> (node_id, u64) election
     \<Rightarrow> 'c history \<Rightarrow> bool" where
  "safe_inv E ms C A H \<longleftrightarrow> cluster_ok E ms C \<and> implements (set ms) C A \<and> election_inv (set ms) A
     \<and> log_inv (set ms) C A H \<and> vote_inv (set ms) C A H \<and> commit_inv (set ms) C H"

lemma safe_inv_dest:
  assumes "safe_inv E ms C A H"
  shows "cluster_ok E ms C" "implements (set ms) C A" "election_inv (set ms) A"
    "log_inv (set ms) C A H" "vote_inv (set ms) C A H" "commit_inv (set ms) C H"
  using assms by (simp_all add: safe_inv_def)

lemma safe_inv_dying [simp]: "safe_inv (dying f E) ms C A H = safe_inv E ms C A H"
  by (simp add: safe_inv_def)

lemma safe_inv_moves:
  assumes "cluster_env E ms" "alive_step E ms C D" "safe_inv E ms C A H"
  obtains (move) A' i m t where "moves (set ms) C A i m t D A'" "safe_inv E ms D A' (remember i (nodes C i) t H)"
    | (still) A' where "safe_inv E ms D A' H" "leaders A' = leaders A"
        "\<And>i. view (nodes D i) = view (nodes C i)" "\<And>i j. msgs D i j \<subseteq> msgs C i j"
proof -
  note sf = safe_inv_dest [OF assms(3)]
  have ok: "cluster_ok E ms D" by (rule alive_ok_step [OF assms(1,2) sf(1)])
  from assms(1,2) sf(1-3) show ?thesis
  proof (cases rule: alive_step_moves)
    case m: (move A' i m t)
    have "safe_inv E ms D A' (remember i (nodes C i) t H)"
      using ok moves_dest(15,9) [OF m] log_inv_moves [OF m sf(4)] vote_inv_moves [OF m sf(4,5)]
        commit_inv_moves [OF m sf(4-6)] by (simp add: safe_inv_def)
    with m show ?thesis by (rule move)
  next
    case st: (still A')
    have "safe_inv E ms D A' H"
      using ok st(1,2) log_inv_still [OF st(5,6,3) sf(4)] vote_inv_still [OF st(5,6,3,4) sf(5)]
        commit_inv_still [OF st(5,6) sf(6)] by (simp add: safe_inv_def)
    from still [OF this st(3,5,6)] show ?thesis .
  qed
qed

lemma safe_inv_alive:
  assumes "cluster_env E ms" "alive_step E ms C D" "safe_inv E ms C A H"
  shows "\<exists>A' H'. safe_inv E ms D A' H' \<and> later H H'"
  using assms
proof (cases rule: safe_inv_moves)
  case (move A' i m t)
  then show ?thesis using moves_later [OF move(1) safe_inv_dest(4) [OF assms(3)]] by blast
next
  case (still A')
  then show ?thesis using later_refl by blast
qed

lemma safe_inv_step:
  assumes "cluster_env E ms" "cluster_step E ms C D" "safe_inv E ms C A H"
  shows "\<exists>A' H'. safe_inv E ms D A' H' \<and> later H H'"
  using assms(2)
proof (cases rule: cluster_step_split)
  case alive
  then show ?thesis using safe_inv_alive [OF assms(1) _ assms(3)] by blast
next
  case (crash f i B)
  have env: "cluster_env (dying f E) ms" "safe_inv (dying f E) ms C A H" using assms(1,3) by simp_all
  obtain A1 H1 where B: "safe_inv (dying f E) ms B A1 H1" "later H H1" using safe_inv_alive [OF env(1) crash(2) env(2)] by blast
  obtain A2 H2 where "safe_inv (dying f E) ms D A2 H2" "later H1 H2" using safe_inv_alive [OF env(1) crash(3) B(1)] by blast
  with later_trans [OF B(2)] show ?thesis unfolding safe_inv_dying by blast
qed

lemma safe_inv_run:
  assumes "cluster_env E ms" "(cluster_step E ms)\<^sup>*\<^sup>* C D" "safe_inv E ms C A H"
  shows "\<exists>A' H'. safe_inv E ms D A' H' \<and> later H H'"
  using assms(2)
proof induction
  case base
  then show ?case using assms(3) later_refl by blast
next
  case (step D F)
  then show ?case using safe_inv_step [OF assms(1)] later_trans by blast
qed

definition initial_history :: "'c history" where
  "initial_history = \<lparr>term_log = (\<lambda>_. [])(0 := [\<lparr>entry_term = 0, entry_command = NoOp\<rparr>]), bid = \<lambda>_ _. None, held = {}\<rparr>"

lemma cluster_init_node:
  assumes "cluster_init E ms C" "i \<in> set ms"
  shows "current_term (nodes C i) = 0" "node_log (nodes C i) = [\<lparr>entry_term = 0, entry_command = NoOp\<rparr>]"
    "role (nodes C i) = Follower None" "commit_index (nodes C i) = 0" "msgs C i j = {}"
proof -
  obtain n r sm st cfg where st: "load_state E st = Inr None"
      and new: "new_node (at_time n r E) i ms sm st cfg = Inr (nodes C i)"
    using assms by (auto simp: cluster_init_def)
  have "durable E (nodes C i)" using new_node_persistent [OF new] by simp
  then show "current_term (nodes C i) = 0" "node_log (nodes C i) = [\<lparr>entry_term = 0, entry_command = NoOp\<rparr>]"
    using st new_node_fresh(5) [OF new] by (simp_all add: durable_def persistent_part_def)
  show "role (nodes C i) = Follower None" by (rule new_node_fresh(3) [OF new])
  show "commit_index (nodes C i) = 0" by (rule new_node_empty(1) [OF new])
  moreover have "net C = (\<lambda>i j. {#})" using assms(1) by (simp add: cluster_init_def)
  ultimately show "msgs C i j = {}" using new_node_empty(2) [OF new] by (simp add: msgs_def)
qed

lemma safe_inv_init:
  assumes "cluster_init E ms C"
  shows "\<exists>A. safe_inv E ms C A initial_history"
proof -
  note n = cluster_init_node [OF assms]
  obtain A where A: "election_init A" "implements (set ms) C A" using cluster_init_simulates(2) [OF assms] by blast
  have no: "votes A = {}" "leaders A = {}" using A(1) by (simp_all add: election_init_def)
  have L: "term_log initial_history T = (if T = 0 then [\<lparr>entry_term = 0, entry_command = NoOp\<rparr>] else [])" for T :: u64
    by (simp add: initial_history_def)
  have g: "wf_log (term_log initial_history) 0 [\<lparr>entry_term = 0, entry_command = NoOp\<rparr>]"
    by (simp add: wf_log_def backed_def agree_def L)
  have "log_inv (set ms) C A initial_history"
    using n g by (auto simp: log_inv_def leader_logs_def L no)
  moreover have "vote_inv (set ms) C A initial_history"
    using n by (simp add: vote_inv_def no) (simp add: initial_history_def)
  moreover have "commit_inv (set ms) C initial_history"
    using n by (simp add: commit_inv_def settled_def)
  ultimately show ?thesis
    using cluster_init_simulates(1) [OF assms] A(2) election_inv_init [OF A(1)] unfolding safe_inv_def by blast
qed

lemma safe_inv_two:
  assumes "cluster_env E ms" "cluster_init E ms C0" "(cluster_step E ms)\<^sup>*\<^sup>* C0 C" "(cluster_step E ms)\<^sup>*\<^sup>* C D"
  obtains A H B K where "safe_inv E ms C A H" "safe_inv E ms D B K" "later H K"
  using safe_inv_init [OF assms(2)] safe_inv_run [OF assms(1,3)] safe_inv_run [OF assms(1,4)] by metis

text \<open>Logs that are settled up to \<open>k\<close> agree up to \<open>k\<close>.\<close>

lemma first_agree:
  assumes "wf_log L T lg" "wf_log L T' lg'"
  shows "agree lg lg' 0"
  using assms backed_match [of L lg lg' 0] by (simp add: wf_log_def)

lemma settled_leader:
  assumes "finite M" "log_inv M C A H" "vote_inv M C A H" "settled M H T lg c" "wf_log (term_log H) T lg" "k \<le> c"
    and "T \<le> T'" "term_log H T' \<noteq> []"
  shows "agree lg (term_log H T') k"
  using assms(4) unfolding settled_def
proof (elim conjE disjE exE)
  assume "c = 0"
  then show ?thesis
    using first_agree [OF assms(5)] leader_logs_dest(1) [OF log_inv_dest(1) [OF assms(2)] assms(8)] assms(6) by simp
next
  fix T0 j assume c: "T0 \<le> T" "c \<le> j" "committed M H T0 j" "agree lg (term_log H T0) c"
  have "agree (term_log H T') (term_log H T0) j"
    using leader_complete [OF assms(1-3) c(3), of T'] c(1,3) assms(7,8) agree_refl [of j "term_log H T0"]
    by (cases "T0 = T'") (auto simp: committed_def)
  then have "agree (term_log H T') (term_log H T0) k" using agree_le c(2) assms(6) by (meson order_trans)
  with agree_le [OF c(4) assms(6)] agree_trans agree_sym show ?thesis by blast
qed

lemma settled_agree:
  assumes "finite M" "log_inv M C A H" "vote_inv M C A H"
    and "settled M H T lg c" "wf_log (term_log H) T lg" "k \<le> c"
    and "settled M H T' lg' c'" "wf_log (term_log H) T' lg'" "k \<le> c'"
  shows "agree lg lg' k"
proof (cases "c = 0 \<or> c' = 0")
  case True
  then show ?thesis using first_agree [OF assms(5,8)] assms(6,9) by auto
next
  case False
  obtain T0 j where a: "c \<le> j" "committed M H T0 j" "agree lg (term_log H T0) k"
    using assms(4) False agree_le [OF _ assms(6)] unfolding settled_def by blast
  obtain T1 l where b: "c' \<le> l" "committed M H T1 l" "agree lg' (term_log H T1) k"
    using assms(7) False agree_le [OF _ assms(9)] unfolding settled_def by blast
  have ne: "term_log H T0 \<noteq> []" "term_log H T1 \<noteq> []" using a(2) b(2) by (auto simp: committed_def)
  have "agree (term_log H T0) (term_log H T1) k"
    using leader_complete [OF assms(1-3) a(2), of T1] leader_complete [OF assms(1-3) b(2), of T0] ne
      agree_le [of "term_log H T1" "term_log H T0" j k] agree_le [of "term_log H T0" "term_log H T1" l k]
      agree_refl [of k "term_log H T0"] agree_len(2) [OF a(3)] a(1) b(1) assms(6,9) agree_sym
    by (cases T0 T1 rule: linorder_cases) auto
  with a(3) b(3) agree_trans agree_sym show ?thesis by blast
qed

lemma settled_node:
  assumes "safe_inv E ms C A H" "later H K" "i \<in> set ms"
  shows "settled (set ms) K (current_term (nodes C i)) (node_log (nodes C i)) (commit_index (nodes C i))"
    "wf_log (term_log K) (current_term (nodes C i)) (node_log (nodes C i))"
  using settled_later [OF commit_inv_dest(1) [OF safe_inv_dest(6) [OF assms(1)] assms(3)] assms(2) prefix_order.refl order_refl]
    wf_log_grows [OF log_inv_dest(8) [OF safe_inv_dest(4) [OF assms(1)] assms(3)] _ order_refl, of "term_log K"] assms(2)
  by (simp_all add: later_def)

section \<open>A scripted run\<close>

text \<open>The events of a run: one of a node's own, or the delivery of the oldest message on its way from a node to another.\<close>

datatype 'c action = Own node_id "'c raft_event" | Ship node_id node_id

fun act ::
    "('c, 'o, 's, 'st, 'b) raft_env \<Rightarrow> node_id list \<Rightarrow> (node_id \<Rightarrow> ('c, 'o, 's, 'st) raft_node) \<Rightarrow> 'c action
     \<Rightarrow> (node_id \<Rightarrow> ('c, 'o, 's, 'st) raft_node) option" where
  "act E ms N (Own i ev) =
     (if i \<in> set ms \<and> event_message ev = None \<and> event_enabled ev (N i)
      then (case on_event E ev (N i) of Inr t \<Rightarrow> Some (N(i := t)) | Inl _ \<Rightarrow> None)
      else None)"
| "act E ms N (Ship i j) =
     (if i \<in> set ms \<and> j \<in> set ms \<and> i \<noteq> j
      then (case worker_take j (N i) of
              None \<Rightarrow> None
            | Some (m, t) \<Rightarrow>
                (case on_event E (received i m) (N j) of Inr u \<Rightarrow> Some (N(i := t, j := u)) | Inl _ \<Rightarrow> None))
      else None)"

fun script ::
    "('c, 'o, 's, 'st, 'b) raft_env \<Rightarrow> node_id list \<Rightarrow> (node_id \<Rightarrow> ('c, 'o, 's, 'st) raft_node) \<Rightarrow> 'c action list
     \<Rightarrow> (node_id \<Rightarrow> ('c, 'o, 's, 'st) raft_node) option" where
  "script E ms N [] = Some N"
| "script E ms N (a # as) = (case act E ms N a of None \<Rightarrow> None | Some N' \<Rightarrow> script E ms N' as)"

definition calm :: "(node_id \<Rightarrow> ('c, 'o, 's, 'st) raft_node) \<Rightarrow> ('c, 'o, 's, 'st) cluster" where
  "calm N = \<lparr>nodes = N, net = \<lambda>_ _. {#}\<rparr>"

text \<open>The steps of a script, in which no node is restarted.\<close>

definition applying_step ::
    "('c, 'o, 's, 'st, 'b) raft_env \<Rightarrow> node_id list \<Rightarrow> ('c, 'o, 's, 'st) cluster \<Rightarrow> ('c, 'o, 's, 'st) cluster \<Rightarrow> bool" where
  "applying_step E ms C D \<longleftrightarrow> cluster_step E ms C D \<and> (\<forall>i. applies E (nodes C i) (nodes D i))"

lemma act_steps:
  assumes "act E ms N a = Some N'"
  shows "(applying_step E ms)\<^sup>*\<^sup>* (calm N) (calm N')"
proof -
  have same: "applies E s s" for s :: "('a, 'b, 'c, 'd) raft_node" by (rule applies_none) simp
  have E: "at_time (now_ms E) (random_range E) E = E" by (simp add: at_time_def)
  show ?thesis
  proof (cases a)
    case (Own i ev)
    then obtain t where ev: "i \<in> set ms" "event_message ev = None" "event_enabled ev (N i)" "on_event E ev (N i) = Inr t"
        and N': "N' = N(i := t)"
      using assms by (auto split: if_splits sum.splits)
    then have "cluster_step E ms (calm N) (set_node i t (calm N))"
      by (intro step_local [of _ _ _ _ "now_ms E" "random_range E"]) (simp_all add: calm_def E)
    then have "applying_step E ms (calm N) (calm N')"
      using same on_event_applies [OF ev(4)] by (simp add: applying_step_def set_node_def calm_def N')
    then show ?thesis ..
  next
    case (Ship i j)
    then obtain m t u where ij: "i \<in> set ms" "j \<in> set ms" "i \<noteq> j" and take: "worker_take j (N i) = Some (m, t)"
        and ev: "on_event E (received i m) (N j) = Inr u" and N': "N' = N(i := t, j := u)"
      using assms by (auto split: if_splits sum.splits option.splits)
    let ?C = "on_net i j (add_mset m) (set_node i t (calm N))"
    have "cluster_step E ms (calm N) ?C"
      by (rule step_transmit [OF ij(1)]) (simp add: take calm_def)
    moreover have "applies E (N i) t"
      using take by (intro applies_none) (auto simp: worker_take_def split: option.splits list.splits)
    ultimately have "applying_step E ms (calm N) ?C" using same by (simp add: applying_step_def calm_def)
    moreover have "cluster_step E ms ?C (set_node j u (on_net i j (\<lambda>w. w - {#m#}) ?C))"
      by (rule step_deliver [of _ _ _ _ _ "now_ms E" "random_range E"]) (use ij ev in \<open>simp_all add: E calm_def\<close>)
    then have "applying_step E ms ?C (set_node j u (on_net i j (\<lambda>w. w - {#m#}) ?C))"
      using same on_event_applies [OF ev] ij(3) by (simp add: applying_step_def calm_def)
    moreover have "set_node j u (on_net i j (\<lambda>w. w - {#m#}) ?C) = calm N'"
      by (simp add: calm_def set_node_def on_net_def N' fun_eq_iff)
    ultimately show ?thesis by (metis converse_rtranclp_into_rtranclp r_into_rtranclp)
  qed
qed

lemma script_applies: "script E ms N as = Some N' \<Longrightarrow> (applying_step E ms)\<^sup>*\<^sup>* (calm N) (calm N')"
proof (induction as arbitrary: N)
  case (Cons a as)
  then show ?case using act_steps by (fastforce split: option.splits intro: rtranclp_trans)
qed simp

lemma script_steps:
  assumes "script E ms N as = Some N'"
  shows "(cluster_step E ms)\<^sup>*\<^sup>* (calm N) (calm N')"
  by (rule mono_rtranclp [rule_format, OF _ script_applies [OF assms]]) (simp add: applying_step_def)

text \<open>Node 1 of three is elected with the vote of node 2; its first request finds node 2 one entry behind, the next
  one brings the entry, node 1 commits it and tells node 2.\<close>

definition commit_script :: "test_command action list" where
  "commit_script = [Own 1 ElectionTimeout, Ship 1 2, Ship 2 1, Ship 1 2, Ship 2 1, Own 1 HeartbeatTick, Ship 1 2,
     Ship 2 1, Own 1 HeartbeatTick, Ship 1 2]"

lemma test_commit:
  "\<exists>n1 n2 n3 N. test_node 1 [1, 2, 3] = Inr n1 \<and> test_node 2 [1, 2, 3] = Inr n2 \<and> test_node 3 [1, 2, 3] = Inr n3
    \<and> script test_env [1, 2, 3] ((\<lambda>_. n3)(1 := n1, 2 := n2)) commit_script = Some N
    \<and> is_leader (role (N 1)) \<and> current_term (N 1) = 1 \<and> current_term (N 2) = 1 \<and> commit_index (N 1) = 1 \<and> commit_index (N 2) = 1
    \<and> length (node_log (N 1)) = 2 \<and> length (node_log (N 2)) = 2
    \<and> entry_term (node_log (N 1) ! 1) = 1 \<and> entry_term (node_log (N 2) ! 1) = 1"
proof -
  have "ok_and (\<lambda>n1. ok_and (\<lambda>n2. ok_and (\<lambda>n3.
      (case script test_env [1, 2, 3] ((\<lambda>_. n3)(1 := n1, 2 := n2)) commit_script of
         None \<Rightarrow> False
       | Some N \<Rightarrow> is_leader (role (N 1)) \<and> current_term (N 1) = 1 \<and> current_term (N 2) = 1 \<and> commit_index (N 1) = 1
           \<and> commit_index (N 2) = 1 \<and> length (node_log (N 1)) = 2 \<and> length (node_log (N 2)) = 2
           \<and> entry_term (node_log (N 1) ! 1) = 1 \<and> entry_term (node_log (N 2) ! 1) = 1))
      (test_node 3 [1, 2, 3])) (test_node 2 [1, 2, 3])) (test_node 1 [1, 2, 3])"
    by code_simp
  then show ?thesis by (fastforce simp: ok_and_iff split: option.splits)
qed

lemma test_cluster_init:
  assumes "test_node 1 [1, 2, 3] = Inr n1" "test_node 2 [1, 2, 3] = Inr n2" "test_node 3 [1, 2, 3] = Inr n3"
  shows "cluster_init test_env [1, 2, 3] (calm ((\<lambda>_. n3)(1 := n1, 2 := n2)))"
  unfolding cluster_init_def
proof (intro conjI ballI)
  let ?C = "calm ((\<lambda>_. n3)(1 := n1, 2 := n2))"
  fix i :: node_id
  assume "i \<in> set [1, 2, 3]"
  then have "new_node (at_time 0 (\<lambda>a b. a) test_env) i [1, 2, 3] 0 memory_default default_config = Inr (nodes ?C i)"
    using assms unfolding at_time_test_env by (auto simp: test_node_def calm_def)
  moreover have "load_state test_env memory_default = Inr None"
    by (simp add: test_env_def memory_restore_state_def memory_default_def)
  ultimately show "\<exists>n r sm st cfg. load_state test_env st = Inr None
      \<and> new_node (at_time n r test_env) i [1, 2, 3] sm st cfg = Inr (nodes ?C i)"
    by blast
qed (simp add: calm_def)

lemma test_commit_run:
  "\<exists>C0 C. cluster_init test_env [1, 2, 3] C0 \<and> (cluster_step test_env [1, 2, 3])\<^sup>*\<^sup>* C0 C \<and> leads C 1 1
    \<and> current_term (nodes C 2) = 1 \<and> commit_index (nodes C 1) = 1 \<and> commit_index (nodes C 2) = 1
    \<and> length (node_log (nodes C 1)) = 2 \<and> length (node_log (nodes C 2)) = 2
    \<and> entry_term (node_log (nodes C 1) ! 1) = 1 \<and> entry_term (node_log (nodes C 2) ! 1) = 1"
proof -
  obtain n1 n2 n3 N where new: "test_node 1 [1, 2, 3] = Inr n1" "test_node 2 [1, 2, 3] = Inr n2" "test_node 3 [1, 2, 3] = Inr n3"
    and run: "script test_env [1, 2, 3] ((\<lambda>_. n3)(1 := n1, 2 := n2)) commit_script = Some N"
    and N: "is_leader (role (N 1))" "current_term (N 1) = 1" "current_term (N 2) = 1" "commit_index (N 1) = 1"
      "commit_index (N 2) = 1" "length (node_log (N 1)) = 2" "length (node_log (N 2)) = 2"
      "entry_term (node_log (N 1) ! 1) = 1" "entry_term (node_log (N 2) ! 1) = 1"
    using test_commit by auto
  define C0 where "C0 = calm ((\<lambda>_. n3)(1 := n1, 2 := n2))"
  have "cluster_init test_env [1, 2, 3] C0" unfolding C0_def by (rule test_cluster_init [OF new])
  moreover have "(cluster_step test_env [1, 2, 3])\<^sup>*\<^sup>* C0 (calm N)" unfolding C0_def by (rule script_steps [OF run])
  moreover have "leads (calm N) 1 1" using N by (simp add: leads_def calm_def)
  ultimately show ?thesis using N by (intro exI [of _ C0] exI [of _ "calm N"]) (simp add: calm_def)
qed

section \<open>Safety\<close>

text \<open>C9: log matching. If the logs of two nodes, at the same time or at different times of a run, have entries of
  the same term at the same index, then the logs are identical up to and including that index.\<close>

theorem log_matching:
  assumes "cluster_env E ms" "cluster_init E ms C0"
    and "(cluster_step E ms)\<^sup>*\<^sup>* C0 C" "(cluster_step E ms)\<^sup>*\<^sup>* C D" "i \<in> set ms" "j \<in> set ms"
    and "k < length (node_log (nodes C i))" "k < length (node_log (nodes D j))"
    and "entry_term (node_log (nodes C i) ! k) = entry_term (node_log (nodes D j) ! k)"
  shows "take (Suc k) (node_log (nodes C i)) = take (Suc k) (node_log (nodes D j))"
proof -
  obtain A H B K where inv: "safe_inv E ms C A H" "safe_inv E ms D B K" "later H K"
    by (rule safe_inv_two [OF assms(1-4)])
  have "agree (node_log (nodes C i)) (node_log (nodes D j)) k"
    using settled_node(2) [OF inv(1,3) assms(5)] settled_node(2) [OF inv(2) later_refl assms(6)]
    by (intro backed_match [of "term_log K", OF _ _ assms(7-9)]) (simp_all add: wf_log_def)
  then show ?thesis by (simp add: agree_def)
qed

theorem log_matching_witness:
  "\<exists>C0 C. cluster_init test_env [1, 2, 3] C0 \<and> (cluster_step test_env [1, 2, 3])\<^sup>*\<^sup>* C0 C
    \<and> length (node_log (nodes C 1)) = 2 \<and> node_log (nodes C 1) = node_log (nodes C 2)"
proof -
  obtain C0 C where run: "cluster_init test_env [1, 2, 3] C0" "(cluster_step test_env [1, 2, 3])\<^sup>*\<^sup>* C0 C"
      "length (node_log (nodes C 1)) = 2" "length (node_log (nodes C 2)) = 2"
      "entry_term (node_log (nodes C 1) ! 1) = 1" "entry_term (node_log (nodes C 2) ! 1) = 1"
    using test_commit_run by blast
  have "take (Suc 1) (node_log (nodes C 1)) = take (Suc 1) (node_log (nodes C 2))"
    by (rule log_matching [OF cluster_env_test run(1,2) rtranclp.rtrancl_refl]) (use run in simp_all)
  with run show ?thesis by (intro exI [of _ C0] exI [of _ C]) simp
qed

text \<open>C7: leader completeness. The entries that a node takes as committed are in the log of every node that leads,
  then or later, in the same or a later term.\<close>

theorem leader_completeness:
  assumes "cluster_env E ms" "cluster_init E ms C0"
    and "(cluster_step E ms)\<^sup>*\<^sup>* C0 C" "(cluster_step E ms)\<^sup>*\<^sup>* C D" "i \<in> set ms" "j \<in> set ms"
    and "k \<le> commit_index (nodes C i)" "leads D j T" "current_term (nodes C i) \<le> T"
  shows "k < length (node_log (nodes D j)) \<and> take (Suc k) (node_log (nodes D j)) = take (Suc k) (node_log (nodes C i))"
proof -
  obtain A H B K where inv: "safe_inv E ms C A H" "safe_inv E ms D B K" "later H K"
    by (rule safe_inv_two [OF assms(1-4)])
  note li = safe_inv_dest(4) [OF inv(2)]
  have lead: "is_leader (role (nodes D j))" "current_term (nodes D j) = T" using assms(8) by (simp_all add: leads_def)
  have L: "term_log K T = node_log (nodes D j)" "node_log (nodes D j) \<noteq> []"
    using log_inv_dest(8,10) [OF li assms(6)] lead by (auto simp: wf_log_def)
  have "agree (node_log (nodes C i)) (term_log K T) k"
    by (rule settled_leader [OF finite_set li safe_inv_dest(5) [OF inv(2)] settled_node [OF inv(1,3) assms(5)] assms(7,9)])
      (simp add: L)
  then show ?thesis by (simp add: agree_def L)
qed

theorem leader_completeness_witness:
  "\<exists>C0 C. cluster_init test_env [1, 2, 3] C0 \<and> (cluster_step test_env [1, 2, 3])\<^sup>*\<^sup>* C0 C \<and> commit_index (nodes C 2) = 1
    \<and> leads C 1 1 \<and> take 2 (node_log (nodes C 1)) = take 2 (node_log (nodes C 2))"
proof -
  obtain C0 C where run: "cluster_init test_env [1, 2, 3] C0" "(cluster_step test_env [1, 2, 3])\<^sup>*\<^sup>* C0 C"
      "leads C 1 1" "current_term (nodes C 2) = 1" "commit_index (nodes C 2) = 1"
    using test_commit_run by blast
  have "1 < length (node_log (nodes C 1)) \<and> take (Suc 1) (node_log (nodes C 1)) = take (Suc 1) (node_log (nodes C 2))"
    by (rule leader_completeness [OF cluster_env_test run(1,2) rtranclp.rtrancl_refl _ _ _ run(3)]) (use run in simp_all)
  with run show ?thesis by (intro exI [of _ C0] exI [of _ C]) (simp add: numeral_2_eq_2)
qed

text \<open>C2: state machine safety. Two nodes, or one node before and after a restart, never take different
  entries as committed at an index: what one has committed at any time of a run, every node that has committed as far has too.\<close>

theorem state_machine_safety:
  assumes "cluster_env E ms" "cluster_init E ms C0"
    and "(cluster_step E ms)\<^sup>*\<^sup>* C0 C" "(cluster_step E ms)\<^sup>*\<^sup>* C D" "i \<in> set ms" "j \<in> set ms"
    and "k \<le> commit_index (nodes C i)" "k \<le> commit_index (nodes D j)"
  shows "k < length (node_log (nodes C i)) \<and> k < length (node_log (nodes D j))
    \<and> take (Suc k) (node_log (nodes C i)) = take (Suc k) (node_log (nodes D j))"
proof -
  obtain A H B K where inv: "safe_inv E ms C A H" "safe_inv E ms D B K" "later H K"
    by (rule safe_inv_two [OF assms(1-4)])
  have "agree (node_log (nodes C i)) (node_log (nodes D j)) k"
    by (rule settled_agree [OF finite_set safe_inv_dest(4,5) [OF inv(2)] settled_node [OF inv(1,3) assms(5)] assms(7)
          settled_node [OF inv(2) later_refl assms(6)] assms(8)])
  then show ?thesis by (simp add: agree_def)
qed

theorem state_machine_safety_witness:
  "\<exists>C0 C. cluster_init test_env [1, 2, 3] C0 \<and> (cluster_step test_env [1, 2, 3])\<^sup>*\<^sup>* C0 C
    \<and> commit_index (nodes C 1) = 1 \<and> commit_index (nodes C 2) = 1
    \<and> take 2 (node_log (nodes C 1)) = take 2 (node_log (nodes C 2))"
proof -
  obtain C0 C where run: "cluster_init test_env [1, 2, 3] C0" "(cluster_step test_env [1, 2, 3])\<^sup>*\<^sup>* C0 C"
      "commit_index (nodes C 1) = 1" "commit_index (nodes C 2) = 1"
    using test_commit_run by blast
  have "1 < length (node_log (nodes C 1)) \<and> 1 < length (node_log (nodes C 2))
      \<and> take (Suc 1) (node_log (nodes C 1)) = take (Suc 1) (node_log (nodes C 2))"
    by (rule state_machine_safety [OF cluster_env_test run(1,2) rtranclp.rtrancl_refl]) (use run in simp_all)
  with run show ?thesis by (intro exI [of _ C0] exI [of _ C]) (simp add: numeral_2_eq_2)
qed

end
