(* ===== verification/Raft_Progress.thy ===== *)
theory Raft_Progress
  imports Raft_Safety Raft_Node_Safety Raft_Apply
begin

text \<open>
  A cluster in which every node runs this code keeps the conditions under which a node survives an event
  (\<open>message_ok\<close>): a request comes from the leader of its term, an acknowledged index exists in the leader's log,
  a request never cuts a log below the commit index. So a member of a cluster panics only when its state machine
  does, and every member can be restarted at any time. All state machines follow one log, so replicas agree.
\<close>

section \<open>The mail invariant\<close>

definition mail_inv :: "node_id set \<Rightarrow> ('c, 'o, 's, 'st) cluster \<Rightarrow> (node_id, u64) election \<Rightarrow> 'c history \<Rightarrow> bool" where
  "mail_inv M C A H \<longleftrightarrow>
     (\<forall>a \<in> M. \<forall>b req. AppendRequest req \<in> msgs C a b \<longrightarrow> (areq_term req, a) \<in> leaders A)
     \<and> (\<forall>a \<in> M. \<forall>b rsp. AppendResponse rsp \<in> msgs C a b \<longrightarrow>
          aresp_match_index rsp = 0 \<or> aresp_match_index rsp < length (term_log H (aresp_term rsp)))"

lemma mail_inv_dest:
  assumes "mail_inv M C A H"
  shows "a \<in> M \<Longrightarrow> AppendRequest req \<in> msgs C a b \<Longrightarrow> (areq_term req, a) \<in> leaders A"
    "a \<in> M \<Longrightarrow> AppendResponse rsp \<in> msgs C a b \<Longrightarrow>
      aresp_match_index rsp = 0 \<or> aresp_match_index rsp < length (term_log H (aresp_term rsp))"
  using assms by (simp_all add: mail_inv_def)

lemma mail_inv_moves:
  assumes "moves M C A i m t D A'" "log_inv M C A H" "mail_inv M C A H"
  shows "mail_inv M D A' (remember i (nodes C i) t H)"
proof -
  note mv = moves_dest [OF assms(1)] and inv = log_inv_dest [OF assms(2)] and mi = mail_inv_dest [OF assms(3)]
  note la = moves_later [OF assms(1,2)]
  let ?H = "remember i (nodes C i) t H"
  show ?thesis
    unfolding mail_inv_def
  proof (intro conjI ballI allI impI)
    fix a b req assume a: "a \<in> M" "AppendRequest req \<in> msgs D a b"
    from mv(7) [OF a(2)] show "(areq_term req, a) \<in> leaders A'"
    proof
      assume "AppendRequest req \<in> msgs C a b"
      with mi(1) [OF a(1)] mv(10) show ?thesis by blast
    next
      assume new: "a = i \<and> sends m (nodes C i) t b (AppendRequest req)"
      then have "is_leader (role t)" "areq_term req = current_term t" by (auto simp: sends_def fresh_request_def)
      with implements_leader [OF mv(15,9,2)] new show ?thesis by (simp add: mv(3))
    qed
  next
    fix a b rsp assume a: "a \<in> M" "AppendResponse rsp \<in> msgs D a b"
    from mv(7) [OF a(2)]
    show "aresp_match_index rsp = 0 \<or> aresp_match_index rsp < length (term_log ?H (aresp_term rsp))"
    proof
      assume "AppendResponse rsp \<in> msgs C a b"
      with mi(2) [OF a(1)] later_dest(3) [OF la] show ?thesis by blast
    next
      assume "a = i \<and> sends m (nodes C i) t b (AppendResponse rsp)"
      then consider "aresp_match_index rsp = 0"
        | req where "m = Some (b, AppendRequest req)" "aresp_term rsp = areq_term req"
            "aresp_match_index rsp \<le> areq_prev_log_index req + length (areq_entries req)"
        by (auto simp: sends_def split: if_splits)
      then show ?thesis
      proof cases
        case 2
        have "slice_of (term_log H) req" using mv(5,6) [OF 2(1)] inv(12) by blast
        then have "aresp_match_index rsp < length (term_log H (aresp_term rsp))"
          using 2(2,3) by (simp add: slice_of_def Let_def)
        then show ?thesis using later_dest(3) [OF la] by blast
      qed simp
    qed
  qed
qed

lemma mail_inv_still:
  assumes "\<And>i j. msgs D i j \<subseteq> msgs C i j" "leaders A' = leaders A" "mail_inv M C A H"
  shows "mail_inv M D A' H"
  using assms(3) subsetD [OF assms(1)] unfolding mail_inv_def assms(2) by blast

text \<open>Under the invariants every message on its way is well-formed for its receiver.\<close>

lemma delivered_ok:
  assumes "safe_inv E ms C A H" "mail_inv (set ms) C A H" "i \<in> set ms" "f \<in> set ms" "x \<in> msgs C f i"
  shows "message_ok x (nodes C i)"
proof (cases x)
  case (AppendRequest req)
  note sf = safe_inv_dest [OF assms(1)]
  note inv = log_inv_dest [OF sf(4)]
  let ?s = "nodes C i" and ?p = "areq_prev_log_index req"
  have req: "AppendRequest req \<in> msgs C f i" using assms(5) AppendRequest by simp
  have lead: "(areq_term req, f) \<in> leaders A" by (rule mail_inv_dest(1) [OF assms(2,4) req])
  have "f \<noteq> i" using vote_inv_dest(1) [OF sf(5) assms(3)] req by auto
  then have one: "\<not> is_leader (role ?s)" if "areq_term req = current_term ?s"
    using implements_leader [OF sf(2,3) assms(3)] election_inv_unique [OF finite_set sf(3) lead] that by auto
  have "commit_index ?s < length (append_entries (Suc ?p) (areq_entries req) (node_log ?s))"
    if cur: "areq_term req \<ge> current_term ?s" and p: "?p < length (node_log ?s)"
      "entry_term (node_log ?s ! ?p) = areq_prev_log_term req"
  proof -
    define t where "t = ?s\<lparr>current_term := areq_term req, role := Follower None,
      node_log := append_entries (Suc ?p) (areq_entries req) (node_log ?s),
      commit_index := if commit_index ?s < areq_leader_commit req
        then min (areq_leader_commit req) (length (append_entries (Suc ?p) (areq_entries req) (node_log ?s)) - 1) else commit_index ?s\<rparr>"
    have "accepts req ?s t" using p by (simp add: accepts_def t_def)
    from accepts_adopts [OF inv(1) inv(8) [OF assms(3)] inv(12) [OF assms(4) req] this]
    have ad: "adopts (term_log H (areq_term req)) (?p + length (areq_entries req)) (node_log ?s)
        (append_entries (Suc ?p) (areq_entries req) (node_log ?s))" by (simp add: t_def)
    have "agree (node_log ?s) (term_log H (areq_term req)) (commit_index ?s)"
      by (rule settled_leader [OF finite_set sf(4,5) commit_inv_dest(1) [OF sf(6) assms(3)] inv(8) [OF assms(3)] order_refl cur inv(5) [OF lead]])
    with ad have "agree (append_entries (Suc ?p) (areq_entries req) (node_log ?s)) (term_log H (areq_term req)) (commit_index ?s)"
      by (simp add: adopts_def)
    then show ?thesis by (rule agree_len(1))
  qed
  with one show ?thesis by (simp add: message_ok_def AppendRequest)
next
  case (AppendResponse rsp)
  note sf = safe_inv_dest [OF assms(1)]
  have "aresp_match_index rsp < length (node_log (nodes C i))"
    if "aresp_term rsp = current_term (nodes C i)" "is_leader (role (nodes C i))"
    using mail_inv_dest(2) [OF assms(2,4), of rsp i] log_inv_dest(8,10) [OF sf(4) assms(3)] that assms(5) AppendResponse
    by (auto simp: wf_log_def)
  then show ?thesis by (simp add: message_ok_def AppendResponse)
qed (simp_all add: message_ok_def)

section \<open>Supervised runs\<close>

text \<open>Whoever starts the nodes gives them a valid range of election timeouts, and a state machine that satisfies \<open>S\<close>.\<close>

definition well_started :: "('s \<Rightarrow> bool) \<Rightarrow> ('c, 'o, 's, 'st) raft_node \<Rightarrow> bool" where
  "well_started S s \<longleftrightarrow> election_timeout_min_ms (config s) < election_timeout_max_ms (config s)
     \<and> (last_applied s = 0 \<longrightarrow> S (state_machine s))"

definition supervised ::
    "('c, 'o, 's, 'st, 'b) raft_env \<Rightarrow> node_id list \<Rightarrow> ('s \<Rightarrow> bool) \<Rightarrow> ('c, 'o, 's, 'st) cluster
     \<Rightarrow> ('c, 'o, 's, 'st) cluster \<Rightarrow> bool" where
  "supervised E ms S C D \<longleftrightarrow> cluster_step E ms C D \<and> (\<forall>i \<in> set ms. well_started S (nodes D i))"

definition supervised_init ::
    "('c, 'o, 's, 'st, 'b) raft_env \<Rightarrow> node_id list \<Rightarrow> ('s \<Rightarrow> bool) \<Rightarrow> ('c, 'o, 's, 'st) cluster \<Rightarrow> bool" where
  "supervised_init E ms S C \<longleftrightarrow> cluster_init E ms C \<and> (\<forall>i \<in> set ms. well_started S (nodes C i))"

definition live_inv ::
    "('c, 'o, 's, 'st, 'b) raft_env \<Rightarrow> node_id list \<Rightarrow> ('c, 'o, 's, 'st) cluster \<Rightarrow> (node_id, u64) election
     \<Rightarrow> 'c history \<Rightarrow> bool" where
  "live_inv E ms C A H \<longleftrightarrow> safe_inv E ms C A H \<and> mail_inv (set ms) C A H \<and> (\<forall>i \<in> set ms. node_inv (nodes C i))"

lemma live_inv_dest:
  assumes "live_inv E ms C A H"
  shows "safe_inv E ms C A H" "mail_inv (set ms) C A H" "i \<in> set ms \<Longrightarrow> node_inv (nodes C i)"
  using assms by (simp_all add: live_inv_def)

lemma timeout_not_last:
  assumes "on_event E ev s = Inr t"
  shows "ev = ElectionTimeout \<Longrightarrow> current_term s \<noteq> - 1"
  using assms by (auto simp: on_event_def become_candidate_def)

lemma received_ok:
  assumes "live_inv E ms C A H" "i \<in> set ms" "x \<in># net C f i"
  shows "f \<in> set ms" "message_ok x (nodes C i)"
proof -
  note sf = live_inv_dest [OF assms(1)]
  have "implements (set ms) C A" by (rule safe_inv_dest(2) [OF sf(1)])
  with assms(3) show f: "f \<in> set ms" by (force simp: implements_def)
  show "message_ok x (nodes C i)"
    by (rule delivered_ok [OF sf(1,2) assms(2) f]) (use assms(3) in \<open>simp add: msgs_def\<close>)
qed

lemma new_node_given:
  assumes "new_node E i ms sm st cfg = Inr t"
  shows "config t = cfg" "state_machine t = sm" "last_applied t = 0"
  using assms by (auto simp: new_node_def restore_state_def init_transport_workers_def Let_def split: sum.splits option.splits)

lemma node_inv_alive:
  assumes "alive_step E ms C D" "live_inv E ms C A H" "safe_inv E ms D B K"
    and "\<And>i. i \<in> set ms \<Longrightarrow> election_timeout_min_ms (config (nodes D i)) < election_timeout_max_ms (config (nodes D i))"
    and "j \<in> set ms"
  shows "node_inv (nodes D j)"
proof -
  note old = live_inv_dest(3) [OF assms(2)]
  have event: "node_inv t" if "on_event F ev (nodes C i) = Inr t" "i \<in> set ms" "event_enabled ev (nodes C i)" "event_ok ev (nodes C i)"
    for F :: "('a, 'b, 'c, 'd, 'e) raft_env" and ev i t
    using on_event_no_panic [OF old [OF that(2)] that(3,4), of F] that(1) by simp
  from assms(1) show ?thesis
  proof cases
    case (local i ev n r t)
    have "event_ok ev (nodes C i)"
      using local(3) timeout_not_last [OF local(5)] by (cases ev) (auto simp: event_ok_def event_message_def)
    with event [OF local(5,2,4)] old assms(5) show ?thesis by (simp add: local(1))
  next
    case (transmit i k m t)
    have "node_inv t"
      using old [OF transmit(2)] transmit(3) by (auto simp: worker_take_def split: option.splits list.splits)
    with old assms(5) show ?thesis by (simp add: transmit(1))
  next
    case (deliver k m i n r t)
    have "event_ok (received i m) (nodes C k)" "event_enabled (received i m) (nodes C k)"
      using received_ok(2) [OF assms(2) deliver(2,3)] by (simp_all add: event_ok_def event_enabled_def)
    with event [OF deliver(4,2)] old assms(5) show ?thesis by (simp add: deliver(1))
  next
    case (drop_msg m i k)
    with old assms(5) show ?thesis by simp
  next
    case (restart i n r sm cfg t)
    have "node_log (nodes D i) \<noteq> []"
      using log_inv_dest(8) [OF safe_inv_dest(4) [OF assms(3)] restart(2)] by (simp add: wf_log_def)
    then have "node_inv t"
      using node_inv_new [OF restart(3)] assms(4) [OF restart(2)] new_node_given(1) [OF restart(3)] by (simp add: restart(1))
    with old assms(5) show ?thesis by (simp add: restart(1))
  qed
qed

lemma live_inv_alive:
  assumes "cluster_env E ms" "alive_step E ms C D" "live_inv E ms C A H"
    and "\<And>i. i \<in> set ms \<Longrightarrow> election_timeout_min_ms (config (nodes D i)) < election_timeout_max_ms (config (nodes D i))"
  shows "\<exists>B K. live_inv E ms D B K \<and> later H K"
proof -
  note sf = live_inv_dest [OF assms(3)]
  note sd = safe_inv_dest [OF sf(1)]
  obtain B K where new: "safe_inv E ms D B K" "mail_inv (set ms) D B K" "later H K"
    using assms(1,2) sf(1)
  proof (cases rule: safe_inv_moves)
    case (move A' i m t)
    from that [OF move(2) mail_inv_moves [OF move(1) sd(4) sf(2)] moves_later [OF move(1) sd(4)]] show thesis .
  next
    case (still A')
    from that [OF still(1) mail_inv_still [OF still(4,2) sf(2)] later_refl] show thesis .
  qed
  have "node_inv (nodes D i)" if "i \<in> set ms" for i
    by (rule node_inv_alive [OF assms(2,3) new(1) assms(4) that])
  with new show ?thesis unfolding live_inv_def by blast
qed

lemma live_inv_dying [simp]: "live_inv (dying f E) ms C A H = live_inv E ms C A H"
  by (simp add: live_inv_def)

lemma live_inv_step:
  assumes "cluster_env E ms" "supervised E ms S C D" "live_inv E ms C A H"
  shows "\<exists>B K. live_inv E ms D B K \<and> later H K"
proof -
  have st: "cluster_step E ms C D" using assms(2) by (simp add: supervised_def)
  have cf: "election_timeout_min_ms (config (nodes D i)) < election_timeout_max_ms (config (nodes D i))" if "i \<in> set ms" for i
    using assms(2) that by (simp add: supervised_def well_started_def)
  from st show ?thesis
  proof (cases rule: cluster_step_split)
    case alive
    from live_inv_alive [OF assms(1) this assms(3) cf] show ?thesis .
  next
    case (crash f i B)
    have env: "cluster_env (dying f E) ms" "live_inv (dying f E) ms C A H" using assms(1,3) by simp_all
    obtain n r ev t where t: "on_event (at_time n r (dying f E)) ev (nodes C i) = Inr t" "nodes B = (nodes C)(i := t)" using crash(4) by blast
    have "config (nodes B j) = config (nodes C j)" for j
      using on_event_applies [OF t(1)] by (simp add: t(2) applies_def)
    then have "election_timeout_min_ms (config (nodes B j)) < election_timeout_max_ms (config (nodes B j))" if "j \<in> set ms" for j
      using live_inv_dest(3) [OF assms(3) that] by (simp add: node_inv_def)
    from live_inv_alive [OF env(1) crash(2) env(2) this]
    obtain A1 H1 where A1: "live_inv (dying f E) ms B A1 H1" "later H H1" by blast
    obtain A2 H2 where "live_inv (dying f E) ms D A2 H2" "later H1 H2"
      using live_inv_alive [OF env(1) crash(3) A1(1) cf] by blast
    with later_trans [OF A1(2)] show ?thesis unfolding live_inv_dying by blast
  qed
qed

lemma live_inv_init:
  assumes "supervised_init E ms S C"
  shows "\<exists>A. live_inv E ms C A initial_history"
proof -
  have init: "cluster_init E ms C" using assms by (simp add: supervised_init_def)
  note n = cluster_init_node [OF init]
  obtain A where sf: "safe_inv E ms C A initial_history" using safe_inv_init [OF init] by blast
  have "mail_inv (set ms) C A initial_history" using n(5) by (simp add: mail_inv_def)
  moreover have "node_inv (nodes C i)" if i: "i \<in> set ms" for i
  proof -
    obtain n r sm st cfg where new: "new_node (at_time n r E) i ms sm st cfg = Inr (nodes C i)"
      using init i by (auto simp: cluster_init_def)
    with node_inv_new [OF new] new_node_given(1) [OF new] assms i n(2) [OF i] show ?thesis
      by (auto simp: supervised_init_def well_started_def)
  qed
  ultimately show ?thesis using sf unfolding live_inv_def by blast
qed

lemma live_inv_run:
  assumes "cluster_env E ms" "(supervised E ms S)\<^sup>*\<^sup>* C D" "live_inv E ms C A H"
  shows "\<exists>B K. live_inv E ms D B K \<and> later H K"
  using assms(2)
proof induction
  case base
  then show ?case using assms(3) later_refl by blast
next
  case (step D F)
  then show ?case using live_inv_step [OF assms(1)] later_trans by blast
qed

lemma new_node_total:
  assumes "durable E s" "storage s = st"
  shows "\<exists>t. new_node E i ms sm st cfg = Inr t"
  using assms by (auto simp: durable_def new_node_def restore_state_def Let_def split: sum.splits option.splits)

section \<open>What the machines hold\<close>

text \<open>The state machine of a node has been fed the log up to \<open>last_applied\<close>, from a state that it was started with.\<close>

definition fed :: "('c, 'o, 's, 'st, 'b) raft_env \<Rightarrow> ('s \<Rightarrow> bool) \<Rightarrow> ('c, 'o, 's, 'st) raft_node \<Rightarrow> bool" where
  "fed E S s \<longleftrightarrow> (\<exists>sm. S sm \<and> feed E (log_between (node_log s) 0 (last_applied s)) sm = Inr (state_machine s))"

lemma feed_at_time [simp]: "feed (at_time n r E) es sm = feed E es sm"
proof (induction es arbitrary: sm)
  case (Cons e es)
  then show ?case by (cases "entry_command e") (simp_all add: at_time_def)
qed simp

lemma applied_agree:
  assumes "live_inv E ms C A H" "live_inv E ms D B K" "later H K" "i \<in> set ms" "j \<in> set ms"
    and "k \<le> last_applied (nodes C i)" "k \<le> last_applied (nodes D j)"
  shows "take (Suc k) (node_log (nodes C i)) = take (Suc k) (node_log (nodes D j))"
proof -
  note sf = safe_inv_dest [OF live_inv_dest(1) [OF assms(2)]]
  have k: "k \<le> commit_index (nodes C i)" "k \<le> commit_index (nodes D j)"
    using live_inv_dest(3) [OF assms(1,4)] live_inv_dest(3) [OF assms(2,5)] assms(6,7) by (simp_all add: node_inv_def)
  have "agree (node_log (nodes C i)) (node_log (nodes D j)) k"
    by (rule settled_agree [OF finite_set sf(4,5) settled_node [OF live_inv_dest(1) [OF assms(1)] assms(3,4)] k(1)
          settled_node [OF live_inv_dest(1) [OF assms(2)] later_refl assms(5)] k(2)])
  then show ?thesis by (simp add: agree_def)
qed

lemma fed_applies:
  assumes "fed E S s" "applies E s t" "take (Suc (last_applied s)) (node_log s) = take (Suc (last_applied s)) (node_log t)"
  shows "fed E S t"
proof -
  obtain sm where sm: "S sm" "feed E (log_between (node_log s) 0 (last_applied s)) sm = Inr (state_machine s)"
    using assms(1) by (auto simp: fed_def)
  have le: "last_applied s \<le> last_applied t"
    and t: "feed E (log_between (node_log t) (last_applied s) (last_applied t)) (state_machine s) = Inr (state_machine t)"
    using assms(2) by (auto simp: applies_def)
  have "feed E (log_between (node_log t) 0 (last_applied t)) sm = Inr (state_machine t)"
    using sm(2) t
    unfolding log_between_agree [OF assms(3), of 0] log_between_split [OF le0 le, of "node_log t"] feed_append by simp
  with sm(1) show ?thesis unfolding fed_def by blast
qed

lemma fed_new:
  assumes "well_started S s" "last_applied s = 0"
  shows "fed E S s"
  using assms by (auto simp: well_started_def fed_def)

lemma fed_step:
  assumes "supervised E ms S C D" "live_inv E ms C A H" "live_inv E ms D B K" "later H K"
    and "\<And>i. i \<in> set ms \<Longrightarrow> fed E S (nodes C i)" "j \<in> set ms"
  shows "fed E S (nodes D j)"
proof -
  have event: "fed E S t" if "on_event (at_time n r E) ev (nodes C i) = Inr t" "i \<in> set ms" "nodes D i = t" for n r ev i t
  proof -
    have ap: "applies E (nodes C i) t" using on_event_applies [OF that(1)] by (simp add: applies_def)
    have "last_applied (nodes C i) \<le> last_applied (nodes D i)" using ap that(3) by (simp add: applies_def)
    from fed_applies [OF assms(5) [OF that(2)] ap] applied_agree [OF assms(2-4) that(2,2) order_refl this] that(3)
    show ?thesis by simp
  qed
  have "cluster_step E ms C D" and started: "well_started S (nodes D j)" using assms(1,6) by (simp_all add: supervised_def)
  from this(1) show ?thesis
  proof (cases rule: cluster_step_split)
    case (crash f i X)
    then show ?thesis
      using fed_new [OF started] new_node_given(3) assms(5,6) by (cases "j = i") force+
  next
    case alive
    then show ?thesis
    proof cases
      case (local i ev n r t)
      with event [OF local(5,2)] assms(5,6) show ?thesis by simp
    next
      case (transmit i k m t)
      have "fed E S t"
        using assms(5) [OF transmit(2)] transmit(3) by (auto simp: worker_take_def fed_def split: option.splits list.splits)
      with transmit(1) assms(5,6) show ?thesis by simp
    next
      case (deliver k m i n r t)
      with event [OF deliver(4,2)] assms(5,6) show ?thesis by simp
    next
      case (drop_msg m i k)
      with assms(5,6) show ?thesis by simp
    next
      case (restart i n r sm cfg t)
      have "fed E S t" if "j = i"
        using fed_new [OF started] new_node_given(3) [OF restart(3)] that by (simp add: restart(1))
      with restart(1) assms(5,6) show ?thesis by simp
    qed
  qed
qed

lemma fed_init:
  assumes "supervised_init E ms S C" "i \<in> set ms"
  shows "fed E S (nodes C i)"
proof -
  obtain n r sm st cfg where "new_node (at_time n r E) i ms sm st cfg = Inr (nodes C i)"
    using assms by (auto simp: supervised_init_def cluster_init_def)
  from new_node_given [OF this] assms show ?thesis by (auto simp: supervised_init_def well_started_def fed_def)
qed

lemma fed_run:
  assumes "cluster_env E ms" "(supervised E ms S)\<^sup>*\<^sup>* C D" "live_inv E ms C A H" "\<And>i. i \<in> set ms \<Longrightarrow> fed E S (nodes C i)"
  shows "\<exists>B K. live_inv E ms D B K \<and> later H K \<and> (\<forall>i \<in> set ms. fed E S (nodes D i))"
  using assms(2)
proof induction
  case base
  then show ?case using assms(3,4) later_refl by blast
next
  case (step D F)
  then obtain B K where D: "live_inv E ms D B K" "later H K" "\<And>i. i \<in> set ms \<Longrightarrow> fed E S (nodes D i)" by blast
  obtain B' K' where F: "live_inv E ms F B' K'" "later K K'" using live_inv_step [OF assms(1) step(2) D(1)] by blast
  have "\<forall>i \<in> set ms. fed E S (nodes F i)" using fed_step [OF step(2) D(1) F D(3)] by blast
  with F later_trans [OF D(2) F(2)] show ?case by blast
qed

lemma fed_two:
  assumes "cluster_env E ms" "supervised_init E ms S C0" "(supervised E ms S)\<^sup>*\<^sup>* C0 C" "(supervised E ms S)\<^sup>*\<^sup>* C D"
  obtains A H B K where "live_inv E ms C A H" "live_inv E ms D B K" "later H K"
    "\<And>i. i \<in> set ms \<Longrightarrow> fed E S (nodes C i)" "\<And>i. i \<in> set ms \<Longrightarrow> fed E S (nodes D i)"
proof -
  obtain A0 where "live_inv E ms C0 A0 initial_history" using live_inv_init [OF assms(2)] by blast
  from fed_run [OF assms(1,3) this fed_init [OF assms(2)]]
  obtain A H where C: "live_inv E ms C A H" "\<forall>i \<in> set ms. fed E S (nodes C i)" by blast
  from fed_run [OF assms(1,4) C(1)] C(2)
  obtain B K where "live_inv E ms D B K" "later H K" "\<forall>i \<in> set ms. fed E S (nodes D i)" by blast
  with C that show thesis by blast
qed

section \<open>A supervised run\<close>

lemma applies_started: "applies E s t \<Longrightarrow> well_started S s \<Longrightarrow> well_started S t"
  by (auto simp: applies_def well_started_def)

lemma script_supervised:
  assumes "script E ms N as = Some N'" "\<forall>i \<in> set ms. well_started S (N i)"
  shows "(supervised E ms S)\<^sup>*\<^sup>* (calm N) (calm N')"
proof -
  have "(supervised E ms S)\<^sup>*\<^sup>* (calm N) C \<and> (\<forall>i \<in> set ms. well_started S (nodes C i))"
    if "(applying_step E ms)\<^sup>*\<^sup>* (calm N) C" for C
    using that
  proof induction
    case base
    then show ?case using assms(2) by (simp add: calm_def)
  next
    case (step C D)
    then have "\<forall>i \<in> set ms. well_started S (nodes D i)"
      using applies_started [of E "nodes C i" "nodes D i" S for i] by (simp add: applying_step_def)
    with step show ?case by (auto simp: supervised_def applying_step_def intro: rtranclp.rtrancl_into_rtrancl)
  qed
  with script_applies [OF assms(1)] show ?thesis by blast
qed

text \<open>After the run of \<open>commit_script\<close> a client adds 4 to the counter, which both nodes apply.\<close>

definition command_script :: "test_command action list" where
  "command_script = commit_script @ [Own 1 (CommandReceived (Apply (Inc 4) 0)), Ship 1 2, Ship 2 1, Ship 2 1, Own 1 HeartbeatTick, Ship 1 2,
     Own 3 ElectionTimeout]"

lemma test_command_run:
  "\<exists>C0 C. supervised_init test_env [1, 2, 3] (\<lambda>n. n = 0) C0 \<and> (supervised test_env [1, 2, 3] (\<lambda>n. n = 0))\<^sup>*\<^sup>* C0 C
    \<and> last_applied (nodes C 1) = 2 \<and> last_applied (nodes C 2) = 2 \<and> last_applied (nodes C 3) = 0
    \<and> state_machine (nodes C 2) = 4 \<and> is_candidate (role (nodes C 3))"
proof -
  have "ok_and (\<lambda>n1. ok_and (\<lambda>n2. ok_and (\<lambda>n3.
      well_started (\<lambda>n. n = 0) n1 \<and> well_started (\<lambda>n. n = 0) n2 \<and> well_started (\<lambda>n. n = 0) n3
      \<and> (case script test_env [1, 2, 3] ((\<lambda>_. n3)(1 := n1, 2 := n2)) command_script of
           None \<Rightarrow> False
         | Some N \<Rightarrow> last_applied (N 1) = 2 \<and> last_applied (N 2) = 2 \<and> last_applied (N 3) = 0 \<and> state_machine (N 2) = 4
             \<and> is_candidate (role (N 3))))
      (test_node 3 [1, 2, 3])) (test_node 2 [1, 2, 3])) (test_node 1 [1, 2, 3])"
    by code_simp
  then obtain n1 n2 n3 N where
      new: "test_node 1 [1, 2, 3] = Inr n1" "test_node 2 [1, 2, 3] = Inr n2" "test_node 3 [1, 2, 3] = Inr n3"
    and st: "well_started (\<lambda>n. n = 0) n1" "well_started (\<lambda>n. n = 0) n2" "well_started (\<lambda>n. n = 0) n3"
    and run: "script test_env [1, 2, 3] ((\<lambda>_. n3)(1 := n1, 2 := n2)) command_script = Some N"
    and N: "last_applied (N 1) = 2" "last_applied (N 2) = 2" "last_applied (N 3) = 0" "state_machine (N 2) = 4"
      "is_candidate (role (N 3))"
    by (auto simp: ok_and_iff split: option.splits)
  let ?N = "(\<lambda>_. n3)(1 := n1, 2 := n2) :: node_id \<Rightarrow> _"
  have all: "\<forall>i \<in> set [1, 2, 3]. well_started (\<lambda>n. n = 0) (?N i)" using st by simp
  have "supervised_init test_env [1, 2, 3] (\<lambda>n. n = 0) (calm ?N)"
    using test_cluster_init [OF new] all by (simp add: supervised_init_def calm_def)
  moreover have "(supervised test_env [1, 2, 3] (\<lambda>n. n = 0))\<^sup>*\<^sup>* (calm ?N) (calm N)" by (rule script_supervised [OF run all])
  moreover have "last_applied (nodes (calm N) 1) = 2" "last_applied (nodes (calm N) 2) = 2" "last_applied (nodes (calm N) 3) = 0"
      "state_machine (nodes (calm N) 2) = 4" "is_candidate (role (nodes (calm N) 3))"
    using N by (simp_all add: calm_def)
  ultimately show ?thesis by blast
qed

section \<open>The properties\<close>

text \<open>An event is handled to the end, or the user's state machine panics on a command of the log or of the event.\<close>

definition handles :: "('c, 'o, 's, 'st, 'b) raft_env \<Rightarrow> 'c raft_event \<Rightarrow> ('c, 'o, 's, 'st) raft_node \<Rightarrow> bool" where
  "handles E ev s \<longleftrightarrow> (\<exists>t. on_event E ev s = Inr t)
     \<or> (\<exists>f. on_event E ev s = Inl f \<and> machine_panic E (event_log ev s) s f)"

lemma survives_handles:
  "survives E (event_log ev s) s (on_event E ev s) \<Longrightarrow> handles E ev s"
  by (auto simp: survives_def handles_def split: sum.splits)

lemma feed_total:
  assumes "\<And>sm c. \<exists>r. sm_apply E sm c = Inr r"
  shows "\<exists>sm'. feed E es sm = Inr sm'"
proof (induction es arbitrary: sm)
  case (Cons e es)
  show ?case
  proof (cases "entry_command e")
    case (Command c)
    obtain sm' out where "sm_apply E sm c = Inr (sm', out)" using assms [of sm c] by auto
    with Command Cons [of sm'] show ?thesis by simp
  qed (use Cons in simp)
qed simp

lemma handles_total:
  assumes "handles E ev s" "\<And>sm c. \<exists>r. sm_apply E sm c = Inr r"
  shows "\<exists>t. on_event E ev s = Inr t"
proof -
  have "feed E es sm \<noteq> Inl p" for es sm p using feed_total [OF assms(2), of es sm] by auto
  with assms(1) show ?thesis by (auto simp: handles_def machine_panic_def)
qed

text \<open>C6: a member of a cluster panics only when its state machine does. In every state that a run can reach, every timer event
  that is due, every client command and every message that is on its way is handled to the end by every member, unless the
  user's state machine panics on the entries behind \<open>last_applied\<close> of the log that the handler works on: no index is out of range, no \<open>unwrap\<close> fails, and
  no node finds two leaders in one term. Every member can be started again on its storage. The only other
  exception is a timeout in the last of the \<open>2 ^ 64\<close> terms.\<close>

theorem cluster_never_panics:
  assumes "cluster_env E ms" "supervised_init E ms S C0" "(supervised E ms S)\<^sup>*\<^sup>* C0 C" "i \<in> set ms"
  shows "(\<forall>ev. event_message ev = None \<longrightarrow> event_enabled ev (nodes C i) \<longrightarrow>
        (ev = ElectionTimeout \<longrightarrow> current_term (nodes C i) \<noteq> - 1) \<longrightarrow> handles (at_time n r E) ev (nodes C i))
    \<and> (\<forall>f x. x \<in># net C f i \<longrightarrow>
        handles (at_time n r E) (MessageReceived \<lparr>env_from = f, env_message = x\<rparr>) (nodes C i))
    \<and> (\<exists>t. new_node (at_time n r E) i ms sm (storage (nodes C i)) cfg = Inr t)"
proof -
  obtain A H where inv: "live_inv E ms C A H"
    using live_inv_init [OF assms(2)] live_inv_run [OF assms(1,3)] by blast
  note ok = survives_handles [OF on_event_no_panic [OF live_inv_dest(3) [OF inv assms(4)], of _ "at_time n r E"]]
  have "event_ok ev (nodes C i)" if "event_message ev = None" "ev = ElectionTimeout \<longrightarrow> current_term (nodes C i) \<noteq> - 1" for ev
    using that by (cases ev) (simp_all add: event_ok_def event_message_def)
  moreover have "event_ok (received f x) (nodes C i)" "event_enabled (received f x) (nodes C i)" if "x \<in># net C f i" for f x
    using received_ok(2) [OF inv assms(4) that] by (simp_all add: event_ok_def event_enabled_def)
  moreover have "durable E (nodes C i)"
    by (rule cluster_ok_node(3) [OF safe_inv_dest(1) [OF live_inv_dest(1) [OF inv]] assms(4)])
  ultimately show ?thesis
    using ok new_node_total [of "at_time n r E" "nodes C i"] by (intro conjI allI impI) (blast, blast, simp)
qed

theorem cluster_never_panics_witness:
  "\<exists>C0 C t u. supervised_init test_env [1, 2, 3] (\<lambda>n. n = 0) C0 \<and> (supervised test_env [1, 2, 3] (\<lambda>n. n = 0))\<^sup>*\<^sup>* C0 C
    \<and> is_candidate (role (nodes C 3)) \<and> on_event test_env (CommandReceived (IsLeader 7)) (nodes C 3) = Inr t
    \<and> new_node test_env 3 [1, 2, 3] 0 (storage (nodes C 3)) default_config = Inr u"
proof -
  obtain C0 C where run: "supervised_init test_env [1, 2, 3] (\<lambda>n. n = 0) C0" "(supervised test_env [1, 2, 3] (\<lambda>n. n = 0))\<^sup>*\<^sup>* C0 C"
      "is_candidate (role (nodes C 3))"
    using test_command_run by blast
  have three: "3 \<in> set [1, 2, 3 :: node_id]" by simp
  note np = cluster_never_panics [OF cluster_env_test run(1,2) three, of 0 "\<lambda>a b. a" 0 default_config, unfolded at_time_test_env]
  have "handles test_env (CommandReceived (IsLeader 7)) (nodes C 3)"
    using conjunct1 [OF np, rule_format, of "CommandReceived (IsLeader 7)"] by (simp add: event_message_def event_enabled_def)
  then obtain t where "on_event test_env (CommandReceived (IsLeader 7)) (nodes C 3) = Inr t"
    using handles_total [of test_env] by (auto simp: test_env_def)
  moreover obtain u where "new_node test_env 3 [1, 2, 3] 0 (storage (nodes C 3)) default_config = Inr u"
    using conjunct2 [OF conjunct2 [OF np]] by blast
  ultimately show ?thesis using run by blast
qed

text \<open>C8: replicas agree. When all state machines start in the same state, two nodes, at the same time or at
  different times of a run and whatever restarts and panics of state machines lie between, never disagree: the machine of the one
  that has applied more entries is in the state of the other one, fed the entries in between. Nodes that have
  applied equally many are in the same state.\<close>

theorem replicas_agree:
  assumes "cluster_env E ms" "supervised_init E ms (\<lambda>sm. sm = sm0) C0"
    and "(supervised E ms (\<lambda>sm. sm = sm0))\<^sup>*\<^sup>* C0 C" "(supervised E ms (\<lambda>sm. sm = sm0))\<^sup>*\<^sup>* C D" "i \<in> set ms" "j \<in> set ms"
  shows "(let s = nodes C i; t = nodes D j in
      (last_applied s \<le> last_applied t \<longrightarrow>
         feed E (log_between (node_log t) (last_applied s) (last_applied t)) (state_machine s) = Inr (state_machine t))
      \<and> (last_applied t \<le> last_applied s \<longrightarrow>
         feed E (log_between (node_log s) (last_applied t) (last_applied s)) (state_machine t) = Inr (state_machine s)))"
proof -
  obtain A H B K where inv: "live_inv E ms C A H" "live_inv E ms D B K" "later H K"
      and fed: "\<And>i. i \<in> set ms \<Longrightarrow> fed E (\<lambda>sm. sm = sm0) (nodes C i)" "\<And>i. i \<in> set ms \<Longrightarrow> fed E (\<lambda>sm. sm = sm0) (nodes D i)"
    by (rule fed_two [OF assms(1-4)]) blast
  define s t where "s = nodes C i" and "t = nodes D j"
  have st: "feed E (log_between (node_log s) 0 (last_applied s)) sm0 = Inr (state_machine s)"
      "feed E (log_between (node_log t) 0 (last_applied t)) sm0 = Inr (state_machine t)"
    using fed(1) [OF assms(5)] fed(2) [OF assms(6)] by (auto simp: fed_def s_def t_def)
  have same: "log_between (node_log s) 0 k = log_between (node_log t) 0 k" if "k \<le> last_applied s" "k \<le> last_applied t" for k
    using applied_agree [OF inv assms(5,6), of k] that by (intro log_between_agree) (simp add: s_def t_def)
  have rest: "feed E (log_between lg a b) sm = Inr sm'"
    if "a \<le> b" "feed E (log_between lg 0 b) sm0 = Inr sm'" "feed E (log_between lg 0 a) sm0 = Inr sm" for a b lg sm sm'
    using that(2,3) unfolding log_between_split [OF le0 that(1)] feed_append by simp
  have "feed E (log_between (node_log t) (last_applied s) (last_applied t)) (state_machine s) = Inr (state_machine t)"
    if le: "last_applied s \<le> last_applied t"
    using st(1) unfolding same [OF order_refl le] by (rule rest [OF le st(2)])
  moreover have "feed E (log_between (node_log s) (last_applied t) (last_applied s)) (state_machine t) = Inr (state_machine s)"
    if le: "last_applied t \<le> last_applied s"
    using st(2) unfolding same [OF le order_refl, symmetric] by (rule rest [OF le st(1)])
  ultimately show ?thesis unfolding s_def t_def Let_def by blast
qed

theorem replicas_agree_witness:
  "\<exists>C0 C. supervised_init test_env [1, 2, 3] (\<lambda>n. n = 0) C0 \<and> (supervised test_env [1, 2, 3] (\<lambda>n. n = 0))\<^sup>*\<^sup>* C0 C
    \<and> last_applied (nodes C 1) = 2 \<and> last_applied (nodes C 2) = 2 \<and> state_machine (nodes C 1) = 4 \<and> state_machine (nodes C 2) = 4"
proof -
  obtain C0 C where run: "supervised_init test_env [1, 2, 3] (\<lambda>n. n = 0) C0" "(supervised test_env [1, 2, 3] (\<lambda>n. n = 0))\<^sup>*\<^sup>* C0 C"
      "last_applied (nodes C 1) = 2" "last_applied (nodes C 2) = 2" "state_machine (nodes C 2) = 4"
    using test_command_run by blast
  from replicas_agree [OF cluster_env_test run(1,2) rtranclp.rtrancl_refl, of 1 2] run(3-5)
  have "state_machine (nodes C 1) = 4" by simp
  with run show ?thesis by blast
qed

end
