(* ===== verification/Example_Cluster.thy ===== *)
theory Example_Cluster
  imports Example_App Raft_Progress
begin

text \<open>
  The example as a whole: \<open>main\<close> starts three nodes, each with its own database, and then acts as a client. What
  \<open>main\<close> starts is a cluster in the sense of \<open>Raft_Cluster\<close>, so the safety properties of runs hold for it, and together
  with the refinement of the database they give the property of the whole program: replicas give the same answers.
\<close>

section \<open>Starting the nodes\<close>

type_synonym ('c, 'b) kv_node = "(kv_command, bytes option, 'c kv_machine, 'b memory_storage) raft_node"
type_synonym ('c, 'b) kv_env = "(kv_command, bytes option, 'c kv_machine, 'b memory_storage, 'b) raft_env"

record ('c, 'b) example =
  ex_network :: memory_network
  ex_channels :: "kv_command channel_map"
  ex_tasks :: "(node_id, ('c, 'b) kv_node) hash_map"

definition example_fault :: "('e \<Rightarrow> example_error) \<Rightarrow> 'e fault \<Rightarrow> example_error fault" where
  "example_fault conv f = (case f of Fail e \<Rightarrow> Fail (conv e) | Panic p \<Rightarrow> Panic p)"

text \<open>One round of the loop of \<open>main\<close>: open the database, create the node with its channels (their number is the
  handle), register it in the network and spawn its task. \<open>files\<close> gives the outcomes of the system calls on the file of a node.\<close>

definition start_node ::
    "('c, 'b) kv_env \<Rightarrow> kv_crates \<Rightarrow> 'c moka \<Rightarrow> (node_id \<Rightarrow> io_outcome list) \<Rightarrow> node_id list \<Rightarrow> node_id
     \<Rightarrow> ('c, 'b) example \<Rightarrow> example_error fault + ('c, 'b) example" where
  "start_node E X K files node_ids i s =
     (case open_new X K (files i) 4096 128 of
        Inl e \<Rightarrow> Inl (example_fault KvError e)
      | Inr database \<Rightarrow>
          (case new_node E i node_ids database memory_default default_config of
             Inl e \<Rightarrow> Inl (example_fault RaftFailure e)
           | Inr node \<Rightarrow>
               let h = length (ex_tasks s) in
               Inr (s\<lparr>ex_network := add_node i h (ex_network s),
                      ex_channels := (ex_channels s)(h := \<lparr>ch_messages = [], ch_commands = [], ch_open = True\<rparr>),
                      ex_tasks := hm_insert i node (ex_tasks s)\<rparr>)))"

fun start_nodes ::
    "('c, 'b) kv_env \<Rightarrow> kv_crates \<Rightarrow> 'c moka \<Rightarrow> (node_id \<Rightarrow> io_outcome list) \<Rightarrow> node_id list \<Rightarrow> node_id list
     \<Rightarrow> ('c, 'b) example \<Rightarrow> example_error fault + ('c, 'b) example" where
  "start_nodes E X K files node_ids [] s = Inr s"
| "start_nodes E X K files node_ids (i # is) s =
     and_then (start_node E X K files node_ids i s) (start_nodes E X K files node_ids is)"

definition empty_example :: "('c, 'b) example" where
  "empty_example = \<lparr>ex_network = [], ex_channels = \<lambda>_. \<lparr>ch_messages = [], ch_commands = [], ch_open = False\<rparr>, ex_tasks = []\<rparr>"

definition main_node_ids :: "node_id list" where
  "main_node_ids = [1, 2, 3]"

definition main_start ::
    "('c, 'b) kv_env \<Rightarrow> kv_crates \<Rightarrow> 'c moka \<Rightarrow> (node_id \<Rightarrow> io_outcome list) \<Rightarrow> example_error fault + ('c, 'b) example" where
  "main_start E X K files = start_nodes E X K files main_node_ids main_node_ids empty_example"

section \<open>The client part of \<open>main\<close>\<close>

text \<open>\<open>wait_for_leader\<close> over the rounds of status calls that end before the time limit; a round gives the answer of
  every node that is asked.\<close>

type_synonym status_round = "node_id \<Rightarrow> raft_error + raft_status"

fun wait_for_leader :: "memory_network \<Rightarrow> status_round list \<Rightarrow> example_error + node_id" where
  "wait_for_leader nds [] = Inl ElectionTimedOut"
| "wait_for_leader nds (answer # rounds) =
     (case leader_round (map (\<lambda>(i, handle). (i, answer i)) (all_nodes nds)) of
        Some i \<Rightarrow> Inr i
      | None \<Rightarrow> wait_for_leader nds rounds)"

datatype main_call = WaitForLeader | PutCall bytes bytes | ReadCall bytes | KillLeader

definition main_calls :: "main_call list" where
  "main_calls =
     (let one = [111, 110, 101]; two = [116, 119, 111]; three = [116, 104, 114, 101, 101] in
      [WaitForLeader, PutCall one one, ReadCall one, PutCall one two, ReadCall one,
       KillLeader, WaitForLeader, ReadCall one, PutCall one three, ReadCall one])"

text \<open>The lines that \<open>main\<close> prints and how it ends, from the rounds of its waits and the results of its commands
  (\<open>handle_apply\<close> followed by \<open>apply_response\<close>); the end is \<open>None\<close> while it waits for one of them. Looking up a handle or a
  task panics for an unknown node.\<close>

datatype main_line = Elected node_id | Value bytes | Killed node_id

datatype main_answer = Rounds "status_round list" | Applied "raft_error + bytes option"

definition print_line :: "main_line \<Rightarrow> main_line list \<times> 'a \<Rightarrow> main_line list \<times> 'a" where
  "print_line l r = (l # fst r, snd r)"

fun main_client ::
    "node_id list \<Rightarrow> main_call list \<Rightarrow> memory_network \<Rightarrow> node_id \<Rightarrow> main_answer list
     \<Rightarrow> main_line list \<times> (example_error fault + unit) option" where
  "main_client tasks [] nds leader answers = ([], Some (Inr ()))"
| "main_client tasks (WaitForLeader # calls) nds leader (Rounds rounds # answers) =
     (case wait_for_leader nds rounds of
        Inl e \<Rightarrow> ([], Some (Inl (Fail e)))
      | Inr l \<Rightarrow> print_line (Elected l) (main_client tasks calls nds l answers))"
| "main_client tasks (PutCall key val # calls) nds leader (Applied answer # answers) =
     (case network_node leader nds of
        Inl e \<Rightarrow> ([], Some (Inl (example_fault RaftFailure e)))
      | Inr h \<Rightarrow>
          (case put_result answer of
             Inl e \<Rightarrow> ([], Some (Inl (Fail e)))
           | Inr _ \<Rightarrow> main_client tasks calls nds leader answers))"
| "main_client tasks (ReadCall key # calls) nds leader (Applied answer # answers) =
     (case network_node leader nds of
        Inl e \<Rightarrow> ([], Some (Inl (example_fault RaftFailure e)))
      | Inr h \<Rightarrow>
          (case read_result answer of
             Inl e \<Rightarrow> ([], Some (Inl (Fail e)))
           | Inr val \<Rightarrow> print_line (Value val) (main_client tasks calls nds leader answers)))"
| "main_client tasks (KillLeader # calls) nds leader answers =
     (if leader \<in> set tasks
      then print_line (Killed leader) (main_client tasks calls (remove_node leader nds) leader answers)
      else ([], Some (Inl (Panic ''no entry found for key''))))"
| "main_client tasks (call # calls) nds leader answers = ([], None)"

lemma leader_round_member: "leader_round rs = Some i \<Longrightarrow> i \<in> fst ` set rs"
  by (induction rs rule: leader_round.induct) (auto split: sum.splits raft_role.splits)

lemma wait_for_leader_member: "wait_for_leader nds rounds = Inr l \<Longrightarrow> hm_get nds l \<noteq> None"
proof (induction nds rounds rule: wait_for_leader.induct)
  case (2 nds answer rounds)
  then show ?case
    by (auto simp: all_nodes_def hm_get_def map_of_eq_None_iff split: option.splits dest!: leader_round_member) force
qed simp

text \<open>\<open>main\<close> asks a leader only after it has waited for one, and kills only a leader that it has waited for.\<close>

fun orderly :: "bool \<Rightarrow> main_call list \<Rightarrow> bool" where
  "orderly known [] = True"
| "orderly known (WaitForLeader # calls) = orderly True calls"
| "orderly known (KillLeader # calls) = (known \<and> orderly False calls)"
| "orderly known (call # calls) = (known \<and> orderly known calls)"

lemma main_client_no_panic:
  assumes "orderly known calls" "known \<Longrightarrow> hm_get nds leader \<noteq> None" "\<And>i. hm_get nds i \<noteq> None \<Longrightarrow> i \<in> set tasks"
  shows "snd (main_client tasks calls nds leader answers) \<noteq> Some (Inl (Panic p))"
  using assms
proof (induction tasks calls nds leader answers arbitrary: known rule: main_client.induct)
  case (2 tasks calls nds leader rounds answers)
  then show ?case
    using wait_for_leader_member [of nds rounds] by (auto simp: print_line_def split: sum.split)
next
  case (3 tasks key val calls nds leader answer answers)
  then show ?case by (auto simp: network_node_def split: sum.split)
next
  case (4 tasks key calls nds leader answer answers)
  then show ?case by (auto simp: network_node_def print_line_def split: sum.split)
next
  case (5 tasks calls nds leader answers)
  have "snd (main_client tasks calls (remove_node leader nds) leader answers) \<noteq> Some (Inl (Panic p))"
    by (rule 5(1) [of False]) (use 5(2-4) in \<open>auto simp: remove_node_def split: if_splits\<close>)
  then show ?case using 5(2-4) by (auto simp: print_line_def)
qed simp_all

text \<open>When every command gets the answer of the specification, \<open>main\<close> prints the values one, two, two and three, the
  second two from the leader elected after the first one was killed.\<close>

fun main_answers :: "main_call list \<Rightarrow> kv_map \<Rightarrow> status_round list list \<Rightarrow> main_answer list" where
  "main_answers (WaitForLeader # calls) m (rounds # waits) = Rounds rounds # main_answers calls m waits"
| "main_answers (PutCall key val # calls) m waits =
     Applied (Inr (snd (kv_spec (Put key val) m))) # main_answers calls (fst (kv_spec (Put key val) m)) waits"
| "main_answers (ReadCall key # calls) m waits =
     Applied (Inr (snd (kv_spec (Read key) m))) # main_answers calls (fst (kv_spec (Read key) m)) waits"
| "main_answers (KillLeader # calls) m waits = main_answers calls m waits"
| "main_answers calls m waits = []"

lemma main_lines:
  assumes "wait_for_leader nds first = Inr l" "wait_for_leader (remove_node l nds) second = Inr l'" "l \<in> set tasks"
  shows "main_client tasks main_calls nds leader (main_answers main_calls m [first, second]) =
      ([Elected l, Value [111, 110, 101], Value [116, 119, 111], Killed l, Elected l', Value [116, 119, 111],
        Value [116, 104, 114, 101, 101]], Some (Inr ()))" "l' \<noteq> l"
proof -
  have "hm_get nds l \<noteq> None" by (rule wait_for_leader_member [OF assms(1)])
  moreover have "hm_get (remove_node l nds) l' \<noteq> None" by (rule wait_for_leader_member [OF assms(2)])
  ultimately obtain h h' where "network_node l nds = Inr h" "network_node l' (remove_node l nds) = Inr h'"
    by (auto simp: network_node_def)
  then show "main_client tasks main_calls nds leader (main_answers main_calls m [first, second]) =
      ([Elected l, Value [111, 110, 101], Value [116, 119, 111], Killed l, Elected l', Value [116, 119, 111],
        Value [116, 104, 114, 101, 101]], Some (Inr ()))"
    using assms by (simp add: main_calls_def Let_def put_result_def read_result_def print_line_def)
  show "l' \<noteq> l" using wait_for_leader_member [OF assms(2)] by (auto simp: remove_node_def)
qed

lemma start_nodes_network:
  assumes "start_nodes E X K files ids is s = Inr t" "hm_get (ex_network t) i \<noteq> None"
  shows "i \<in> set is \<or> hm_get (ex_network s) i \<noteq> None"
  using assms
proof (induction "is" arbitrary: s)
  case (Cons j js)
  then obtain u where u: "start_node E X K files ids j s = Inr u" "start_nodes E X K files ids js u = Inr t"
    by (auto simp: result_simps)
  have "ex_network u = add_node j (length (ex_tasks s)) (ex_network s)"
    using u(1) by (auto simp: start_node_def Let_def split: sum.splits)
  with Cons.IH [OF u(2) Cons.prems(2)] show ?case by (auto simp: add_node_def split: if_splits)
qed simp

text \<open>Whatever the nodes answer, the lookups of \<open>main\<close> find a handle and a task.\<close>

lemma main_client_never_panics:
  assumes "main_start E X K files = Inr s"
  shows "snd (main_client main_node_ids main_calls (ex_network s) leader answers) \<noteq> Some (Inl (Panic p))"
proof (rule main_client_no_panic [of False])
  show "i \<in> set main_node_ids" if "hm_get (ex_network s) i \<noteq> None" for i
    using start_nodes_network [OF assms [unfolded main_start_def] that] by (simp add: empty_example_def)
qed (simp_all add: main_calls_def Let_def)

section \<open>What \<open>main\<close> starts\<close>

text \<open>The environment of the example: the database as state machine, storage in memory, a serialiser that keeps its promise.\<close>

definition example_env :: "nat \<Rightarrow> kv_crates \<Rightarrow> 'c moka \<Rightarrow> ('c, 'b) kv_env \<Rightarrow> bool" where
  "example_env N X K E \<longleftrightarrow> sm_apply E = kv_sm_apply N X K \<and> save_state E = memory_save_state
     \<and> load_state E = memory_restore_state \<and> postcard_roundtrip E"

definition example_cluster ::
    "('c, 'b) example \<Rightarrow> (kv_command, bytes option, 'c kv_machine, 'b memory_storage) cluster" where
  "example_cluster s = calm (\<lambda>i. the (hm_get (ex_tasks s) i))"

abbreviation kv_fresh :: "('c \<Rightarrow> page_id \<rightharpoonup> bytes) \<Rightarrow> kv_crates \<Rightarrow> 'c kv_machine \<Rightarrow> bool" where
  "kv_fresh cv X machine \<equiv> kv_models cv X 4096 machine Map.empty"

lemma start_node_task:
  assumes "start_node E X K files ids i s = Inr t"
  obtains db node where "open_new X K (files i) 4096 128 = Inr db"
    "new_node E i ids db memory_default default_config = Inr node" "ex_tasks t = hm_insert i node (ex_tasks s)"
  using assms by (auto simp: start_node_def Let_def split: sum.splits)

lemma start_nodes_tasks:
  assumes "start_nodes E X K files ids is s = Inr t"
    and "\<And>j node. hm_get (ex_tasks s) j = Some node \<Longrightarrow> \<exists>db. open_new X K (files j) 4096 128 = Inr db
      \<and> new_node E j ids db memory_default default_config = Inr node"
    and "i \<in> set is \<or> (\<exists>node. hm_get (ex_tasks s) i = Some node)"
  shows "\<exists>db node. hm_get (ex_tasks t) i = Some node \<and> open_new X K (files i) 4096 128 = Inr db
    \<and> new_node E i ids db memory_default default_config = Inr node"
  using assms
proof (induction "is" arbitrary: s)
  case (Cons j js)
  obtain u where u: "start_node E X K files ids j s = Inr u" "start_nodes E X K files ids js u = Inr t"
    using Cons.prems(1) by (auto simp: result_simps)
  obtain db node where j: "open_new X K (files j) 4096 128 = Inr db"
      "new_node E j ids db memory_default default_config = Inr node" "ex_tasks u = hm_insert j node (ex_tasks s)"
    by (rule start_node_task [OF u(1)])
  show ?case
  proof (rule Cons.IH [OF u(2)])
    show "\<exists>db. open_new X K (files k) 4096 128 = Inr db \<and> new_node E k ids db memory_default default_config = Inr n"
      if "hm_get (ex_tasks u) k = Some n" for k n
      using that j Cons.prems(2) by (cases "k = j") auto
    show "i \<in> set js \<or> (\<exists>node. hm_get (ex_tasks u) i = Some node)" using Cons.prems(3) j(3) by auto
  qed
qed auto

text \<open>What \<open>main\<close> starts is a fresh cluster whose databases are empty.\<close>

lemma main_start_cluster:
  assumes "zerocopy_le X" "moka_cache K cv" "example_env N X K E" "main_start E X K files = Inr s"
  shows "cluster_env E main_node_ids" "supervised_init E main_node_ids (kv_fresh cv X) (example_cluster s)"
proof -
  have E: "save_state E = memory_save_state" "load_state E = memory_restore_state" "postcard_roundtrip E"
    using assms(3) by (simp_all add: example_env_def)
  then show "cluster_env E main_node_ids"
    using memory.stable_storage_axioms by (simp add: cluster_env_def main_node_ids_def)
  have node: "\<exists>db node. hm_get (ex_tasks s) i = Some node \<and> open_new X K (files i) 4096 128 = Inr db
      \<and> new_node E i main_node_ids db memory_default default_config = Inr node" if "i \<in> set main_node_ids" for i
    by (rule start_nodes_tasks [OF assms(4) [unfolded main_start_def]]) (use that in \<open>auto simp: empty_example_def\<close>)
  have "cluster_init E main_node_ids (example_cluster s)"
    unfolding cluster_init_def
  proof (intro conjI ballI)
    fix i assume "i \<in> set main_node_ids"
    then obtain db node where n: "hm_get (ex_tasks s) i = Some node"
        "new_node E i main_node_ids db memory_default default_config = Inr node"
      using node by blast
    have "at_time (now_ms E) (random_range E) E = E" by (simp add: at_time_def)
    with n have "new_node (at_time (now_ms E) (random_range E) E) i main_node_ids db memory_default default_config
        = Inr (nodes (example_cluster s) i)" by (simp add: example_cluster_def calm_def)
    moreover have "load_state E memory_default = Inr None" by (simp add: E(2) memory_restore_state_def memory_default_def)
    ultimately show "\<exists>n r sm st cfg. load_state E st = Inr None
        \<and> new_node (at_time n r E) i main_node_ids sm st cfg = Inr (nodes (example_cluster s) i)" by blast
  qed (simp add: example_cluster_def calm_def)
  moreover have "well_started (kv_fresh cv X) (nodes (example_cluster s) i)" if i: "i \<in> set main_node_ids" for i
  proof -
    obtain db node where n: "hm_get (ex_tasks s) i = Some node" "open_new X K (files i) 4096 128 = Inr db"
        "new_node E i main_node_ids db memory_default default_config = Inr node"
      using node [OF i] by blast
    have "kv_fresh cv X db"
      using open_new_sim(1) [OF assms(1,2) n(2)] by (simp add: kv_models_def)
    then show ?thesis
      using n(1) new_node_given [OF n(3)] by (simp add: well_started_def example_cluster_def calm_def default_config_def)
  qed
  ultimately show "supervised_init E main_node_ids (kv_fresh cv X) (example_cluster s)" by (simp add: supervised_init_def)
qed

section \<open>Replicas\<close>

lemma fed_database:
  assumes "zerocopy_le X" "moka_cache K cv" "sm_apply E = kv_sm_apply N X K" "fed E (kv_fresh cv X) s"
  shows "db_sim cv X 4096 (fresh_world (state_machine s))
    (fresh_spec (log_map (log_between (node_log s) 0 (last_applied s)) Map.empty))"
proof -
  obtain db where "kv_fresh cv X db" "feed E (log_between (node_log s) 0 (last_applied s)) db = Inr (state_machine s)"
    using assms(4) by (auto simp: fed_def)
  then show ?thesis using kv_feed_sim [OF assms(1-3)] by (simp add: kv_models_def)
qed

text \<open>C5: the replicas of the example agree. In every run of the cluster that \<open>main\<close> starts, at any two times of it and
  whatever messages are lost, state machines panic and nodes are restarted on an empty database in between, two nodes
  that have applied equally many entries hold the same map, the one that the commands of the log produce, and answer every
  read alike.\<close>

theorem example_replicas_agree:
  assumes "zerocopy_le X" "moka_cache K cv" "example_env N X K E" "main_start E X K files = Inr s"
    and "(supervised E main_node_ids (kv_fresh cv X))\<^sup>*\<^sup>* (example_cluster s) C" "(supervised E main_node_ids (kv_fresh cv X))\<^sup>*\<^sup>* C D"
    and "i \<in> set main_node_ids" "j \<in> set main_node_ids" "last_applied (nodes C i) = last_applied (nodes D j)"
  shows "let m = log_map (log_between (node_log (nodes C i)) 0 (last_applied (nodes C i))) Map.empty;
      db = state_machine (nodes C i); db' = state_machine (nodes D j) in
    db_sim cv X 4096 (fresh_world db) (fresh_spec m) \<and> db_sim cv X 4096 (fresh_world db') (fresh_spec m)
    \<and> (\<forall>F F' key out out' d d'. kv_read F X K key db = Some (Inr out, d) \<longrightarrow> kv_read F' X K key db' = Some (Inr out', d') \<longrightarrow>
         out = m key \<and> out' = m key)"
proof -
  note start = main_start_cluster [OF assms(1-4)]
  have E: "sm_apply E = kv_sm_apply N X K" using assms(3) by (simp add: example_env_def)
  obtain A H B K' where inv: "live_inv E main_node_ids C A H" "live_inv E main_node_ids D B K'" "later H K'"
      and fed: "\<And>i. i \<in> set main_node_ids \<Longrightarrow> fed E (kv_fresh cv X) (nodes C i)" "\<And>i. i \<in> set main_node_ids \<Longrightarrow> fed E (kv_fresh cv X) (nodes D i)"
    by (rule fed_two [OF start assms(5,6)]) blast
  define m where "m = log_map (log_between (node_log (nodes C i)) 0 (last_applied (nodes C i))) Map.empty"
  have "log_between (node_log (nodes D j)) 0 (last_applied (nodes D j)) = log_between (node_log (nodes C i)) 0 (last_applied (nodes C i))"
    unfolding assms(9) by (rule log_between_agree [symmetric], rule applied_agree [OF inv assms(7,8)]) (simp_all add: assms(9))
  then have sim: "db_sim cv X 4096 (fresh_world (state_machine (nodes C i))) (fresh_spec m)"
      "db_sim cv X 4096 (fresh_world (state_machine (nodes D j))) (fresh_spec m)"
    using fed_database [OF assms(1,2) E fed(1) [OF assms(7)]] fed_database [OF assms(1,2) E fed(2) [OF assms(8)]]
    by (simp_all add: m_def)
  then show ?thesis
    using kv_read_sim [OF assms(1,2) sim(1)] kv_read_sim [OF assms(1,2) sim(2)] unfolding Let_def m_def [symmetric] by blast
qed

section \<open>A run of the example\<close>

definition sample_env ::
    "('s \<Rightarrow> kv_command \<Rightarrow> string + 's \<times> bytes option) \<Rightarrow> (kv_command, bytes option, 's, kv_command persistent_state memory_storage,
      kv_command persistent_state) raft_env" where
  "sample_env step = \<lparr>sm_apply = step, to_stdvec = Inr, from_bytes = Inr,
     save_state = memory_save_state, load_state = memory_restore_state, now_ms = 0, random_range = (\<lambda>a b. a)\<rparr>"

text \<open>Node 1 is elected, a client puts a pair, and nodes 1 and 2 apply it.\<close>

definition put_script :: "kv_command action list" where
  "put_script = [Own 1 ElectionTimeout, Ship 1 2, Ship 2 1, Ship 1 2, Ship 2 1, Own 1 HeartbeatTick, Ship 1 2,
     Ship 2 1, Own 1 HeartbeatTick, Ship 1 2, Own 1 (CommandReceived (Apply (Put [7] [9]) 0)), Ship 1 2, Ship 2 1, Ship 2 1,
     Own 1 HeartbeatTick, Ship 1 2]"

definition put_log :: "kv_command log_entry list" where
  "put_log = [\<lparr>entry_term = 1, entry_command = NoOp\<rparr>, \<lparr>entry_term = 1, entry_command = Command (Put [7] [9])\<rparr>]"

definition sample_tasks :: "'n \<Rightarrow> 'n \<Rightarrow> 'n \<Rightarrow> (node_id, 'n) hash_map" where
  "sample_tasks n1 n2 n3 = hm_insert 3 n3 (hm_insert 2 n2 (hm_insert 1 n1 []))"

lemma main_start_run:
  assumes "\<And>i. open_new X K (files i) 4096 128 = Inr db"
    and "new_node E 1 main_node_ids db memory_default default_config = Inr n1"
    and "new_node E 2 main_node_ids db memory_default default_config = Inr n2"
    and "new_node E 3 main_node_ids db memory_default default_config = Inr n3"
  obtains s where "main_start E X K files = Inr s" "ex_tasks s = sample_tasks n1 n2 n3"
proof -
  have "\<exists>s. main_start E X K files = Inr s \<and> ex_tasks s = sample_tasks n1 n2 n3"
    using assms(2-4) unfolding main_start_def sample_tasks_def
    by (simp add: main_node_ids_def empty_example_def start_node_def assms(1) Let_def)
  then show thesis using that by blast
qed

lemma put_script_run:
  assumes "step sma (Put [7] [9]) = Inr (sma', outa)" "step smb (Put [7] [9]) = Inr (smb', outb)"
  shows "ok_and (\<lambda>n1. ok_and (\<lambda>n2. ok_and (\<lambda>n3.
      (case script (sample_env step) [1, 2, 3] (\<lambda>i. the (hm_get (sample_tasks n1 n2 n3) i)) put_script of
           None \<Rightarrow> False
         | Some N \<Rightarrow> last_applied (N 1) = 2 \<and> last_applied (N 2) = 2
           \<and> log_between (node_log (N 1)) 0 2 = put_log
           \<and> log_between (node_log (N 2)) 0 2 = put_log))
      (new_node (sample_env step) 3 [1, 2, 3] smc memory_default default_config))
      (new_node (sample_env step) 2 [1, 2, 3] smb memory_default default_config))
      (new_node (sample_env step) 1 [1, 2, 3] sma memory_default default_config)"
  by (code_simp, simp only: assms, code_simp, simp only: assms, code_simp)

theorem example_replicas_agree_witness:
  "\<exists>s C. main_start kv_test_env le_crates fifo_cache (\<lambda>_. []) = Inr s
    \<and> (supervised kv_test_env main_node_ids (kv_fresh (\<lambda>c. map_of (snd c)) le_crates))\<^sup>*\<^sup>* (example_cluster s) C
    \<and> last_applied (nodes C 1) = 2 \<and> last_applied (nodes C 2) = 2
    \<and> db_sim (\<lambda>c. map_of (snd c)) le_crates 4096 (fresh_world (state_machine (nodes C 1))) (fresh_spec [[7] \<mapsto> [9]])
    \<and> db_sim (\<lambda>c. map_of (snd c)) le_crates 4096 (fresh_world (state_machine (nodes C 2))) (fresh_spec [[7] \<mapsto> [9]])"
proof -
  define S where "S = kv_fresh (\<lambda>c :: nat \<times> (page_id \<times> bytes) list. map_of (snd c)) le_crates"
  obtain db db1 where db: "open_new le_crates fifo_cache [] 4096 128 = Inr db" "kv_put 1 le_crates fifo_cache [7] [9] db = (Inr None, db1)"
    using sample_kv_put by blast
  have E: "sample_env (kv_sm_apply 1 le_crates fifo_cache) = kv_test_env"
    by (simp add: sample_env_def kv_test_env_def)
  have put: "kv_sm_apply 1 le_crates fifo_cache db (Put [7] [9]) = Inr (db1, None)"
    using db(2) by (simp add: kv_sm_apply_def kv_apply_def)
  obtain n1 n2 n3 N where new: "new_node kv_test_env 1 [1, 2, 3] db memory_default default_config = Inr n1"
      "new_node kv_test_env 2 [1, 2, 3] db memory_default default_config = Inr n2"
      "new_node kv_test_env 3 [1, 2, 3] db memory_default default_config = Inr n3"
    and run: "script kv_test_env [1, 2, 3] (\<lambda>i. the (hm_get (sample_tasks n1 n2 n3) i)) put_script = Some N"
    and N: "last_applied (N 1) = 2" "last_applied (N 2) = 2" "log_between (node_log (N 1)) 0 2 = put_log"
      "log_between (node_log (N 2)) 0 2 = put_log"
    using put_script_run [where step = "kv_sm_apply 1 le_crates fifo_cache", OF put put, where smc = db] unfolding E
    by (auto simp: ok_and_iff split: option.splits)
  obtain s where s: "main_start kv_test_env le_crates fifo_cache (\<lambda>_. []) = Inr s" "ex_tasks s = sample_tasks n1 n2 n3"
    by (rule main_start_run [OF db(1) new [folded main_node_ids_def]])
  have env: "example_env 1 le_crates fifo_cache kv_test_env"
    by (simp add: example_env_def kv_test_env_def postcard_roundtrip_def)
  note start = main_start_cluster [OF le.zerocopy_le_axioms fifo.moka_cache_axioms env s(1), folded S_def]
  have C0: "example_cluster s = calm (\<lambda>i. the (hm_get (sample_tasks n1 n2 n3) i))" by (simp add: example_cluster_def s(2))
  have "\<forall>i \<in> set main_node_ids. well_started S (nodes (example_cluster s) i)" using start(2) by (simp add: supervised_init_def)
  then have steps: "(supervised kv_test_env main_node_ids S)\<^sup>*\<^sup>* (example_cluster s) (calm N)"
    unfolding C0 using script_supervised [OF run] by (simp add: main_node_ids_def calm_def)
  have "log_map put_log Map.empty = [[7] \<mapsto> [9]]" by (simp add: put_log_def)
  with example_replicas_agree [OF le.zerocopy_le_axioms fifo.moka_cache_axioms env s(1), folded S_def, OF steps rtranclp.rtrancl_refl, of 1 2]
  have "db_sim (\<lambda>c. map_of (snd c)) le_crates 4096 (fresh_world (state_machine (nodes (calm N) 1))) (fresh_spec [[7] \<mapsto> [9]])"
      "db_sim (\<lambda>c. map_of (snd c)) le_crates 4096 (fresh_world (state_machine (nodes (calm N) 2))) (fresh_spec [[7] \<mapsto> [9]])"
    using N by (simp_all add: calm_def main_node_ids_def Let_def)
  moreover have "last_applied (nodes (calm N) 1) = 2" "last_applied (nodes (calm N) 2) = 2"
    using N by (simp_all add: calm_def)
  ultimately show ?thesis using s(1) steps unfolding S_def by blast
qed

end
