(* ===== verification/Spec2Isabelle.thy ===== *)
theory Spec2Isabelle
  imports Database_Safety Example_Cluster
begin

text \<open>
  Verification of the repository kv-raft: an embedded key-value store (crate \<open>kv\<close>), a Raft
  consensus library (crate \<open>raft-rs\<close>) and an example program that replicates the store (\<open>example\<close>).

  \<^bold>\<open>The program.\<close> The store keeps a B+-tree in the pages of one file. Page 0 is the header with two commit
  slots, of which one is active; a slot names the root page, its checksum, the transaction and the first unused page.
  A write transaction never changes a page of the committed tree: it copies the pages on the path to a leaf
  (\<open>cow_page\<close>), collects them as dirty pages, and at commit writes them, then writes the header with the inactive
  slot replaced and made active. Readers keep the root of the snapshot they started from; the allocator
  hands out a freed page only when no reader is old enough to see it. On opening, the tree of the active slot is
  verified by its checksums, and the inactive slot is used when it is damaged. The Raft library is one task
  per node: a loop that takes timer events, messages and client commands, and handlers that change the node,
  persist term, vote and log, and queue messages for the peers. The example makes the store the state machine of
  three nodes connected by a network in memory.

  \<^bold>\<open>Conventions.\<close> Words are machine words (\<open>u64\<close>, \<open>u128\<close>); \<open>usize\<close> is \<open>nat\<close> with the bounds of \<open>u64\<close> written out where
  an operation may overflow. A fallible function returns \<open>Inr\<close> or \<open>Inl\<close> with a \<open>fault\<close>: \<open>Fail\<close> is an error value of the
  source, \<open>Panic\<close> a panic, an overflow in a debug build or an index out of range. Stateful code has the type
  \<open>('s, 'a) op\<close>, state to result and state, so that the state after an error is part of the model. Hash maps are
  association lists; their iteration order, which Rust leaves open, is the order of the list.

  \<^bold>\<open>Theories.\<close>
  \<^item> \<open>Prelude\<close>: faults and results, byte ranges, binary search as in the standard library, sorted association lists,
    hash maps, and the lemmas on them that the components share.
  \<^item> \<open>Raft_Types\<close> (\<open>error.rs\<close>, \<open>types.rs\<close>, \<open>message.rs\<close>, \<open>role.rs\<close>, \<open>storage.rs\<close>, \<open>config.rs\<close>, data of \<open>raft_handle.rs\<close>),
    \<open>Raft_Node\<close> (\<open>raft.rs\<close>: the node, every handler, the event loop), \<open>Memory_Storage\<close> (the storage contract as a locale
    and the storage of the example). \<open>Raft_Node_Props\<close> and \<open>Raft_Node_Safety\<close>: durability, restart, voting rule,
    log matching loop, commit index, application of entries, absence of panics other than those of the state
    machine, and two ways in which a correct node gives wrong results.
  \<^item> \<open>Election\<close>: an abstract election protocol on terms, votes and vote messages, safe by an invariant on vote
    tokens. \<open>Raft_Election\<close>: each handler simulates it. \<open>Raft_Cluster\<close>: a cluster of nodes over a network that loses and
    reorders messages refines it, hence election safety. A node may crash between two events, or in the middle of one
    when its state machine panics, and start again on what it has stored.
  \<^item> \<open>Raft_Replication\<close>: what the handlers do to log, match indices and commit index, and which messages they queue.
    \<open>Raft_Log\<close>: a history of the leaders' logs; every log is backed by it. \<open>Raft_Commit\<close>: votes carry what majorities
    have held, and match and commit indices are truthful. \<open>Raft_Safety\<close>: log matching, leader completeness and state
    machine safety of every run of the cluster, at any two times of it, and a scripted run that commits an entry.
  \<^item> \<open>Raft_Apply\<close>: every event feeds the state machine the entries between the old and the new \<open>last_applied\<close>, once and in
    order; the locale \<open>modelled_machine\<close> is the contract between a state machine and its specification.
    \<open>Raft_Progress\<close>: the messages of a cluster are well-formed for their receivers, so a member panics only when
    its state machine does; all state machines have been fed pieces of one log, so replicas agree, across restarts on an empty state machine.
  \<^item> \<open>Kv_Base\<close> (\<open>kv/src/error.rs\<close>, constants; the zerocopy codec and the hash as parameters), \<open>Header\<close>
    (\<open>pages/header.rs\<close>), \<open>Slotted_Page\<close> (the common layout of nodes as a locale), \<open>Leaf_Node\<close> and
    \<open>Branch_Node\<close> (\<open>btree/leaf_node.rs\<close>, \<open>btree/branch_node.rs\<close>, \<open>btree/mod.rs\<close>, byte by byte) with their \<open>_Props\<close>:
    every operation on a page against the list of its pairs or separators.
  \<^item> \<open>Page_Store\<close> (\<open>file_handler.rs\<close>, \<open>page_cache.rs\<close>, \<open>page_io.rs\<close>, \<open>page_allocator.rs\<close>, \<open>page_manager.rs\<close>, reader
    counts of \<open>read_transaction.rs\<close>). A file is its contents and a script of the outcomes of the coming
    system calls, each complete, short or failed. \<open>Page_Store_Props\<close>: what a page reads as, that operations keep
    it, that the allocator respects readers.
  \<^item> \<open>Write_Transaction\<close> (\<open>write_transaction.rs\<close>: dirty pages with check-out, copy-on-write), \<open>Tree\<close>
    (\<open>btree/tree.rs\<close>), \<open>Tree_Shape\<close> (well-formed trees over a view of the pages; lookup and verification, in the locale
    of a page reader), \<open>Tree_Insert\<close> (insertion in the locale of a copy-on-write store), \<open>Tx_Pages\<close> and \<open>Tx_Frame\<close> (the
    transaction meets these interfaces; what any operation leaves alone, in the locale of a kept relation).
  \<^item> \<open>Database\<close> (\<open>db.rs\<close>, the public calls of the transactions). \<open>Snapshots\<close>: the state machine \<open>db_step\<close> of public calls,
    the specification \<open>spec_step\<close> on maps and the relation \<open>db_sim\<close>. \<open>Snapshots_Props\<close>: every step is simulated.
    \<open>Recovery\<close>: creating, reopening, what makes a file recoverable. \<open>Database_Props\<close> and \<open>Database_Safety\<close>: the
    properties of the database as a whole.
  \<^item> \<open>Example_App\<close> (\<open>example/src/main.rs\<close>, calls of \<open>raft_handle.rs\<close>): the store as state machine, the network, the
    client calls; what a replica holds is a function of its log. \<open>Example_Cluster\<close>: \<open>main\<close>, which starts the nodes
    (\<open>main_start\<close>) and then acts as a client (\<open>main_client\<close>, over the answers it gets). What it starts is a
    cluster, so the properties of the library hold for it, and with the refinement of the store its replicas answer alike.

  \<^bold>\<open>What is shown.\<close> For the consensus library: at most one leader per term in every run of a cluster, by
  refinement; committed entries agree on all nodes and are never lost, through elections, restarts and lost or reordered
  messages; persistence before any answer; no panic in any run of a cluster but those of the user's state machine; replicas that have applied as much are equal; the
  rules for votes, log entries and commit index. For the store: each page operation against its list; lookup and insertion on trees of any height;
  the database refines maps with snapshots under arbitrary interleavings and system call failures; it recovers after a
  crash and after interrupted commits; reads and commits succeed when the system calls do. For both together: a replica
  holds the map its committed log describes, and the replicas of the example agree. Some properties state, each for all
  inputs of its kind, what goes wrong: splits and overwritten values that panic, a torn header that reverts a commit, errors
  on which recovery does not fall back, a client answered with another's result, a vote counted as often as it arrives.

  \<^bold>\<open>Bounds and fuel.\<close> \<open>verify_pages\<close> and \<open>insert_recursive\<close> recurse on the tree; their first argument is the number of
  stack frames, and zero frames is a stack overflow, a panic. The loop of \<open>get\<close> has fuel and is \<open>None\<close> without.
  Both are enough when they exceed the height of the tree, which the theorems provide as \<open>\<exists>F. \<forall>frames > F\<close>. The
  other loops are total functions. \<open>kv_sm_apply\<close> passes its fuel on; a lookup without enough of it counts as a panic there.

  \<^bold>\<open>Panics of the state machine.\<close> \<open>sm_apply\<close> returns \<open>Inl\<close> with the message when \<open>apply\<close> panics, as \<open>KvStateMachine\<close> does
  on every error of the database. The panic passes through \<open>apply_committed\<close> and the handler and ends the task of the node:
  in the cluster it is a crash, with the storage as the handler left it and its messages lost. So a property of the state that
  a handler returns is about nodes whose state machine has survived.

  \<^bold>\<open>Parameters.\<close> The codec (zerocopy), the hash (xxh3) and the page cache (moka) are records of functions with their
  documented laws as the locales \<open>zerocopy_le\<close> and \<open>moka_cache\<close>, interpreted by a little-endian codec and a
  bounded first-in-first-out cache; the cache may evict at any time. No theorem assumes the hash to be
  free of collisions. Serialiser, storage, clock and random source of a Raft node are fields of \<open>raft_env\<close>.

  \<^bold>\<open>Not modelled.\<close> Locks and threads: each public call is one step, and the steps interleave freely; \<open>begin_read\<close>
  takes the snapshot and registers the reader in one step, which the source does not guarantee. Writes reach the
  file in the order they are issued; that the operating system may reorder them before \<open>sync_data\<close> is covered only by
  the property of the fallback to the inactive slot. \<open>read_at\<close> and \<open>write_at\<close> are the bodies for Windows, since those
  for Unix do not compile. Asynchronous waiting, the scheduling of the tasks, the clocks behind the time limits of clients and
  transport, logging, the temporary directory and the format of the output of \<open>main\<close>, and the test modules are left out.
\<close>

end
